(* ===== verification/Prelude.thy ===== *)
theory Prelude
  imports Complex_Main
begin

text \<open>
  What every component of the development shares: Python exceptions as values, the
  sum type a fallible Python function returns, sequencing of fallible calls, and the
  lemma collections the component proofs are carried by.

  A Python function that can raise is a HOL function into \<open>py_exn + 'a\<close>: \<open>Inl e\<close> is
  "raises e", \<open>Inr v\<close> is "returns v". Exception messages are not modelled, exception
  classes are, because \<open>except\<close> clauses select on them.
\<close>

named_theorems py_intro \<open>introduction rules for outcomes of fallible code\<close>
named_theorems py_split \<open>case splits for outcomes of fallible code\<close>

section \<open>Exceptions\<close>

datatype py_exn =
    ValueError
  | JSONDecodeError
  | UnicodeDecodeError
  | UnicodeEncodeError
  | TypeError
  | OverflowError
  | RecursionError
  | KeyError
  | IndexError
  | AttributeError
  | NameError
  | RuntimeError
  | FileNotFoundError
  | ImportError
  | ConnectionError
  | HTTPError
  | PermissionError
  | OSError
  | StopIteration
  | URLError
  | TimeoutError
  | ExternalError nat

text \<open>The subclass relation the \<open>except\<close> clauses rely on: \<open>json.JSONDecodeError\<close>,
  \<open>UnicodeDecodeError\<close> and \<open>UnicodeEncodeError\<close> are subclasses of \<open>ValueError\<close>.\<close>

definition is_ValueError :: "py_exn \<Rightarrow> bool" where
  "is_ValueError e \<longleftrightarrow> e = ValueError \<or> e = JSONDecodeError \<or> e = UnicodeDecodeError
     \<or> e = UnicodeEncodeError"

type_synonym 'a py = "py_exn + 'a"

section \<open>Sequencing\<close>

definition bindE :: "'e + 'a \<Rightarrow> ('a \<Rightarrow> 'e + 'b) \<Rightarrow> 'e + 'b" where
  "bindE m f = (case m of Inl e \<Rightarrow> Inl e | Inr a \<Rightarrow> f a)"

lemma bindE_Inl [simp]: "bindE (Inl e) f = Inl e"
  by (simp add: bindE_def)

lemma bindE_Inr [simp]: "bindE (Inr a) f = f a"
  by (simp add: bindE_def)

lemma bindE_cong [fundef_cong]:
  "m = m' \<Longrightarrow> (\<And>a. m' = Inr a \<Longrightarrow> f a = f' a) \<Longrightarrow> bindE m f = bindE m' f'"
  by (cases m') (simp_all add: bindE_def)

lemma bindE_eq_Inr: "bindE m f = Inr b \<longleftrightarrow> (\<exists>a. m = Inr a \<and> f a = Inr b)"
  by (cases m) auto

lemma bindE_eq_Inl: "bindE m f = Inl e \<longleftrightarrow> m = Inl e \<or> (\<exists>a. m = Inr a \<and> f a = Inl e)"
  by (cases m) auto

lemma bindE_assoc: "bindE (bindE m f) g = bindE m (\<lambda>a. bindE (f a) g)"
  by (cases m) auto

lemma bindE_split [py_split]:
  "P (bindE m f) \<longleftrightarrow> (\<forall>e. m = Inl e \<longrightarrow> P (Inl e)) \<and> (\<forall>a. m = Inr a \<longrightarrow> P (f a))"
  by (cases m) auto

lemma bindE_InrI [py_intro]: "m = Inr a \<Longrightarrow> f a = Inr b \<Longrightarrow> bindE m f = Inr b"
  by simp

lemma bindE_InrE [elim!]:
  assumes "bindE m f = Inr b"
  obtains a where "m = Inr a" and "f a = Inr b"
  using assms by (cases m) auto

text \<open>A loop whose body may raise: the first exception leaves the loop.\<close>

fun mapE :: "('a \<Rightarrow> 'e + 'b) \<Rightarrow> 'a list \<Rightarrow> 'e + 'b list" where
  "mapE f [] = Inr []"
| "mapE f (x # xs) = bindE (f x) (\<lambda>y. bindE (mapE f xs) (\<lambda>ys. Inr (y # ys)))"

lemma mapE_length: "mapE f xs = Inr ys \<Longrightarrow> length ys = length xs"
  by (induction xs arbitrary: ys) auto

lemma mapE_nth: "mapE f xs = Inr ys \<Longrightarrow> i < length xs \<Longrightarrow> f (xs ! i) = Inr (ys ! i)"
  by (induction xs arbitrary: ys i) (auto simp: nth_Cons split: nat.splits)

lemma mapE_Inr_set: "mapE f xs = Inr ys \<Longrightarrow> y \<in> set ys \<Longrightarrow> \<exists>x \<in> set xs. f x = Inr y"
  by (induction xs arbitrary: ys) auto

lemma mapE_all: "mapE f xs = Inr ys \<Longrightarrow> x \<in> set xs \<Longrightarrow> \<exists>y \<in> set ys. f x = Inr y"
  by (induction xs arbitrary: ys) auto

lemma mapE_total: "\<forall>x \<in> set xs. f x = Inr (g x) \<Longrightarrow> mapE f xs = Inr (map g xs)"
  by (induction xs) auto

lemma mapE_cong [fundef_cong]:
  "xs = ys \<Longrightarrow> (\<And>x. x \<in> set ys \<Longrightarrow> f x = g x) \<Longrightarrow> mapE f xs = mapE g ys"
  by (induction ys arbitrary: xs) auto

lemma mapE_append:
  "mapE f (xs @ ys) = bindE (mapE f xs) (\<lambda>as. bindE (mapE f ys) (\<lambda>bs. Inr (as @ bs)))"
  by (induction xs) (auto simp: bindE_def split: sum.splits)

section \<open>Lists\<close>

text \<open>The last occurrence in a list that is searched from its end, as \<open>str.rfind\<close> and
  "the last record wins" loops do.\<close>

fun last_some :: "('a \<Rightarrow> 'b option) \<Rightarrow> 'a list \<Rightarrow> 'b option" where
  "last_some f [] = None"
| "last_some f (x # xs) = (case last_some f xs of Some y \<Rightarrow> Some y | None \<Rightarrow> f x)"

lemma last_some_None: "last_some f xs = None \<longleftrightarrow> (\<forall>x \<in> set xs. f x = None)"
  by (induction xs) (auto split: option.splits)

lemma last_some_append:
  "last_some f (xs @ ys) = (case last_some f ys of Some y \<Rightarrow> Some y | None \<Rightarrow> last_some f xs)"
  by (induction xs) (auto split: option.splits)

lemma sum_list_map_le:
  fixes f g :: "'a \<Rightarrow> real"
  shows "(\<And>x. x \<in> set xs \<Longrightarrow> f x \<le> g x) \<Longrightarrow> sum_list (map f xs) \<le> sum_list (map g xs)"
  by (rule sum_list_mono)

lemma sum_list_unit_bounds:
  fixes xs :: "real list"
  shows "(\<And>x. x \<in> set xs \<Longrightarrow> 0 \<le> x \<and> x \<le> 1) \<Longrightarrow> 0 \<le> sum_list xs \<and> sum_list xs \<le> real (length xs)"
  by (induction xs) (auto, fastforce+)

text \<open>The mean of unit scores is a unit score: every averaging reward uses this.\<close>

lemma mean_unit_bounds:
  fixes xs :: "real list"
  assumes "\<And>x. x \<in> set xs \<Longrightarrow> 0 \<le> x \<and> x \<le> 1"
  shows "0 \<le> sum_list xs / real (length xs) \<and> sum_list xs / real (length xs) \<le> 1"
  using sum_list_unit_bounds [OF assms] by (cases "xs = []") (simp_all add: divide_le_eq)

section \<open>Unit scores\<close>

text \<open>
  Every reward term of the program is meant to be a number of the unit interval. The
  interface a scorer promises to the code that combines scores, with the facts the
  combining code needs, is stated once.
\<close>

locale unit_scorer =
  fixes score :: "'a \<Rightarrow> py_exn + real"
  assumes score_unit: "score a = Inr x \<Longrightarrow> 0 \<le> x \<and> x \<le> 1"
begin

lemma score_nonneg: "score a = Inr x \<Longrightarrow> 0 \<le> x"
  using score_unit by blast

lemma score_le_one: "score a = Inr x \<Longrightarrow> x \<le> 1"
  using score_unit by blast

lemma scale_unit:
  assumes "score a = Inr x" and "0 \<le> w"
  shows "0 \<le> w * x \<and> w * x \<le> w"
  using score_unit [OF assms(1)] assms(2) by (simp add: mult_left_le)

lemma batch_unit:
  assumes "mapE score as = Inr xs" and "x \<in> set xs"
  shows "0 \<le> x \<and> x \<le> 1"
  using mapE_Inr_set [OF assms] score_unit by blast

end

end
