(* ===== verification/PyText.thy ===== *)
theory PyText
  imports Prelude
begin

text \<open>
  Python's \<open>str\<close>: a list of code points, with the string operations and the character
  classes the program uses. \<open>u ''abc''\<close> is the Python literal \<open>"abc"\<close>; a character
  that is not in Isabelle's 8-bit \<open>char\<close> type is written as its code point.

  The whitespace class is Python's, complete. Letter case and the word class \<open>\w\<close> are
  exact for code points below 256 and for the full-width forms the program names;
  above that, code points are caseless word characters except for the punctuation,
  symbol and emoji blocks listed below (CJK text, the non-Latin text of this
  program's data, is caseless and consists of word characters).
\<close>

type_synonym ustr = "int list"

definition cp :: "char \<Rightarrow> int" where
  "cp c = of_char c"

definition u :: "string \<Rightarrow> ustr" where
  "u s = map of_char s"

section \<open>Character classes\<close>

definition is_space :: "int \<Rightarrow> bool" where
  "is_space c \<longleftrightarrow> (9 \<le> c \<and> c \<le> 13) \<or> (28 \<le> c \<and> c \<le> 32) \<or> c = 133 \<or> c = 160
     \<or> c = 5760 \<or> (8192 \<le> c \<and> c \<le> 8202) \<or> c = 8232 \<or> c = 8233 \<or> c = 8239 \<or> c = 8287
     \<or> c = 12288"

definition is_digit :: "int \<Rightarrow> bool" where
  "is_digit c \<longleftrightarrow> 48 \<le> c \<and> c \<le> 57"

text \<open>\<open>\d\<close>, and the digits \<open>int()\<close> and \<open>float()\<close> read: the decimal digits, ASCII and full-width.\<close>

definition dec_val :: "int \<Rightarrow> int option" where
  "dec_val c =
     (if 48 \<le> c \<and> c \<le> 57 then Some (c - 48)
      else if 65296 \<le> c \<and> c \<le> 65305 then Some (c - 65296) else None)"

definition is_punct_block :: "int \<Rightarrow> bool" where
  "is_punct_block c \<longleftrightarrow> (8192 \<le> c \<and> c \<le> 8303) \<or> (8592 \<le> c \<and> c \<le> 9311)
     \<or> (9472 \<le> c \<and> c \<le> 10101) \<or> (10132 \<le> c \<and> c \<le> 11263)
     \<or> (12288 \<le> c \<and> c \<le> 12292) \<or> (12296 \<le> c \<and> c \<le> 12320) \<or> c = 12336
     \<or> (65280 \<le> c \<and> c \<le> 65295) \<or> (65306 \<le> c \<and> c \<le> 65312)
     \<or> (65339 \<le> c \<and> c \<le> 65344) \<or> (65371 \<le> c \<and> c \<le> 65381)
     \<or> (127744 \<le> c \<and> c \<le> 129791)"

definition is_word :: "int \<Rightarrow> bool" where
  "is_word c \<longleftrightarrow>
     (if c < 128 then (48 \<le> c \<and> c \<le> 57) \<or> (65 \<le> c \<and> c \<le> 90) \<or> c = 95 \<or> (97 \<le> c \<and> c \<le> 122)
      else if c < 256 then c \<in> {170, 178, 179, 181, 185, 186, 188, 189, 190}
             \<or> (192 \<le> c \<and> c \<noteq> 215 \<and> c \<noteq> 247)
      else \<not> is_space c \<and> \<not> is_punct_block c)"

definition lower_cp :: "int \<Rightarrow> int" where
  "lower_cp c =
     (if (65 \<le> c \<and> c \<le> 90) \<or> (192 \<le> c \<and> c \<le> 222 \<and> c \<noteq> 215) \<or> (65313 \<le> c \<and> c \<le> 65338)
      then c + 32 else c)"

definition upper_cp :: "int \<Rightarrow> ustr" where
  "upper_cp c =
     (if (97 \<le> c \<and> c \<le> 122) \<or> (224 \<le> c \<and> c \<le> 254 \<and> c \<noteq> 247) \<or> (65345 \<le> c \<and> c \<le> 65370)
      then [c - 32]
      else if c = 181 then [924] else if c = 223 then [83, 83] else if c = 255 then [376]
      else [c])"

definition casefold_cp :: "int \<Rightarrow> ustr" where
  "casefold_cp c =
     (if c = 223 then [115, 115] else if c = 181 then [956] else [lower_cp c])"

section \<open>String methods\<close>

definition py_lower :: "ustr \<Rightarrow> ustr" where
  "py_lower s = map lower_cp s"

definition py_upper :: "ustr \<Rightarrow> ustr" where
  "py_upper s = concat (map upper_cp s)"

definition py_casefold :: "ustr \<Rightarrow> ustr" where
  "py_casefold s = concat (map casefold_cp s)"

definition lstrip :: "ustr \<Rightarrow> ustr" where
  "lstrip s = dropWhile is_space s"

definition rstrip :: "ustr \<Rightarrow> ustr" where
  "rstrip s = rev (dropWhile is_space (rev s))"

definition py_strip :: "ustr \<Rightarrow> ustr" where
  "py_strip s = rstrip (lstrip s)"

text \<open>\<open>s.split()\<close>: the maximal runs of non-space characters.\<close>

fun split_ws :: "ustr \<Rightarrow> ustr \<Rightarrow> ustr list" where
  "split_ws acc [] = (if acc = [] then [] else [rev acc])"
| "split_ws acc (c # cs) =
     (if is_space c then (if acc = [] then split_ws [] cs else rev acc # split_ws [] cs)
      else split_ws (c # acc) cs)"

definition py_split :: "ustr \<Rightarrow> ustr list" where
  "py_split s = split_ws [] s"

fun py_join :: "ustr \<Rightarrow> ustr list \<Rightarrow> ustr" where
  "py_join sep [] = []"
| "py_join sep [x] = x"
| "py_join sep (x # y # xs) = x @ sep @ py_join sep (y # xs)"

definition starts_with :: "ustr \<Rightarrow> ustr \<Rightarrow> bool" where
  "starts_with p s \<longleftrightarrow> take (length p) s = p"

definition ends_with :: "ustr \<Rightarrow> ustr \<Rightarrow> bool" where
  "ends_with p s \<longleftrightarrow> length p \<le> length s \<and> drop (length s - length p) s = p"

text \<open>\<open>s.find(p)\<close> and \<open>s.rfind(p)\<close>; \<open>None\<close> is the result -1.\<close>

fun py_find :: "ustr \<Rightarrow> ustr \<Rightarrow> nat option" where
  "py_find p [] = (if p = [] then Some 0 else None)"
| "py_find p (c # cs) =
     (if starts_with p (c # cs) then Some 0 else map_option Suc (py_find p cs))"

fun py_rfind :: "ustr \<Rightarrow> ustr \<Rightarrow> nat option" where
  "py_rfind p [] = (if p = [] then Some 0 else None)"
| "py_rfind p (c # cs) =
     (case py_rfind p cs of Some k \<Rightarrow> Some (Suc k)
      | None \<Rightarrow> if starts_with p (c # cs) then Some 0 else None)"

text \<open>\<open>s.split("\n")\<close> style splitting on one character.\<close>

fun split_on :: "int \<Rightarrow> ustr \<Rightarrow> ustr list" where
  "split_on x [] = [[]]"
| "split_on x (c # cs) =
     (if c = x then [] # split_on x cs
      else (case split_on x cs of [] \<Rightarrow> [[c]] | l # ls \<Rightarrow> (c # l) # ls))"

section \<open>Facts about the string methods\<close>

lemma starts_with_append: "starts_with p s \<longleftrightarrow> (\<exists>t. s = p @ t)"
  unfolding starts_with_def by (metis append_eq_conv_conj append_take_drop_id)

lemma starts_with_self [simp]: "starts_with p (p @ t)"
  by (simp add: starts_with_def)

lemma ends_with_append: "ends_with p s \<longleftrightarrow> (\<exists>t. s = t @ p)"
proof
  assume h: "ends_with p s"
  then have "s = take (length s - length p) s @ p"
    unfolding ends_with_def by (metis append_take_drop_id)
  then show "\<exists>t. s = t @ p" ..
qed (auto simp: ends_with_def)

lemma py_rfind_Some: "py_rfind p s = Some k \<Longrightarrow> k \<le> length s \<and> starts_with p (drop k s)"
  by (induction p s arbitrary: k rule: py_rfind.induct)
     (auto simp: starts_with_def split: if_splits option.splits)

lemma py_rfind_last:
  "py_rfind p s = Some k \<Longrightarrow> k < j \<Longrightarrow> j \<le> length s \<Longrightarrow> p \<noteq> [] \<Longrightarrow> \<not> starts_with p (drop j s)"
proof (induction p s arbitrary: k j rule: py_rfind.induct)
  case (1 p)
  then show ?case by (simp split: if_splits)
next
  case (2 p c cs)
  obtain j' where j: "j = Suc j'" using 2(3) by (cases j) auto
  show ?case
  proof (cases "py_rfind p cs")
    case None
    have "\<not> starts_with p (drop i cs)" if "i \<le> length cs" for i
      using None that
    proof (induction cs arbitrary: i)
      case Nil
      then show ?case using 2(5) by (simp add: starts_with_def)
    next
      case (Cons d ds)
      from Cons.prems(1) have n: "py_rfind p ds = None" and h: "\<not> starts_with p (d # ds)"
        by (auto split: option.splits if_splits)
      then show ?case using Cons.IH [OF n] Cons.prems(2) by (cases i) auto
    qed
    then show ?thesis using 2(4) by (auto simp: j)
  next
    case (Some k')
    then show ?thesis using 2 by (auto simp: j)
  qed
qed

lemma py_rfind_None: "py_rfind p s = None \<Longrightarrow> i \<le> length s \<Longrightarrow> p \<noteq> [] \<Longrightarrow> \<not> starts_with p (drop i s)"
proof (induction s arbitrary: i)
  case Nil
  then show ?case by (simp add: starts_with_def)
next
  case (Cons d ds)
  then show ?case by (cases i) (auto split: option.splits if_splits)
qed

lemma lower_cp_idem [simp]: "lower_cp (lower_cp c) = lower_cp c"
  by (auto simp: lower_cp_def)

lemma py_lower_idem [simp]: "py_lower (py_lower s) = py_lower s"
  by (simp add: py_lower_def)

lemma is_space_lower [simp]: "is_space (lower_cp c) = is_space c"
  by (auto simp: is_space_def lower_cp_def)

lemma py_strip_hd: "py_strip s \<noteq> [] \<Longrightarrow> \<not> is_space (hd (py_strip s))"
  unfolding py_strip_def rstrip_def lstrip_def
  by (metis append_is_Nil_conv hd_append2 hd_dropWhile rev.simps(1) rev_rev_ident
      takeWhile_dropWhile_id rev_append)

lemma py_strip_last: "py_strip s \<noteq> [] \<Longrightarrow> \<not> is_space (last (py_strip s))"
  unfolding py_strip_def rstrip_def by (simp add: hd_dropWhile last_rev)

lemma strip_fixed:
  assumes "s \<noteq> [] \<longrightarrow> \<not> is_space (hd s) \<and> \<not> is_space (last s)"
  shows "py_strip s = s"
proof (cases "s = []")
  case False
  then have l: "lstrip s = s"
    using assms by (cases s) (auto simp: lstrip_def)
  have "rstrip s = s"
    using assms False by (cases s rule: rev_cases) (auto simp: rstrip_def)
  with l show ?thesis by (simp add: py_strip_def)
qed (simp add: py_strip_def lstrip_def rstrip_def)

lemma py_strip_idem [simp]: "py_strip (py_strip s) = py_strip s"
  by (rule strip_fixed) (auto simp: py_strip_hd py_strip_last)

lemma split_ws_nonempty: "w \<in> set (split_ws acc s) \<Longrightarrow> w \<noteq> []"
  by (induction acc s rule: split_ws.induct) (auto split: if_splits)

lemma split_ws_no_space:
  "\<forall>c \<in> set acc. \<not> is_space c \<Longrightarrow> w \<in> set (split_ws acc s) \<Longrightarrow> c \<in> set w \<Longrightarrow> \<not> is_space c"
  by (induction acc s rule: split_ws.induct) (auto split: if_splits)

end
