(* ===== verification/PyJson.thy ===== *)
theory PyJson
  imports PyText "HOL-Library.AList"
begin

text \<open>
  Python's floats and the values \<open>json.loads\<close> produces, the \<open>json.loads\<close> parser, and
  the built-in conversions (\<open>float()\<close>, \<open>int()\<close>, \<open>str()\<close>) the program applies to them.

  A float is a real number or one of the three special values. Finite arithmetic is
  exact: rounding to 53 bits is not modelled, overflow to infinity when a literal or an
  integer is converted is. A dict is the list of its items in insertion order with
  distinct keys; lists and tuples are both \<open>JArr\<close>.
\<close>

section \<open>Floats\<close>

datatype pyfloat = Fin real | PInf | NInf | NaN

fun pf_lt :: "pyfloat \<Rightarrow> pyfloat \<Rightarrow> bool" where
  "pf_lt (Fin x) (Fin y) = (x < y)"
| "pf_lt (Fin x) PInf = True"
| "pf_lt NInf (Fin y) = True"
| "pf_lt NInf PInf = True"
| "pf_lt _ _ = False"

text \<open>\<open>min(a, b)\<close> and \<open>max(a, b)\<close> keep the first argument unless the second is strictly
  smaller (larger); a comparison with NaN is false.\<close>

definition pf_min :: "pyfloat \<Rightarrow> pyfloat \<Rightarrow> pyfloat" where
  "pf_min a b = (if pf_lt b a then b else a)"

definition pf_max :: "pyfloat \<Rightarrow> pyfloat \<Rightarrow> pyfloat" where
  "pf_max a b = (if pf_lt a b then b else a)"

fun isfinite :: "pyfloat \<Rightarrow> bool" where
  "isfinite (Fin x) = True"
| "isfinite _ = False"

text \<open>The least magnitude that rounds to infinity in binary64: halfway beyond the largest float.\<close>

definition float_limit :: real where
  "float_limit = 2 ^ 1024 - 2 ^ 970"

definition to_float :: "real \<Rightarrow> pyfloat" where
  "to_float x = (if float_limit \<le> x then PInf else if x \<le> - float_limit then NInf else Fin x)"

text \<open>The equation evaluation uses: the limit is only looked at for huge values.\<close>

lemma to_float_code [code]:
  "to_float x =
     (if \<bar>x\<bar> < 1000000 then Fin x
      else if float_limit \<le> x then PInf else if x \<le> - float_limit then NInf else Fin x)"
  by (auto simp: to_float_def float_limit_def)

lemma to_float_small [simp]: "\<bar>x\<bar> < 1000000 \<Longrightarrow> to_float x = Fin x"
  by (simp add: to_float_code)

lemma isfinite_iff: "isfinite f \<longleftrightarrow> (\<exists>x. f = Fin x)"
  by (cases f) auto

section \<open>Values\<close>

datatype json =
    JNull
  | JBool bool
  | JInt int
  | JFloat pyfloat
  | JStr ustr
  | JArr "json list"
  | JObj "(ustr \<times> json) list"

type_synonym dict = "(ustr \<times> json) list"

text \<open>\<open>d.get(k)\<close>: \<open>None\<close> for a missing key and for a stored null alike.\<close>

definition dict_get :: "dict \<Rightarrow> ustr \<Rightarrow> json" where
  "dict_get d k = (case map_of d k of None \<Rightarrow> JNull | Some v \<Rightarrow> v)"

definition dict_get_or :: "dict \<Rightarrow> ustr \<Rightarrow> json \<Rightarrow> json" where
  "dict_get_or d k dflt = (case map_of d k of None \<Rightarrow> dflt | Some v \<Rightarrow> v)"

definition has_key :: "dict \<Rightarrow> ustr \<Rightarrow> bool" where
  "has_key d k \<longleftrightarrow> map_of d k \<noteq> None"

section \<open>The parser\<close>

definition json_ws :: "int \<Rightarrow> bool" where
  "json_ws c \<longleftrightarrow> c = 32 \<or> c = 9 \<or> c = 10 \<or> c = 13"

definition skip_ws :: "ustr \<Rightarrow> ustr" where
  "skip_ws s = dropWhile json_ws s"

definition hex_val :: "int \<Rightarrow> int option" where
  "hex_val c =
     (if 48 \<le> c \<and> c \<le> 57 then Some (c - 48)
      else if 97 \<le> c \<and> c \<le> 102 then Some (c - 87)
      else if 65 \<le> c \<and> c \<le> 70 then Some (c - 55) else None)"

definition hex4 :: "int \<Rightarrow> int \<Rightarrow> int \<Rightarrow> int \<Rightarrow> int option" where
  "hex4 a b c d =
     (case (hex_val a, hex_val b, hex_val c, hex_val d) of
        (Some w, Some x, Some y, Some z) \<Rightarrow> Some (((w * 16 + x) * 16 + y) * 16 + z)
      | _ \<Rightarrow> None)"

definition json_escape :: "int \<Rightarrow> int option" where
  "json_escape c =
     (if c = 34 then Some 34 else if c = 92 then Some 92 else if c = 47 then Some 47
      else if c = 98 then Some 8 else if c = 102 then Some 12 else if c = 110 then Some 10
      else if c = 114 then Some 13 else if c = 116 then Some 9 else None)"

definition is_high :: "int \<Rightarrow> bool" where
  "is_high c \<longleftrightarrow> 55296 \<le> c \<and> c \<le> 56319"

definition is_low :: "int \<Rightarrow> bool" where
  "is_low c \<longleftrightarrow> 56320 \<le> c \<and> c \<le> 57343"

definition join_surrogates :: "int \<Rightarrow> int \<Rightarrow> int" where
  "join_surrogates h l = 65536 + (h - 55296) * 1024 + (l - 56320)"

text \<open>A low surrogate escape at the front of a string, with its value and what follows it.\<close>

fun low_escape :: "ustr \<Rightarrow> (int \<times> ustr) option" where
  "low_escape (s # t # a # b # c # d # r) =
     (if s = 92 \<and> t = 117
      then (case hex4 a b c d of Some l \<Rightarrow> if is_low l then Some (l, r) else None | None \<Rightarrow> None)
      else None)"
| "low_escape _ = None"

lemma low_escape_length: "low_escape r = Some (l, t) \<Longrightarrow> length t < length r"
  by (cases r rule: low_escape.cases) (auto split: if_splits option.splits)

text \<open>One unit of the inside of a string literal: \<open>Some (None, r)\<close> is the closing quote,
  \<open>Some (Some c, r)\<close> a character, read directly or from an escape; a control character
  is an error (strict mode).\<close>

definition scan_escape :: "ustr \<Rightarrow> (int \<times> ustr) option" where
  "scan_escape r =
     (case r of [] \<Rightarrow> None
      | e # r1 \<Rightarrow>
        if e = 117 then
          (case r1 of w # x # y # z # r2 \<Rightarrow>
             (case hex4 w x y z of None \<Rightarrow> None
              | Some h \<Rightarrow>
                (case (if is_high h then low_escape r2 else None) of
                   Some (l, r3) \<Rightarrow> Some (join_surrogates h l, r3)
                 | None \<Rightarrow> Some (h, r2)))
           | _ \<Rightarrow> None)
        else map_option (\<lambda>d. (d, r1)) (json_escape e))"

definition scan_unit :: "ustr \<Rightarrow> (int option \<times> ustr) option" where
  "scan_unit s =
     (case s of [] \<Rightarrow> None
      | c # r \<Rightarrow>
        if c = 34 then Some (None, r)
        else if c = 92 then map_option (\<lambda>(d, t). (Some d, t)) (scan_escape r)
        else if c < 32 then None
        else Some (Some c, r))"

lemma scan_escape_length: "scan_escape s = Some (d, r) \<Longrightarrow> length r < length s"
  unfolding scan_escape_def
  by (auto split: list.splits if_splits option.splits dest!: low_escape_length)

lemma scan_unit_length: "scan_unit s = Some (c, r) \<Longrightarrow> length r < length s"
  unfolding scan_unit_def
  by (auto split: list.splits if_splits dest!: scan_escape_length)

text \<open>The inside of a string literal, after its opening quote.\<close>

function scan_string :: "ustr \<Rightarrow> (ustr \<times> ustr) option" where
  "scan_string s =
     (case scan_unit s of None \<Rightarrow> None
      | Some (None, r) \<Rightarrow> Some ([], r)
      | Some (Some c, r) \<Rightarrow> map_option (\<lambda>(cs, t). (c # cs, t)) (scan_string r))"
  by pat_completeness auto
termination
  by (relation "measure length") (auto dest!: scan_unit_length)

declare scan_string.simps [simp del]

fun digits_val :: "int \<Rightarrow> ustr \<Rightarrow> int" where
  "digits_val acc [] = acc"
| "digits_val acc (c # cs) = digits_val (acc * 10 + (c - 48)) cs"

text \<open>The three parts of a number literal after its sign: integer digits, fraction digits,
  exponent (sign and digits), and the rest of the text.\<close>

definition scan_int_part :: "ustr \<Rightarrow> (ustr \<times> ustr) option" where
  "scan_int_part s =
     (case s of [] \<Rightarrow> None
      | c # r \<Rightarrow>
        if c = 48 then Some ([c], r)
        else if is_digit c then Some (c # takeWhile is_digit r, dropWhile is_digit r)
        else None)"

definition scan_frac :: "ustr \<Rightarrow> ustr \<times> ustr" where
  "scan_frac s =
     (case s of c # d # r \<Rightarrow>
        if c = 46 \<and> is_digit d then (d # takeWhile is_digit r, dropWhile is_digit r) else ([], s)
      | _ \<Rightarrow> ([], s))"

definition scan_exp :: "ustr \<Rightarrow> (bool \<times> ustr) option \<times> ustr" where
  "scan_exp s =
     (case s of c # r \<Rightarrow>
        if c = 101 \<or> c = 69 then
          (let (neg, r1) = (case r of d # r' \<Rightarrow> if d = 45 then (True, r')
                                              else if d = 43 then (False, r') else (False, r)
                            | [] \<Rightarrow> (False, r))
           in (case r1 of d # r2 \<Rightarrow>
                 if is_digit d then (Some (neg, d # takeWhile is_digit r2), dropWhile is_digit r2)
                 else (None, s)
               | [] \<Rightarrow> (None, s)))
        else (None, s)
      | [] \<Rightarrow> (None, s))"

definition decimal :: "bool \<Rightarrow> ustr \<Rightarrow> ustr \<Rightarrow> (bool \<times> ustr) option \<Rightarrow> real" where
  "decimal neg ip fp ex =
     (let m = of_int (digits_val 0 (ip @ fp)) / 10 ^ length fp;
          x = (case ex of None \<Rightarrow> m
               | Some (eneg, ds) \<Rightarrow>
                 if eneg then m / 10 ^ nat (digits_val 0 ds) else m * 10 ^ nat (digits_val 0 ds))
      in if neg then - x else x)"

text \<open>\<open>int()\<close> refuses more than 4300 digits (\<open>sys.int_info.default_max_str_digits\<close>).\<close>

definition max_int_digits :: int where
  "max_int_digits = 4300"

definition scan_number :: "ustr \<Rightarrow> (json \<times> ustr) py" where
  "scan_number s =
     (let (neg, r) = (case s of c # r \<Rightarrow> if c = 45 then (True, r) else (False, s) | [] \<Rightarrow> (False, s))
      in (case scan_int_part r of None \<Rightarrow> Inl JSONDecodeError
          | Some (ip, r1) \<Rightarrow>
            (let (fp, r2) = scan_frac r1; (ex, r3) = scan_exp r2
             in if fp = [] \<and> ex = None then
                  (if max_int_digits < int (length ip) then Inl ValueError
                   else Inr (JInt (if neg then - digits_val 0 ip else digits_val 0 ip), r3))
                else Inr (JFloat (to_float (decimal neg ip fp ex)), r3))))"

definition lit_null :: ustr where "lit_null = [110, 117, 108, 108]"
definition lit_true :: ustr where "lit_true = [116, 114, 117, 101]"
definition lit_false :: ustr where "lit_false = [102, 97, 108, 115, 101]"
definition lit_NaN :: ustr where "lit_NaN = [78, 97, 78]"
definition lit_Infinity :: ustr where "lit_Infinity = [73, 110, 102, 105, 110, 105, 116, 121]"

text \<open>
  \<open>scan_once\<close> reads one value at the front of the text; \<open>scan_members\<close> reads the members
  of an object from the first key's opening quote, \<open>scan_elems\<close> the elements of an array
  from its first value. The first argument is fuel: two calls consume at least one
  character, so fuel above twice the length never runs out (\<open>scan_fuel\<close> below).
\<close>

fun scan_once :: "nat \<Rightarrow> ustr \<Rightarrow> (json \<times> ustr) py"
  and scan_members :: "nat \<Rightarrow> dict \<Rightarrow> ustr \<Rightarrow> (json \<times> ustr) py"
  and scan_elems :: "nat \<Rightarrow> json list \<Rightarrow> ustr \<Rightarrow> (json \<times> ustr) py" where
  "scan_once 0 s = Inl RecursionError"
| "scan_once (Suc n) s =
     (case s of [] \<Rightarrow> Inl JSONDecodeError
      | c # r \<Rightarrow>
        if c = 34 then
          (case scan_string r of None \<Rightarrow> Inl JSONDecodeError
           | Some (str, r1) \<Rightarrow> Inr (JStr str, r1))
        else if c = 123 then
          (case skip_ws r of [] \<Rightarrow> Inl JSONDecodeError
           | d # r1 \<Rightarrow> if d = 125 then Inr (JObj [], r1) else scan_members n [] (d # r1))
        else if c = 91 then
          (case skip_ws r of [] \<Rightarrow> Inl JSONDecodeError
           | d # r1 \<Rightarrow> if d = 93 then Inr (JArr [], r1) else scan_elems n [] (d # r1))
        else if starts_with lit_null s then Inr (JNull, drop 4 s)
        else if starts_with lit_true s then Inr (JBool True, drop 4 s)
        else if starts_with lit_false s then Inr (JBool False, drop 5 s)
        else if starts_with lit_NaN s then Inr (JFloat NaN, drop 3 s)
        else if starts_with lit_Infinity s then Inr (JFloat PInf, drop 8 s)
        else if c = 45 \<and> starts_with lit_Infinity r then Inr (JFloat NInf, drop 8 r)
        else scan_number s)"
| "scan_members 0 acc s = Inl RecursionError"
| "scan_members (Suc n) acc s =
     (case s of [] \<Rightarrow> Inl JSONDecodeError
      | q # r \<Rightarrow>
        if q \<noteq> 34 then Inl JSONDecodeError
        else (case scan_string r of None \<Rightarrow> Inl JSONDecodeError
         | Some (k, r1) \<Rightarrow>
           (case skip_ws r1 of [] \<Rightarrow> Inl JSONDecodeError
            | c # r2 \<Rightarrow>
              if c \<noteq> 58 then Inl JSONDecodeError
              else bindE (scan_once n (skip_ws r2)) (\<lambda>(v, r3).
                (case skip_ws r3 of [] \<Rightarrow> Inl JSONDecodeError
                 | d # r4 \<Rightarrow>
                   if d = 125 then Inr (JObj (AList.update k v acc), r4)
                   else if d = 44 then scan_members n (AList.update k v acc) (skip_ws r4)
                   else Inl JSONDecodeError)))))"
| "scan_elems 0 acc s = Inl RecursionError"
| "scan_elems (Suc n) acc s =
     bindE (scan_once n s) (\<lambda>(v, r1).
       (case skip_ws r1 of [] \<Rightarrow> Inl JSONDecodeError
        | d # r2 \<Rightarrow>
          if d = 93 then Inr (JArr (acc @ [v]), r2)
          else if d = 44 then scan_elems n (acc @ [v]) (skip_ws r2)
          else Inl JSONDecodeError))"

text \<open>\<open>json.loads(s)\<close>. A byte order mark is refused; text after the value is an error.\<close>

definition json_loads :: "ustr \<Rightarrow> json py" where
  "json_loads s =
     (if starts_with [65279] s then Inl JSONDecodeError
      else bindE (scan_once (2 * length s + 2) (skip_ws s)) (\<lambda>(v, r).
        if skip_ws r = [] then Inr v else Inl JSONDecodeError))"

section \<open>Conversions\<close>

text \<open>\<open>float(s)\<close> of a string: surrounding whitespace, an optional sign, \<open>inf\<close>/\<open>infinity\<close>/\<open>nan\<close>
  in any case, or decimal digits with single underscores between digits.\<close>

fun underscores_ok :: "bool \<Rightarrow> ustr \<Rightarrow> bool" where
  "underscores_ok prev [] = True"
| "underscores_ok prev (c # cs) =
     (if c = 95 then prev \<and> (case cs of d # _ \<Rightarrow> is_digit d | [] \<Rightarrow> False) \<and> underscores_ok False cs
      else underscores_ok (is_digit c) cs)"

definition ascii_digit :: "int \<Rightarrow> int" where
  "ascii_digit c = (case dec_val c of Some d \<Rightarrow> 48 + d | None \<Rightarrow> c)"

definition strip_sign :: "ustr \<Rightarrow> bool \<times> ustr" where
  "strip_sign s = (case s of c # r \<Rightarrow> if c = 45 then (True, r) else if c = 43 then (False, r) else (False, s)
                    | [] \<Rightarrow> (False, s))"

definition decimal_of_str :: "bool \<Rightarrow> ustr \<Rightarrow> pyfloat option" where
  "decimal_of_str neg r =
     (let ip = takeWhile is_digit r; r1 = dropWhile is_digit r;
          (fp, r2) = (case r1 of c # t \<Rightarrow> if c = 46 then (takeWhile is_digit t, dropWhile is_digit t)
                                          else ([], r1)
                      | [] \<Rightarrow> ([], r1));
          (ex, r3) = scan_exp r2
      in if ip = [] \<and> fp = [] \<or> r3 \<noteq> [] then None
         else Some (to_float (decimal neg ip fp ex)))"

definition float_of_str :: "ustr \<Rightarrow> pyfloat option" where
  "float_of_str s =
     (let t = map ascii_digit (py_strip s)
      in if \<not> underscores_ok False t then None
         else (let (neg, r) = strip_sign (filter (\<lambda>c. c \<noteq> 95) t); l = py_lower r
               in if l = [105, 110, 102] \<or> l = [105, 110, 102, 105, 110, 105, 116, 121]
                  then Some (if neg then NInf else PInf)
                  else if l = [110, 97, 110] then Some NaN
                  else decimal_of_str neg r))"

text \<open>\<open>float(v)\<close> of a JSON value. An integer beyond the float range overflows.\<close>

definition float_of_int :: "int \<Rightarrow> pyfloat py" where
  "float_of_int i = (if isfinite (to_float (of_int i)) then Inr (Fin (of_int i)) else Inl OverflowError)"

fun float_of :: "json \<Rightarrow> pyfloat py" where
  "float_of (JInt i) = float_of_int i"
| "float_of (JBool b) = Inr (Fin (if b then 1 else 0))"
| "float_of (JFloat f) = Inr f"
| "float_of (JStr s) = (case float_of_str s of None \<Rightarrow> Inl ValueError | Some f \<Rightarrow> Inr f)"
| "float_of _ = Inl TypeError"

text \<open>\<open>str()\<close>. The shortest-digits text of a float, \<open>repr(float)\<close>, is the argument \<open>fr\<close>.\<close>

fun nat_digits :: "nat \<Rightarrow> ustr" where
  "nat_digits n = (if n < 10 then [48 + int n] else nat_digits (n div 10) @ [48 + int (n mod 10)])"

declare nat_digits.simps [simp del]

definition str_of_int :: "int \<Rightarrow> ustr" where
  "str_of_int i = (if i < 0 then 45 # nat_digits (nat (- i)) else nat_digits (nat i))"

definition hex_digit :: "int \<Rightarrow> int" where
  "hex_digit d = (if d < 10 then 48 + d else 87 + d)"

definition repr_char :: "int \<Rightarrow> int \<Rightarrow> ustr" where
  "repr_char q c =
     (if c = q \<or> c = 92 then [92, c] else if c = 10 then [92, 110] else if c = 13 then [92, 114]
      else if c = 9 then [92, 116]
      else if c < 32 \<or> (127 \<le> c \<and> c \<le> 160) \<or> c = 173
      then [92, 120, hex_digit (c div 16), hex_digit (c mod 16)] else [c])"

definition repr_str :: "ustr \<Rightarrow> ustr" where
  "repr_str s =
     (let q = (if 39 \<in> set s \<and> 34 \<notin> set s then 34 else 39)
      in [q] @ concat (map (repr_char q) s) @ [q])"

fun py_repr :: "(pyfloat \<Rightarrow> ustr) \<Rightarrow> json \<Rightarrow> ustr" where
  "py_repr fr JNull = [78, 111, 110, 101]"
| "py_repr fr (JBool b) = (if b then [84, 114, 117, 101] else [70, 97, 108, 115, 101])"
| "py_repr fr (JInt i) = str_of_int i"
| "py_repr fr (JFloat f) = fr f"
| "py_repr fr (JStr s) = repr_str s"
| "py_repr fr (JArr vs) = [91] @ py_join [44, 32] (map (py_repr fr) vs) @ [93]"
| "py_repr fr (JObj kvs) =
     [123] @ py_join [44, 32] (map (\<lambda>(k, v). repr_str k @ [58, 32] @ py_repr fr v) kvs) @ [125]"

fun py_str :: "(pyfloat \<Rightarrow> ustr) \<Rightarrow> json \<Rightarrow> ustr" where
  "py_str fr (JStr s) = s"
| "py_str fr v = py_repr fr v"

section \<open>Facts about the parser\<close>

lemma skip_ws_length: "length (skip_ws s) \<le> length s"
  by (simp add: skip_ws_def length_dropWhile_le)

lemma skip_ws_Cons_length: "skip_ws s = c # r \<Longrightarrow> length r < length s"
  using skip_ws_length [of s] by simp

lemma skip_ws_idem [simp]: "skip_ws (skip_ws s) = skip_ws s"
  by (simp add: skip_ws_def)

lemma skip_ws_hd: "skip_ws s = c # r \<Longrightarrow> \<not> json_ws c"
  unfolding skip_ws_def by (metis hd_dropWhile list.sel(1) list.simps(3))

lemma scan_string_length: "scan_string s = Some (cs, t) \<Longrightarrow> length t < length s"
proof (induction s arbitrary: cs t rule: scan_string.induct)
  case (1 s)
  from "1.prems" obtain x r where x: "scan_unit s = Some (x, r)"
    by (subst (asm) scan_string.simps) (auto split: option.splits)
  show ?case
  proof (cases x)
    case None
    with "1.prems" x show ?thesis
      by (subst (asm) scan_string.simps) (auto dest: scan_unit_length)
  next
    case (Some c)
    with "1.prems" x obtain cs' where "scan_string r = Some (cs', t)"
      by (subst (asm) scan_string.simps) auto
    with "1.IH" [OF x refl Some] scan_unit_length [OF x] show ?thesis by simp
  qed
qed

lemma scan_int_part_length: "scan_int_part s = Some (ds, r) \<Longrightarrow> length r < length s"
  by (auto simp: scan_int_part_def le_imp_less_Suc length_dropWhile_le split: list.splits if_splits)

lemma scan_frac_length: "scan_frac s = (ds, r) \<Longrightarrow> length r \<le> length s"
  by (auto simp: scan_frac_def split: list.splits if_splits)
     (metis le_SucI length_dropWhile_le)+

lemma scan_exp_length: "scan_exp s = (e, r) \<Longrightarrow> length r \<le> length s"
  by (auto simp: scan_exp_def Let_def le_SucI length_dropWhile_le
      split: list.splits if_splits prod.splits)

lemma scan_number_length: "scan_number s = Inr (v, r) \<Longrightarrow> length r < length s"
proof -
  assume h: "scan_number s = Inr (v, r)"
  obtain neg s0 where s0: "(case s of c # r \<Rightarrow> if c = 45 then (True, r) else (False, s)
      | [] \<Rightarrow> (False, s)) = (neg, s0)" by fastforce
  have l0: "length s0 \<le> length s"
    using s0 by (auto split: list.splits if_splits)
  from h s0 obtain ip r1 where ip: "scan_int_part s0 = Some (ip, r1)"
    by (auto simp: scan_number_def split: option.splits)
  obtain fp r2 where fp: "scan_frac r1 = (fp, r2)" by fastforce
  obtain ex r3 where ex: "scan_exp r2 = (ex, r3)" by fastforce
  have "r = r3"
    using h s0 ip fp ex by (auto simp: scan_number_def split: if_splits)
  with scan_int_part_length [OF ip] scan_frac_length [OF fp] scan_exp_length [OF ex] l0
  show ?thesis by simp
qed

lemma scan_number_error: "scan_number s \<noteq> Inl RecursionError"
  by (auto simp: scan_number_def Let_def split: list.splits if_splits option.splits prod.splits)

lemma scan_shorter:
  "scan_once n s = Inr (v, r) \<Longrightarrow> length r < length s"
  "scan_members n acc s = Inr (v, r) \<Longrightarrow> length r < length s"
  "scan_elems n vs s = Inr (v, r) \<Longrightarrow> length r < length s"
proof (induction n s and n acc s and n vs s arbitrary: v r and v r and v r
    rule: scan_once_scan_members_scan_elems.induct)
  case (2 n s)
  show ?case
  proof (cases s)
    case (Cons c t)
    consider (str) "c = 34" | (obj) "c = 123" | (arr) "c = 91"
      | (other) "c \<noteq> 34" "c \<noteq> 123" "c \<noteq> 91" by blast
    then show ?thesis
    proof cases
      case str
      with "2.prems" Cons show ?thesis
        by (auto split: option.splits dest: scan_string_length)
    next
      case obj
      with "2.prems" Cons obtain d r1 where r1: "skip_ws t = d # r1"
        by (auto split: list.splits)
      show ?thesis
      proof (cases "d = 125")
        case True
        with "2.prems" Cons obj r1 skip_ws_Cons_length [OF r1] show ?thesis by simp
      next
        case False
        with "2.prems" Cons obj r1 have "scan_members n [] (d # r1) = Inr (v, r)" by simp
        with "2.IH"(1) [OF Cons _ _ r1] obj False have "length r < length (d # r1)" by simp
        with skip_ws_length [of t] show ?thesis by (simp add: r1 Cons)
      qed
    next
      case arr
      with "2.prems" Cons obtain d r1 where r1: "skip_ws t = d # r1"
        by (auto split: list.splits)
      show ?thesis
      proof (cases "d = 93")
        case True
        with "2.prems" Cons arr r1 skip_ws_Cons_length [OF r1] show ?thesis by simp
      next
        case False
        with "2.prems" Cons arr r1 have "scan_elems n [] (d # r1) = Inr (v, r)" by simp
        with "2.IH"(2) [OF Cons _ _ _ r1] arr False have "length r < length (d # r1)" by simp
        with skip_ws_length [of t] show ?thesis by (simp add: r1 Cons)
      qed
    next
      case other
      with "2.prems" Cons show ?thesis
        by (auto split: if_splits dest: scan_number_length)
    qed
  qed (use 2 in simp)
next
  case (4 n acc s)
  show ?case
  proof (cases s)
    case (Cons q t)
    with "4.prems" obtain k r1 where k: "scan_string t = Some (k, r1)" and q: "q = 34"
      by (auto split: if_splits option.splits)
    with "4.prems" Cons obtain r2 where r2: "skip_ws r1 = 58 # r2"
      by (auto split: if_splits option.splits list.splits)
    with "4.prems" Cons k q obtain w r3 where w: "scan_once n (skip_ws r2) = Inr (w, r3)"
      by (auto split: if_splits option.splits list.splits)
    have l3: "length r3 < length s"
      using "4.IH"(1) [OF Cons _ k _ r2 _ w] q Cons scan_string_length [OF k]
        skip_ws_Cons_length [OF r2] skip_ws_length [of r2] by simp
    from "4.prems" Cons k q r2 w obtain d r4 where r4: "skip_ws r3 = d # r4"
      by (auto split: list.splits)
    have l4: "length r4 < length s"
      using skip_ws_Cons_length [OF r4] l3 by simp
    show ?thesis
    proof (cases "d = 125")
      case True
      with "4.prems" Cons k q r2 w r4 l4 show ?thesis by simp
    next
      case False
      with "4.prems" Cons k q r2 w r4 have
        "d = 44" "scan_members n (AList.update k w acc) (skip_ws r4) = Inr (v, r)"
        by (auto split: if_splits)
      with "4.IH"(2) [OF Cons _ k refl r2 _ w refl r4] q False
      have "length r < length (skip_ws r4)" by simp
      with skip_ws_length [of r4] l4 show ?thesis by simp
    qed
  qed (use 4 in simp)
next
  case (6 n vs s)
  then obtain w r1 where w: "scan_once n s = Inr (w, r1)" by auto
  with "6.prems" obtain d r2 where r2: "skip_ws r1 = d # r2"
    by (auto split: list.splits)
  have l2: "length r2 < length s"
    using skip_ws_Cons_length [OF r2] "6.IH"(1) [OF w] by simp
  show ?case
  proof (cases "d = 93")
    case True
    with "6.prems" w r2 l2 show ?thesis by simp
  next
    case False
    with "6.prems" w r2 have "d = 44" "scan_elems n (vs @ [w]) (skip_ws r2) = Inr (v, r)"
      by (auto split: if_splits)
    with "6.IH"(2) [OF w refl r2] False have "length r < length (skip_ws r2)" by simp
    with skip_ws_length [of r2] l2 show ?thesis by simp
  qed
qed auto

text \<open>Fuel above twice the length of the text never runs out.\<close>

lemma scan_fuel:
  "2 * length s < n \<Longrightarrow> scan_once n s \<noteq> Inl RecursionError"
  "2 * length s < n \<Longrightarrow> scan_members n acc s \<noteq> Inl RecursionError"
  "2 * length s + 1 < n \<Longrightarrow> scan_elems n vs s \<noteq> Inl RecursionError"
proof (induction n s and n acc s and n vs s rule: scan_once_scan_members_scan_elems.induct)
  case (2 n s)
  show ?case
  proof (cases s)
    case (Cons c t)
    have m: "scan_members n [] (d # r1) \<noteq> Inl RecursionError"
      if "c = 123" "skip_ws t = d # r1" "d \<noteq> 125" for d r1
      using "2.IH"(1) [OF Cons _ _ that(2)] that "2.prems" Cons skip_ws_length [of t] by simp
    have e: "scan_elems n [] (d # r1) \<noteq> Inl RecursionError"
      if "c = 91" "skip_ws t = d # r1" "d \<noteq> 93" for d r1
      using "2.IH"(2) [OF Cons _ _ _ that(2)] that "2.prems" Cons skip_ws_length [of t] by simp
    show ?thesis
      using Cons m e scan_number_error by (auto split: list.splits option.splits)
  qed simp
next
  case (4 n acc s)
  show ?case
  proof (rule notI)
    assume h: "scan_members (Suc n) acc s = Inl RecursionError"
    then obtain t where s: "s = 34 # t" by (auto split: list.splits if_splits)
    with h obtain k r1 where k: "scan_string t = Some (k, r1)"
      by (auto split: option.splits)
    with h s obtain r2 where r2: "skip_ws r1 = 58 # r2"
      by (auto split: list.splits if_splits)
    have l2: "2 * length r2 < n"
      using skip_ws_Cons_length [OF r2] scan_string_length [OF k] "4.prems" s by simp
    have ne: "scan_once n (skip_ws r2) \<noteq> Inl RecursionError"
      using "4.IH"(1) [OF s _ k refl r2] l2 skip_ws_length [of r2] by simp
    with h s k r2 obtain w r3 where w: "scan_once n (skip_ws r2) = Inr (w, r3)"
      by (cases "scan_once n (skip_ws r2)") auto
    have l3: "length r3 < length r2"
      using scan_shorter(1) [OF w] skip_ws_length [of r2] by simp
    from h s k r2 w obtain r4 where r4: "skip_ws r3 = 44 # r4"
      and h4: "scan_members n (AList.update k w acc) (skip_ws r4) = Inl RecursionError"
      by (auto split: list.splits if_splits)
    have "2 * length (skip_ws r4) < n"
      using skip_ws_Cons_length [OF r4] skip_ws_length [of r4] l3 l2 by simp
    with "4.IH"(2) [OF s _ k refl r2 _ w refl r4] h4 show False by simp
  qed
next
  case (6 n vs s)
  have "scan_once n s \<noteq> Inl RecursionError"
    using 6 by simp
  moreover have "scan_elems n (vs @ [w]) (skip_ws r2) \<noteq> Inl RecursionError"
    if w: "scan_once n s = Inr (w, r1)" and r2: "skip_ws r1 = 44 # r2" for w r1 r2
    using "6.IH"(2) [OF w refl r2] "6.prems" scan_shorter(1) [OF w]
      skip_ws_Cons_length [OF r2] skip_ws_length [of r2] by simp
  ultimately show ?case
    by (auto simp: bindE_eq_Inl split: list.splits)
qed auto

lemma json_loads_total: "json_loads s \<noteq> Inl RecursionError"
  using scan_fuel(1) [of "skip_ws s" "2 * length s + 2"] skip_ws_length [of s]
  by (auto simp: json_loads_def bindE_eq_Inl split: if_splits)

end
