(* ===== verification/JsonScan.thy ===== *)
theory JsonScan
  imports PyJson
begin

text \<open>
  How \<^verbatim>\<open>json_answer_reward.py\<close> finds the JSON object of a model's reply: the brace
  scanner \<open>_scan_balanced_json\<close>, the search \<open>_extract_last_json_obj\<close> and \<open>_parse_json_obj\<close>.
  The facts: the scanner agrees with the JSON parser on where an object ends, the search
  fails only on texts without an object and returns the last one, and the document at the
  end of a reply is found whatever comes before it.

  The argument \<open>fr\<close> is \<open>repr\<close> of a float, the only part of \<open>str()\<close> that is not modelled.
\<close>

section \<open>The last JSON object of a text\<close>

text \<open>
  The loop of \<open>_scan_balanced_json\<close>: from index \<open>k\<close> with the rest of the text, the index of
  the closing brace at which the depth returns to zero.
\<close>

fun balanced_end :: "int \<Rightarrow> bool \<Rightarrow> bool \<Rightarrow> ustr \<Rightarrow> nat \<Rightarrow> nat option" where
  "balanced_end depth in_str esc [] k = None"
| "balanced_end depth in_str esc (ch # cs) k =
     (if in_str then
        (if esc then balanced_end depth True False cs (Suc k)
         else if ch = 92 then balanced_end depth True True cs (Suc k)
         else if ch = 34 then balanced_end depth False False cs (Suc k)
         else balanced_end depth True False cs (Suc k))
      else if ch = 34 then balanced_end depth True esc cs (Suc k)
      else if ch = 123 then balanced_end (depth + 1) False esc cs (Suc k)
      else if ch = 125 then
        (if depth - 1 = 0 then Some k else balanced_end (depth - 1) False esc cs (Suc k))
      else balanced_end depth False esc cs (Suc k))"

definition slice :: "ustr \<Rightarrow> nat \<Rightarrow> nat \<Rightarrow> ustr" where
  "slice s i j = take (j - i) (drop i s)"

definition scan_balanced_json :: "ustr \<Rightarrow> nat \<Rightarrow> dict option \<times> nat" where
  "scan_balanced_json s start =
     (case balanced_end 0 False False (drop start s) start of
        None \<Rightarrow> (None, length s - 1)
      | Some k \<Rightarrow>
        (case json_loads (slice s start (k + 1)) of
           Inr (JObj obj) \<Rightarrow> (Some obj, k)
         | _ \<Rightarrow> (None, k)))"

lemma balanced_end_bounds: "balanced_end d q e cs k = Some j \<Longrightarrow> k \<le> j \<and> j < k + length cs"
  by (induction d q e cs k rule: balanced_end.induct) (auto split: if_splits)

lemma scan_balanced_json_end:
  "scan_balanced_json s i = (Some obj, e) \<Longrightarrow> i \<le> e \<and> e < length s"
  by (auto simp: scan_balanced_json_def split: option.splits sum.splits json.splits
      dest!: balanced_end_bounds)

text \<open>The loop of \<open>_extract_last_json_obj\<close>; \<open>best_end\<close> is -1 at the start.\<close>

function extract_loop :: "ustr \<Rightarrow> nat \<Rightarrow> dict option \<Rightarrow> int \<Rightarrow> dict option" where
  "extract_loop s i best_obj best_end =
     (if i < length s then
        (if s ! i \<noteq> 123 then extract_loop s (i + 1) best_obj best_end
         else (case scan_balanced_json s i of
             (Some obj, e) \<Rightarrow>
               (if int e > best_end then extract_loop s (e + 1) (Some obj) (int e)
                else extract_loop s (e + 1) best_obj best_end)
           | (None, e) \<Rightarrow> extract_loop s (i + 1) best_obj best_end))
      else best_obj)"
  by pat_completeness auto
termination
  by (relation "measure (\<lambda>(s, i, _). length s - i)")
     (auto dest!: scan_balanced_json_end [OF sym])

declare extract_loop.simps [simp del]

definition extract_last_json_obj :: "ustr \<Rightarrow> dict option" where
  "extract_last_json_obj s = (if s = [] then None else extract_loop s 0 None (-1))"

definition parse_json_obj :: "(pyfloat \<Rightarrow> ustr) \<Rightarrow> json \<Rightarrow> dict option" where
  "parse_json_obj fr raw =
     (case raw of
        JNull \<Rightarrow> None
      | JObj d \<Rightarrow> Some d
      | _ \<Rightarrow>
        (let s = py_strip (py_str fr raw) in
         if s = [] then None
         else (case json_loads s of
             Inr (JObj obj) \<Rightarrow> Some obj
           | _ \<Rightarrow> extract_last_json_obj s)))"

section \<open>The brace scanner agrees with the parser\<close>

text \<open>
  \<open>passes d s r\<close>: outside a string literal at depth \<open>d\<close>, the brace scanner runs over the
  part of \<open>s\<close> before its tail \<open>r\<close> and is again outside a literal at depth \<open>d\<close>.
\<close>

definition passes :: "int \<Rightarrow> ustr \<Rightarrow> ustr \<Rightarrow> bool" where
  "passes d s r \<longleftrightarrow> (\<exists>p. s = p @ r) \<and>
     (\<forall>k. balanced_end d False False s k = balanced_end d False False r (k + (length s - length r)))"

lemma passes_refl [simp]: "passes d s s"
  by (simp add: passes_def)

lemma passes_trans [trans]: "passes d s t \<Longrightarrow> passes d t r \<Longrightarrow> passes d s r"
  by (auto simp: passes_def add.assoc)

definition plain :: "int \<Rightarrow> bool" where
  "plain c \<longleftrightarrow> c \<noteq> 34 \<and> c \<noteq> 123 \<and> c \<noteq> 125"

lemma passes_Cons: "plain c \<Longrightarrow> passes d t r \<Longrightarrow> passes d (c # t) r"
  by (auto simp: passes_def plain_def Suc_diff_le)

lemma passes_append: "(\<And>c. c \<in> set p \<Longrightarrow> plain c) \<Longrightarrow> passes d (p @ r) r"
  by (induction p) (auto intro: passes_Cons)

lemma passes_dropWhile: "(\<And>c. P c \<Longrightarrow> plain c) \<Longrightarrow> passes d s (dropWhile P s)"
  by (induction s) (auto intro: passes_Cons)

lemma passes_skip_ws: "passes d s (skip_ws s)"
  unfolding skip_ws_def by (rule passes_dropWhile) (auto simp: json_ws_def plain_def)

lemma passes_digits: "passes d s (dropWhile is_digit s)"
  by (rule passes_dropWhile) (auto simp: is_digit_def plain_def)

lemma plain_digit: "is_digit c \<Longrightarrow> plain c"
  by (auto simp: is_digit_def plain_def)

lemma passes_starts_with: "starts_with p s \<Longrightarrow> list_all plain p \<Longrightarrow> passes d s (drop (length p) s)"
  using passes_append [of p d] by (auto simp: starts_with_append list_all_iff)

lemma passes_literals:
  "starts_with lit_null s \<Longrightarrow> passes d s (drop 4 s)"
  "starts_with lit_true s \<Longrightarrow> passes d s (drop 4 s)"
  "starts_with lit_false s \<Longrightarrow> passes d s (drop 5 s)"
  "starts_with lit_NaN s \<Longrightarrow> passes d s (drop 3 s)"
  "starts_with lit_Infinity s \<Longrightarrow> passes d s (drop 8 s)"
  using passes_starts_with [of lit_null s d] passes_starts_with [of lit_true s d]
    passes_starts_with [of lit_false s d] passes_starts_with [of lit_NaN s d]
    passes_starts_with [of lit_Infinity s d]
  by (auto simp: lit_null_def lit_true_def lit_false_def lit_NaN_def lit_Infinity_def plain_def
      eval_nat_numeral)

lemma passes_scan_int: "scan_int_part s = Some (ds, r) \<Longrightarrow> passes d s r"
  by (auto simp: scan_int_part_def plain_digit split: list.splits if_splits
      intro!: passes_Cons passes_digits) (simp add: plain_def)

lemma passes_scan_frac: "scan_frac s = (ds, r) \<Longrightarrow> passes d s r"
  by (auto simp: scan_frac_def is_digit_def plain_def split: list.splits if_splits
      intro!: passes_Cons passes_digits)

lemma passes_scan_exp: "scan_exp s = (e, r) \<Longrightarrow> passes d s r"
  by (auto simp: scan_exp_def Let_def is_digit_def plain_def split: list.splits if_splits prod.splits
      intro!: passes_Cons passes_digits)

lemma passes_scan_number:
  assumes h: "scan_number s = Inr (v, r)"
  shows "passes d s r"
proof -
  obtain neg s0 where s0: "(case s of c # r \<Rightarrow> if c = 45 then (True, r) else (False, s)
      | [] \<Rightarrow> (False, s)) = (neg, s0)" by fastforce
  have p0: "passes d s s0"
    using s0 by (auto split: list.splits if_splits intro!: passes_Cons simp: plain_def)
  from h s0 obtain ip r1 where ip: "scan_int_part s0 = Some (ip, r1)"
    by (auto simp: scan_number_def split: option.splits)
  obtain fp r2 where fp: "scan_frac r1 = (fp, r2)" by fastforce
  obtain ex r3 where ex: "scan_exp r2 = (ex, r3)" by fastforce
  have "r = r3"
    using h s0 ip fp ex by (auto simp: scan_number_def split: if_splits)
  with p0 passes_scan_int [OF ip] passes_scan_frac [OF fp] passes_scan_exp [OF ex]
  show ?thesis by (meson passes_trans)
qed

text \<open>Inside a string literal the scanner follows the parser's units.\<close>

lemma hex_val_plain: "hex_val c = Some v \<Longrightarrow> c \<noteq> 34 \<and> c \<noteq> 92"
  by (auto simp: hex_val_def split: if_splits)

lemma hex4_plain: "hex4 a b c d = Some v \<Longrightarrow> {a, b, c, d} \<inter> {34, 92} = {}"
  by (auto simp: hex4_def dest!: hex_val_plain split: option.splits)

lemma balanced_low_escape:
  assumes "low_escape s = Some (l, r)"
  shows "balanced_end d True False s k = balanced_end d True False r (k + (length s - length r))"
proof -
  from assms obtain a b c e where s: "s = 92 # 117 # a # b # c # e # r" and h: "hex4 a b c e = Some l"
    by (cases s rule: low_escape.cases) (auto split: if_splits option.splits)
  show ?thesis using hex4_plain [OF h] by (simp add: s eval_nat_numeral)
qed

lemma balanced_scan_escape:
  assumes "scan_escape s = Some (x, r)"
  shows "balanced_end d True True s k = balanced_end d True False r (k + (length s - length r))"
proof -
  from assms obtain e r1 where s: "s = e # r1"
    by (auto simp: scan_escape_def split: list.splits)
  show ?thesis
  proof (cases "e = 117")
    case False
    with assms s show ?thesis by (auto simp: scan_escape_def)
  next
    case True
    with assms s obtain w a y z r2 h where r1: "r1 = w # a # y # z # r2"
      and h: "hex4 w a y z = Some h"
      by (auto simp: scan_escape_def split: list.splits option.splits)
    have step: "balanced_end d True True s k = balanced_end d True False r2 (k + 5)"
      using hex4_plain [OF h] by (simp add: s True r1 eval_nat_numeral)
    show ?thesis
    proof (cases "if is_high h then low_escape r2 else None")
      case None
      with assms s True r1 h have "r = r2" by (simp add: scan_escape_def)
      with step show ?thesis by (simp add: s r1)
    next
      case (Some p)
      then obtain l r3 where l: "low_escape r2 = Some (l, r3)" and high: "is_high h"
        by (cases p) (auto split: if_splits)
      with assms s True r1 h have "r = r3" by (simp add: scan_escape_def)
      then have "k + (length s - length r) = (k + 5) + (length r2 - length r3)"
        using low_escape_length [OF l] by (simp add: s r1)
      with \<open>r = r3\<close> show ?thesis
        by (simp only: step balanced_low_escape [OF l])
    qed
  qed
qed

lemma balanced_scan_unit:
  assumes "scan_unit s = Some (x, r)"
  shows "balanced_end d True False s k =
    balanced_end d (x \<noteq> None) False r (k + (length s - length r))"
proof -
  from assms obtain c t where s: "s = c # t"
    by (auto simp: scan_unit_def split: list.splits)
  show ?thesis
  proof (cases "c = 92")
    case True
    with assms s obtain y where "scan_escape t = Some (y, r)" "x = Some y"
      by (auto simp: scan_unit_def)
    with balanced_scan_escape [of t y r d "Suc k"] scan_escape_length [of t y r] True
    show ?thesis by (simp add: s Suc_diff_le)
  next
    case False
    with assms show ?thesis
      by (auto simp: s scan_unit_def split: if_splits)
  qed
qed

lemma balanced_scan_string:
  "scan_string s = Some (cs, r) \<Longrightarrow>
   balanced_end d True False s k = balanced_end d False False r (k + (length s - length r))"
proof (induction s arbitrary: cs r k rule: scan_string.induct)
  case (1 s)
  from "1.prems" obtain x t where x: "scan_unit s = Some (x, t)"
    by (subst (asm) scan_string.simps) (auto split: option.splits)
  show ?case
  proof (cases x)
    case None
    with "1.prems" x have "t = r"
      by (subst (asm) scan_string.simps) auto
    with balanced_scan_unit [OF x] None show ?thesis by simp
  next
    case (Some c)
    with "1.prems" x obtain cs' where t: "scan_string t = Some (cs', r)"
      by (subst (asm) scan_string.simps) auto
    show ?thesis
      using "1.IH" [OF x refl Some t] balanced_scan_unit [OF x] Some
        scan_unit_length [OF x] scan_string_length [OF t] by simp
  qed
qed

lemma low_escape_suffix: "low_escape s = Some (l, r) \<Longrightarrow> \<exists>p. s = p @ r"
  by (cases s rule: low_escape.cases) (auto split: if_splits option.splits)

lemma scan_escape_suffix: "scan_escape s = Some (x, r) \<Longrightarrow> \<exists>p. s = p @ r"
  unfolding scan_escape_def
  by (auto split: list.splits if_splits option.splits dest!: low_escape_suffix)

lemma scan_unit_suffix: "scan_unit s = Some (x, r) \<Longrightarrow> \<exists>p. s = p @ r"
  unfolding scan_unit_def
  by (auto split: list.splits if_splits dest!: scan_escape_suffix)

lemma scan_string_suffix: "scan_string s = Some (cs, r) \<Longrightarrow> \<exists>p. s = p @ r"
proof (induction s arbitrary: cs r rule: scan_string.induct)
  case (1 s)
  from "1.prems" obtain x t where x: "scan_unit s = Some (x, t)"
    by (subst (asm) scan_string.simps) (auto split: option.splits)
  from scan_unit_suffix [OF x] obtain p where p: "s = p @ t" by blast
  show ?case
  proof (cases x)
    case None
    with "1.prems" x p show ?thesis by (subst (asm) scan_string.simps) auto
  next
    case (Some c)
    with "1.prems" x obtain cs' where "scan_string t = Some (cs', r)"
      by (subst (asm) scan_string.simps) auto
    from "1.IH" [OF x refl Some this] p show ?thesis by auto
  qed
qed

lemma passes_string:
  assumes "scan_string t = Some (cs, r)"
  shows "passes d (34 # t) r"
proof -
  from scan_string_suffix [OF assms] obtain p where "34 # t = (34 # p) @ r" by auto
  then show ?thesis
    unfolding passes_def using balanced_scan_string [OF assms] scan_string_length [OF assms]
    by (auto simp: Suc_diff_le)
qed

text \<open>
  The parser and the scanner agree: over a value inside an object the scanner keeps its
  depth, and at the end of an object it stops exactly at the parser's closing brace.
\<close>

definition closes :: "int \<Rightarrow> ustr \<Rightarrow> ustr \<Rightarrow> bool" where
  "closes d s r \<longleftrightarrow> (\<exists>p. p \<noteq> [] \<and> s = p @ r) \<and>
     (\<forall>k. balanced_end (d + 1) False False s k =
        (if d = 0 then Some (k + (length s - length r) - 1)
         else balanced_end d False False r (k + (length s - length r))))"

lemma closes_brace: "closes d (125 # r) r"
  by (simp add: closes_def)

lemma passes_closes [trans]: "passes (d + 1) s t \<Longrightarrow> closes d t r \<Longrightarrow> closes d s r"
  by (auto simp: passes_def closes_def add.assoc)

lemma closes_passes: "0 < d \<Longrightarrow> closes d s r \<Longrightarrow> passes d (123 # s) r"
  by (auto simp: passes_def closes_def Suc_diff_le)

lemma scanner_agrees:
  "scan_once n s = Inr (v, r) \<Longrightarrow> 0 < d \<Longrightarrow> passes d s r"
  "scan_members n acc s = Inr (v, r) \<Longrightarrow> 0 \<le> d \<Longrightarrow> closes d s r"
  "scan_elems n vs s = Inr (v, r) \<Longrightarrow> 0 < d \<Longrightarrow> passes d s r"
proof (induction n s and n acc s and n vs s arbitrary: v r d and v r d and v r d
    rule: scan_once_scan_members_scan_elems.induct)
  case (2 n s)
  show ?case
  proof (cases s)
    case (Cons c t)
    consider (str) "c = 34" | (obj) "c = 123" | (arr) "c = 91"
      | (other) "c \<noteq> 34" "c \<noteq> 123" "c \<noteq> 91" by blast
    then show ?thesis
    proof cases
      case str
      with "2.prems"(1) Cons obtain cs where "scan_string t = Some (cs, r)"
        by (auto split: option.splits)
      then show ?thesis by (simp add: Cons str passes_string)
    next
      case obj
      with "2.prems"(1) Cons obtain x r1 where r1: "skip_ws t = x # r1"
        by (auto split: list.splits)
      have "closes d (x # r1) r"
      proof (cases "x = 125")
        case True
        with "2.prems"(1) Cons obj r1 show ?thesis by (simp add: closes_brace)
      next
        case False
        with "2.prems"(1) Cons obj r1 have "scan_members n [] (x # r1) = Inr (v, r)" by simp
        with "2.IH"(1) [OF Cons _ _ r1] obj False "2.prems"(2) show ?thesis by simp
      qed
      with passes_skip_ws [of "d + 1" t] r1 have "closes d t r"
        using passes_closes by metis
      with "2.prems"(2) show ?thesis by (simp add: Cons obj closes_passes)
    next
      case arr
      with "2.prems"(1) Cons obtain x r1 where r1: "skip_ws t = x # r1"
        by (auto split: list.splits)
      have "passes d (x # r1) r"
      proof (cases "x = 93")
        case True
        with "2.prems"(1) Cons arr r1 show ?thesis by (simp add: passes_Cons plain_def)
      next
        case False
        with "2.prems"(1) Cons arr r1 have "scan_elems n [] (x # r1) = Inr (v, r)" by simp
        with "2.IH"(2) [OF Cons _ _ _ r1] arr False "2.prems"(2) show ?thesis by simp
      qed
      with passes_skip_ws [of d t] r1 have "passes d t r"
        using passes_trans by metis
      then show ?thesis by (simp add: Cons arr passes_Cons plain_def)
    next
      case other
      with "2.prems"(1) Cons show ?thesis
        using passes_literals [of s d] passes_literals(5) [of t d]
        by (auto simp del: drop_Cons_numeral simp: plain_def split: if_splits
            intro: passes_Cons passes_scan_number)
    qed
  qed (use 2 in simp)
next
  case (4 n acc s)
  from "4.prems"(1) obtain t where s: "s = 34 # t" by (auto split: list.splits if_splits)
  with "4.prems"(1) obtain k r1 where k: "scan_string t = Some (k, r1)"
    by (auto split: option.splits)
  with "4.prems"(1) s obtain r2 where r2: "skip_ws r1 = 58 # r2"
    by (auto split: list.splits if_splits)
  with "4.prems"(1) s k obtain w r3 where w: "scan_once n (skip_ws r2) = Inr (w, r3)"
    by auto
  with "4.prems"(1) s k r2 obtain x r4 where r4: "skip_ws r3 = x # r4"
    by (auto split: list.splits)
  have "passes (d + 1) s r1"
    unfolding s by (rule passes_string [OF k])
  also have "passes (d + 1) r1 (58 # r2)"
    using passes_skip_ws [of "d + 1" r1] by (simp add: r2)
  also have "passes (d + 1) (58 # r2) (skip_ws r2)"
    by (rule passes_Cons) (simp_all add: plain_def passes_skip_ws)
  also have "passes (d + 1) (skip_ws r2) r3"
    using "4.IH"(1) [OF s _ k refl r2 _ w] "4.prems"(2) by simp
  also have "passes (d + 1) r3 (x # r4)"
    using passes_skip_ws [of "d + 1" r3] by (simp add: r4)
  finally have p: "passes (d + 1) s (x # r4)" .
  have "closes d (x # r4) r"
  proof (cases "x = 125")
    case True
    with "4.prems"(1) s k r2 w r4 show ?thesis by (simp add: closes_brace)
  next
    case False
    with "4.prems"(1) s k r2 w r4 have x: "x = 44"
      and m: "scan_members n (AList.update k w acc) (skip_ws r4) = Inr (v, r)"
      by (auto split: if_splits)
    have "closes d (skip_ws r4) r"
      using "4.IH"(2) [OF s _ k refl r2 _ w refl r4 False x m] "4.prems"(2) by simp
    moreover have "passes (d + 1) (x # r4) (skip_ws r4)"
      by (rule passes_Cons) (simp_all add: x plain_def passes_skip_ws)
    ultimately show ?thesis using passes_closes by blast
  qed
  with p show ?case by (rule passes_closes)
next
  case (6 n vs s)
  then obtain w r1 where w: "scan_once n s = Inr (w, r1)" by auto
  with "6.prems"(1) obtain x r2 where r2: "skip_ws r1 = x # r2"
    by (auto split: list.splits)
  have "passes d s r1"
    using "6.IH"(1) w "6.prems"(2) by blast
  also have "passes d r1 (x # r2)"
    using passes_skip_ws [of d r1] by (simp add: r2)
  also have "passes d (x # r2) r"
  proof (cases "x = 93")
    case True
    with "6.prems"(1) w r2 show ?thesis by (simp add: passes_Cons plain_def)
  next
    case False
    with "6.prems"(1) w r2 have x: "x = 44" and e: "scan_elems n (vs @ [w]) (skip_ws r2) = Inr (v, r)"
      by (auto split: if_splits)
    have "passes d (skip_ws r2) r"
      using "6.IH"(2) [OF w refl r2 False x e] "6.prems"(2) by simp
    moreover have "passes d (x # r2) (skip_ws r2)"
      by (rule passes_Cons) (simp_all add: x plain_def passes_skip_ws)
    ultimately show ?thesis using passes_trans by blast
  qed
  finally show ?case .
qed auto

text \<open>An index where no object starts, or where the brace scan does not give a dict.\<close>

definition no_object_at :: "ustr \<Rightarrow> nat \<Rightarrow> bool" where
  "no_object_at s j \<longleftrightarrow> s ! j \<noteq> 123 \<or> fst (scan_balanced_json s j) = None"

definition no_object_from :: "ustr \<Rightarrow> nat \<Rightarrow> bool" where
  "no_object_from s i \<longleftrightarrow> (\<forall>j. i \<le> j \<and> j < length s \<longrightarrow> no_object_at s j)"

lemma no_object_from_Suc:
  "no_object_at s i \<Longrightarrow> no_object_from s i \<longleftrightarrow> no_object_from s (Suc i)"
  by (auto simp: no_object_from_def) (metis le_antisym not_less_eq_eq)

lemma extract_loop_spec:
  "best_end < int i \<Longrightarrow>
   (extract_loop s i b best_end = b \<and> no_object_from s i) \<or>
   (\<exists>j e obj. i \<le> j \<and> j < length s \<and> s ! j = 123 \<and> scan_balanced_json s j = (Some obj, e)
      \<and> extract_loop s i b best_end = Some obj \<and> no_object_from s (Suc e))"
proof (induction s i b best_end rule: extract_loop.induct)
  case (1 s i b best_end)
  show ?case
  proof (cases "i < length s")
    case False
    then show ?thesis
      by (intro disjI1) (subst extract_loop.simps, auto simp: no_object_from_def)
  next
    case True
    show ?thesis
    proof (cases "s ! i = 123")
      case False
      with True have eq: "extract_loop s i b best_end = extract_loop s (Suc i) b best_end"
        by (subst extract_loop.simps) simp
      have na: "no_object_at s i" using False by (simp add: no_object_at_def)
      show ?thesis
        using "1.IH"(1) [OF True False] "1.prems" no_object_from_Suc [OF na]
        by (simp add: eq) (meson Suc_leD)
    next
      case brace: True
      obtain x e where x: "scan_balanced_json s i = (x, e)" by fastforce
      show ?thesis
      proof (cases x)
        case None
        with True brace x have eq: "extract_loop s i b best_end = extract_loop s (Suc i) b best_end"
          by (subst extract_loop.simps) simp
        have na: "no_object_at s i" using None x by (simp add: no_object_at_def)
        show ?thesis
          using "1.IH"(2) [OF True _ x [symmetric] None] brace "1.prems" no_object_from_Suc [OF na]
          by (simp add: eq) (meson Suc_leD)
      next
        case (Some obj)
        have e: "i \<le> e" "e < length s"
          using scan_balanced_json_end [of s i obj e] x Some by auto
        with "1.prems" have be: "best_end < int e" by simp
        have eq: "extract_loop s i b best_end = extract_loop s (Suc e) (Some obj) (int e)"
          using True brace x Some be by (subst extract_loop.simps) simp
        from "1.IH"(3) [OF True _ x [symmetric] Some be] brace
        consider (none) "extract_loop s (Suc e) (Some obj) (int e) = Some obj" "no_object_from s (Suc e)"
          | (later) j e' obj' where "Suc e \<le> j" "j < length s" "s ! j = 123"
              "scan_balanced_json s j = (Some obj', e')"
              "extract_loop s (Suc e) (Some obj) (int e) = Some obj'" "no_object_from s (Suc e')"
          by auto
        then show ?thesis
        proof cases
          case none
          with True brace x Some show ?thesis unfolding eq by blast
        next
          case later
          from later(1) e have "i \<le> j" by simp
          with later show ?thesis unfolding eq by blast
        qed
      qed
    qed
  qed
qed

lemma extract_last_cases:
  "(extract_last_json_obj s = None \<and> no_object_from s 0) \<or>
   (\<exists>j e obj. j < length s \<and> s ! j = 123 \<and> scan_balanced_json s j = (Some obj, e)
      \<and> extract_last_json_obj s = Some obj \<and> no_object_from s (Suc e))"
  using extract_loop_spec [of "-1" 0 s None]
  by (auto simp: extract_last_json_obj_def no_object_from_def)

text \<open>
  \<open>_extract_last_json_obj\<close> fails exactly when no opening brace of the text starts a
  balanced piece that parses to a dict: a reply is scored as unparsable only if it holds
  no JSON object at all.
\<close>

theorem extract_none_iff:
  "extract_last_json_obj s = None \<longleftrightarrow>
     (\<forall>j < length s. s ! j = 123 \<longrightarrow> fst (scan_balanced_json s j) = None)"
  using extract_last_cases [of s] by (auto simp: no_object_from_def no_object_at_def)

theorem extract_none_iff_witness:
  "\<forall>j < length (u ''a {b} c''). u ''a {b} c'' ! j = 123 \<longrightarrow>
      fst (scan_balanced_json (u ''a {b} c'') j) = None"
proof -
  have "extract_last_json_obj (u ''a {b} c'') = None" by code_simp
  then show ?thesis by (simp only: extract_none_iff)
qed

text \<open>
  The object \<open>_extract_last_json_obj\<close> returns is read from the text (an opening brace
  starts a balanced piece that parses to it) and no object starts after its closing
  brace: of several objects in a row, the last one wins.
\<close>

theorem extract_last_wins:
  assumes "extract_last_json_obj s = Some obj"
  shows "\<exists>j e. j \<le> e \<and> e < length s \<and> s ! j = 123 \<and> s ! e = 125
    \<and> json_loads (slice s j (e + 1)) = Inr (JObj obj)
    \<and> (\<forall>j'. e < j' \<and> j' < length s \<and> s ! j' = 123 \<longrightarrow> fst (scan_balanced_json s j') = None)"
proof -
  from extract_last_cases [of s] assms obtain j e where j: "j < length s" "s ! j = 123"
    and sc: "scan_balanced_json s j = (Some obj, e)" and no: "no_object_from s (Suc e)"
    by auto
  from sc have b: "balanced_end 0 False False (drop j s) j = Some e"
    and p: "json_loads (slice s j (e + 1)) = Inr (JObj obj)"
    by (auto simp: scan_balanced_json_def split: option.splits sum.splits json.splits)
  have "cs ! (m - k) = 125" if "balanced_end d q x cs k = Some m" for d q x cs k m
    using that
    by (induction d q x cs k rule: balanced_end.induct)
       (auto simp: nth_Cons' Suc_diff_le dest: balanced_end_bounds split: if_splits)
  from this [OF b] scan_balanced_json_end [OF sc] have "s ! e = 125" by simp
  with scan_balanced_json_end [OF sc] j p no show ?thesis
    by (intro exI [of _ j] exI [of _ e]) (auto simp: no_object_from_def no_object_at_def)
qed

theorem extract_last_wins_witness:
  "\<exists>j e. j \<le> e \<and> e < length (u ''{} then {}'') \<and> u ''{} then {}'' ! j = 123 \<and> u ''{} then {}'' ! e = 125
    \<and> json_loads (slice (u ''{} then {}'') j (e + 1)) = Inr (JObj [])
    \<and> (\<forall>j'. e < j' \<and> j' < length (u ''{} then {}'') \<and> u ''{} then {}'' ! j' = 123
         \<longrightarrow> fst (scan_balanced_json (u ''{} then {}'') j') = None)"
proof (rule extract_last_wins)
  show "extract_last_json_obj (u ''{} then {}'') = Some []" by code_simp
qed

text \<open>A document that parses to a dict is one balanced piece, from its first brace to its last.\<close>

lemma scan_number_not_obj: "scan_number s \<noteq> Inr (JObj d, r)"
  by (auto simp: scan_number_def Let_def split: list.splits if_splits option.splits prod.splits)

lemma scan_once_obj_brace:
  assumes "scan_once n s = Inr (JObj d, r)"
  shows "s \<noteq> [] \<and> hd s = 123"
proof (cases n)
  case (Suc m)
  have e: "scan_elems k vs x \<noteq> Inr (JObj d, r)" for k vs x
    by (induction k arbitrary: vs x) (auto split: list.splits if_splits)
  from assms Suc e show ?thesis
    by (cases s) (auto split: if_splits option.splits list.splits simp: scan_number_not_obj)
qed (use assms in simp)

lemma json_loads_obj_closes:
  assumes p: "json_loads j = Inr (JObj obj)" and h: "hd j = 123"
  shows "\<exists>t r. j = 123 # t \<and> closes 0 t r \<and> skip_ws r = []"
proof -
  have "j \<noteq> []" using p by (auto simp: json_loads_def skip_ws_def starts_with_def)
  with h obtain t where j: "j = 123 # t" by (cases j) auto
  have w: "skip_ws j = j" by (simp add: j skip_ws_def json_ws_def)
  from p w obtain r where s: "scan_once (2 * length j + 2) j = Inr (JObj obj, r)"
    and r: "skip_ws r = []"
    by (auto simp: json_loads_def split: if_splits)
  from s obtain d r1 where r1: "skip_ws t = d # r1"
    by (auto simp: j split: list.splits)
  have "closes 0 (d # r1) r"
  proof (cases "d = 125")
    case True
    with s r1 show ?thesis by (simp add: j closes_brace)
  next
    case False
    with s r1 have "scan_members (Suc (2 * length j)) [] (d # r1) = Inr (JObj obj, r)"
      by (simp add: j)
    then show ?thesis by (rule scanner_agrees(2)) simp
  qed
  with passes_skip_ws [of 1 t] r1 have "closes 0 t r"
    using passes_closes [of 0 t] by simp
  with j r show ?thesis by blast
qed

lemma balanced_end_append:
  "balanced_end d q x cs k = Some m \<Longrightarrow> balanced_end d q x (cs @ ds) k = Some m"
  by (induction d q x cs k rule: balanced_end.induct) (auto split: if_splits)

lemma scan_balanced_document:
  assumes p: "json_loads j = Inr (JObj obj)" and h: "hd j = 123" and l: "\<not> json_ws (last j)"
  shows "scan_balanced_json (pre @ j @ post) (length pre) = (Some obj, length pre + length j - 1)"
proof -
  obtain t r where j: "j = 123 # t" and c: "closes 0 t r" and r: "skip_ws r = []"
    using json_loads_obj_closes [OF p h] by blast
  have "r = []"
  proof (rule ccontr)
    assume ne: "r \<noteq> []"
    from c obtain p where "t = p @ r" by (auto simp: closes_def)
    with ne j have "last j = last r" by simp
    moreover have "last r \<in> set r" using ne by simp
    ultimately show False using r l by (auto simp: skip_ws_def)
  qed
  with c have "balanced_end 0 False False j k = Some (k + length j - 1)" for k
    by (simp add: j closes_def)
  from balanced_end_append [OF this, of post]
  have b: "balanced_end 0 False False (j @ post) (length pre) = Some (length pre + length j - 1)"
    by simp
  have "slice (pre @ j @ post) (length pre) (length pre + length j - 1 + 1) = j"
    by (simp add: slice_def j)
  with b p show ?thesis by (simp add: scan_balanced_json_def)
qed

text \<open>Every object that starts in the first \<open>m\<close> characters of \<open>s\<close> also ends there.\<close>

definition objects_end_before :: "ustr \<Rightarrow> nat \<Rightarrow> bool" where
  "objects_end_before s m \<longleftrightarrow>
     (\<forall>i < m. s ! i = 123 \<longrightarrow>
        (case scan_balanced_json s i of (Some _, e) \<Rightarrow> e < m | (None, _) \<Rightarrow> True))"

lemma extract_loop_skip:
  "objects_end_before s m \<Longrightarrow> m \<le> length s \<Longrightarrow> i \<le> m \<Longrightarrow> be < int i \<Longrightarrow>
    \<exists>b' be'. be' < int m \<and> extract_loop s i b be = extract_loop s m b' be'"
proof (induction s i b be rule: extract_loop.induct)
  case (1 s i b be)
  show ?case
  proof (cases "i = m")
    case True
    with "1.prems" show ?thesis by blast
  next
    case False
    with "1.prems" have im: "i < m" and il: "i < length s" by auto
    obtain x e where x: "scan_balanced_json s i = (x, e)" by fastforce
    consider (plain) "s ! i \<noteq> 123" | (fail) "s ! i = 123" "x = None"
      | (object) obj where "s ! i = 123" "x = Some obj" by (cases x) auto
    then show ?thesis
    proof cases
      case plain
      with il have "extract_loop s i b be = extract_loop s (i + 1) b be"
        by (subst extract_loop.simps) simp
      with "1.IH"(1) [OF il plain] "1.prems" im show ?thesis by simp
    next
      case fail
      with il x have "extract_loop s i b be = extract_loop s (i + 1) b be"
        by (subst extract_loop.simps) simp
      with "1.IH"(2) [OF il _ x [symmetric] fail(2)] fail "1.prems" im show ?thesis by simp
    next
      case object
      have em: "e < m"
        using "1.prems"(1) im x object by (auto simp: objects_end_before_def)
      have be: "be < int e"
        using scan_balanced_json_end [of s i obj e] x object "1.prems" by simp
      from il x object be have "extract_loop s i b be = extract_loop s (e + 1) (Some obj) (int e)"
        by (subst extract_loop.simps) simp
      with "1.IH"(3) [OF il _ x [symmetric] object(2) be] object "1.prems" em show ?thesis by simp
    qed
  qed
qed

text \<open>
  The JSON document at the end of a reply is the object the reward reads, whatever
  the thinking before it contains (braces, unfinished JSON, JSON of its own), as long as
  no JSON object that starts in the thinking runs into the document.
\<close>

theorem extract_trailing_object:
  assumes parses: "json_loads j = Inr (JObj obj)" and first: "hd j = 123" and final: "last j = 125"
    and before: "objects_end_before (pre @ j @ post) (length pre)" and after: "123 \<notin> set post"
  shows "extract_last_json_obj (pre @ j @ post) = Some obj"
proof -
  let ?s = "pre @ j @ post" and ?m = "length pre" and ?e = "length pre + length j - 1"
  have ne: "j \<noteq> []" using parses by (auto simp: json_loads_def skip_ws_def starts_with_def)
  then have e: "?m \<le> ?e" "?e + 1 = ?m + length j" by (cases j; simp)+
  obtain b' be' where be: "be' < int ?m"
    and eq: "extract_loop ?s 0 None (-1) = extract_loop ?s ?m b' be'"
    using extract_loop_skip [OF before, where i = 0 and be = "-1" and b = None] by auto
  have sc: "scan_balanced_json ?s ?m = (Some obj, ?e)"
    by (rule scan_balanced_document [OF parses first]) (simp add: final json_ws_def)
  have at: "?s ! ?m = 123" "?m < length ?s"
    using ne first by (cases j; simp add: nth_append)+
  from be e have "be' < int ?e" by linarith
  with sc at have "extract_loop ?s ?m b' be' = extract_loop ?s (?e + 1) (Some obj) (int ?e)"
    by (subst extract_loop.simps) simp
  moreover have "extract_loop ?s (?e + 1) (Some obj) (int ?e) = Some obj"
  proof -
    have "?s ! i \<noteq> 123" if "?e + 1 \<le> i" "i < length ?s" for i
      using that e(2) after by (auto simp: nth_append in_set_conv_nth)
    with extract_loop_spec [of "int ?e" "?e + 1" ?s "Some obj"] show ?thesis by auto
  qed
  ultimately show ?thesis using ne eq by (simp add: extract_last_json_obj_def)
qed

theorem extract_trailing_object_witness:
  "extract_last_json_obj (u ''set {A, B} and {}: '' @ u ''{\"answer\": \"B\"}'' @ u '' done'')
    = Some [(u ''answer'', JStr (u ''B''))]"
proof (rule extract_trailing_object)
  have "list_all (\<lambda>i. (u ''set {A, B} and {}: '' @ u ''{\"answer\": \"B\"}'' @ u '' done'') ! i = 123 \<longrightarrow>
        (case scan_balanced_json (u ''set {A, B} and {}: '' @ u ''{\"answer\": \"B\"}'' @ u '' done'') i of
           (Some _, e) \<Rightarrow> e < length (u ''set {A, B} and {}: '') | (None, _) \<Rightarrow> True))
      [0..<length (u ''set {A, B} and {}: '')]"
    by code_simp
  then show "objects_end_before (u ''set {A, B} and {}: '' @ u ''{\"answer\": \"B\"}'' @ u '' done'')
      (length (u ''set {A, B} and {}: ''))"
    by (auto simp: objects_end_before_def list_all_iff)
qed code_simp+

text \<open>
  The documentation of \<open>_extract_last_json_obj\<close> promises the object that ends last. The
  loop jumps over the inside of a successful candidate, so an object that starts inside a
  string literal of that candidate and ends after it is not considered.
\<close>

theorem extract_not_latest_end:
  "\<exists>s j obj obj'. s ! j = 123 \<and> scan_balanced_json s j = (Some obj', length s - 1)
     \<and> extract_last_json_obj s = Some obj \<and> obj \<noteq> obj'"
proof (intro exI conjI)
  let ?s = "u ''{\"a\":\"{\"}\":1}''"
  show "?s ! 6 = 123" by code_simp
  show "scan_balanced_json ?s 6 = (Some [(u ''}'', JInt 1)], length ?s - 1)" by code_simp
  show "extract_last_json_obj ?s = Some [(u ''a'', JStr (u ''{''))]" by code_simp
  show "[(u ''a'', JStr (u ''{''))] \<noteq> [(u ''}'', JInt 1)]" by code_simp
qed

end
