(* ===== verification/Extract.thy ===== *)
theory Extract
  imports JsonScan
begin

text \<open>
  What \<^verbatim>\<open>json_answer_reward.py\<close> reads out of a reply, of the ground truth and of the
  sample's metadata: the answers (\<open>_normalize_answer\<close>, \<open>_parse_gt_answer\<close>,
  \<open>_extract_json_answer\<close>, \<open>score_json_answer\<close>), the thinking block and its last sentence
  (\<open>_extract_thinking\<close>, \<open>_extract_last_sentence\<close>) and the A/B options of the question
  (\<open>_prompt_text\<close>, \<open>_extract_ab_options\<close>). The code's regular expressions are written out as
  scanners, each next to the pattern it stands for.
\<close>

section \<open>Answers\<close>

definition normalize_answer :: "(pyfloat \<Rightarrow> ustr) \<Rightarrow> json \<Rightarrow> ustr option" where
  "normalize_answer fr ans =
     (if ans = JNull then None
      else (let s = py_lower (py_strip (py_str fr ans));
                s = (if starts_with [40] s \<and> ends_with [41] s then py_strip (butlast (tl s)) else s)
            in if s = [] then None else Some s))"

text \<open>The pattern \<^verbatim>\<open>"answer"\s*:\s*"([^"]*)"\<close> at the front of a text: its group and the text after it.\<close>

definition key_answer :: ustr where
  "key_answer = [97, 110, 115, 119, 101, 114]"

definition answer_at :: "ustr \<Rightarrow> (ustr \<times> ustr) option" where
  "answer_at s =
     (if \<not> starts_with ([34] @ key_answer @ [34]) s then None
      else (case dropWhile is_space (drop 8 s) of
          c # r \<Rightarrow>
            if c \<noteq> 58 then None
            else (case dropWhile is_space r of
                q # t \<Rightarrow>
                  if q \<noteq> 34 then None
                  else (case dropWhile (\<lambda>x. x \<noteq> 34) t of
                      _ # rest \<Rightarrow> Some (takeWhile (\<lambda>x. x \<noteq> 34) t, rest)
                    | [] \<Rightarrow> None)
              | [] \<Rightarrow> None)
        | [] \<Rightarrow> None))"

lemma dropWhile_Cons_length: "dropWhile P s = c # r \<Longrightarrow> length r < length s"
  by (metis length_Cons length_dropWhile_le less_eq_Suc_le)

lemma answer_at_length: "answer_at s = Some (g, rest) \<Longrightarrow> length rest < length s"
  by (auto simp: answer_at_def split: if_splits list.splits dest!: dropWhile_Cons_length)

function findall_answer :: "ustr \<Rightarrow> ustr list" where
  "findall_answer s =
     (case s of [] \<Rightarrow> []
      | c # t \<Rightarrow> (case answer_at s of
          Some (g, rest) \<Rightarrow> g # findall_answer rest
        | None \<Rightarrow> findall_answer t))"
  by pat_completeness auto
termination
  by (relation "measure length") (auto dest: answer_at_length)

declare findall_answer.simps [simp del]

text \<open>The pattern \<^verbatim>\<open>\{[^{}]*\}\<close>, all matches from left to right.\<close>

function flat_braces :: "ustr \<Rightarrow> ustr list" where
  "flat_braces s =
     (case s of [] \<Rightarrow> []
      | c # r \<Rightarrow>
        if c \<noteq> 123 then flat_braces r
        else (case dropWhile (\<lambda>x. x \<noteq> 123 \<and> x \<noteq> 125) r of
            d # t \<Rightarrow>
              if d = 125 then ([123] @ takeWhile (\<lambda>x. x \<noteq> 123 \<and> x \<noteq> 125) r @ [125]) # flat_braces t
              else flat_braces r
          | [] \<Rightarrow> flat_braces r))"
  by pat_completeness auto
termination
  by (relation "measure length") (auto dest!: dropWhile_Cons_length)

declare flat_braces.simps [simp del]

text \<open>The loop over the candidates: the answer of the last candidate that parses to a dict
  with an answer key.\<close>

fun last_flat_answer :: "json \<Rightarrow> ustr list \<Rightarrow> json" where
  "last_flat_answer last_answer [] = last_answer"
| "last_flat_answer last_answer (cand # cands) =
     (case json_loads cand of
        Inr (JObj obj) \<Rightarrow>
          last_flat_answer
            (if has_key obj key_answer then dict_get obj key_answer else last_answer) cands
      | _ \<Rightarrow> last_flat_answer last_answer cands)"

definition parse_gt_answer :: "(pyfloat \<Rightarrow> ustr) \<Rightarrow> json \<Rightarrow> ustr option" where
  "parse_gt_answer fr ground_truth =
     (case ground_truth of
        JNull \<Rightarrow> None
      | JObj d \<Rightarrow> normalize_answer fr (dict_get d key_answer)
      | _ \<Rightarrow>
        (let gt_str = py_strip (py_str fr ground_truth);
             by_regex = (case findall_answer gt_str of g # _ \<Rightarrow> normalize_answer fr (JStr g) | [] \<Rightarrow> None)
         in if starts_with [123] gt_str then
              (case json_loads gt_str of
                 Inr (JObj obj) \<Rightarrow>
                   if has_key obj key_answer then normalize_answer fr (dict_get obj key_answer)
                   else by_regex
               | _ \<Rightarrow> by_regex)
            else normalize_answer fr (JStr gt_str)))"

definition extract_json_answer :: "(pyfloat \<Rightarrow> ustr) \<Rightarrow> ustr \<Rightarrow> ustr option" where
  "extract_json_answer fr solution_str =
     (if solution_str = [] then None
      else (let last_answer = last_flat_answer JNull (flat_braces solution_str) in
            if last_answer \<noteq> JNull then normalize_answer fr last_answer
            else (let m = findall_answer solution_str in
                  if m \<noteq> [] then normalize_answer fr (JStr (last m)) else None)))"

definition score_json_answer :: "(pyfloat \<Rightarrow> ustr) \<Rightarrow> ustr \<Rightarrow> json \<Rightarrow> real" where
  "score_json_answer fr solution_str ground_truth =
     (case parse_gt_answer fr ground_truth of
        None \<Rightarrow> 0
      | Some gt \<Rightarrow>
        (case extract_json_answer fr solution_str of
           None \<Rightarrow> 0
         | Some pred \<Rightarrow> if pred = gt then 1 else 0))"

section \<open>Thinking\<close>

definition think_open :: ustr where
  "think_open = [60, 116, 104, 105, 110, 107, 62]"

definition think_close :: ustr where
  "think_close = [60, 47, 116, 104, 105, 110, 107, 62]"

definition extract_thinking :: "ustr \<Rightarrow> ustr" where
  "extract_thinking solution_str =
     (case py_rfind think_close solution_str of
        None \<Rightarrow> []
      | Some e \<Rightarrow>
        (let prefix = take e solution_str in
         case py_rfind think_open prefix of
           None \<Rightarrow> py_strip prefix
         | Some start \<Rightarrow> py_strip (drop (start + length think_open) prefix)))"

text \<open>Sentence ends: \<^verbatim>\<open>! ?\<close> and the full-width stop, exclamation and question marks cut at
  once; an ASCII stop cuts before whitespace. The whitespace after a cut is dropped.\<close>

definition sentence_end :: "int \<Rightarrow> bool" where
  "sentence_end c \<longleftrightarrow> c = 33 \<or> c = 63 \<or> c = 12290 \<or> c = 65281 \<or> c = 65311"

function split_sentences :: "ustr \<Rightarrow> ustr \<Rightarrow> ustr list" where
  "split_sentences acc s =
     (case s of [] \<Rightarrow> [rev acc]
      | c # cs \<Rightarrow>
        if sentence_end c \<or> c = 46 \<and> (case cs of d # _ \<Rightarrow> is_space d | [] \<Rightarrow> False)
        then rev (c # acc) # split_sentences [] (dropWhile is_space cs)
        else split_sentences (c # acc) cs)"
  by pat_completeness auto
termination
  by (relation "measure (\<lambda>(acc, s). length s)") (auto simp: le_imp_less_Suc length_dropWhile_le)

declare split_sentences.simps [simp del]

definition extract_last_sentence :: "ustr \<Rightarrow> ustr" where
  "extract_last_sentence thinking =
     (let normalized = py_strip (py_join [32] (py_split thinking)) in
      if normalized = [] then []
      else (let sentences = filter (\<lambda>p. p \<noteq> []) (map py_strip (split_sentences [] normalized))
            in if sentences \<noteq> [] then last sentences else normalized))"

section \<open>The options of the question\<close>

definition is_blank :: "int \<Rightarrow> bool" where
  "is_blank c \<longleftrightarrow> c = 32 \<or> c = 9"

text \<open>\<open>OPTION\<close> under \<open>re.IGNORECASE\<close>, which also equates \<open>I\<close> with U+0130 and U+0131.\<close>

definition option_letter_matches :: "int \<Rightarrow> int \<Rightarrow> bool" where
  "option_letter_matches l c \<longleftrightarrow> lower_cp c = l \<or> l = 105 \<and> (c = 304 \<or> c = 305)"

definition skip_option_word :: "ustr \<Rightarrow> ustr" where
  "skip_option_word s =
     (if length s \<ge> 7 \<and> list_all2 option_letter_matches [111, 112, 116, 105, 111, 110] (take 6 s)
         \<and> is_blank (s ! 6)
      then dropWhile is_blank (drop 6 s) else s)"

definition option_sep :: "int \<Rightarrow> bool" where
  "option_sep c \<longleftrightarrow> c = 46 \<or> c = 65294 \<or> c = 41 \<or> c = 58 \<or> c = 65306"

text \<open>
  One line against \<open>_OPTION_LINE_RE\<close>: the letter as written and the option text. When
  only blanks follow the separator, the lazy group takes the last of them.
\<close>

definition option_line :: "ustr \<Rightarrow> (int \<times> ustr) option" where
  "option_line line =
     (case skip_option_word (dropWhile is_blank line) of
        c # r \<Rightarrow>
          if lower_cp c \<noteq> 97 \<and> lower_cp c \<noteq> 98 then None
          else (case dropWhile is_blank r of
              p # t \<Rightarrow>
                if \<not> option_sep p then None
                else (case rev (dropWhile is_blank (rev (dropWhile is_blank t))) of
                    [] \<Rightarrow> if t = [] then None else Some (c, [last t])
                  | body \<Rightarrow> Some (c, body))
            | [] \<Rightarrow> None)
      | [] \<Rightarrow> None)"

definition option_lines :: "ustr \<Rightarrow> (int \<times> ustr) list" where
  "option_lines text = List.map_filter option_line (split_on 10 text)"

lemma map_of_size: "map_of kvs k = Some v \<Longrightarrow> size v < Suc (size_list (size_prod (\<lambda>x. 0) size) kvs)"
proof -
  assume "map_of kvs k = Some v"
  then have "(k, v) \<in> set kvs" by (rule map_of_SomeD)
  then have "size_prod (\<lambda>x. 0) size (k, v) \<le> size_list (size_prod (\<lambda>x. 0) size) kvs"
    by (rule size_list_estimation') simp
  then show ?thesis by simp
qed

definition key_content :: ustr where "key_content = [99, 111, 110, 116, 101, 110, 116]"
definition key_text :: ustr where "key_text = [116, 101, 120, 116]"

function prompt_text :: "json \<Rightarrow> ustr" where
  "prompt_text value =
     (case value of
        JStr s \<Rightarrow> s
      | JArr vs \<Rightarrow> py_join [10] (filter (\<lambda>p. p \<noteq> []) (map prompt_text vs))
      | JObj d \<Rightarrow>
        (case map_of d key_content of
           Some v \<Rightarrow>
             if v \<noteq> JNull then prompt_text v
             else (case map_of d key_text of
                     Some w \<Rightarrow> if w \<noteq> JNull then prompt_text w else [] | None \<Rightarrow> [])
         | None \<Rightarrow>
           (case map_of d key_text of
              Some w \<Rightarrow> if w \<noteq> JNull then prompt_text w else [] | None \<Rightarrow> []))
      | _ \<Rightarrow> [])"
  by pat_completeness auto
termination
  by (relation "measure size") (auto dest: map_of_size simp: less_Suc_eq_le size_list_estimation')

declare prompt_text.simps [simp del]

definition key_option_a :: ustr where "key_option_a = [111, 112, 116, 105, 111, 110, 95, 97]"
definition key_option_b :: ustr where "key_option_b = [111, 112, 116, 105, 111, 110, 95, 98]"
definition key_question :: ustr where "key_question = [113, 117, 101, 115, 116, 105, 111, 110]"
definition key_prompt :: ustr where "key_prompt = [112, 114, 111, 109, 112, 116]"
definition key_input :: ustr where "key_input = [105, 110, 112, 117, 116]"

text \<open>The option texts by upper-case letter; a later line overwrites an earlier one.\<close>

definition option_table :: "ustr \<Rightarrow> (int \<times> ustr) list" where
  "option_table text =
     rev (map (\<lambda>(l, t). (if 97 \<le> l then l - 32 else l, py_strip t))
       (filter (\<lambda>(l, t). py_strip t \<noteq> []) (option_lines text)))"

definition first_prompt_text :: "dict \<Rightarrow> ustr" where
  "first_prompt_text info =
     (let q = prompt_text (dict_get info key_question); p = prompt_text (dict_get info key_prompt)
      in if q \<noteq> [] then q else if p \<noteq> [] then p else prompt_text (dict_get info key_input))"

definition options_from_prompt :: "dict \<Rightarrow> (ustr \<times> ustr) py" where
  "options_from_prompt info =
     (let options = option_table (first_prompt_text info)
      in case (map_of options 65, map_of options 66) of
           (Some a, Some b) \<Rightarrow> Inr (a, b)
         | _ \<Rightarrow> Inl ValueError)"

definition extract_ab_options :: "json \<Rightarrow> (ustr \<times> ustr) py" where
  "extract_ab_options extra_info =
     (case extra_info of
        JObj info \<Rightarrow>
          (case (dict_get info key_option_a, dict_get info key_option_b) of
             (JStr a, JStr b) \<Rightarrow>
               if py_strip a \<noteq> [] \<and> py_strip b \<noteq> [] then Inr (py_strip a, py_strip b)
               else options_from_prompt info
           | _ \<Rightarrow> options_from_prompt info)
      | _ \<Rightarrow> Inl ValueError)"

section \<open>Facts about answers\<close>

lemma lower_cp_eq [simp]: "lower_cp c = 40 \<longleftrightarrow> c = 40" "lower_cp c = 41 \<longleftrightarrow> c = 41"
  by (auto simp: lower_cp_def)

lemma dropWhile_is_space_lower: "dropWhile is_space (map lower_cp s) = map lower_cp (dropWhile is_space s)"
  by (simp add: dropWhile_map comp_def)

lemma strip_lower: "py_strip (py_lower s) = py_lower (py_strip s)"
  by (simp add: py_strip_def py_lower_def lstrip_def rstrip_def dropWhile_is_space_lower rev_map)

lemma strip_pad:
  assumes "\<forall>c \<in> set p. is_space c" and "\<forall>c \<in> set q. is_space c"
  shows "py_strip (p @ s @ q) = py_strip s"
proof -
  have l: "lstrip (p @ s @ q) = lstrip (s @ q)"
    using assms(1) by (simp add: lstrip_def dropWhile_append2)
  have r: "rstrip (t @ q) = rstrip t" for t
  proof -
    have "dropWhile is_space (rev q @ rev t) = dropWhile is_space (rev t)"
      by (rule dropWhile_append2) (use assms(2) in auto)
    then show ?thesis by (simp add: rstrip_def)
  qed
  show ?thesis
  proof (cases "\<exists>c \<in> set s. \<not> is_space c")
    case True
    then have "lstrip (s @ q) = lstrip s @ q"
      by (auto simp: lstrip_def dropWhile_append1)
    with l r show ?thesis by (simp add: py_strip_def)
  next
    case False
    with assms(2) have "lstrip (s @ q) = []" "lstrip s = []"
      by (auto simp: lstrip_def)
    with l show ?thesis by (simp add: py_strip_def rstrip_def)
  qed
qed

lemma starts_with_lower: "starts_with [40] (py_lower s) = starts_with [40] s"
  by (cases s) (auto simp: starts_with_def py_lower_def)

lemma ends_with_lower: "ends_with [41] (py_lower s) = ends_with [41] s"
  by (cases s rule: rev_cases) (auto simp: ends_with_def py_lower_def)

lemma normalize_answer_lower_strip:
  "normalize_answer fr (JStr s) =
     (let t = py_strip s;
          v = py_lower (if starts_with [40] t \<and> ends_with [41] t then py_strip (butlast (tl t)) else t)
      in if v = [] then None else Some v)"
proof -
  have "py_strip (butlast (tl (py_lower t))) = py_lower (py_strip (butlast (tl t)))" for t
    unfolding strip_lower [symmetric] by (simp add: py_lower_def map_butlast map_tl)
  then show ?thesis
    by (simp add: normalize_answer_def Let_def starts_with_lower ends_with_lower)
qed

text \<open>
  The spellings of a choice are one answer: surrounding whitespace, letter case and one
  pair of parentheses make no difference to \<open>_normalize_answer\<close>.
\<close>

theorem normalize_answer_spelling:
  assumes "\<forall>c \<in> set p. is_space c" and "\<forall>c \<in> set q. is_space c"
    and "\<not> (starts_with [40] (py_strip a) \<and> ends_with [41] (py_strip a))"
  shows "normalize_answer fr (JStr (p @ a @ q)) = normalize_answer fr (JStr a)
    \<and> normalize_answer fr (JStr (py_lower a)) = normalize_answer fr (JStr a)
    \<and> normalize_answer fr (JStr (p @ [40] @ a @ [41] @ q)) = normalize_answer fr (JStr a)"
proof (intro conjI)
  have s: "py_strip (p @ ([40] @ a @ [41]) @ q) = [40] @ a @ [41]"
    by (subst strip_pad [OF assms(1,2)], rule strip_fixed) (simp add: is_space_def)
  show "normalize_answer fr (JStr (p @ a @ q)) = normalize_answer fr (JStr a)"
    by (simp only: normalize_answer_lower_strip strip_pad [OF assms(1,2)])
  show "normalize_answer fr (JStr (py_lower a)) = normalize_answer fr (JStr a)"
    by (simp add: normalize_answer_def strip_lower)
  show "normalize_answer fr (JStr (p @ [40] @ a @ [41] @ q)) = normalize_answer fr (JStr a)"
  proof -
    have "normalize_answer fr (JStr a) =
        (let v = py_lower (py_strip a) in if v = [] then None else Some v)"
      using assms(3) by (simp only: normalize_answer_lower_strip Let_def if_False)
    moreover have "starts_with [40] ([40] @ a @ [41])" "ends_with [41] ([40] @ a @ [41])"
      "butlast (tl ([40] @ a @ [41])) = a"
      by (simp_all add: starts_with_def ends_with_def butlast_append)
    ultimately show ?thesis
      using s by (simp add: normalize_answer_lower_strip Let_def)
  qed
qed

theorem normalize_answer_spelling_witness:
  "normalize_answer fr (JStr (u '' '' @ u ''B'' @ u '' '')) = normalize_answer fr (JStr (u ''B''))
    \<and> normalize_answer fr (JStr (py_lower (u ''B''))) = normalize_answer fr (JStr (u ''B''))
    \<and> normalize_answer fr (JStr (u '' '' @ [40] @ u ''B'' @ [41] @ u '' '')) = normalize_answer fr (JStr (u ''B''))"
  by (rule normalize_answer_spelling) code_simp+

section \<open>Facts about the flat scan for the answer\<close>

lemma flat_braces_skip: "123 \<notin> set pre \<Longrightarrow> flat_braces (pre @ s) = flat_braces s"
  by (induction pre) (auto simp: flat_braces.simps [of "_ # _"])

lemma flat_braces_none: "123 \<notin> set s \<Longrightarrow> flat_braces s = []"
  using flat_braces_skip [of s "[]"] by (simp add: flat_braces.simps)

lemma flat_braces_one:
  assumes "123 \<notin> set pre" and "123 \<notin> set body" and "125 \<notin> set body" and "123 \<notin> set post"
  shows "flat_braces (pre @ ([123] @ body @ [125]) @ post) = [[123] @ body @ [125]]"
proof -
  have d: "dropWhile (\<lambda>x. x \<noteq> 123 \<and> x \<noteq> 125) (body @ 125 # post) = 125 # post"
    and t: "takeWhile (\<lambda>x. x \<noteq> 123 \<and> x \<noteq> 125) (body @ 125 # post) = body"
    using assms(2,3) by (induction body) auto
  show ?thesis
    unfolding flat_braces_skip [OF assms(1)]
    using d t flat_braces_none [OF assms(4)] by (subst flat_braces.simps) simp
qed

text \<open>
  The pure answer reward, end to end. A reply whose only braces are those of one flat
  JSON object with an answer scores 1 when that answer normalizes to the ground truth's
  answer, and 0 otherwise.
\<close>

theorem score_json_answer_reply:
  assumes "123 \<notin> set pre" and "123 \<notin> set body" and "125 \<notin> set body" and "123 \<notin> set post"
    and "json_loads ([123] @ body @ [125]) = Inr (JObj d)"
    and "map_of d key_answer = Some a" and "a \<noteq> JNull"
  shows "score_json_answer fr (pre @ ([123] @ body @ [125]) @ post) gt =
    (if parse_gt_answer fr gt \<noteq> None \<and> normalize_answer fr a = parse_gt_answer fr gt then 1 else 0)"
proof -
  have "last_flat_answer JNull (flat_braces (pre @ ([123] @ body @ [125]) @ post)) = a"
    unfolding flat_braces_one [OF assms(1-4)]
    using assms(5,6) by (simp add: has_key_def dict_get_def)
  with assms(7) have "extract_json_answer fr (pre @ ([123] @ body @ [125]) @ post) = normalize_answer fr a"
    by (simp add: extract_json_answer_def)
  then show ?thesis
    by (auto simp: score_json_answer_def split: option.splits)
qed

theorem score_json_answer_reply_witness:
  "score_json_answer (\<lambda>_. []) (u ''<think>x</think>'' @ ([123] @ u ''\"answer\": \" (B) \"'' @ [125]) @ [])
     (JStr (u ''{\"answer\": \"b\"}'')) = 1"
proof -
  have d: "json_loads ([123] @ u ''\"answer\": \" (B) \"'' @ [125]) = Inr (JObj [(key_answer, JStr (u '' (B) ''))])"
    by code_simp
  have g: "parse_gt_answer (\<lambda>_. []) (JStr (u ''{\"answer\": \"b\"}'')) = Some (u ''b'')"
    by code_simp
  have n: "normalize_answer (\<lambda>_. []) (JStr (u '' (B) '')) = Some (u ''b'')"
    by code_simp
  have "123 \<notin> set (u ''<think>x</think>'')" "123 \<notin> set (u ''\"answer\": \" (B) \"'')"
    "125 \<notin> set (u ''\"answer\": \" (B) \"'')"
    by code_simp+
  from score_json_answer_reply [OF this(1,2,3) _ d, of "[]" "JStr (u '' (B) '')" "\<lambda>_. []" "JStr (u ''{\"answer\": \"b\"}'')"]
  show ?thesis by (simp add: g n)
qed

section \<open>Facts about thinking\<close>

lemma py_rfindI:
  assumes "starts_with p (drop k s)" and "k \<le> length s" and "p \<noteq> []"
    and later: "\<And>j. k < j \<Longrightarrow> j \<le> length s \<Longrightarrow> \<not> starts_with p (drop j s)"
  shows "py_rfind p s = Some k"
proof (cases "py_rfind p s")
  case None
  with assms show ?thesis using py_rfind_None by blast
next
  case (Some k')
  with py_rfind_Some [OF Some] py_rfind_last [OF Some, of k] later [of k'] assms
  show ?thesis by (metis linorder_neqE_nat)
qed

text \<open>The tag that starts a suffix made of the tag and a text without it is the last one.\<close>

lemma rfind_tag:
  assumes no: "\<And>i. i \<le> length t \<Longrightarrow> \<not> starts_with tag (drop i t)"
    and tag: "tag = 60 # tl tag" and once: "60 \<notin> set (tl tag)"
  shows "py_rfind tag (pre @ tag @ t) = Some (length pre)"
proof (rule py_rfindI)
  show "starts_with tag (drop (length pre) (pre @ tag @ t))" by simp
  show "tag \<noteq> []" using tag by (metis list.distinct(1))
next
  fix j
  assume j: "length pre < j" "j \<le> length (pre @ tag @ t)"
  define i where "i = j - length pre"
  have d: "drop j (pre @ tag @ t) = drop i (tag @ t)" using j by (simp add: i_def)
  have i: "0 < i" "i \<le> length tag + length t" using j by (auto simp: i_def)
  show "\<not> starts_with tag (drop j (pre @ tag @ t))"
  proof (cases "i < length tag")
    case False
    then have "drop i (tag @ t) = drop (i - length tag) t" by simp
    with no [of "i - length tag"] i False show ?thesis unfolding d by simp
  next
    case True
    then have "drop i tag \<noteq> []" by simp
    then obtain c r where c: "drop i tag = c # r" by (cases "drop i tag") auto
    have "c \<in> set (tl tag)"
      using c i(1) by (metis drop_Suc gr0_implies_Suc list.set_intros(1) in_set_dropD)
    with once have "c \<noteq> 60" by blast
    then have "\<not> starts_with (60 # tl tag) (c # r @ t)"
      by (simp add: starts_with_def)
    with tag True c show ?thesis unfolding d by simp
  qed
qed simp

text \<open>
  \<open>_extract_thinking\<close> returns the stripped text of the last thinking block, whatever
  precedes the block and whatever follows it.
\<close>

theorem extract_thinking_block:
  assumes "\<forall>i \<le> length t. \<not> starts_with think_open (drop i t)"
    and "\<forall>i \<le> length post. \<not> starts_with think_close (drop i post)"
  shows "extract_thinking (pre @ think_open @ t @ think_close @ post) = py_strip t"
proof -
  let ?s = "(pre @ think_open @ t) @ think_close @ post"
  have "py_rfind think_close ?s = Some (length (pre @ think_open @ t))"
    using assms(2) by (intro rfind_tag) (auto simp: think_close_def)
  moreover have "py_rfind think_open (pre @ think_open @ t) = Some (length pre)"
    using assms(1) by (intro rfind_tag) (auto simp: think_open_def)
  ultimately have "extract_thinking ?s = py_strip t"
    by (simp add: extract_thinking_def)
  then show ?thesis by simp
qed

theorem extract_thinking_block_witness:
  "extract_thinking (u ''a'' @ think_open @ u '' yes. '' @ think_close @ u ''{}'') = u ''yes.''"
proof -
  have "list_all (\<lambda>i. \<not> starts_with think_open (drop i (u '' yes. ''))) [0..<Suc (length (u '' yes. ''))]"
    "list_all (\<lambda>i. \<not> starts_with think_close (drop i (u ''{}''))) [0..<Suc (length (u ''{}''))]"
    by code_simp+
  then have "\<forall>i \<le> length (u '' yes. ''). \<not> starts_with think_open (drop i (u '' yes. ''))"
    "\<forall>i \<le> length (u ''{}''). \<not> starts_with think_close (drop i (u ''{}''))"
    by (simp_all only: list_all_iff set_upt atLeastLessThan_iff) auto
  from extract_thinking_block [OF this, of "u ''a''"] have
    "extract_thinking (u ''a'' @ think_open @ u '' yes. '' @ think_close @ u ''{}'') = py_strip (u '' yes. '')" .
  also have "py_strip (u '' yes. '') = u ''yes.''" by code_simp
  finally show ?thesis .
qed

section \<open>Facts about the last sentence\<close>

abbreviation sentence_parts :: "ustr \<Rightarrow> ustr \<Rightarrow> ustr list" where
  "sentence_parts acc s \<equiv> filter (\<lambda>p. p \<noteq> []) (map py_strip (split_sentences acc s))"

lemma strip_keeps_end:
  assumes s: "s \<noteq> []" "\<not> is_space (last s)"
  shows "py_strip s \<noteq> [] \<and> (\<exists>p. s = p @ py_strip s)"
proof -
  have split: "s = takeWhile is_space s @ lstrip s"
    by (simp add: lstrip_def)
  have ne: "lstrip s \<noteq> []"
    using s by (auto simp: lstrip_def dropWhile_eq_Nil_conv)
  then have "last (lstrip s) = last s"
    by (metis split last_appendR)
  with s ne have "rstrip (lstrip s) = lstrip s"
    by (cases "lstrip s" rule: rev_cases) (simp_all add: rstrip_def)
  with split ne show ?thesis by (auto simp: py_strip_def)
qed

lemmas strip_suffix = strip_keeps_end [THEN conjunct2]
  and strip_nonempty = strip_keeps_end [THEN conjunct1]

lemma sentence_parts_suffix:
  "rev acc @ s \<noteq> [] \<Longrightarrow> \<not> is_space (last (rev acc @ s)) \<Longrightarrow>
   sentence_parts acc s \<noteq> [] \<and> (\<exists>p. rev acc @ s = p @ last (sentence_parts acc s))"
proof (induction acc s rule: split_sentences.induct)
  case (1 acc s)
  show ?case
  proof (cases s)
    case Nil
    with "1.prems" strip_suffix [of "rev acc"] strip_nonempty [of "rev acc"] show ?thesis
      by (subst (1 2) split_sentences.simps) simp
  next
    case (Cons c cs)
    show ?thesis
    proof (cases "sentence_end c \<or> c = 46 \<and> (case cs of d # _ \<Rightarrow> is_space d | [] \<Rightarrow> False)")
      case True
      let ?w = "rev (c # acc)" and ?rest = "dropWhile is_space cs"
      have eq: "split_sentences acc s = ?w # split_sentences [] ?rest"
        using Cons True by (subst split_sentences.simps) simp
      show ?thesis
      proof (cases "?rest = []")
        case True
        then have "cs = []"
          using "1.prems"(2) Cons by (auto simp: dropWhile_eq_Nil_conv split: if_splits)
        then have w: "rev acc @ s = ?w" "?w \<noteq> []" "\<not> is_space (last ?w)"
          using Cons "1.prems" by simp_all
        have "split_sentences [] ?rest = [[]]"
          unfolding True by (subst split_sentences.simps) simp
        then have "sentence_parts acc s = [py_strip ?w]"
          using strip_nonempty [OF w(2,3)] by (simp add: eq py_strip_def lstrip_def rstrip_def)
        with strip_suffix [OF w(2,3)] w(1) show ?thesis by simp
      next
        case False
        define l where "l = last (sentence_parts [] ?rest)"
        from False have "cs \<noteq> []" by auto
        with last_appendR [OF False, of "takeWhile is_space cs"] Cons
        have "last ?rest = last (rev acc @ s)" by simp
        with "1.prems" have "\<not> is_space (last (rev [] @ ?rest))"
          by (simp only: rev.simps append_Nil not_False_eq_True)
        with "1.IH"(1) [OF Cons True] False have ih: "sentence_parts [] ?rest \<noteq> []"
          "\<exists>p. ?rest = p @ l"
          by (simp_all only: rev.simps append_Nil l_def simp_thms)
        then obtain p where p: "sentence_parts [] ?rest \<noteq> []" "?rest = p @ l" by blast
        have "cs = takeWhile is_space cs @ p @ l"
          using takeWhile_dropWhile_id [of is_space cs] unfolding p(2) by simp
        then have "rev acc @ s = (rev acc @ [c] @ takeWhile is_space cs @ p) @ l"
          by (simp add: Cons)
        moreover have "sentence_parts acc s \<noteq> []" "last (sentence_parts acc s) = l"
          using p(1) by (simp_all add: eq l_def)
        ultimately show ?thesis by blast
      qed
    next
      case False
      then have eq: "split_sentences acc s = split_sentences (c # acc) cs"
        using Cons by (subst split_sentences.simps) auto
      show ?thesis
        unfolding eq using "1.IH"(2) [OF Cons False] "1.prems" Cons by simp
    qed
  qed
qed

text \<open>Only the last character of a piece can be a mark that ends sentences at once.\<close>

lemma split_sentences_marks:
  "\<forall>c \<in> set acc. \<not> sentence_end c \<Longrightarrow> w \<in> set (split_sentences acc s) \<Longrightarrow>
   \<forall>c \<in> set (butlast w). \<not> sentence_end c"
proof (induction acc s rule: split_sentences.induct)
  case (1 acc s)
  show ?case
  proof (cases s)
    case Nil
    with "1.prems" show ?thesis
      by (subst (asm) split_sentences.simps) (cases acc; auto)
  next
    case (Cons c cs)
    show ?thesis
    proof (cases "sentence_end c \<or> c = 46 \<and> (case cs of d # _ \<Rightarrow> is_space d | [] \<Rightarrow> False)")
      case True
      then have eq: "split_sentences acc s = rev (c # acc) # split_sentences [] (dropWhile is_space cs)"
        using Cons by (subst split_sentences.simps) simp
      with "1.prems" "1.IH"(1) [OF Cons True] show ?thesis
        by (auto simp: eq butlast_append)
    next
      case False
      then have eq: "split_sentences acc s = split_sentences (c # acc) cs"
        using Cons by (subst split_sentences.simps) auto
      from False "1.prems"(1) have "\<forall>x \<in> set (c # acc). \<not> sentence_end x" by simp
      with "1.prems"(2) "1.IH"(2) [OF Cons False] show ?thesis unfolding eq by blast
    qed
  qed
qed

lemma set_butlast_strip: "set (butlast (py_strip w)) \<subseteq> set (butlast w)"
proof -
  have l: "set (butlast (dropWhile P x)) \<subseteq> set (butlast x)" for P and x :: ustr
    by (induction x) (auto split: if_splits)
  have r: "set (butlast (rev (dropWhile P (rev x)))) \<subseteq> set (butlast x)" for P and x :: ustr
    by (induction x rule: rev_induct) (auto simp: butlast_append dest: in_set_butlastD split: if_splits)
  show ?thesis
    using l [of is_space w] r [of is_space "lstrip w"]
    by (auto simp: py_strip_def rstrip_def lstrip_def)
qed

lemma py_join_eq_Nil: "\<forall>w \<in> set ws. w \<noteq> [] \<Longrightarrow> py_join sep ws = [] \<longleftrightarrow> ws = []"
  by (cases ws rule: remdups_adj.cases) auto

lemma py_strip_eq_Nil: "py_strip s = [] \<longleftrightarrow> (\<forall>c \<in> set s. is_space c)"
proof
  assume h: "py_strip s = []"
  show "\<forall>c \<in> set s. is_space c"
  proof (rule ccontr)
    assume "\<not> ?thesis"
    then have l: "lstrip s \<noteq> []"
      by (auto simp: lstrip_def dropWhile_eq_Nil_conv)
    then have "\<not> is_space (hd (lstrip s))"
      unfolding lstrip_def by (rule hd_dropWhile)
    with h l show False
      by (auto simp: py_strip_def rstrip_def dropWhile_eq_Nil_conv)
  qed
qed (auto simp: py_strip_def rstrip_def lstrip_def dest: set_dropWhileD)

text \<open>
  The sentence the reasoning gate judges is the literal end of the thinking (with
  whitespace normalized), it is missing only if the thinking is blank, and it holds no
  mark that ends a sentence at once except as its last character.
\<close>

theorem extract_last_sentence_end:
  "(\<exists>p. py_strip (py_join [32] (py_split t)) = p @ extract_last_sentence t)
    \<and> (extract_last_sentence t = [] \<longleftrightarrow> py_strip (py_join [32] (py_split t)) = [])
    \<and> filter sentence_end (butlast (extract_last_sentence t)) = []"
proof -
  define n where "n = py_strip (py_join [32] (py_split t))"
  show ?thesis
  proof (cases "n = []")
    case True
    then show ?thesis by (simp add: extract_last_sentence_def n_def)
  next
    case False
    have "\<not> is_space (last n)"
      using py_strip_last False by (simp add: n_def)
    with sentence_parts_suffix [of "[]" n] False have
      parts: "sentence_parts [] n \<noteq> []" and suffix: "\<exists>p. n = p @ last (sentence_parts [] n)"
      by simp_all
    have l: "extract_last_sentence t = last (sentence_parts [] n)"
      using parts False by (simp add: extract_last_sentence_def Let_def flip: n_def)
    have "last (sentence_parts [] n) \<in> set (sentence_parts [] n)"
      using parts by (rule last_in_set)
    then obtain w where w: "w \<in> set (split_sentences [] n)" "last (sentence_parts [] n) = py_strip w"
      and ne: "py_strip w \<noteq> []"
      by auto
    have "\<forall>c \<in> set (butlast w). \<not> sentence_end c"
      using split_sentences_marks [OF _ w(1)] by simp
    then have "filter sentence_end (butlast (py_strip w)) = []"
      using set_butlast_strip [of w] by (auto simp: filter_empty_conv)
    with l w(2) ne suffix False show ?thesis by (simp flip: n_def)
  qed
qed

end
