(* ===== verification/Geometry.thy ===== *)
theory Geometry
  imports Extract "HOL-Library.Multiset"
begin

text \<open>
  The box rewards of \<^verbatim>\<open>json_answer_reward.py\<close>: clamping and IoU of boxes, reading boxes
  from a reply (\<open>_parse_boxes_from_json\<close>, \<open>_parse_bbox_entries\<close>), the Hungarian-matching
  reward (\<open>score_hungarian_iou\<close>, \<open>_hungarian_match\<close>) and the union IoU R2
  (\<open>_rasterize_union\<close>, \<open>_score_r2\<close>).

  SciPy's \<open>linear_sum_assignment\<close> is an argument, \<open>solve\<close>: it gets the cost matrix and
  returns the pairs of matched row and column indices. Its documented contract is the
  locale \<open>assignment_solver\<close>, and exhaustive search is shown to be one implementation.
\<close>

section \<open>Boxes\<close>

text \<open>A box is the list of its four coordinates x1, y1, x2, y2.\<close>

type_synonym bbox = "real list"
type_synonym entry = "bbox \<times> ustr"

fun fval :: "pyfloat \<Rightarrow> real" where
  "fval (Fin x) = x"
| "fval _ = 0"

definition clamp_value :: "pyfloat \<Rightarrow> pyfloat" where
  "clamp_value v = pf_max (Fin 0) (pf_min (Fin 1000) v)"

text \<open>The clamped values are finite (\<open>clamp_value_finite\<close>), so \<open>fval\<close> reads the number.\<close>

definition clamp_box :: "pyfloat list \<Rightarrow> bbox" where
  "clamp_box box = map (\<lambda>v. fval (clamp_value v)) box"

definition iou :: "bbox \<Rightarrow> bbox \<Rightarrow> real" where
  "iou box_a box_b =
     (let x1 = max (box_a ! 0) (box_b ! 0);
          y1 = max (box_a ! 1) (box_b ! 1);
          x2 = min (box_a ! 2) (box_b ! 2);
          y2 = min (box_a ! 3) (box_b ! 3);
          inter = max 0 (x2 - x1) * max 0 (y2 - y1)
      in if inter = 0 then 0
         else (let area_a = max 0 (box_a ! 2 - box_a ! 0) * max 0 (box_a ! 3 - box_a ! 1);
                   area_b = max 0 (box_b ! 2 - box_b ! 0) * max 0 (box_b ! 3 - box_b ! 1);
                   union = area_a + area_b - inter
               in if union \<le> 0 then 0 else inter / union))"

section \<open>Reading boxes\<close>

definition key_boxes :: ustr where "key_boxes = [98, 111, 120, 101, 115]"
definition key_bbox :: ustr where "key_bbox = [98, 98, 111, 120]"
definition key_label :: ustr where "key_label = [108, 97, 98, 101, 108]"

text \<open>\<open>try: _clamp_box([float(v) for v in b]) except (ValueError, TypeError): continue\<close>;
  \<open>None\<close> is the skipped box. An \<open>OverflowError\<close> is not caught.\<close>

definition try_box :: "json list \<Rightarrow> bbox option py" where
  "try_box vs =
     (case mapE float_of vs of
        Inr fs \<Rightarrow> Inr (Some (clamp_box fs))
      | Inl e \<Rightarrow> if is_ValueError e \<or> e = TypeError then Inr None else Inl e)"

fun collect_boxes :: "json list \<Rightarrow> bbox list py" where
  "collect_boxes [] = Inr []"
| "collect_boxes (JArr b # bs) =
     (if length b = 4
      then bindE (try_box b) (\<lambda>x. bindE (collect_boxes bs) (\<lambda>r.
             Inr (case x of Some box \<Rightarrow> box # r | None \<Rightarrow> r)))
      else collect_boxes bs)"
| "collect_boxes (_ # bs) = collect_boxes bs"

text \<open>\<open>int(s)\<close> of a run of decimal digits.\<close>

definition int_of_digits :: "ustr \<Rightarrow> int py" where
  "int_of_digits ds =
     (if max_int_digits < int (length ds) then Inl ValueError
      else Inr (digits_val 0 (map ascii_digit ds)))"

definition is_decimal :: "int \<Rightarrow> bool" where
  "is_decimal c \<longleftrightarrow> dec_val c \<noteq> None"

definition comma_or_space :: "int \<Rightarrow> bool" where
  "comma_or_space c \<longleftrightarrow> c = 44 \<or> is_space c"

text \<open>\<open>k + 1\<close> numbers separated by commas or whitespace, then a closing bracket.\<close>

fun quad_tail :: "nat \<Rightarrow> ustr \<Rightarrow> (ustr list \<times> ustr) option" where
  "quad_tail k s =
     (let ds = takeWhile is_decimal s; r = dropWhile is_decimal s
      in if ds = [] then None
         else (case k of
             0 \<Rightarrow> (case r of c # t \<Rightarrow> if c = 93 then Some ([ds], t) else None | [] \<Rightarrow> None)
           | Suc j \<Rightarrow>
             (if takeWhile comma_or_space r = [] then None
              else map_option (\<lambda>(g, t). (ds # g, t)) (quad_tail j (dropWhile comma_or_space r)))))"

declare quad_tail.simps [simp del]

lemma quad_tail_length: "quad_tail k s = Some (g, t) \<Longrightarrow> length t < length s"
proof (induction k s arbitrary: g t rule: quad_tail.induct)
  case (1 k s)
  have l: "length (dropWhile is_decimal s) \<le> length s" by (rule length_dropWhile_le)
  show ?case
  proof (cases k)
    case 0
    with "1.prems" l show ?thesis
      by (subst (asm) quad_tail.simps) (auto simp: Let_def split: if_splits list.splits)
  next
    case (Suc j)
    with "1.prems" obtain g' where ne: "takeWhile is_decimal s \<noteq> []"
      and g: "quad_tail j (dropWhile comma_or_space (dropWhile is_decimal s)) = Some (g', t)"
      and c: "takeWhile comma_or_space (dropWhile is_decimal s) \<noteq> []"
      by (subst (asm) quad_tail.simps) (auto simp: Let_def split: if_splits)
    have "length t < length (dropWhile comma_or_space (dropWhile is_decimal s))"
      using "1.IH" [OF refl refl ne Suc c g] .
    with l length_dropWhile_le [of comma_or_space "dropWhile is_decimal s"] show ?thesis
      by linarith
  qed
qed

text \<open>The pattern \<^verbatim>\<open>\[(\d+)[,\s]+(\d+)[,\s]+(\d+)[,\s]+(\d+)\]\<close>, all matches.\<close>

function find_quads :: "ustr \<Rightarrow> ustr list list" where
  "find_quads s =
     (case s of [] \<Rightarrow> []
      | c # r \<Rightarrow>
        (case (if c = 91 then quad_tail 3 r else None) of
           Some (g, t) \<Rightarrow> g # find_quads t
         | None \<Rightarrow> find_quads r))"
  by pat_completeness auto
termination
  by (relation "measure length") (auto split: if_splits dest!: quad_tail_length)

declare find_quads.simps [simp del]

definition boxes_by_regex :: "ustr \<Rightarrow> bbox list py" where
  "boxes_by_regex s =
     mapE (\<lambda>g. bindE (mapE int_of_digits g) (\<lambda>is. Inr (clamp_box (map (\<lambda>i. Fin (of_int i)) is))))
       (find_quads s)"

definition boxes_of :: "dict \<Rightarrow> bbox list py" where
  "boxes_of obj = (case dict_get obj key_boxes of JArr bs \<Rightarrow> collect_boxes bs | _ \<Rightarrow> Inr [])"

definition parse_boxes_from_json :: "(pyfloat \<Rightarrow> ustr) \<Rightarrow> json \<Rightarrow> bbox list py" where
  "parse_boxes_from_json fr raw =
     (case raw of
        JNull \<Rightarrow> Inr []
      | JObj obj \<Rightarrow> boxes_of obj
      | _ \<Rightarrow>
        (let s = py_strip (py_str fr raw)
         in if s = [] then Inr []
            else (case json_loads s of
                Inl e \<Rightarrow> if is_ValueError e then boxes_by_regex s else Inl e
              | Inr (JObj obj) \<Rightarrow> boxes_of obj
              | Inr _ \<Rightarrow> Inr [])))"

text \<open>\<open>_parse_bbox_entries\<close>: boxes with labels, from items \<^verbatim>\<open>{"bbox": [...], "label": ...}\<close>.\<close>

fun collect_entries :: "(pyfloat \<Rightarrow> ustr) \<Rightarrow> json list \<Rightarrow> entry list py" where
  "collect_entries fr [] = Inr []"
| "collect_entries fr (JObj item # bs) =
     (case dict_get item key_bbox of
        JArr b \<Rightarrow>
          (if length b = 4
           then bindE (try_box b) (\<lambda>x. bindE (collect_entries fr bs) (\<lambda>r.
                  Inr (case x of
                         Some box \<Rightarrow> (box, py_str fr (dict_get_or item key_label (JStr []))) # r
                       | None \<Rightarrow> r)))
           else collect_entries fr bs)
      | _ \<Rightarrow> collect_entries fr bs)"
| "collect_entries fr (_ # bs) = collect_entries fr bs"

definition entries_of :: "(pyfloat \<Rightarrow> ustr) \<Rightarrow> dict \<Rightarrow> entry list py" where
  "entries_of fr obj =
     (case dict_get obj key_boxes of JArr bs \<Rightarrow> collect_entries fr bs | _ \<Rightarrow> Inr [])"

definition entries_of_option :: "(pyfloat \<Rightarrow> ustr) \<Rightarrow> dict option \<Rightarrow> entry list py" where
  "entries_of_option fr x = (case x of Some obj \<Rightarrow> entries_of fr obj | None \<Rightarrow> Inr [])"

definition parse_bbox_entries :: "(pyfloat \<Rightarrow> ustr) \<Rightarrow> json \<Rightarrow> entry list py" where
  "parse_bbox_entries fr raw =
     (case raw of
        JNull \<Rightarrow> Inr []
      | JObj obj \<Rightarrow> entries_of fr obj
      | _ \<Rightarrow>
        (let s = py_strip (py_str fr raw)
         in if s = [] then Inr []
            else (case json_loads s of
                Inl e \<Rightarrow> if is_ValueError e then entries_of_option fr (extract_last_json_obj s)
                         else Inl e
              | Inr JNull \<Rightarrow> entries_of_option fr (extract_last_json_obj s)
              | Inr (JObj obj) \<Rightarrow> entries_of fr obj
              | Inr _ \<Rightarrow> Inr [])))"

section \<open>The assignment solver\<close>

definition rect :: "real list list \<Rightarrow> nat \<Rightarrow> nat \<Rightarrow> bool" where
  "rect c n m \<longleftrightarrow> length c = n \<and> (\<forall>r \<in> set c. length r = m)"

definition valid_assignment :: "nat \<Rightarrow> nat \<Rightarrow> (nat \<times> nat) list \<Rightarrow> bool" where
  "valid_assignment n m ps \<longleftrightarrow>
     distinct (map fst ps) \<and> distinct (map snd ps) \<and> length ps = min n m
     \<and> list_all (\<lambda>(i, j). i < n \<and> j < m) ps"

definition assignment_cost :: "real list list \<Rightarrow> (nat \<times> nat) list \<Rightarrow> real" where
  "assignment_cost c ps = sum_list (map (\<lambda>(i, j). c ! i ! j) ps)"

text \<open>The documented contract of \<open>linear_sum_assignment\<close>: the minimum-cost one-to-one
  assignment of \<open>min n m\<close> pairs for an \<open>n \<times> m\<close> cost matrix.\<close>

locale assignment_solver =
  fixes solve :: "real list list \<Rightarrow> (nat \<times> nat) list"
  assumes solve_valid: "rect c n m \<Longrightarrow> 0 < n \<Longrightarrow> 0 < m \<Longrightarrow> valid_assignment n m (solve c)"
    and solve_optimal: "rect c n m \<Longrightarrow> 0 < n \<Longrightarrow> 0 < m \<Longrightarrow> valid_assignment n m ps \<Longrightarrow>
      assignment_cost c (solve c) \<le> assignment_cost c ps"
begin

lemma solve_range:
  "rect c n m \<Longrightarrow> 0 < n \<Longrightarrow> 0 < m \<Longrightarrow> (i, j) \<in> set (solve c) \<Longrightarrow> i < n \<and> j < m"
  using solve_valid by (fastforce simp: valid_assignment_def list_all_iff)

lemma solve_length: "rect c n m \<Longrightarrow> 0 < n \<Longrightarrow> 0 < m \<Longrightarrow> length (solve c) = min n m"
  using solve_valid by (auto simp: valid_assignment_def)

end

text \<open>Exhaustive search over all assignments meets the contract.\<close>

definition all_assignments :: "nat \<Rightarrow> nat \<Rightarrow> (nat \<times> nat) list list" where
  "all_assignments n m =
     (if n \<le> m then map (zip [0..<n]) (filter distinct (List.n_lists n [0..<m]))
      else map (\<lambda>rs. zip rs [0..<m]) (filter distinct (List.n_lists m [0..<n])))"

fun cheapest :: "('a \<Rightarrow> real) \<Rightarrow> 'a \<Rightarrow> 'a list \<Rightarrow> 'a" where
  "cheapest f b [] = b"
| "cheapest f b (x # xs) = cheapest f (if f x < f b then x else b) xs"

definition brute_assignment :: "real list list \<Rightarrow> (nat \<times> nat) list" where
  "brute_assignment c =
     (case all_assignments (length c) (length (hd c)) of
        [] \<Rightarrow> [] | p # ps \<Rightarrow> cheapest (assignment_cost c) p ps)"

section \<open>Matching\<close>

definition iou_matrix :: "bbox list \<Rightarrow> bbox list \<Rightarrow> real list list" where
  "iou_matrix gts preds = map (\<lambda>g. map (iou g) preds) gts"

definition neg_matrix :: "real list list \<Rightarrow> real list list" where
  "neg_matrix c = map (map uminus) c"

definition hungarian_match ::
  "(real list list \<Rightarrow> (nat \<times> nat) list) \<Rightarrow> entry list \<Rightarrow> entry list \<Rightarrow> (nat \<times> nat \<times> real) list" where
  "hungarian_match solve gt_entries pred_entries =
     (if length gt_entries = 0 \<or> length pred_entries = 0 then []
      else (let c = iou_matrix (map fst gt_entries) (map fst pred_entries)
            in map (\<lambda>(i, j). (i, j, c ! i ! j)) (solve (neg_matrix c))))"

text \<open>The part of \<open>score_hungarian_iou\<close> after parsing.\<close>

definition hungarian_reward ::
  "(real list list \<Rightarrow> (nat \<times> nat) list) \<Rightarrow> bbox list \<Rightarrow> bbox list \<Rightarrow> real" where
  "hungarian_reward solve gt_boxes pred_boxes =
     (let n = length gt_boxes; m = length pred_boxes
      in if n = 0 \<or> m = 0 then 0
         else (let c = iou_matrix gt_boxes pred_boxes
               in sum_list (map (\<lambda>(i, j). c ! i ! j) (solve (neg_matrix c))) / real (max n m)))"

definition score_hungarian_iou ::
  "(pyfloat \<Rightarrow> ustr) \<Rightarrow> (real list list \<Rightarrow> (nat \<times> nat) list) \<Rightarrow> ustr \<Rightarrow> json \<Rightarrow> real py" where
  "score_hungarian_iou fr solve solution_str ground_truth =
     bindE (parse_boxes_from_json fr ground_truth) (\<lambda>gt_boxes.
       bindE (parse_boxes_from_json fr (JStr solution_str)) (\<lambda>pred_boxes.
         Inr (hungarian_reward solve gt_boxes pred_boxes)))"

section \<open>R2: IoU of the unions\<close>

definition CANVAS_SIZE :: int where
  "CANVAS_SIZE = 1000"

text \<open>\<open>int(v)\<close> truncates towards zero.\<close>

definition py_trunc :: "real \<Rightarrow> int" where
  "py_trunc v = (if 0 \<le> v then floor v else ceiling v)"

text \<open>A boolean mask is the set of its true pixels, as pairs (row, column).\<close>

type_synonym mask = "(int \<times> int) set"

definition paint :: "int \<Rightarrow> mask \<Rightarrow> entry \<Rightarrow> mask" where
  "paint sz msk e =
     (let x1 = max 0 (min (py_trunc (fst e ! 0)) sz); y1 = max 0 (min (py_trunc (fst e ! 1)) sz);
          x2 = max 0 (min (py_trunc (fst e ! 2)) sz); y2 = max 0 (min (py_trunc (fst e ! 3)) sz)
      in if x2 > x1 \<and> y2 > y1 then msk \<union> {y1..<y2} \<times> {x1..<x2} else msk)"

definition rasterize_union :: "entry list \<Rightarrow> int \<Rightarrow> mask" where
  "rasterize_union entries sz = foldl (paint sz) {} entries"

definition score_r2 :: "entry list \<Rightarrow> entry list \<Rightarrow> real" where
  "score_r2 gt_entries pred_entries =
     (let gt_mask = rasterize_union gt_entries CANVAS_SIZE;
          pred_mask = rasterize_union pred_entries CANVAS_SIZE;
          inter = card (gt_mask \<inter> pred_mask);
          union = card (gt_mask \<union> pred_mask)
      in if union = 0 then (if inter = 0 then 1 else 0) else real inter / real union)"


section \<open>Clamped boxes\<close>

definition clamped :: "bbox \<Rightarrow> bool" where
  "clamped b \<longleftrightarrow> length b = 4 \<and> list_all (\<lambda>v. 0 \<le> v \<and> v \<le> 1000) b"

lemma clamp_value_finite: "\<exists>x. clamp_value v = Fin x \<and> 0 \<le> x \<and> x \<le> 1000"
  by (cases v) (auto simp: clamp_value_def pf_max_def pf_min_def)

lemma fval_clamp: "0 \<le> fval (clamp_value v)" "fval (clamp_value v) \<le> 1000"
  using clamp_value_finite [of v] by auto

lemma clamp_box_clamped: "length vs = 4 \<Longrightarrow> clamped (clamp_box vs)"
  by (auto simp: clamped_def clamp_box_def list_all_iff fval_clamp)

lemma clamp_value_id: "0 \<le> x \<Longrightarrow> x \<le> 1000 \<Longrightarrow> clamp_value (Fin x) = Fin x"
  by (auto simp: clamp_value_def pf_max_def pf_min_def)

lemma try_box_clamped: "length vs = 4 \<Longrightarrow> try_box vs = Inr (Some b) \<Longrightarrow> clamped b"
  by (auto simp: try_box_def clamp_box_clamped split: sum.splits if_splits dest!: mapE_length)

lemma collect_boxes_clamped: "collect_boxes bs = Inr r \<Longrightarrow> b \<in> set r \<Longrightarrow> clamped b"
  by (induction bs arbitrary: r rule: collect_boxes.induct)
     (auto split: if_splits option.splits dest: try_box_clamped)

lemma collect_entries_clamped:
  "collect_entries fr bs = Inr r \<Longrightarrow> e \<in> set r \<Longrightarrow> clamped (fst e)"
proof (induction fr bs arbitrary: r rule: collect_entries.induct)
  case (2 fr item bs)
  then show ?case
    by (cases "dict_get item key_bbox")
       (fastforce split: if_splits option.splits dest: try_box_clamped)+
qed auto

lemma quad_tail_count: "quad_tail k s = Some (g, t) \<Longrightarrow> length g = Suc k"
proof (induction k arbitrary: s g t)
  case 0
  then show ?case
    by (subst (asm) quad_tail.simps) (auto simp: Let_def split: if_splits list.splits)
next
  case (Suc k)
  then show ?case
    by (subst (asm) quad_tail.simps) (auto simp: Let_def split: if_splits)
qed

lemma find_quads_count: "g \<in> set (find_quads s) \<Longrightarrow> length g = 4"
proof (induction s rule: find_quads.induct)
  case (1 s)
  show ?case
  proof (cases s)
    case Nil
    with "1.prems" show ?thesis by (simp add: find_quads.simps)
  next
    case (Cons c r)
    show ?thesis
    proof (cases "if c = 91 then quad_tail 3 r else None")
      case None
      with Cons "1.prems" have "g \<in> set (find_quads r)" by (simp add: find_quads.simps [of "c # r"])
      with "1.IH"(1) [OF Cons None] show ?thesis .
    next
      case (Some x)
      obtain g' t where x: "x = (g', t)" by fastforce
      from Some x have l: "length g' = 4"
        by (auto split: if_splits dest: quad_tail_count)
      from Some x Cons "1.prems" have "g = g' \<or> g \<in> set (find_quads t)"
        by (simp add: find_quads.simps [of "c # r"])
      with "1.IH"(2) [OF Cons Some x [symmetric]] l show ?thesis by auto
    qed
  qed
qed

lemma boxes_by_regex_clamped:
  assumes "boxes_by_regex s = Inr r" and "b \<in> set r"
  shows "clamped b"
proof -
  obtain g js where "g \<in> set (find_quads s)" and js: "mapE int_of_digits g = Inr js"
    and b: "b = clamp_box (map (\<lambda>i. Fin (of_int i)) js)"
    using mapE_Inr_set [OF assms [unfolded boxes_by_regex_def]] by auto
  then show ?thesis
    using mapE_length [OF js] by (simp add: clamp_box_clamped find_quads_count)
qed

lemma boxes_of_clamped: "boxes_of obj = Inr r \<Longrightarrow> b \<in> set r \<Longrightarrow> clamped b"
  by (auto simp: boxes_of_def collect_boxes_clamped split: json.splits)

lemma entries_of_clamped: "entries_of fr obj = Inr r \<Longrightarrow> e \<in> set r \<Longrightarrow> clamped (fst e)"
  by (auto simp: entries_of_def collect_entries_clamped split: json.splits)

lemma entries_of_option_clamped:
  "entries_of_option fr x = Inr r \<Longrightarrow> e \<in> set r \<Longrightarrow> clamped (fst e)"
  by (auto simp: entries_of_option_def entries_of_clamped split: option.splits)

lemmas clamped_intros =
  boxes_by_regex_clamped boxes_of_clamped entries_of_clamped entries_of_option_clamped

lemma parse_boxes_clamped:
  "parse_boxes_from_json fr raw = Inr r \<Longrightarrow> b \<in> set r \<Longrightarrow> clamped b"
  by (auto simp: parse_boxes_from_json_def Let_def split: json.splits if_splits sum.splits
      intro: clamped_intros)

lemma parse_entries_clamped:
  "parse_bbox_entries fr raw = Inr r \<Longrightarrow> e \<in> set r \<Longrightarrow> clamped (fst e)"
  by (auto simp: parse_bbox_entries_def Let_def split: json.splits if_splits sum.splits
      intro: clamped_intros)

section \<open>IoU\<close>

definition proper :: "bbox \<Rightarrow> bool" where
  "proper b \<longleftrightarrow> length b = 4 \<and> b ! 0 < b ! 2 \<and> b ! 1 < b ! 3"

definition area :: "bbox \<Rightarrow> real" where
  "area b = max 0 (b ! 2 - b ! 0) * max 0 (b ! 3 - b ! 1)"

definition overlap :: "bbox \<Rightarrow> bbox \<Rightarrow> real" where
  "overlap a b = max 0 (min (a ! 2) (b ! 2) - max (a ! 0) (b ! 0))
     * max 0 (min (a ! 3) (b ! 3) - max (a ! 1) (b ! 1))"

lemma overlap_nonneg: "0 \<le> overlap a b"
  by (simp add: overlap_def)

lemma overlap_le: "overlap a b \<le> area a"
  unfolding overlap_def area_def by (rule mult_mono) auto

lemma overlap_sym: "overlap a b = overlap b a"
  by (simp add: overlap_def min.commute max.commute)

lemma iou_unfold:
  "iou a b = (if overlap a b = 0 then 0
     else if area a + area b - overlap a b \<le> 0 then 0
     else overlap a b / (area a + area b - overlap a b))"
  by (simp only: iou_def overlap_def area_def Let_def)

lemma iou_overlap:
  "iou a b = (if overlap a b = 0 then 0 else overlap a b / (area a + area b - overlap a b))"
  using overlap_le [of a b] overlap_le [of b a] overlap_nonneg [of a b]
  unfolding iou_unfold overlap_sym [of b a] by simp

lemma iou_sym: "iou a b = iou b a"
  unfolding iou_overlap by (subst (1 2 3) overlap_sym) (simp add: add.commute)

lemma iou_nonneg [simp]: "0 \<le> iou a b"
  using overlap_le [of a b] overlap_le [of b a] overlap_sym [of a b] overlap_nonneg [of a b]
  by (auto simp: iou_overlap)

lemma iou_le_one [simp]: "iou a b \<le> 1"
  using overlap_le [of a b] overlap_le [of b a] overlap_sym [of a b] overlap_nonneg [of a b]
  by (auto simp: iou_overlap divide_le_eq)

section \<open>Assignments\<close>

lemma valid_assignmentD:
  assumes "valid_assignment n m ps"
  shows "distinct (map fst ps)" "distinct (map snd ps)" "length ps = min n m"
    "(i, j) \<in> set ps \<Longrightarrow> i < n" "(i, j) \<in> set ps \<Longrightarrow> j < m" "distinct ps"
  using assms by (auto simp: valid_assignment_def list_all_iff distinct_map)

lemma assignment_cost_set:
  "distinct ps \<Longrightarrow> assignment_cost c ps = (\<Sum>(i, j) \<in> set ps. c ! i ! j)"
  by (simp add: assignment_cost_def sum_list_distinct_conv_sum_set)

text \<open>Matching the full side of an assignment covers every index of it.\<close>

lemma distinct_indices:
  "distinct xs \<Longrightarrow> length xs = n \<Longrightarrow> \<forall>x \<in> set xs. x < n \<Longrightarrow> set xs = {0..<n}"
  by (intro card_subset_eq) (auto simp: distinct_card)

lemma valid_assignment_rows:
  assumes "valid_assignment n m ps" and "n \<le> m"
  shows "set (map fst ps) = {0..<n}"
  using valid_assignmentD [OF assms(1)] assms(2) by (intro distinct_indices) auto

lemma valid_assignment_listed:
  assumes v: "valid_assignment n m ps" and le: "n \<le> m"
  shows "\<exists>qs \<in> set (all_assignments n m). set qs = set ps"
proof -
  note d = valid_assignmentD [OF v]
  define f where "f i = the (map_of ps i)" for i
  have lookup: "(i, j) \<in> set ps \<Longrightarrow> f i = j" for i j
    using d(1) by (simp add: f_def)
  have covered: "\<exists>j. (i, j) \<in> set ps" if "i < n" for i
  proof -
    have "i \<in> set (map fst ps)"
      using valid_assignment_rows [OF v le] that by simp
    then show ?thesis by auto
  qed
  have mem: "(i, j) \<in> set ps \<longleftrightarrow> i < n \<and> j = f i" for i j
    using lookup covered d(4) by metis
  define js where "js = map f [0..<n]"
  have "inj_on f {0..<n}"
  proof (rule inj_onI)
    fix x y assume h: "x \<in> {0..<n}" "y \<in> {0..<n}" "f x = f y"
    then have "(x, f x) \<in> set ps" "(y, f x) \<in> set ps" by (simp_all add: mem)
    then show "x = y"
      using d(2) unfolding distinct_map inj_on_def by fastforce
  qed
  then have dj: "distinct js"
    by (simp add: js_def distinct_map)
  moreover have "js \<in> set (List.n_lists n [0..<m])"
    using d(5) mem by (auto simp: set_n_lists js_def)
  moreover have "set (zip [0..<n] js) = set ps"
    using mem by (auto simp: js_def zip_map2 zip_same_conv_map)
  ultimately show ?thesis
    using le by (auto simp: all_assignments_def)
qed

lemma listed_valid:
  assumes "qs \<in> set (all_assignments n m)" and "n \<le> m"
  shows "valid_assignment n m qs"
proof -
  obtain js where js: "distinct js" "length js = n" "set js \<subseteq> {0..<m}" and qs: "qs = zip [0..<n] js"
    using assms by (auto simp: all_assignments_def set_n_lists)
  then show ?thesis
    using assms(2) by (auto simp: valid_assignment_def list_all_iff dest: set_zip_leftD set_zip_rightD)
qed

lemma valid_assignment_swap:
  "valid_assignment n m (map prod.swap ps) \<longleftrightarrow> valid_assignment m n ps"
  by (auto simp: valid_assignment_def list_all_iff min.commute comp_def)

lemma all_assignments_swap:
  "m < n \<Longrightarrow> all_assignments n m = map (map prod.swap) (all_assignments m n)"
  by (simp add: all_assignments_def comp_def zip_commute [of _ "[0..<m]"] case_prod_unfold prod.swap_def)

lemma all_assignments_valid:
  assumes "qs \<in> set (all_assignments n m)"
  shows "valid_assignment n m qs"
proof (cases "n \<le> m")
  case False
  then show ?thesis
    using assms listed_valid [of _ m n] by (auto simp: all_assignments_swap valid_assignment_swap)
qed (use assms listed_valid in blast)

lemma all_assignments_complete:
  assumes v: "valid_assignment n m ps"
  shows "\<exists>qs \<in> set (all_assignments n m). assignment_cost c qs = assignment_cost c ps"
proof -
  have "\<exists>qs \<in> set (all_assignments n m). set qs = set ps"
  proof (cases "n \<le> m")
    case False
    have "valid_assignment m n (map prod.swap ps)"
      using v by (simp add: valid_assignment_swap)
    then obtain qs where "qs \<in> set (all_assignments m n)" and e: "set qs = set (map prod.swap ps)"
      using valid_assignment_listed [of m n "map prod.swap ps"] False by auto
    moreover have "set (map prod.swap qs) = set ps"
      using e by (simp add: image_image)
    ultimately show ?thesis
      using False by (intro bexI [of _ "map prod.swap qs"]) (auto simp: all_assignments_swap)
  qed (use valid_assignment_listed [OF v] in blast)
  then obtain qs where qs: "qs \<in> set (all_assignments n m)" "set qs = set ps" by blast
  have "assignment_cost c qs = assignment_cost c ps"
    using valid_assignmentD(6) [OF v] valid_assignmentD(6) [OF all_assignments_valid [OF qs(1)]]
    by (simp add: assignment_cost_set qs(2))
  with qs(1) show ?thesis by blast
qed

lemma cheapest_in: "cheapest f b xs \<in> insert b (set xs)"
  by (induction xs arbitrary: b) (simp, fastforce)

lemma cheapest_le: "x \<in> insert b (set xs) \<Longrightarrow> f (cheapest f b xs) \<le> f x"
proof (induction xs arbitrary: b x)
  case (Cons y ys)
  let ?b = "if f y < f b then y else b"
  have "f (cheapest f ?b ys) \<le> f ?b" by (rule Cons.IH) simp
  moreover have "f ?b \<le> f b" "f ?b \<le> f y" by auto
  ultimately show ?case using Cons by fastforce
qed simp

lemma brute_assignment_best:
  assumes r: "rect c n m" and n: "0 < n"
    and v: "valid_assignment n m ps"
  shows "valid_assignment n m (brute_assignment c)"
    and "assignment_cost c (brute_assignment c) \<le> assignment_cost c ps"
proof -
  obtain qs where qs: "qs \<in> set (all_assignments n m)" "assignment_cost c qs = assignment_cost c ps"
    using all_assignments_complete [OF v] by blast
  have l: "length c = n" "length (hd c) = m"
    using r n by (auto simp: rect_def)
  from qs(1) obtain x xs where a: "all_assignments n m = x # xs"
    by (cases "all_assignments n m") auto
  have b: "brute_assignment c = cheapest (assignment_cost c) x xs"
    by (simp add: brute_assignment_def l a)
  show "valid_assignment n m (brute_assignment c)"
    using cheapest_in [of "assignment_cost c" x xs] all_assignments_valid [of _ n m]
    by (auto simp: b a)
  show "assignment_cost c (brute_assignment c) \<le> assignment_cost c ps"
    using cheapest_le [of qs x xs "assignment_cost c"] qs by (simp add: b a)
qed

lemma identity_valid: "valid_assignment n m (zip [0..<min n m] [0..<min n m])"
  by (auto simp: valid_assignment_def list_all_iff set_zip)

interpretation brute: assignment_solver brute_assignment
  by unfold_locales (use brute_assignment_best identity_valid in blast)+


section \<open>The matching reward\<close>

lemma iou_matrix_rect: "rect (iou_matrix gts preds) (length gts) (length preds)"
  by (auto simp: rect_def iou_matrix_def)

lemma neg_matrix_rect: "rect c n m \<Longrightarrow> rect (neg_matrix c) n m"
  by (auto simp: rect_def neg_matrix_def)

lemma iou_matrix_nth [simp]:
  "i < length gts \<Longrightarrow> j < length preds \<Longrightarrow> iou_matrix gts preds ! i ! j = iou (gts ! i) (preds ! j)"
  by (simp add: iou_matrix_def)

lemma neg_cost:
  assumes "rect c n m" and "list_all (\<lambda>(i, j). i < n \<and> j < m) ps"
  shows "assignment_cost (neg_matrix c) ps = - assignment_cost c ps"
proof -
  have "neg_matrix c ! i ! j = - (c ! i ! j)" if "i < n" "j < m" for i j
    using assms(1) that by (simp add: rect_def neg_matrix_def)
  then show ?thesis
    using assms(2) by (induction ps) (auto simp: assignment_cost_def)
qed

lemma valid_in_range: "valid_assignment n m ps \<Longrightarrow> list_all (\<lambda>(i, j). i < n \<and> j < m) ps"
  by (simp add: valid_assignment_def)

lemma iou_cost:
  assumes "valid_assignment (length gts) (length preds) ps"
  shows "assignment_cost (iou_matrix gts preds) ps
           = sum_list (map (\<lambda>(i, j). iou (gts ! i) (preds ! j)) ps)"
  unfolding assignment_cost_def
  by (rule arg_cong [where f = sum_list], rule map_cong) (use valid_assignmentD(4,5) [OF assms] in auto)

lemma iou_cost_bounds:
  assumes v: "valid_assignment (length gts) (length preds) ps"
  shows "0 \<le> assignment_cost (iou_matrix gts preds) ps"
    and "assignment_cost (iou_matrix gts preds) ps \<le> real (min (length gts) (length preds))"
proof -
  have "0 \<le> sum_list (map (\<lambda>(i, j). iou (gts ! i) (preds ! j)) ps) \<and>
    sum_list (map (\<lambda>(i, j). iou (gts ! i) (preds ! j)) ps)
      \<le> real (length (map (\<lambda>(i, j). iou (gts ! i) (preds ! j)) ps))"
    by (rule sum_list_unit_bounds) auto
  then show "0 \<le> assignment_cost (iou_matrix gts preds) ps"
    and "assignment_cost (iou_matrix gts preds) ps \<le> real (min (length gts) (length preds))"
    using valid_assignmentD(3) [OF v] by (simp_all add: iou_cost [OF v])
qed

context assignment_solver
begin

text \<open>Solving for the negated IoU matrix gives an assignment of the greatest total IoU.\<close>

lemma solve_neg_best:
  assumes r: "rect c n m" and "0 < n" "0 < m" and v: "valid_assignment n m ps"
  shows "assignment_cost c ps \<le> assignment_cost c (solve (neg_matrix c))"
proof -
  have r': "rect (neg_matrix c) n m" using r by (rule neg_matrix_rect)
  have "valid_assignment n m (solve (neg_matrix c))"
    using solve_valid [OF r'] assms by blast
  then show ?thesis
    using solve_optimal [OF r' _ _ v] assms neg_cost [OF r valid_in_range] by fastforce
qed

lemma reward_solution:
  assumes "gts \<noteq> []" "preds \<noteq> []"
  obtains ps where "valid_assignment (length gts) (length preds) ps"
    and "hungarian_reward solve gts preds
           = assignment_cost (iou_matrix gts preds) ps / real (max (length gts) (length preds))"
    and "\<And>qs. valid_assignment (length gts) (length preds) qs \<Longrightarrow>
           assignment_cost (iou_matrix gts preds) qs \<le> assignment_cost (iou_matrix gts preds) ps"
proof
  let ?ps = "solve (neg_matrix (iou_matrix gts preds))"
  show "valid_assignment (length gts) (length preds) ?ps"
    using solve_valid [OF neg_matrix_rect [OF iou_matrix_rect]] assms by simp
  show "hungarian_reward solve gts preds
      = assignment_cost (iou_matrix gts preds) ?ps / real (max (length gts) (length preds))"
    using assms by (simp add: hungarian_reward_def assignment_cost_def Let_def)
  show "assignment_cost (iou_matrix gts preds) qs \<le> assignment_cost (iou_matrix gts preds) ?ps"
    if "valid_assignment (length gts) (length preds) qs" for qs
    using solve_neg_best [OF iou_matrix_rect _ _ that] assms by simp
qed

lemma reward_bounds:
  "0 \<le> hungarian_reward solve gts preds \<and> hungarian_reward solve gts preds
     \<le> real (min (length gts) (length preds)) / real (max (length gts) (length preds))"
proof (cases "gts = [] \<or> preds = []")
  case False
  then obtain ps where v: "valid_assignment (length gts) (length preds) ps"
    and e: "hungarian_reward solve gts preds
         = assignment_cost (iou_matrix gts preds) ps / real (max (length gts) (length preds))"
    using reward_solution by metis
  show ?thesis
    unfolding e using iou_cost_bounds [OF v] by (auto intro!: divide_right_mono)
qed (auto simp: hungarian_reward_def Let_def)

lemma reward_unit: "0 \<le> hungarian_reward solve gts preds \<and> hungarian_reward solve gts preds \<le> 1"
proof -
  have "real (min (length gts) (length preds)) / real (max (length gts) (length preds)) \<le> 1"
    by (auto simp: divide_le_eq max_def)
  with reward_bounds [of gts preds] show ?thesis by linarith
qed

text \<open>The Hungarian reward of a reply, as a scorer of (reply, ground truth) pairs.\<close>

lemma score_hungarian_unit:
  "score_hungarian_iou fr solve s gt = Inr x \<Longrightarrow> 0 \<le> x \<and> x \<le> 1"
  using reward_unit by (auto simp: score_hungarian_iou_def)

end

interpretation hungarian: unit_scorer "\<lambda>(s, gt). score_hungarian_iou fr brute_assignment s gt"
  by unfold_locales (use brute.score_hungarian_unit in auto)

section \<open>A perfect match\<close>

lemma area_pos: "proper b \<Longrightarrow> 0 < area b"
  by (simp add: proper_def area_def)

lemma product_factors:
  fixes w h W H :: real
  assumes "0 \<le> w" "w \<le> W" "0 \<le> h" "h \<le> H" "0 < W" "0 < H" "w * h = W * H"
  shows "w = W" "h = H"
proof -
  have "w * h \<le> W * h" by (rule mult_right_mono) (use assms in auto)
  moreover have "W * h \<le> W * H" by (rule mult_left_mono) (use assms in auto)
  ultimately have e: "w * h = W * h" "W * h = W * H" using assms(7) by linarith+
  show h: "h = H" using e(2) assms(5) by simp
  show "w = W" using e(1) assms(6) by (simp add: h)
qed

text \<open>A box whose overlap with a proper box has the whole area contains it.\<close>

lemma overlap_full:
  assumes a: "proper a" and e: "overlap a b = area a"
  shows "b ! 0 \<le> a ! 0 \<and> b ! 1 \<le> a ! 1 \<and> a ! 2 \<le> b ! 2 \<and> a ! 3 \<le> b ! 3"
proof -
  let ?w = "max 0 (min (a ! 2) (b ! 2) - max (a ! 0) (b ! 0))"
  let ?h = "max 0 (min (a ! 3) (b ! 3) - max (a ! 1) (b ! 1))"
  have p: "a ! 0 < a ! 2" "a ! 1 < a ! 3" using a by (auto simp: proper_def)
  have m: "?w * ?h = (a ! 2 - a ! 0) * (a ! 3 - a ! 1)"
    using e p by (simp add: overlap_def area_def)
  have "?w = a ! 2 - a ! 0" "?h = a ! 3 - a ! 1"
    using product_factors [OF _ _ _ _ _ _ m] p by auto
  with p show ?thesis by (auto simp: max_def min_def split: if_splits)
qed

lemma proper_eq:
  "length a = 4 \<Longrightarrow> length b = 4 \<Longrightarrow> a ! 0 = b ! 0 \<Longrightarrow> a ! 1 = b ! 1 \<Longrightarrow> a ! 2 = b ! 2 \<Longrightarrow>
   a ! 3 = b ! 3 \<Longrightarrow> a = b"
  by (rule nth_equalityI) (auto simp: less_Suc_eq numeral_eq_Suc)

lemma iou_one_iff:
  assumes a: "proper a" and b: "length b = 4"
  shows "iou a b = 1 \<longleftrightarrow> a = b"
proof
  assume i: "iou a b = 1"
  let ?o = "overlap a b"
  have pos: "0 < ?o" "0 < area a"
    using i overlap_nonneg [of a b] area_pos [OF a] by (auto simp: iou_overlap split: if_splits)
  have le: "?o \<le> area a" "?o \<le> area b"
    using overlap_le [of a b] overlap_le [of b a] by (auto simp: overlap_sym)
  have "?o = area a + area b - ?o"
    using i pos le by (simp add: iou_overlap split: if_splits)
  with le have ea: "?o = area a" and eb: "overlap b a = area b"
    by (auto simp: overlap_sym [of b a])
  have "0 < area b" using pos le by simp
  then have "proper b"
    using b by (auto simp: proper_def area_def zero_less_mult_iff)
  then show "a = b"
    using overlap_full [OF a ea] overlap_full [OF _ eb] a b
    by (intro proper_eq) (auto simp: proper_def)
next
  assume "a = b"
  moreover have "overlap a a = area a"
    by (simp add: overlap_def area_def)
  ultimately show "iou a b = 1"
    using area_pos [OF a] by (simp add: iou_overlap)
qed

lemma full_sum_all_one:
  fixes xs :: "real list"
  assumes "\<forall>x \<in> set xs. x \<le> 1" and "real (length xs) \<le> sum_list xs"
  shows "\<forall>x \<in> set xs. x = 1"
  using assms
proof (induction xs)
  case (Cons x xs)
  have "\<forall>x \<in> set xs. x \<le> 1" using Cons.prems(1) by simp
  then have "sum_list xs \<le> real (length xs)" by (induction xs) auto
  with Cons show ?case by auto
qed simp

lemma mset_by_indices:
  assumes "distinct js" and "set js = {0..<length xs}"
  shows "mset (map ((!) xs) js) = mset xs"
proof -
  have "mset js = mset [0..<length xs]"
    using assms by (subst set_eq_iff_mset_eq_distinct [symmetric]) (use assms in auto)
  then have "mset (map ((!) xs) js) = mset (map ((!) xs) [0..<length xs])"
    by (metis mset_map)
  then show ?thesis by (simp add: map_nth)
qed

lemma mset_indices:
  "mset xs = mset ys \<Longrightarrow>
     \<exists>js. length js = length ys \<and> set js = {0..<length ys} \<and> map ((!) ys) js = xs"
proof (induction xs arbitrary: ys)
  case (Cons x xs)
  then obtain as bs where ys: "ys = as @ x # bs"
    by (metis list.set_intros(1) mset_eq_setD split_list)
  have "mset xs = mset (as @ bs)"
    using Cons.prems ys by simp
  from Cons.IH [OF this] obtain js where js: "length js = length (as @ bs)"
    "set js = {0..<length (as @ bs)}" "map ((!) (as @ bs)) js = xs" by blast
  define up where "up j = (if j < length as then j else Suc j)" for j
  have "map ((!) ys) (length as # map up js) = x # xs"
    using js(3) by (auto simp: ys up_def nth_append Suc_diff_le)
  moreover have "set (length as # map up js) = {0..<length ys}"
  proof -
    have "k \<in> insert (length as) (up ` {0..<length (as @ bs)})" if "k < length ys" for k
      using that ys by (cases "k < length as"; cases k) (auto simp: up_def image_iff)
    moreover have "up j < length ys" if "j < length (as @ bs)" for j
      using that by (auto simp: up_def ys)
    ultimately have "insert (length as) (up ` {0..<length (as @ bs)}) = {0..<length ys}"
      using ys by (intro equalityI subsetI) auto
    then show ?thesis
      using js(2) by simp
  qed
  moreover have "length (length as # map up js) = length ys"
    using js(1) by (simp add: ys)
  ultimately show ?case by metis
qed simp


text \<open>Assignments of equal sides are bijections, so a perfect total pairs equal boxes.\<close>

lemma reward_one_mset:
  assumes gts: "\<forall>g \<in> set gts. proper g" and preds: "\<forall>p \<in> set preds. length p = 4"
    and v: "valid_assignment (length gts) (length preds) ps" and ne: "gts \<noteq> []"
    and one: "assignment_cost (iou_matrix gts preds) ps / real (max (length gts) (length preds)) = 1"
  shows "mset gts = mset preds"
proof -
  note d = valid_assignmentD [OF v]
  let ?f = "\<lambda>(i, j). iou (gts ! i) (preds ! j)"
  have "assignment_cost (iou_matrix gts preds) ps = real (max (length gts) (length preds))"
    using one ne by (simp add: divide_eq_eq)
  then have len: "length gts = length preds" and total: "real (length (map ?f ps)) \<le> sum_list (map ?f ps)"
    using iou_cost_bounds(2) [OF v] d(3) by (auto simp: iou_cost [OF v])
  have "\<forall>x \<in> set (map ?f ps). x = 1"
    by (rule full_sum_all_one [OF _ total]) auto
  then have eq: "gts ! i = preds ! j" if "(i, j) \<in> set ps" for i j
    using that gts preds d(4,5) [OF that] iou_one_iff [of "gts ! i" "preds ! j"] by fastforce
  have m: "set (map fst ps) = {0..<length gts}" "set (map snd ps) = {0..<length preds}"
    using d(4,5) len d(3) by (intro distinct_indices d(1,2); auto)+
  have "map ((!) gts) (map fst ps) = map ((!) preds) (map snd ps)"
    using eq by auto
  then have "mset (map ((!) gts) (map fst ps)) = mset (map ((!) preds) (map snd ps))"
    by (rule arg_cong)
  then show ?thesis
    by (simp only: mset_by_indices [OF d(1) m(1)] mset_by_indices [OF d(2) m(2)])
qed

lemma mset_perfect_assignment:
  assumes gts: "\<forall>g \<in> set gts. proper g" and e: "mset gts = mset preds"
  obtains ps where "valid_assignment (length gts) (length preds) ps"
    and "assignment_cost (iou_matrix gts preds) ps = real (length gts)"
proof -
  obtain js where js: "length js = length preds" "set js = {0..<length preds}"
    "map ((!) preds) js = gts"
    using mset_indices [OF e] by blast
  let ?ps = "zip [0..<length gts] js"
  have len: "length gts = length preds" using e by (rule mset_eq_length)
  have "distinct js"
    using js by (simp add: card_distinct)
  then have v: "valid_assignment (length gts) (length preds) ?ps"
    using js len by (auto simp: valid_assignment_def list_all_iff dest: set_zip_leftD set_zip_rightD)
  have one: "iou (gts ! i) (preds ! (js ! i)) = 1" if "i < length gts" for i
  proof -
    have "preds ! (js ! i) = gts ! i"
      using that js len by (metis nth_map)
    then show ?thesis
      using gts that iou_one_iff [of "gts ! i" "gts ! i"] by (auto simp: proper_def)
  qed
  have "map (\<lambda>(i, j). iou (gts ! i) (preds ! j)) ?ps = replicate (length gts) 1"
    using one js len by (intro nth_equalityI) auto
  then have "assignment_cost (iou_matrix gts preds) ?ps = real (length gts)"
    by (simp add: iou_cost [OF v] sum_list_replicate)
  with v show thesis by (rule that)
qed

context assignment_solver
begin

lemma reward_perfect:
  assumes gts: "\<forall>g \<in> set gts. proper g" and preds: "\<forall>p \<in> set preds. length p = 4"
    and ne: "gts \<noteq> []"
  shows "hungarian_reward solve gts preds = 1 \<longleftrightarrow> mset gts = mset preds"
proof (cases "preds = []")
  case False
  obtain ps where v: "valid_assignment (length gts) (length preds) ps"
    and r: "hungarian_reward solve gts preds
         = assignment_cost (iou_matrix gts preds) ps / real (max (length gts) (length preds))"
    and best: "\<And>qs. valid_assignment (length gts) (length preds) qs \<Longrightarrow>
           assignment_cost (iou_matrix gts preds) qs \<le> assignment_cost (iou_matrix gts preds) ps"
    using reward_solution [OF ne False] by metis
  show ?thesis
  proof
    assume "hungarian_reward solve gts preds = 1"
    then show "mset gts = mset preds"
      by (intro reward_one_mset [OF gts preds v ne]) (simp only: r)
  next
    assume e: "mset gts = mset preds"
    obtain qs where "valid_assignment (length gts) (length preds) qs"
      "assignment_cost (iou_matrix gts preds) qs = real (length gts)"
      using mset_perfect_assignment [OF gts e] by metis
    then have "real (length gts) \<le> assignment_cost (iou_matrix gts preds) ps"
      using best by fastforce
    moreover have "length gts = length preds" using e by (rule mset_eq_length)
    ultimately show "hungarian_reward solve gts preds = 1"
      using iou_cost_bounds(2) [OF v] ne False by (simp add: r)
  qed
qed (use ne in \<open>simp add: hungarian_reward_def\<close>)

end


section \<open>Union masks\<close>

definition edge :: "int \<Rightarrow> real \<Rightarrow> int" where
  "edge sz v = max 0 (min (py_trunc v) sz)"

definition pixels :: "int \<Rightarrow> entry \<Rightarrow> mask" where
  "pixels sz e = {edge sz (fst e ! 1)..<edge sz (fst e ! 3)} \<times> {edge sz (fst e ! 0)..<edge sz (fst e ! 2)}"

lemma paint_pixels: "paint sz msk e = msk \<union> pixels sz e"
  by (auto simp: paint_def pixels_def edge_def Let_def)

lemma rasterize_union_eq: "rasterize_union es sz = (\<Union>e \<in> set es. pixels sz e)"
proof -
  have "foldl (paint sz) msk es = msk \<union> (\<Union>e \<in> set es. pixels sz e)" for msk
    by (induction es arbitrary: msk) (auto simp: paint_pixels)
  then show ?thesis by (simp add: rasterize_union_def)
qed

lemma finite_rasterize [simp]: "finite (rasterize_union es sz)"
  by (simp add: rasterize_union_eq pixels_def)

lemma score_r2_jaccard:
  "score_r2 gts preds =
     (let A = rasterize_union gts CANVAS_SIZE; B = rasterize_union preds CANVAS_SIZE
      in if A = {} \<and> B = {} then 1 else real (card (A \<inter> B)) / real (card (A \<union> B)))"
  by (auto simp: score_r2_def Let_def)

lemma jaccard_unit:
  "finite A \<Longrightarrow> finite B \<Longrightarrow> real (card (A \<inter> B)) / real (card (A \<union> B)) \<le> 1"
  by (auto simp: divide_le_eq intro!: card_mono)

lemma score_r2_unit: "0 \<le> score_r2 gts preds \<and> score_r2 gts preds \<le> 1"
  by (auto simp: score_r2_jaccard Let_def jaccard_unit)

interpretation r2: unit_scorer "\<lambda>(gts, preds). Inr (score_r2 gts preds)"
  by unfold_locales (use score_r2_unit in auto)

lemma jaccard_one:
  assumes "finite A" "finite B" "A \<union> B \<noteq> {}"
  shows "real (card (A \<inter> B)) / real (card (A \<union> B)) = 1 \<longleftrightarrow> A = B"
proof
  assume "real (card (A \<inter> B)) / real (card (A \<union> B)) = 1"
  then have "card (A \<inter> B) = card (A \<union> B)"
    using assms by (simp add: divide_eq_eq card_gt_0_iff)
  then have "A \<inter> B = A \<union> B"
    using assms by (intro card_subset_eq) auto
  then show "A = B" by auto
qed (use assms in auto)


section \<open>Properties\<close>

text \<open>Every box read from a reply or a ground truth, by either reader, has four finite
  coordinates between 0 and 1000, whatever numbers (infinities and NaN included) it held.\<close>

theorem parsed_boxes_clamped:
  assumes "parse_boxes_from_json fr raw = Inr bs" and "parse_bbox_entries fr raw' = Inr es"
  shows "list_all clamped bs \<and> list_all (\<lambda>e. clamped (fst e)) es"
  using assms by (auto simp: list_all_iff intro: parse_boxes_clamped parse_entries_clamped)

definition sample_boxes :: ustr where
  "sample_boxes = u ''{\"boxes\": [[-5, 10, 20, Infinity], [1, 2], [0, 0, 10, 10]]}''"

definition sample_entry :: ustr where
  "sample_entry = u ''x {\"boxes\": [{\"bbox\": [0, 0, 1, 2000], \"label\": \"Move (1,0)\"}]}''"

theorem parsed_boxes_clamped_witness:
  "parse_boxes_from_json (\<lambda>_. []) (JStr sample_boxes) = Inr [[0, 10, 20, 1000], [0, 0, 10, 10]]
   \<and> parse_bbox_entries (\<lambda>_. []) (JStr sample_entry) = Inr [([0, 0, 1, 1000], u ''Move (1,0)'')]
   \<and> list_all clamped [[0, 10, 20, 1000], [0, 0, 10, 10]]
   \<and> list_all (\<lambda>e. clamped (fst e)) [([0, 0, 1, 1000], u ''Move (1,0)'')]"
proof -
  have a: "parse_boxes_from_json (\<lambda>_. []) (JStr sample_boxes)
      = Inr [[0, 10, 20, 1000], [0, 0, 10, 10]]" by code_simp
  have b: "parse_bbox_entries (\<lambda>_. []) (JStr sample_entry)
      = Inr [([0, 0, 1, 1000], u ''Move (1,0)'')]" by code_simp
  from a b parsed_boxes_clamped [OF a b] show ?thesis by simp
qed

text \<open>C25: The Hungarian reward is the greatest total IoU of a one-to-one matching of
  ground-truth and predicted boxes, divided by the larger number of boxes, for any solver
  that meets SciPy's contract.\<close>

theorem hungarian_reward_optimal:
  assumes "assignment_solver solve" and "gts \<noteq> []" and "preds \<noteq> []"
  shows "(\<exists>ps. valid_assignment (length gts) (length preds) ps
            \<and> hungarian_reward solve gts preds
                = assignment_cost (iou_matrix gts preds) ps / real (max (length gts) (length preds)))
       \<and> (\<forall>ps. valid_assignment (length gts) (length preds) ps \<longrightarrow>
            assignment_cost (iou_matrix gts preds) ps / real (max (length gts) (length preds))
              \<le> hungarian_reward solve gts preds)"
  using assignment_solver.reward_solution [OF assms] by (metis divide_right_mono of_nat_0_le_iff)

theorem hungarian_reward_optimal_witness:
  "assignment_cost (iou_matrix [[0, 0, 10, 10]] [[5, 0, 10, 10], [0, 0, 10, 10]]) [(0, 1)] / 2
     \<le> hungarian_reward brute_assignment [[0, 0, 10, 10]] [[5, 0, 10, 10], [0, 0, 10, 10]]"
proof -
  have "valid_assignment 1 2 [(0, 1)]" by code_simp
  with hungarian_reward_optimal [OF brute.assignment_solver_axioms,
      of "[[0, 0, 10, 10]]" "[[5, 0, 10, 10], [0, 0, 10, 10]]"]
  show ?thesis by (simp add: numeral_eq_Suc)
qed

text \<open>When every ground-truth box has positive width and height, a reply gets the full
  Hungarian reward exactly when its boxes are the ground-truth boxes, in any order and
  with the same multiplicities.\<close>

theorem hungarian_full_iff:
  assumes "assignment_solver solve"
    and "parse_boxes_from_json fr gt = Inr gts" and "gts \<noteq> []" and "list_all proper gts"
    and "parse_boxes_from_json fr (JStr s) = Inr preds"
  shows "score_hungarian_iou fr solve s gt = Inr 1 \<longleftrightarrow> mset gts = mset preds"
proof -
  have "\<forall>p \<in> set preds. length p = 4"
    using parse_boxes_clamped [OF assms(5)] by (auto simp: clamped_def)
  then show ?thesis
    using assignment_solver.reward_perfect [OF assms(1)] assms
    by (simp add: score_hungarian_iou_def list_all_iff)
qed

theorem hungarian_full_iff_witness:
  "score_hungarian_iou (\<lambda>_. []) brute_assignment (u ''{\"boxes\": [[0, 0, 5, 5], [1, 1, 9, 9]]}'')
     (JStr (u ''{\"boxes\": [[1, 1, 9, 9], [0, 0, 5, 5]]}'')) = Inr 1"
proof -
  have a: "parse_boxes_from_json (\<lambda>_. []) (JStr (u ''{\"boxes\": [[1, 1, 9, 9], [0, 0, 5, 5]]}''))
      = Inr [[1, 1, 9, 9], [0, 0, 5, 5]]" by code_simp
  have b: "parse_boxes_from_json (\<lambda>_. []) (JStr (u ''{\"boxes\": [[0, 0, 5, 5], [1, 1, 9, 9]]}''))
      = Inr [[0, 0, 5, 5], [1, 1, 9, 9]]" by code_simp
  show ?thesis
    using hungarian_full_iff [OF brute.assignment_solver_axioms a _ _ b]
    by (simp add: proper_def add_mset_commute)
qed

text \<open>The matching reward is between 0 and the ratio of the smaller to the larger number
  of boxes, so missing and superfluous boxes both cost reward.\<close>

theorem hungarian_count_bound:
  assumes "assignment_solver solve"
    and "parse_boxes_from_json fr gt = Inr gts" and "parse_boxes_from_json fr (JStr s) = Inr preds"
  shows "\<exists>x. score_hungarian_iou fr solve s gt = Inr x \<and> 0 \<le> x
     \<and> x \<le> real (min (length gts) (length preds)) / real (max (length gts) (length preds))"
  using assignment_solver.reward_bounds [OF assms(1)] assms by (simp add: score_hungarian_iou_def)

theorem hungarian_count_bound_witness:
  "\<exists>x. score_hungarian_iou (\<lambda>_. []) brute_assignment (u ''{\"boxes\": [[0, 0, 5, 5]]}'')
     (JStr (u ''{\"boxes\": [[1, 1, 9, 9], [0, 0, 5, 5]]}'')) = Inr x \<and> 0 \<le> x \<and> x \<le> 1 / 2"
proof -
  have a: "parse_boxes_from_json (\<lambda>_. []) (JStr (u ''{\"boxes\": [[1, 1, 9, 9], [0, 0, 5, 5]]}''))
      = Inr [[1, 1, 9, 9], [0, 0, 5, 5]]" by code_simp
  have b: "parse_boxes_from_json (\<lambda>_. []) (JStr (u ''{\"boxes\": [[0, 0, 5, 5]]}''))
      = Inr [[0, 0, 5, 5]]" by code_simp
  show ?thesis
    using hungarian_count_bound [OF brute.assignment_solver_axioms a b] by (simp add: max_def)
qed

text \<open>
  The pixels a list of boxes covers, stated without masks, slices or painting: the pixels of the 1000 by
  1000 canvas that lie in one of the boxes, its coordinates truncated to integers and its right and lower
  edge left out.
\<close>

definition covered_pixels :: "entry list \<Rightarrow> (int \<times> int) set" where
  "covered_pixels es = {(y, x). 0 \<le> x \<and> x < 1000 \<and> 0 \<le> y \<and> y < 1000
     \<and> (\<exists>e \<in> set es. py_trunc (fst e ! 0) \<le> x \<and> x < py_trunc (fst e ! 2)
                  \<and> py_trunc (fst e ! 1) \<le> y \<and> y < py_trunc (fst e ! 3))}"

lemma between_edges:
  "edge sz a \<le> x \<and> x < edge sz b \<longleftrightarrow> 0 \<le> x \<and> x < sz \<and> py_trunc a \<le> x \<and> x < py_trunc b"
  by (auto simp: edge_def)

lemma mask_covers: "rasterize_union es CANVAS_SIZE = covered_pixels es"
proof -
  have "(y, x) \<in> pixels CANVAS_SIZE e \<longleftrightarrow> 0 \<le> x \<and> x < 1000 \<and> 0 \<le> y \<and> y < 1000
      \<and> py_trunc (fst e ! 0) \<le> x \<and> x < py_trunc (fst e ! 2)
      \<and> py_trunc (fst e ! 1) \<le> y \<and> y < py_trunc (fst e ! 3)" for x y e
    using between_edges [of CANVAS_SIZE "fst e ! 0" x "fst e ! 2"] between_edges [of CANVAS_SIZE "fst e ! 1" y "fst e ! 3"]
    by (auto simp: pixels_def CANVAS_SIZE_def)
  then show ?thesis
    unfolding rasterize_union_eq covered_pixels_def by (simp add: set_eq_iff)
qed

lemma finite_covered [simp]: "finite (covered_pixels es)"
  using finite_rasterize [of es CANVAS_SIZE] by (simp only: mask_covers)

text \<open>C40: R2 is the Jaccard index of the pixels the two lists of boxes cover: the number of pixels both
  cover divided by the number of pixels at least one covers, and 1 where neither covers a pixel. It is
  symmetric, in the unit interval, 1 exactly when both sides cover the same pixels (both none, too), 0 exactly
  when they share no pixel and at least one side covers one. Boxes without a pixel of their own count as no boxes:
  an empty list against boxes that are too thin to cover a pixel scores 1, where the comment of \<open>_score_r2\<close> says 0.\<close>

theorem score_r2_spec:
  "let A = covered_pixels gts; B = covered_pixels preds in
   score_r2 gts preds = (if A \<union> B = {} then 1 else real (card (A \<inter> B)) / real (card (A \<union> B)))
   \<and> score_r2 gts preds = score_r2 preds gts
   \<and> 0 \<le> score_r2 gts preds \<and> score_r2 gts preds \<le> 1
   \<and> (score_r2 gts preds = 1 \<longleftrightarrow> A = B)
   \<and> (score_r2 gts preds = 0 \<longleftrightarrow> A \<inter> B = {} \<and> A \<union> B \<noteq> {})"
proof -
  let ?A = "covered_pixels gts" and ?B = "covered_pixels preds"
  have f: "score_r2 gts preds = (if ?A \<union> ?B = {} then 1 else real (card (?A \<inter> ?B)) / real (card (?A \<union> ?B)))"
    by (simp add: score_r2_jaccard Let_def mask_covers)
  moreover have "score_r2 gts preds = score_r2 preds gts"
    by (auto simp: score_r2_jaccard Let_def Int_commute Un_commute)
  moreover have "score_r2 gts preds = 1 \<longleftrightarrow> ?A = ?B"
    using jaccard_one [of ?A ?B] by (auto simp: f)
  moreover have "score_r2 gts preds = 0 \<longleftrightarrow> ?A \<inter> ?B = {} \<and> ?A \<union> ?B \<noteq> {}"
    unfolding f by auto
  ultimately show ?thesis using score_r2_unit [of gts preds] by (simp add: Let_def)
qed

text \<open>A pixel of the canvas is set in the mask exactly when it lies in one of the
  (clamped) boxes, with the coordinates truncated to integers and the right and lower edge
  left out; order, overlap and repetition of the boxes do not matter.\<close>

theorem rasterize_pixel:
  assumes "list_all (\<lambda>e. clamped (fst e)) es"
  shows "(y, x) \<in> rasterize_union es CANVAS_SIZE \<longleftrightarrow>
    (\<exists>e \<in> set es. floor (fst e ! 0) \<le> x \<and> x < floor (fst e ! 2)
               \<and> floor (fst e ! 1) \<le> y \<and> y < floor (fst e ! 3))"
proof -
  have edges: "edge CANVAS_SIZE (fst e ! i) = floor (fst e ! i)" if "e \<in> set es" "i < 4" for e i
  proof -
    have "0 \<le> fst e ! i" "fst e ! i \<le> 1000"
      using assms that by (auto simp: list_all_iff clamped_def)
    then show ?thesis
      by (auto simp: edge_def py_trunc_def CANVAS_SIZE_def floor_le_iff min_def max_def)
  qed
  have "(y, x) \<in> rasterize_union es CANVAS_SIZE \<longleftrightarrow> (\<exists>e \<in> set es. (y, x) \<in> pixels CANVAS_SIZE e)"
    by (simp add: rasterize_union_eq)
  also have "\<dots> \<longleftrightarrow> (\<exists>e \<in> set es. floor (fst e ! 0) \<le> x \<and> x < floor (fst e ! 2)
               \<and> floor (fst e ! 1) \<le> y \<and> y < floor (fst e ! 3))"
    by (rule bex_cong [OF refl]) (simp add: pixels_def edges conj_ac)
  finally show ?thesis .
qed

theorem rasterize_pixel_witness:
  "(0, 3) \<in> rasterize_union [([0, 0, 2, 2], []), ([3, 0, 9, 1 / 2 + 1], [])] CANVAS_SIZE"
proof -
  have "list_all (\<lambda>e. clamped (fst e)) [([0, 0, 2, 2], []), ([3, 0, 9, 1 / 2 + 1], [])]"
    by (simp add: clamped_def)
  from rasterize_pixel [OF this, of 0 3] show ?thesis by simp
qed

end
