(* ===== verification/LabelReward.thy ===== *)
theory LabelReward
  imports Geometry
begin

text \<open>
  R3 of \<^verbatim>\<open>json_answer_reward.py\<close>: action keywords of a label
  (\<open>_extract_keyword_set\<close>), numeric vectors in brackets (\<open>_extract_bracket_vectors\<close>,
  \<open>_extract_direction_vec\<close>) and the reward \<open>_score_r3\<close> over matched boxes, with its
  format gate.

  Vector arithmetic is over the reals, with overflow to infinity where NumPy's norm
  overflows; rounding (and so underflow to 0) is not modelled.
\<close>

section \<open>Keywords\<close>

definition kw_add :: ustr where "kw_add = [97, 100, 100]"
definition kw_delete :: ustr where "kw_delete = [100, 101, 108, 101, 116, 101]"
definition kw_rotate :: ustr where "kw_rotate = [114, 111, 116, 97, 116, 101]"
definition kw_replace :: ustr where "kw_replace = [114, 101, 112, 108, 97, 99, 101]"
definition kw_move :: ustr where "kw_move = [109, 111, 118, 101]"
definition kw_background :: ustr where
  "kw_background = [98, 97, 99, 107, 103, 114, 111, 117, 110, 100]"

lemmas keyword_defs =
  kw_add_def kw_delete_def kw_rotate_def kw_replace_def kw_move_def kw_background_def

definition LABEL_KEYWORDS :: "ustr list" where
  "LABEL_KEYWORDS = [kw_add, kw_delete, kw_rotate, kw_replace, kw_move, kw_background]"

text \<open>\<open>re.search(r"\b" + kw, label)\<close>; the flag tells whether the previous character is a
  word character. A keyword starts with a word character, so \<^verbatim>\<open>\b\<close> is its absence.\<close>

fun kw_search :: "bool \<Rightarrow> ustr \<Rightarrow> ustr \<Rightarrow> bool" where
  "kw_search prev kw [] = False"
| "kw_search prev kw (c # cs) =
     (\<not> prev \<and> starts_with kw (c # cs) \<or> kw_search (is_word c) kw cs)"

definition extract_keyword_set :: "ustr \<Rightarrow> ustr set" where
  "extract_keyword_set label = set (filter (\<lambda>kw. kw_search False kw label) LABEL_KEYWORDS)"

section \<open>Vectors\<close>

text \<open>The contents of the matches of \<^verbatim>\<open>\(([^)]+)\)\<close>.\<close>

function round_groups :: "ustr \<Rightarrow> ustr list" where
  "round_groups s =
     (case s of [] \<Rightarrow> []
      | c # r \<Rightarrow>
        if c = 40 then
          (let g = takeWhile (\<lambda>x. x \<noteq> 41) r; t = dropWhile (\<lambda>x. x \<noteq> 41) r
           in if g \<noteq> [] \<and> t \<noteq> [] then g # round_groups (tl t) else round_groups r)
        else round_groups r)"
  by pat_completeness auto
termination
  by (relation "measure length")
     (auto simp: less_Suc_eq_le intro: le_trans [OF diff_le_self length_dropWhile_le])

declare round_groups.simps [simp del]

text \<open>\<^verbatim>\<open>re.split(r"[,\s]+", s)\<close>.\<close>

fun split_runs :: "ustr \<Rightarrow> bool \<Rightarrow> ustr \<Rightarrow> ustr list" where
  "split_runs acc sep [] = [rev acc]"
| "split_runs acc sep (c # cs) =
     (if comma_or_space c then (if sep then split_runs acc True cs else rev acc # split_runs [] True cs)
      else split_runs (c # acc) False cs)"

definition re_split_commas :: "ustr \<Rightarrow> ustr list" where
  "re_split_commas s = split_runs [] False s"

fun floats_of_strs :: "ustr list \<Rightarrow> pyfloat list option" where
  "floats_of_strs [] = Some []"
| "floats_of_strs (p # ps) =
     (case (float_of_str p, floats_of_strs ps) of (Some f, Some fs) \<Rightarrow> Some (f # fs) | _ \<Rightarrow> None)"

definition group_vector :: "ustr \<Rightarrow> real list option" where
  "group_vector g =
     (let parts = re_split_commas (py_strip g)
      in if length parts \<noteq> 2 \<and> length parts \<noteq> 3 then None
         else (case floats_of_strs parts of None \<Rightarrow> None
               | Some nums \<Rightarrow> if list_all isfinite nums then Some (map fval nums) else None))"

definition extract_bracket_vectors :: "ustr \<Rightarrow> real list list" where
  "extract_bracket_vectors label = List.map_filter group_vector (round_groups label)"

definition count_bracket_vectors :: "ustr \<Rightarrow> nat" where
  "count_bracket_vectors label = length (extract_bracket_vectors label)"

definition has_bracket_vector :: "ustr \<Rightarrow> bool" where
  "has_bracket_vector label \<longleftrightarrow> 0 < count_bracket_vectors label"

definition extract_direction_vec :: "ustr \<Rightarrow> bbox \<Rightarrow> real list option \<times> nat" where
  "extract_direction_vec label bbox =
     (case extract_bracket_vectors label of
        [] \<Rightarrow> (None, 0)
      | nums # _ \<Rightarrow>
        if length nums = 2 then
          (let cx = (bbox ! 0 + bbox ! 2) / 2; cy = (bbox ! 1 + bbox ! 3) / 2
           in (Some [nums ! 0 - cx, cy - nums ! 1], 2))
        else if length nums = 3 then (Some [nums ! 0, nums ! 1, nums ! 2], 3)
        else (None, 0))"

section \<open>The direction coefficient\<close>

text \<open>\<open>np.linalg.norm\<close> is the root of the sum of squares, which may overflow.\<close>

text \<open>Evaluation of a square root: the first hundred integers are tried, which covers the
  concrete vectors of this development.\<close>

fun root_from :: "nat \<Rightarrow> real \<Rightarrow> real \<Rightarrow> real option" where
  "root_from 0 k x = None"
| "root_from (Suc n) k x = (if k * k = x then Some k else root_from n (k + 1) x)"

lemma root_from_sqrt: "root_from n k x = Some r \<Longrightarrow> 0 \<le> k \<Longrightarrow> sqrt x = r"
  by (induction n k x rule: root_from.induct) (auto split: if_splits)

lemma sqrt_code [code]:
  "sqrt x = (case root_from 100 0 x of Some r \<Rightarrow> r | None \<Rightarrow> Code.abort (STR ''sqrt'') (\<lambda>_. sqrt x))"
  by (auto split: option.splits dest: root_from_sqrt)

definition np_norm :: "real list \<Rightarrow> pyfloat" where
  "np_norm v = (case to_float (sum_list (map (\<lambda>x. x * x) v)) of Fin q \<Rightarrow> Fin (sqrt q) | f \<Rightarrow> f)"

text \<open>The product of two norms; with an infinite factor it is infinite or NaN, never finite.\<close>

fun norm_product :: "pyfloat \<Rightarrow> pyfloat \<Rightarrow> pyfloat" where
  "norm_product (Fin a) (Fin b) = to_float (a * b)"
| "norm_product (Fin a) _ = (if a = 0 then NaN else PInf)"
| "norm_product _ (Fin b) = (if b = 0 then NaN else PInf)"
| "norm_product _ _ = PInf"

definition np_dot :: "real list \<Rightarrow> real list \<Rightarrow> real" where
  "np_dot v w = sum_list (map2 (*) v w)"

definition direction_cos :: "real list \<Rightarrow> real list \<Rightarrow> real" where
  "direction_cos gt_cmp pred_cmp =
     (case norm_product (np_norm gt_cmp) (np_norm pred_cmp) of
        Fin n \<Rightarrow> if 1 / 10 ^ 12 \<le> n then max 0 (min 1 (np_dot gt_cmp pred_cmp / n)) else 0
      | _ \<Rightarrow> 0)"

definition dir_coef ::
  "real list option \<times> nat \<Rightarrow> real list option \<times> nat \<Rightarrow> real" where
  "dir_coef g p =
     (case fst g of None \<Rightarrow> 1
      | Some gt_vec \<Rightarrow>
        (case fst p of None \<Rightarrow> 0
         | Some pred_vec \<Rightarrow>
           if snd g = snd p then direction_cos gt_vec pred_vec
           else max 0 (direction_cos (take 2 gt_vec) (take 2 pred_vec) - 1 / 10)))"

section \<open>R3\<close>

definition format_violation :: "ustr \<Rightarrow> bool" where
  "format_violation pl =
     (let has_move = kw_move \<in> extract_keyword_set pl; vec_count = count_bracket_vectors pl
      in has_move \<and> vec_count = 0 \<or> \<not> has_move \<and> vec_count > 0 \<or> has_move \<and> vec_count > 1)"

text \<open>The score of a matched pair of (lower-cased) labels, before the IoU factor.\<close>

definition label_score :: "ustr \<Rightarrow> bbox \<Rightarrow> ustr \<Rightarrow> bbox \<Rightarrow> real" where
  "label_score gt_label gt_box pred_label pred_box =
     (let gt_set = extract_keyword_set gt_label; pred_set = extract_keyword_set pred_label
      in if gt_set = {} \<or> \<not> pred_set \<subseteq> gt_set then 0
         else (real (card pred_set)
               + (if kw_move \<in> gt_set \<and> kw_move \<in> pred_set
                  then dir_coef (extract_direction_vec gt_label gt_box)
                         (extract_direction_vec pred_label pred_box) - 1
                  else 0)) / real (card gt_set))"

definition pair_score :: "entry list \<Rightarrow> entry list \<Rightarrow> nat \<times> nat \<times> real \<Rightarrow> real" where
  "pair_score gt_entries pred_entries =
     (\<lambda>(gi, pi, iou_ij).
       label_score (py_lower (snd (gt_entries ! gi))) (fst (gt_entries ! gi))
         (py_lower (snd (pred_entries ! pi))) (fst (pred_entries ! pi)) * iou_ij)"

definition score_r3 :: "entry list \<Rightarrow> entry list \<Rightarrow> (nat \<times> nat \<times> real) list \<Rightarrow> real" where
  "score_r3 gt_entries pred_entries matches =
     (if list_ex (\<lambda>e. format_violation (py_lower (snd e))) pred_entries then -1
      else if matches = [] then 0
      else sum_list (map (pair_score gt_entries pred_entries) matches) / real (length matches))"

section \<open>Facts\<close>

lemma kw_search_iff:
  "kw \<noteq> [] \<Longrightarrow> kw_search prev kw s \<longleftrightarrow>
    (\<exists>a b. s = a @ kw @ b \<and> (if a = [] then \<not> prev else \<not> is_word (last a)))"
proof (induction prev kw s rule: kw_search.induct)
  case (2 prev kw c cs)
  show ?case (is "?l \<longleftrightarrow> ?r")
  proof
    assume ?l
    then consider "\<not> prev" "starts_with kw (c # cs)" | "kw_search (is_word c) kw cs" by auto
    then show ?r
    proof cases
      case 1
      then show ?thesis by (auto simp: starts_with_append intro!: exI [of _ "[]"])
    next
      case 2
      then obtain a b where "cs = a @ kw @ b"
        "if a = [] then \<not> is_word c else \<not> is_word (last a)"
        using "2.IH" "2.prems" by blast
      then show ?thesis by (intro exI [of _ "c # a"] exI [of _ b]) auto
    qed
  next
    assume ?r
    then obtain a b where s: "c # cs = a @ kw @ b"
      and l: "if a = [] then \<not> prev else \<not> is_word (last a)" by blast
    show ?l
    proof (cases a)
      case Nil
      with s l have "\<not> prev" "starts_with kw (c # cs)" by (auto simp: starts_with_append)
      then show ?thesis by simp
    next
      case (Cons x a')
      with s l have "cs = a' @ kw @ b \<and> (if a' = [] then \<not> is_word c else \<not> is_word (last a'))"
        by auto
      then have "kw_search (is_word c) kw cs"
        using "2.IH" "2.prems" by blast
      then show ?thesis by simp
    qed
  qed
qed simp

lemma finite_keywords [simp]: "finite (extract_keyword_set s)"
  by (simp add: extract_keyword_set_def)

lemma to_float_Fin: "to_float x = Fin y \<Longrightarrow> y = x"
  by (simp add: to_float_def split: if_splits)

lemma direction_cos_unit: "0 \<le> direction_cos v w \<and> direction_cos v w \<le> 1"
  by (simp add: direction_cos_def split: pyfloat.splits)

lemma dir_coef_unit: "0 \<le> dir_coef g p \<and> dir_coef g p \<le> 1"
proof -
  have "direction_cos v w - 1 / 10 \<le> 1" for v w
    using direction_cos_unit [of v w] by linarith
  then show ?thesis
    using direction_cos_unit by (auto simp: dir_coef_def split: option.splits)
qed

lemma np_dot_sym: "np_dot v w = np_dot w v"
  unfolding np_dot_def by (induction v w rule: list_induct2') (auto simp: mult.commute)

lemma norm_product_sym: "norm_product a b = norm_product b a"
  by (cases a; cases b) (auto simp: mult.commute)

lemma direction_cos_sym: "direction_cos v w = direction_cos w v"
  unfolding direction_cos_def norm_product_sym [of "np_norm v"] np_dot_sym [of v] ..

lemma label_score_unit: "0 \<le> label_score gl gb pl pb \<and> label_score gl gb pl pb \<le> 1"
proof -
  let ?g = "extract_keyword_set gl" and ?p = "extract_keyword_set pl"
  let ?d = "dir_coef (extract_direction_vec gl gb) (extract_direction_vec pl pb)"
  show ?thesis
  proof (cases "?g = {} \<or> \<not> ?p \<subseteq> ?g")
    case False
    then have le: "real (card ?p) \<le> real (card ?g)" and pos: "0 < real (card ?g)"
      by (auto intro: card_mono simp: card_gt_0_iff)
    have one: "1 \<le> real (card ?p)" if "kw_move \<in> ?p"
      using that by (auto simp: Suc_le_eq card_gt_0_iff)
    show ?thesis
      using False le pos one dir_coef_unit [of "extract_direction_vec gl gb" "extract_direction_vec pl pb"]
      by (auto simp: label_score_def Let_def divide_le_eq)
  qed (auto simp: label_score_def Let_def)
qed

lemma pair_score_unit:
  assumes "0 \<le> snd (snd m)" and "snd (snd m) \<le> 1"
  shows "0 \<le> pair_score gts preds m \<and> pair_score gts preds m \<le> 1"
proof (cases m)
  case (fields gi pi i)
  have "0 \<le> label_score gl gb pl pb * i \<and> label_score gl gb pl pb * i \<le> 1" for gl gb pl pb
    using label_score_unit [of gl gb pl pb] assms fields by (auto intro: mult_le_one)
  then show ?thesis by (simp add: pair_score_def fields)
qed

lemma score_r3_gate:
  "list_ex (\<lambda>e. format_violation (py_lower (snd e))) preds \<Longrightarrow> score_r3 gts preds ms = -1"
  by (simp add: score_r3_def)

lemma score_r3_unit:
  assumes "\<not> list_ex (\<lambda>e. format_violation (py_lower (snd e))) preds"
    and "\<And>m. m \<in> set ms \<Longrightarrow> 0 \<le> snd (snd m) \<and> snd (snd m) \<le> 1"
  shows "0 \<le> score_r3 gts preds ms \<and> score_r3 gts preds ms \<le> 1"
proof (cases "ms = []")
  case False
  have "0 \<le> sum_list (map (pair_score gts preds) ms) / real (length (map (pair_score gts preds) ms))
    \<and> sum_list (map (pair_score gts preds) ms) / real (length (map (pair_score gts preds) ms)) \<le> 1"
    by (rule mean_unit_bounds) (use assms(2) pair_score_unit in auto)
  then show ?thesis
    using False assms(1) by (simp add: score_r3_def)
qed (use assms(1) in \<open>simp add: score_r3_def\<close>)

lemma score_r3_range:
  assumes "\<And>m. m \<in> set ms \<Longrightarrow> 0 \<le> snd (snd m) \<and> snd (snd m) \<le> 1"
  shows "-1 \<le> score_r3 gts preds ms \<and> score_r3 gts preds ms \<le> 1"
  using score_r3_gate [of preds gts ms] score_r3_unit [of preds ms gts, OF _ assms] by fastforce

text \<open>The matches carry the IoU of the boxes they pair, whichever pairs the solver returns
  within range.\<close>

context assignment_solver
begin

lemma match_entry:
  assumes "(i, j, x) \<in> set (hungarian_match solve gts preds)"
  shows "i < length gts \<and> j < length preds \<and> x = iou (fst (gts ! i)) (fst (preds ! j))"
proof -
  have ne: "gts \<noteq> []" "preds \<noteq> []"
    using assms by (auto simp: hungarian_match_def)
  let ?c = "iou_matrix (map fst gts) (map fst preds)"
  have ij: "(i, j) \<in> set (solve (neg_matrix ?c))" and x: "x = ?c ! i ! j"
    using assms ne by (auto simp: hungarian_match_def Let_def)
  have "i < length gts \<and> j < length preds"
    using solve_range [OF neg_matrix_rect [OF iou_matrix_rect] _ _ ij] ne by simp
  with x show ?thesis by simp
qed

lemma match_unit:
  "m \<in> set (hungarian_match solve gts preds) \<Longrightarrow> 0 \<le> snd (snd m) \<and> snd (snd m) \<le> 1"
  using match_entry by (cases m) fastforce

lemmas r3_range = score_r3_range [OF match_unit]
lemmas r3_unit = score_r3_unit [OF _ match_unit]

end


section \<open>Properties\<close>

text \<open>A label has a keyword exactly when one of the six keywords occurs in it at the start
  of a word: "moved" has "move", "remove" has not.\<close>

theorem keyword_set_spec:
  "kw \<in> extract_keyword_set label \<longleftrightarrow>
     kw \<in> {kw_add, kw_delete, kw_rotate, kw_replace, kw_move, kw_background}
     \<and> (\<exists>a b. label = a @ kw @ b \<and> (if a = [] then True else \<not> is_word (last a)))"
proof -
  have k: "{kw_add, kw_delete, kw_rotate, kw_replace, kw_move, kw_background} = set LABEL_KEYWORDS"
    by (simp add: LABEL_KEYWORDS_def)
  have "kw \<noteq> []" if "kw \<in> set LABEL_KEYWORDS"
    using that by (auto simp: LABEL_KEYWORDS_def keyword_defs)
  then show ?thesis
    unfolding k using kw_search_iff [of kw False label]
    by (cases "kw \<in> set LABEL_KEYWORDS") (simp_all add: extract_keyword_set_def)
qed

lemma format_violation_iff:
  "format_violation pl \<longleftrightarrow> count_bracket_vectors pl \<noteq> (if kw_move \<in> extract_keyword_set pl then 1 else 0)"
  by (auto simp: format_violation_def Let_def)

text \<open>C39: R3 is -1 exactly when some predicted label breaks the format rule (exactly one vector in a
  label with "move", none in any other), matched or not; otherwise it is in the unit interval.\<close>

theorem score_r3_spec:
  assumes "assignment_solver solve"
  shows "score_r3 gts preds (hungarian_match solve gts preds) =
     (if list_ex (\<lambda>e. count_bracket_vectors (py_lower (snd e))
           \<noteq> (if kw_move \<in> extract_keyword_set (py_lower (snd e)) then 1 else 0)) preds then -1
      else \<bar>score_r3 gts preds (hungarian_match solve gts preds)\<bar>)
    \<and> \<bar>score_r3 gts preds (hungarian_match solve gts preds)\<bar> \<le> 1"
proof -
  have "0 \<le> score_r3 gts preds (hungarian_match solve gts preds)
      \<and> score_r3 gts preds (hungarian_match solve gts preds) \<le> 1"
    if "\<not> list_ex (\<lambda>e. format_violation (py_lower (snd e))) preds"
    by (rule assignment_solver.r3_unit [OF assms that])
  then show ?thesis
    unfolding format_violation_iff [symmetric]
    using score_r3_gate [of preds gts] by (cases "list_ex (\<lambda>e. format_violation (py_lower (snd e))) preds") auto
qed

definition label_bad :: entry where
  "label_bad = ([0, 0, 5, 5], u ''Move the mug'')"

theorem score_r3_spec_witness:
  "score_r3 [([0, 0, 5, 5], u ''move (1, 0, 0)'')] [label_bad]
     (hungarian_match brute_assignment [([0, 0, 5, 5], u ''move (1, 0, 0)'')] [label_bad]) = -1"
proof -
  have "list_ex (\<lambda>e. count_bracket_vectors (py_lower (snd e))
      \<noteq> (if kw_move \<in> extract_keyword_set (py_lower (snd e)) then 1 else 0)) [label_bad]" by code_simp
  then show ?thesis
    using score_r3_spec [OF brute.assignment_solver_axioms,
      of "[([0, 0, 5, 5], u ''move (1, 0, 0)'')]" "[label_bad]"] by (simp only: if_True)
qed

text \<open>A matched pair gets the full label score exactly when the ground truth has a keyword,
  both labels have the same keywords and, if they say "move", the directions agree fully; a
  keyword the ground truth does not have costs the whole score.\<close>

theorem label_score_full:
  "(label_score gl gb pl pb = 1 \<longleftrightarrow>
      extract_keyword_set gl \<noteq> {} \<and> extract_keyword_set pl = extract_keyword_set gl
      \<and> (if kw_move \<in> extract_keyword_set gl
         then dir_coef (extract_direction_vec gl gb) (extract_direction_vec pl pb) = 1 else True))
   \<and> (if extract_keyword_set pl \<subseteq> extract_keyword_set gl then True else label_score gl gb pl pb = 0)"
proof -
  let ?g = "extract_keyword_set gl" and ?p = "extract_keyword_set pl"
  let ?d = "dir_coef (extract_direction_vec gl gb) (extract_direction_vec pl pb)"
  let ?x = "if kw_move \<in> ?g \<and> kw_move \<in> ?p then ?d - 1 else 0"
  have "label_score gl gb pl pb = 1 \<longleftrightarrow> ?p = ?g \<and> (kw_move \<in> ?g \<longrightarrow> ?d = 1)"
    if ne: "?g \<noteq> {}" and sub: "?p \<subseteq> ?g"
  proof -
    have "label_score gl gb pl pb = 1 \<longleftrightarrow> real (card ?p) + ?x = real (card ?g)"
      using ne sub by (simp add: label_score_def Let_def divide_eq_eq)
    moreover have "real (card ?p) \<le> real (card ?g)" "?x \<le> 0"
      using sub dir_coef_unit by (auto intro: card_mono)
    moreover have "?p = ?g" if "card ?p = card ?g"
      using sub that by (intro card_subset_eq) auto
    ultimately show ?thesis by (cases "?p = ?g") auto
  qed
  moreover have "label_score gl gb pl pb = 0" if "?g = {} \<or> \<not> ?p \<subseteq> ?g"
    using that by (auto simp: label_score_def Let_def)
  ultimately show ?thesis by (cases "?g = {} \<or> \<not> ?p \<subseteq> ?g") auto
qed

text \<open>The direction coefficient does not depend on which side has the two- and which the
  three-valued vector; it is in the unit interval, and at most 0.9 when the dimensions differ.\<close>

theorem dir_coef_symmetric:
  "dir_coef (Some v, n) (Some w, m) = dir_coef (Some w, m) (Some v, n)
   \<and> 0 \<le> dir_coef (Some v, n) (Some w, m)
   \<and> dir_coef (Some v, n) (Some w, m) \<le> (if n = m then 1 else 9 / 10)"
proof -
  have "max 0 (direction_cos (take 2 v) (take 2 w) - 1 / 10) \<le> 9 / 10"
    using direction_cos_unit [of "take 2 v" "take 2 w"] by (intro max.boundedI) linarith+
  then show ?thesis
    using direction_cos_unit [of v w]
    by (simp add: dir_coef_def direction_cos_sym [of w] direction_cos_sym [of "take 2 w"])
qed

lemma np_dot_self: "np_dot v v = sum_list (map (\<lambda>x. x * x) v)"
  unfolding np_dot_def by (induction v) auto

lemma np_dot_scale: "np_dot v (map ((*) k) w) = k * np_dot v w"
  unfolding np_dot_def by (induction v w rule: list_induct2') (auto simp: algebra_simps)

lemma np_norm_dot: "np_norm v = Fin a \<Longrightarrow> a = sqrt (np_dot v v)"
  by (auto simp: np_norm_def np_dot_self split: pyfloat.splits dest: to_float_Fin)

lemma np_dot_nonneg: "0 \<le> np_dot v v"
  unfolding np_dot_self by (rule sum_list_nonneg) auto

text \<open>Vectors that point the same way have coefficient 1, whatever their lengths, and
  vectors that are perpendicular or opposed have coefficient 0 (for vectors whose squared
  lengths stay in the float range and whose norms are not negligible).\<close>

theorem direction_cos_spec:
  assumes "norm_product (np_norm v) (np_norm w) = Fin n" and "1 / 10 ^ 12 \<le> n"
  shows "(if w = map ((*) k) v \<and> 0 < k then direction_cos v w = 1 else True)
       \<and> (if np_dot v w \<le> 0 then direction_cos v w = 0 else True)"
proof -
  obtain a b where ab: "np_norm v = Fin a" "np_norm w = Fin b"
    using assms(1) by (cases "np_norm v"; cases "np_norm w") (auto split: if_splits)
  have n: "n = sqrt (np_dot v v) * sqrt (np_dot w w)"
    using assms(1) ab by (auto dest!: to_float_Fin np_norm_dot)
  have pos: "0 < n" by (rule less_le_trans [OF _ assms(2)]) simp
  have d: "direction_cos v w = max 0 (min 1 (np_dot v w / n))"
    using assms by (simp add: direction_cos_def)
  have "direction_cos v w = 1" if w: "w = map ((*) k) v" and k: "0 < k"
  proof -
    have "np_dot w w = k * k * np_dot v v"
      unfolding w np_dot_scale np_dot_sym [of "map ((*) k) v"] by simp
    then have "n = k * np_dot v v"
      using k np_dot_nonneg [of v] by (simp add: n real_sqrt_mult)
    moreover have "np_dot v w = k * np_dot v v" by (simp add: w np_dot_scale)
    ultimately have "np_dot v w = n" by simp
    then have "np_dot v w / n = 1" using pos by simp
    with d show ?thesis by simp
  qed
  moreover have "direction_cos v w = 0" if "np_dot v w \<le> 0"
  proof -
    have "np_dot v w / n \<le> 0" using that pos by (simp add: divide_le_0_iff)
    with d show ?thesis by simp
  qed
  ultimately show ?thesis by simp
qed

theorem direction_cos_spec_witness:
  "direction_cos [3, 4] (map ((*) 2) [3, 4]) = 1 \<and> direction_cos [3, 4] [-3, -4] = 0"
proof -
  have r: "sqrt 25 = 5" "sqrt 100 = 10"
    by (rule real_sqrt_unique; simp)+
  have a: "norm_product (np_norm [3, 4]) (np_norm (map ((*) 2) [3, 4])) = Fin 50"
    by (simp add: np_norm_def r)
  have b: "norm_product (np_norm [3, 4]) (np_norm [-3, -4]) = Fin 25"
    by (simp add: np_norm_def r)
  have "direction_cos [3, 4] (map ((*) 2) [3, 4]) = 1"
    using direction_cos_spec [OF a, of 2] by simp
  moreover have "direction_cos [3, 4] [-3, -4] = 0"
    using direction_cos_spec [OF b, of 1] by (simp add: np_dot_def)
  ultimately show ?thesis ..
qed

end
