(* ===== verification/Rewards.thy ===== *)
theory Rewards
  imports LabelReward
begin

text \<open>
  The rewards of \<^verbatim>\<open>json_answer_reward.py\<close> put together: R4, the two combined rewards,
  the routes by data source, the detailed score, the external-model score and the reasoning
  gate. The HTTP client is a pair of arguments: \<open>r4 pred gt\<close> is what
  \<open>score_summary(pred, gt)\<close> returns or raises, \<open>support sentence a b\<close> what
  \<open>classify_option_support\<close> does (the loader that finds them is theory \<open>LazyClient\<close>).
\<close>

type_synonym summary_client = "ustr \<Rightarrow> ustr \<Rightarrow> pyfloat py"
type_synonym support_client = "ustr \<Rightarrow> ustr \<Rightarrow> ustr \<Rightarrow> json py"

section \<open>R4\<close>

definition key_summary :: ustr where
  "key_summary = [115, 117, 109, 109, 97, 114, 121]"

definition in_unit :: "pyfloat \<Rightarrow> bool" where
  "in_unit f = (case f of Fin x \<Rightarrow> 0 \<le> x \<and> x \<le> 1 | _ \<Rightarrow> False)"

definition score_r4 :: "summary_client \<Rightarrow> dict option \<Rightarrow> dict option \<Rightarrow> real py" where
  "score_r4 r4 pred_obj gt_obj =
     (case (pred_obj, gt_obj) of
        (Some p, Some g) \<Rightarrow>
          (case (dict_get_or g key_summary (JStr []), dict_get_or p key_summary (JStr [])) of
             (JStr gt_summary, JStr pred_summary) \<Rightarrow>
               if py_strip gt_summary = [] \<or> py_strip pred_summary = [] then Inr 0
               else bindE (r4 pred_summary gt_summary) (\<lambda>score.
                      if in_unit score then Inr (fval score) else Inl ValueError)
           | _ \<Rightarrow> Inr 0)
      | _ \<Rightarrow> Inr 0)"

section \<open>The combined rewards\<close>

definition answer_of :: "(pyfloat \<Rightarrow> ustr) \<Rightarrow> dict option \<Rightarrow> ustr option" where
  "answer_of fr obj =
     normalize_answer fr (case obj of Some d \<Rightarrow> dict_get d key_answer | None \<Rightarrow> JNull)"

definition same_answer :: "ustr option \<Rightarrow> ustr option \<Rightarrow> bool" where
  "same_answer gt_answer pred_answer \<longleftrightarrow>
     gt_answer \<noteq> None \<and> pred_answer \<noteq> None \<and> gt_answer = pred_answer"

definition answer_gate :: "(pyfloat \<Rightarrow> ustr) \<Rightarrow> ustr \<Rightarrow> json \<Rightarrow> real" where
  "answer_gate fr solution_str ground_truth =
     (if same_answer (answer_of fr (parse_json_obj fr ground_truth))
           (answer_of fr (parse_json_obj fr (JStr solution_str))) then 1 else 0)"

definition score_spatial_consistency_bbox ::
  "(pyfloat \<Rightarrow> ustr) \<Rightarrow> (real list list \<Rightarrow> (nat \<times> nat) list) \<Rightarrow> summary_client
     \<Rightarrow> ustr \<Rightarrow> json \<Rightarrow> real py" where
  "score_spatial_consistency_bbox fr solve r4 solution_str ground_truth =
     (let gt_obj = parse_json_obj fr ground_truth;
          pred_obj = parse_json_obj fr (JStr solution_str);
          c = (if same_answer (answer_of fr gt_obj) (answer_of fr pred_obj) then 1 else 0)
      in if c = 0 then Inr 0
         else bindE (parse_bbox_entries fr ground_truth) (\<lambda>gt_entries.
              bindE (parse_bbox_entries fr (JStr solution_str)) (\<lambda>pred_entries.
                if length gt_entries = 0 then Inr (if length pred_entries = 0 then 1 else 1 / 5)
                else (let r2 = score_r2 gt_entries pred_entries;
                          matches = hungarian_match solve gt_entries pred_entries;
                          r3 = score_r3 gt_entries pred_entries matches
                      in bindE (score_r4 r4 pred_obj gt_obj) (\<lambda>r4_score.
                           Inr (c * (1 / 10 + 1 / 4 * r2 + 1 / 4 * r3 + 2 / 5 * r4_score)))))))"

definition score_spatial_detection ::
  "(pyfloat \<Rightarrow> ustr) \<Rightarrow> (real list list \<Rightarrow> (nat \<times> nat) list) \<Rightarrow> summary_client
     \<Rightarrow> ustr \<Rightarrow> json \<Rightarrow> real py" where
  "score_spatial_detection fr solve r4 solution_str ground_truth =
     (let gt_obj = parse_json_obj fr ground_truth;
          pred_obj = parse_json_obj fr (JStr solution_str)
      in bindE (parse_bbox_entries fr ground_truth) (\<lambda>gt_entries.
         bindE (parse_bbox_entries fr (JStr solution_str)) (\<lambda>pred_entries.
           (let r2 = score_r2 gt_entries pred_entries;
                matches = hungarian_match solve gt_entries pred_entries;
                r3 = score_r3 gt_entries pred_entries matches
            in bindE (score_r4 r4 pred_obj gt_obj) (\<lambda>r4_score.
                 Inr (1 / 4 * r2 + 1 / 4 * r3 + 1 / 2 * r4_score))))))"

section \<open>Routes\<close>

definition INCONSISTENT_COT_LOCAL_EVAL_SOURCE :: ustr where
  "INCONSISTENT_COT_LOCAL_EVAL_SOURCE = u ''inconsistent_cot_local_eval''"

definition INCONSISTENT_COT_GEMINI_EVAL_SOURCE :: ustr where
  "INCONSISTENT_COT_GEMINI_EVAL_SOURCE = u ''inconsistent_cot_gemini_eval''"

definition JSON_ANSWER_SOURCES :: "ustr list" where
  "JSON_ANSWER_SOURCES = map u [''spatial_consistency_pos'', ''spatial_consistency_pos_train'',
     ''spatial_consistency_neg'', ''spatial_consistency_neg_train'', ''vst_caption'',
     ''spatialscore'', ''spatialcorpus_vi'', ''viewspatial'', ''vst_oor'']"

definition HUNGARIAN_IOU_SOURCES :: "ustr list" where
  "HUNGARIAN_IOU_SOURCES = [u ''humanref_cot'']"

definition SPATIAL_CONSISTENCY_BBOX_SOURCES :: "ustr list" where
  "SPATIAL_CONSISTENCY_BBOX_SOURCES = map u [''spatial_consistency_bbox_pos'',
     ''spatial_consistency_bbox_pos_train'', ''spatial_consistency_bbox_neg'',
     ''spatial_consistency_bbox_neg_train'', ''inconsistent_qwen_eval'', ''inconsistent_qwen'',
     ''consistent_qwen_eval'', ''consistent_qwen''] @ [INCONSISTENT_COT_LOCAL_EVAL_SOURCE]"

definition ANSWER_SUMMARY_EVAL_SOURCES :: "ustr list" where
  "ANSWER_SUMMARY_EVAL_SOURCES = [INCONSISTENT_COT_GEMINI_EVAL_SOURCE]"

definition SPATIAL_DETECTION_SOURCES :: "ustr list" where
  "SPATIAL_DETECTION_SOURCES = map u [''spatial_detection'', ''spatial_detection_train'',
     ''detection_qwen_eval'', ''detection_qwen'']"

definition KNOWN_SOURCES :: "ustr list" where
  "KNOWN_SOURCES = JSON_ANSWER_SOURCES @ HUNGARIAN_IOU_SOURCES @ SPATIAL_CONSISTENCY_BBOX_SOURCES
     @ SPATIAL_DETECTION_SOURCES @ ANSWER_SUMMARY_EVAL_SOURCES"

definition REASONING_GATE_SOURCES :: "ustr list" where
  "REASONING_GATE_SOURCES = map u [''spatial_consistency_pos'', ''spatial_consistency_pos_train'',
     ''spatial_consistency_neg'', ''spatial_consistency_neg_train'',
     ''spatial_consistency_bbox_pos'', ''spatial_consistency_bbox_pos_train'',
     ''spatial_consistency_bbox_neg'', ''spatial_consistency_bbox_neg_train'',
     ''consistent_qwen_eval'', ''consistent_qwen'', ''inconsistent_qwen_eval'',
     ''inconsistent_qwen''] @ [INCONSISTENT_COT_LOCAL_EVAL_SOURCE]"

definition compute_score ::
  "(pyfloat \<Rightarrow> ustr) \<Rightarrow> (real list list \<Rightarrow> (nat \<times> nat) list) \<Rightarrow> summary_client
     \<Rightarrow> ustr \<Rightarrow> ustr \<Rightarrow> json \<Rightarrow> real py" where
  "compute_score fr solve r4 data_source solution_str ground_truth =
     (if data_source \<in> set SPATIAL_DETECTION_SOURCES
        then score_spatial_detection fr solve r4 solution_str ground_truth
      else if data_source \<in> set SPATIAL_CONSISTENCY_BBOX_SOURCES
        then score_spatial_consistency_bbox fr solve r4 solution_str ground_truth
      else if data_source \<in> set HUNGARIAN_IOU_SOURCES
        then score_hungarian_iou fr solve solution_str ground_truth
      else if data_source \<in> set JSON_ANSWER_SOURCES
        then Inr (score_json_answer fr solution_str ground_truth)
      else Inl ValueError)"

section \<open>Detailed scores\<close>

text \<open>The returned dict, with \<open>None\<close> for an absent key.\<close>

record details =
  d_C :: "real option"
  d_R2 :: "real option"
  d_R3 :: "real option"
  d_R4 :: "real option"
  d_reward :: "real option"

definition no_details :: details where
  "no_details = \<lparr>d_C = None, d_R2 = None, d_R3 = None, d_R4 = None, d_reward = None\<rparr>"

definition bbox_details ::
  "(pyfloat \<Rightarrow> ustr) \<Rightarrow> summary_client \<Rightarrow> dict option \<Rightarrow> dict option \<Rightarrow> entry list \<Rightarrow> entry list
     \<Rightarrow> (nat \<times> nat \<times> real) list \<Rightarrow> details py" where
  "bbox_details fr r4 gt_obj pred_obj gt_entries pred_entries matches =
     (let c = (if same_answer (answer_of fr gt_obj) (answer_of fr pred_obj) then 1 else 0);
          details = no_details\<lparr>d_C := Some c\<rparr>
      in if gt_entries = []
         then Inr (details\<lparr>d_reward := Some (c * (if pred_entries = [] then 1 else 1 / 5))\<rparr>)
         else (let r2 = score_r2 gt_entries pred_entries;
                   r3 = score_r3 gt_entries pred_entries matches
               in bindE (score_r4 r4 pred_obj gt_obj) (\<lambda>r4_score.
                    Inr (details\<lparr>d_R2 := Some r2, d_R3 := Some r3, d_R4 := Some r4_score,
                      d_reward := Some (c * (1 / 10 + 1 / 4 * r2 + 1 / 4 * r3 + 2 / 5 * r4_score))\<rparr>))))"

definition detection_details ::
  "summary_client \<Rightarrow> dict option \<Rightarrow> dict option \<Rightarrow> entry list \<Rightarrow> entry list
     \<Rightarrow> (nat \<times> nat \<times> real) list \<Rightarrow> details py" where
  "detection_details r4 gt_obj pred_obj gt_entries pred_entries matches =
     (let r2 = score_r2 gt_entries pred_entries;
          r3 = score_r3 gt_entries pred_entries matches
      in bindE (score_r4 r4 pred_obj gt_obj) (\<lambda>r4_score.
           Inr (no_details\<lparr>d_R2 := Some r2, d_R3 := Some r3, d_R4 := Some r4_score,
                  d_reward := Some (1 / 4 * r2 + 1 / 4 * r3 + 1 / 2 * r4_score)\<rparr>)))"

definition compute_score_details ::
  "(pyfloat \<Rightarrow> ustr) \<Rightarrow> (real list list \<Rightarrow> (nat \<times> nat) list) \<Rightarrow> summary_client
     \<Rightarrow> ustr \<Rightarrow> ustr \<Rightarrow> json \<Rightarrow> details py" where
  "compute_score_details fr solve r4 data_source solution_str ground_truth =
     (if data_source \<in> set JSON_ANSWER_SOURCES
        then (let c = score_json_answer fr solution_str ground_truth
              in Inr (no_details\<lparr>d_C := Some c, d_reward := Some c\<rparr>))
      else if data_source \<in> set HUNGARIAN_IOU_SOURCES
        then bindE (score_hungarian_iou fr solve solution_str ground_truth) (\<lambda>r2.
               Inr (no_details\<lparr>d_R2 := Some r2, d_reward := Some r2\<rparr>))
      else (let gt_obj = parse_json_obj fr ground_truth;
                pred_obj = parse_json_obj fr (JStr solution_str)
            in bindE (parse_bbox_entries fr ground_truth) (\<lambda>gt_entries.
               bindE (parse_bbox_entries fr (JStr solution_str)) (\<lambda>pred_entries.
                 (let matches = hungarian_match solve gt_entries pred_entries
                  in if data_source \<in> set SPATIAL_CONSISTENCY_BBOX_SOURCES
                       then bbox_details fr r4 gt_obj pred_obj gt_entries pred_entries matches
                     else if data_source \<in> set SPATIAL_DETECTION_SOURCES
                       then detection_details r4 gt_obj pred_obj gt_entries pred_entries matches
                     else Inl ValueError)))))"

definition score_answer_and_summary ::
  "(pyfloat \<Rightarrow> ustr) \<Rightarrow> summary_client \<Rightarrow> ustr \<Rightarrow> ustr \<Rightarrow> json \<Rightarrow> details py" where
  "score_answer_and_summary fr r4 data_source solution_str ground_truth =
     (if data_source \<in> set HUNGARIAN_IOU_SOURCES then Inl ValueError
      else bindE
        (if data_source \<in> set JSON_ANSWER_SOURCES
         then Inr (score_json_answer fr solution_str ground_truth)
         else if data_source \<in> set ANSWER_SUMMARY_EVAL_SOURCES
             \<or> data_source \<in> set SPATIAL_CONSISTENCY_BBOX_SOURCES
             \<or> data_source \<in> set SPATIAL_DETECTION_SOURCES
         then Inr (answer_gate fr solution_str ground_truth)
         else Inl ValueError)
        (\<lambda>c. bindE (score_r4 r4 (parse_json_obj fr (JStr solution_str)) (parse_json_obj fr ground_truth))
          (\<lambda>r. Inr (no_details\<lparr>d_C := Some c, d_R4 := Some r\<rparr>))))"

section \<open>The reasoning gate\<close>

record gate_result =
  g_score :: real
  g_R1 :: real
  g_reasoning_gate :: real
  g_applied :: real
  g_malformed :: real
  g_unclear :: real

definition answer_correctness ::
  "(pyfloat \<Rightarrow> ustr) \<Rightarrow> ustr \<Rightarrow> ustr \<Rightarrow> json \<Rightarrow> real option" where
  "answer_correctness fr data_source solution_str ground_truth =
     (if data_source \<in> set JSON_ANSWER_SOURCES
        then Some (score_json_answer fr solution_str ground_truth)
      else if data_source \<in> set SPATIAL_CONSISTENCY_BBOX_SOURCES
        then Some (answer_gate fr solution_str ground_truth)
      else None)"

definition key_supported_option :: ustr where
  "key_supported_option = u ''supported_option''"

definition key_unclear_probability :: ustr where
  "key_unclear_probability = u ''unclear_probability''"

definition dict_item :: "dict \<Rightarrow> ustr \<Rightarrow> json py" where
  "dict_item d k = (case map_of d k of Some v \<Rightarrow> Inr v | None \<Rightarrow> Inl KeyError)"

text \<open>The checks of the client's answer: the option, A, B or U, and the probability.\<close>

definition read_support :: "(pyfloat \<Rightarrow> ustr) \<Rightarrow> json \<Rightarrow> (ustr \<times> real) py" where
  "read_support fr result =
     (case result of
        JObj d \<Rightarrow>
          bindE (dict_item d key_supported_option) (\<lambda>v.
            (let supported_option = py_upper (py_strip (py_str fr v))
             in if supported_option \<notin> {[65], [66], [85]} then Inl ValueError
                else bindE (dict_item d key_unclear_probability) (\<lambda>w.
                     bindE (float_of w) (\<lambda>unclear.
                       if in_unit unclear then Inr (supported_option, fval unclear)
                       else Inl ValueError))))
      | _ \<Rightarrow> Inl TypeError)"

definition compute_score_with_reasoning_gate ::
  "(pyfloat \<Rightarrow> ustr) \<Rightarrow> (real list list \<Rightarrow> (nat \<times> nat) list) \<Rightarrow> summary_client \<Rightarrow> support_client
     \<Rightarrow> ustr \<Rightarrow> ustr \<Rightarrow> json \<Rightarrow> json \<Rightarrow> gate_result py" where
  "compute_score_with_reasoning_gate fr solve r4 support data_source solution_str ground_truth extra_info =
     (if data_source \<notin> set REASONING_GATE_SOURCES
      then bindE (compute_score fr solve r4 data_source solution_str ground_truth) (\<lambda>score.
             Inr \<lparr>g_score = score, g_R1 = 1, g_reasoning_gate = 1, g_applied = 0,
                  g_malformed = 0, g_unclear = 0\<rparr>)
      else bindE (case answer_correctness fr data_source solution_str ground_truth of
                    Some r1 \<Rightarrow> Inr r1 | None \<Rightarrow> Inl TypeError) (\<lambda>r1.
        if r1 = 0
        then Inr \<lparr>g_score = 0, g_R1 = 0, g_reasoning_gate = 0, g_applied = 0,
                  g_malformed = 0, g_unclear = 0\<rparr>
        else (let thinking = extract_thinking solution_str;
                  last_sentence = extract_last_sentence thinking
              in if thinking = [] \<or> last_sentence = []
                 then Inr \<lparr>g_score = 0, g_R1 = 1, g_reasoning_gate = 0, g_applied = 1,
                           g_malformed = 1, g_unclear = 0\<rparr>
                 else bindE (extract_ab_options extra_info) (\<lambda>(option_a, option_b).
                      bindE (support last_sentence option_a option_b) (\<lambda>result.
                      bindE (read_support fr result) (\<lambda>(supported_option, unclear).
                        (let expected_option = py_upper
                               (case extract_json_answer fr solution_str of
                                  Some a \<Rightarrow> a | None \<Rightarrow> [78, 111, 110, 101])
                         in if \<not> (supported_option = [85] \<or> supported_option = expected_option)
                            then Inr \<lparr>g_score = 0, g_R1 = 1, g_reasoning_gate = 0, g_applied = 1,
                                      g_malformed = 0, g_unclear = unclear\<rparr>
                            else bindE (compute_score fr solve r4 data_source solution_str ground_truth)
                              (\<lambda>score. Inr \<lparr>g_score = score, g_R1 = 1, g_reasoning_gate = 1,
                                 g_applied = 1, g_malformed = 0, g_unclear = unclear\<rparr>))))))))"


section \<open>Facts\<close>

lemma score_r4_unit: "score_r4 r4 p g = Inr x \<Longrightarrow> 0 \<le> x \<and> x \<le> 1"
  by (auto simp: score_r4_def in_unit_def split: option.splits json.splits if_splits pyfloat.splits)

lemma score_json_answer_binary: "score_json_answer fr s gt \<in> {0, 1}"
  by (auto simp: score_json_answer_def split: option.splits)

interpretation r4: unit_scorer "\<lambda>(p, g). score_r4 r4 p g"
  by unfold_locales (use score_r4_unit in auto)

interpretation answers: unit_scorer "\<lambda>(s, gt). Inr (score_json_answer fr s gt)"
  by unfold_locales (auto simp: score_json_answer_def split: option.splits)

lemma answer_gate_binary: "answer_gate fr s gt \<in> {0, 1}"
  by (simp add: answer_gate_def)

lemma combined_range:
  fixes r2 r3 r4 :: real
  assumes "0 \<le> r2 \<and> r2 \<le> 1" and "-1 \<le> r3 \<and> r3 \<le> 1" and "0 \<le> r4 \<and> r4 \<le> 1"
  shows "- (15 / 100) \<le> 1 / 10 + 1 / 4 * r2 + 1 / 4 * r3 + 2 / 5 * r4"
    and "1 / 10 + 1 / 4 * r2 + 1 / 4 * r3 + 2 / 5 * r4 \<le> 1"
    and "- (1 / 4) \<le> 1 / 4 * r2 + 1 / 4 * r3 + 1 / 2 * r4"
    and "1 / 4 * r2 + 1 / 4 * r3 + 1 / 2 * r4 \<le> 1"
  using assms by auto

context assignment_solver
begin

lemma bbox_range:
  "score_spatial_consistency_bbox fr solve r4 s gt = Inr x \<Longrightarrow> - (15 / 100) \<le> x \<and> x \<le> 1"
  using combined_range(1,2) [OF score_r2_unit r3_range score_r4_unit]
  by (auto simp: score_spatial_consistency_bbox_def Let_def split: if_splits)

lemma detection_range:
  "score_spatial_detection fr solve r4 s gt = Inr x \<Longrightarrow> - (1 / 4) \<le> x \<and> x \<le> 1"
  using combined_range(3,4) [OF score_r2_unit r3_range score_r4_unit]
  by (auto simp: score_spatial_detection_def Let_def)

end

lemma answer_gate_zero_bbox:
  "answer_gate fr s gt = 0 \<Longrightarrow> score_spatial_consistency_bbox fr solve r4 s gt = Inr 0"
  by (simp add: answer_gate_def score_spatial_consistency_bbox_def Let_def split: if_splits)

lemma in_JSON_not_others:
  "src \<in> set JSON_ANSWER_SOURCES \<Longrightarrow> src \<notin> set SPATIAL_DETECTION_SOURCES
     \<and> src \<notin> set SPATIAL_CONSISTENCY_BBOX_SOURCES \<and> src \<notin> set HUNGARIAN_IOU_SOURCES
     \<and> src \<notin> set ANSWER_SUMMARY_EVAL_SOURCES"
proof -
  have "list_all (\<lambda>src. src \<notin> set SPATIAL_DETECTION_SOURCES
     \<and> src \<notin> set SPATIAL_CONSISTENCY_BBOX_SOURCES \<and> src \<notin> set HUNGARIAN_IOU_SOURCES
     \<and> src \<notin> set ANSWER_SUMMARY_EVAL_SOURCES) JSON_ANSWER_SOURCES" by code_simp
  then show "src \<in> set JSON_ANSWER_SOURCES \<Longrightarrow> ?thesis" unfolding list_all_iff by blast
qed

lemma in_bbox_not_others:
  "src \<in> set SPATIAL_CONSISTENCY_BBOX_SOURCES \<Longrightarrow> src \<notin> set SPATIAL_DETECTION_SOURCES
     \<and> src \<notin> set JSON_ANSWER_SOURCES \<and> src \<notin> set HUNGARIAN_IOU_SOURCES
     \<and> src \<notin> set ANSWER_SUMMARY_EVAL_SOURCES"
proof -
  have "list_all (\<lambda>src. src \<notin> set SPATIAL_DETECTION_SOURCES
     \<and> src \<notin> set JSON_ANSWER_SOURCES \<and> src \<notin> set HUNGARIAN_IOU_SOURCES
     \<and> src \<notin> set ANSWER_SUMMARY_EVAL_SOURCES) SPATIAL_CONSISTENCY_BBOX_SOURCES" by code_simp
  then show "src \<in> set SPATIAL_CONSISTENCY_BBOX_SOURCES \<Longrightarrow> ?thesis" unfolding list_all_iff by blast
qed

lemma in_hungarian_not_others:
  "src \<in> set HUNGARIAN_IOU_SOURCES \<Longrightarrow> src \<notin> set SPATIAL_DETECTION_SOURCES
     \<and> src \<notin> set JSON_ANSWER_SOURCES \<and> src \<notin> set SPATIAL_CONSISTENCY_BBOX_SOURCES
     \<and> src \<notin> set ANSWER_SUMMARY_EVAL_SOURCES"
proof -
  have "list_all (\<lambda>src. src \<notin> set SPATIAL_DETECTION_SOURCES
     \<and> src \<notin> set JSON_ANSWER_SOURCES \<and> src \<notin> set SPATIAL_CONSISTENCY_BBOX_SOURCES
     \<and> src \<notin> set ANSWER_SUMMARY_EVAL_SOURCES) HUNGARIAN_IOU_SOURCES" by code_simp
  then show "src \<in> set HUNGARIAN_IOU_SOURCES \<Longrightarrow> ?thesis" unfolding list_all_iff by blast
qed

lemma gate_source_routes:
  "src \<in> set REASONING_GATE_SOURCES \<Longrightarrow>
     src \<in> set JSON_ANSWER_SOURCES \<or> src \<in> set SPATIAL_CONSISTENCY_BBOX_SOURCES"
proof -
  have "list_all (\<lambda>src. src \<in> set JSON_ANSWER_SOURCES \<or> src \<in> set SPATIAL_CONSISTENCY_BBOX_SOURCES)
          REASONING_GATE_SOURCES" by code_simp
  then show "src \<in> set REASONING_GATE_SOURCES \<Longrightarrow> ?thesis" by (simp only: list_all_iff)
qed

lemmas route_facts = in_JSON_not_others in_bbox_not_others in_hungarian_not_others

lemma gate_answer:
  assumes "src \<in> set REASONING_GATE_SOURCES"
  obtains r where "answer_correctness fr src s gt = Some r" and "r \<in> {0, 1}"
    and "r = 0 \<Longrightarrow> compute_score fr solve r4 src s gt = Inr 0"
  using gate_source_routes [OF assms]
proof
  assume j: "src \<in> set JSON_ANSWER_SOURCES"
  show thesis
    using j in_JSON_not_others [OF j] score_json_answer_binary [of fr s gt]
    by (intro that) (auto simp: answer_correctness_def compute_score_def)
next
  assume b: "src \<in> set SPATIAL_CONSISTENCY_BBOX_SOURCES"
  show thesis
    using b in_bbox_not_others [OF b] answer_gate_binary [of fr s gt] answer_gate_zero_bbox [of fr s gt]
    by (intro that) (auto simp: answer_correctness_def compute_score_def)
qed


text \<open>What a run of the gate that returns has done, by the branch it took.\<close>

lemma gate_cases:
  assumes run: "compute_score_with_reasoning_gate fr solve r4 support src s gt ei = Inr r"
  obtains
    (ungated) "src \<notin> set REASONING_GATE_SOURCES" "g_R1 r = 1" "g_reasoning_gate r = 1"
      "g_applied r = 0" "g_malformed r = 0" "g_unclear r = 0"
      "compute_score fr solve r4 src s gt = Inr (g_score r)"
  | (wrong) "src \<in> set REASONING_GATE_SOURCES" "answer_correctness fr src s gt = Some 0"
      "g_score r = 0" "g_R1 r = 0" "g_reasoning_gate r = 0" "g_applied r = 0" "g_malformed r = 0"
      "g_unclear r = 0" "compute_score fr solve r4 src s gt = Inr 0"
  | (malformed) "src \<in> set REASONING_GATE_SOURCES" "answer_correctness fr src s gt = Some 1"
      "extract_thinking s = [] \<or> extract_last_sentence (extract_thinking s) = []"
      "g_score r = 0" "g_R1 r = 1" "g_reasoning_gate r = 0" "g_applied r = 1" "g_malformed r = 1"
      "g_unclear r = 0"
  | (judged) a b v opt p where "src \<in> set REASONING_GATE_SOURCES"
      "answer_correctness fr src s gt = Some 1"
      "extract_thinking s \<noteq> []" "extract_last_sentence (extract_thinking s) \<noteq> []"
      "extract_ab_options ei = Inr (a, b)"
      "support (extract_last_sentence (extract_thinking s)) a b = Inr v"
      "read_support fr v = Inr (opt, p)" "g_R1 r = 1" "g_applied r = 1" "g_malformed r = 0"
      "g_unclear r = p"
      "if opt = [85] \<or> opt = py_upper (case extract_json_answer fr s of Some x \<Rightarrow> x | None \<Rightarrow> [78, 111, 110, 101])
       then g_reasoning_gate r = 1 \<and> compute_score fr solve r4 src s gt = Inr (g_score r)
       else g_reasoning_gate r = 0 \<and> g_score r = 0"
proof (cases "src \<in> set REASONING_GATE_SOURCES")
  case False
  with run show ?thesis
    by (intro ungated) (auto simp: compute_score_with_reasoning_gate_def)
next
  case True
  obtain r1 where r1: "answer_correctness fr src s gt = Some r1" "r1 \<in> {0, 1}"
    and z: "r1 = 0 \<Longrightarrow> compute_score fr solve r4 src s gt = Inr 0"
    using gate_answer [OF True] by metis
  note run' = run [unfolded compute_score_with_reasoning_gate_def]
  show ?thesis
  proof (cases "r1 = 0")
    case r0: True
    show ?thesis
      using run' True r1(1) r0 z by (intro wrong) auto
  next
    case False
    then have one: "r1 = 1" using r1(2) by simp
    show ?thesis
    proof (cases "extract_thinking s = [] \<or> extract_last_sentence (extract_thinking s) = []")
      case m: True
      show ?thesis
        using run' True r1(1) one m by (intro malformed) (auto simp: Let_def)
    next
      case m: False
      then obtain a b v opt p where ab: "extract_ab_options ei = Inr (a, b)"
        and v: "support (extract_last_sentence (extract_thinking s)) a b = Inr v"
        and op: "read_support fr v = Inr (opt, p)"
        using run' True r1(1) one by (auto simp: Let_def bindE_eq_Inr)
      show ?thesis
        using run' True r1(1) one m ab v op
        by (intro judged [OF True _ _ _ ab v op]) (auto simp: Let_def split: if_splits)
    qed
  qed
qed


section \<open>Properties\<close>

text \<open>C37: Every reward that is returned is at most 1 and at least the documented lower end of
  its route: -0.25 for detection, -0.15 for the consistency boxes, 0 for the others.\<close>

theorem compute_score_range:
  assumes "assignment_solver solve" and "compute_score fr solve r4 src s gt = Inr x"
  shows "x \<le> 1 \<and> (if src \<in> set SPATIAL_DETECTION_SOURCES then - (1 / 4) \<le> x
                    else if src \<in> set SPATIAL_CONSISTENCY_BBOX_SOURCES then - (15 / 100) \<le> x
                    else 0 \<le> x)"
  using assms(2) assignment_solver.detection_range [OF assms(1)]
    assignment_solver.bbox_range [OF assms(1)]
    assignment_solver.score_hungarian_unit [OF assms(1)] answers.score_unit [of fr "(s, gt)" x]
  by (simp add: compute_score_def split: if_splits)

definition detection_gt :: json where
  "detection_gt = JStr (u ''{\"summary\": \"s\", \"boxes\": [{\"bbox\": [1, 1, 3, 3], \"label\": \"add\"}]}'')"

definition detection_reply :: ustr where
  "detection_reply = u ''{\"summary\": \"s\", \"boxes\": [{\"bbox\": [5, 5, 6, 6], \"label\": \"move\"}]}''"

theorem compute_score_range_witness:
  "compute_score (\<lambda>_. []) brute_assignment (\<lambda>_ _. Inr (Fin 0)) (u ''spatial_detection'')
     detection_reply detection_gt = Inr (- (1 / 4))
   \<and> - (1 / 4) \<le> (- (1 / 4) :: real)"
proof -
  have g: "parse_bbox_entries (\<lambda>_. []) detection_gt = Inr [([1, 1, 3, 3], u ''add'')]" by code_simp
  have p: "parse_bbox_entries (\<lambda>_. []) (JStr detection_reply) = Inr [([5, 5, 6, 6], u ''move'')]"
    by code_simp
  have o: "parse_json_obj (\<lambda>_. []) (JStr detection_reply) \<noteq> None"
    "score_r4 (\<lambda>_ _. Inr (Fin 0)) (parse_json_obj (\<lambda>_. []) (JStr detection_reply))
       (parse_json_obj (\<lambda>_. []) detection_gt) = Inr 0" by code_simp+
  have f: "format_violation (py_lower (u ''move''))" by code_simp
  have r2: "score_r2 [([1, 1, 3, 3], u ''add'')] [([5, 5, 6, 6], u ''move'')] = 0"
    by (auto simp: score_r2_jaccard rasterize_union_eq pixels_def edge_def CANVAS_SIZE_def
        py_trunc_def Let_def)
  have m: "u ''spatial_detection'' \<in> set SPATIAL_DETECTION_SOURCES" by code_simp
  have "compute_score (\<lambda>_. []) brute_assignment (\<lambda>_ _. Inr (Fin 0)) (u ''spatial_detection'')
     detection_reply detection_gt = Inr (- (1 / 4))"
    using o m by (simp add: compute_score_def score_spatial_detection_def g p r2 score_r3_def f Let_def)
  with compute_score_range [OF brute.assignment_solver_axioms this] m show ?thesis by simp
qed

text \<open>No silent fallback: a data source outside the four routes raises \<open>ValueError\<close> from the
  score and from the gated score, whatever the reply; so does the Gemini evaluation source.\<close>

theorem unknown_source_raises:
  assumes "src \<notin> set (JSON_ANSWER_SOURCES @ HUNGARIAN_IOU_SOURCES
                   @ SPATIAL_CONSISTENCY_BBOX_SOURCES @ SPATIAL_DETECTION_SOURCES)"
  shows "compute_score fr solve r4 src s gt = Inl ValueError
       \<and> compute_score_with_reasoning_gate fr solve r4 support src s gt ei = Inl ValueError"
proof -
  have "src \<notin> set REASONING_GATE_SOURCES"
    using assms gate_source_routes by auto
  with assms show ?thesis
    by (auto simp: compute_score_def compute_score_with_reasoning_gate_def)
qed

theorem unknown_source_raises_witness:
  "compute_score fr solve r4 INCONSISTENT_COT_GEMINI_EVAL_SOURCE s gt = Inl ValueError"
proof -
  have "INCONSISTENT_COT_GEMINI_EVAL_SOURCE \<notin> set (JSON_ANSWER_SOURCES @ HUNGARIAN_IOU_SOURCES
      @ SPATIAL_CONSISTENCY_BBOX_SOURCES @ SPATIAL_DETECTION_SOURCES)" by code_simp
  from unknown_source_raises [OF this] show ?thesis by blast
qed

text \<open>The five source sets do not overlap, so the order of the route tests does not matter,
  and every source of the reasoning gate is an answer or consistency-box source.\<close>

theorem routes_disjoint:
  "distinct KNOWN_SOURCES
   \<and> list_all (\<lambda>src. src \<in> set JSON_ANSWER_SOURCES \<or> src \<in> set SPATIAL_CONSISTENCY_BBOX_SOURCES)
       REASONING_GATE_SOURCES"
  by code_simp

text \<open>The gated score is the plain score times R1 times the gate: the gate takes reward away
  only from replies it rejects, and R1 = 0 takes none that the plain score would give.\<close>

theorem gate_product:
  assumes "compute_score_with_reasoning_gate fr solve r4 support src s gt ei = Inr r"
    and "compute_score fr solve r4 src s gt = Inr x"
  shows "g_score r = g_R1 r * g_reasoning_gate r * x"
  using assms(1)
proof (cases rule: gate_cases)
  case (judged a b v opt p)
  then show ?thesis using assms(2) by (simp split: if_splits)
qed (use assms(2) in auto)

definition gate_reply :: ustr where
  "gate_reply = u ''<think>It stays. So it is A.</think>{\"answer\": \"A\"}''"

definition gate_info :: json where
  "gate_info = JObj [(key_option_a, JStr (u ''stays'')), (key_option_b, JStr (u ''moves''))]"

definition judge_says :: "ustr \<Rightarrow> support_client" where
  "judge_says opt = (\<lambda>_ _ _. Inr (JObj [(key_supported_option, JStr opt),
     (key_unclear_probability, JFloat (Fin (1 / 4)))]))"

lemma gate_sample:
  "compute_score (\<lambda>_. []) solve r4 (u ''spatial_consistency_pos'') gate_reply (JStr (u ''A'')) = Inr 1"
  "compute_score_with_reasoning_gate (\<lambda>_. []) solve r4 (judge_says (u ''b''))
     (u ''spatial_consistency_pos'') gate_reply (JStr (u ''A'')) gate_info
   = Inr \<lparr>g_score = 0, g_R1 = 1, g_reasoning_gate = 0, g_applied = 1, g_malformed = 0,
       g_unclear = 1 / 4\<rparr>"
  "compute_score_with_reasoning_gate (\<lambda>_. []) solve r4 (judge_says (u ''A''))
     (u ''spatial_consistency_pos'') gate_reply (JStr (u ''A'')) gate_info
   = Inr \<lparr>g_score = 1, g_R1 = 1, g_reasoning_gate = 1, g_applied = 1, g_malformed = 0,
       g_unclear = 1 / 4\<rparr>"
  by code_simp+

theorem gate_product_witness:
  "\<exists>r x. compute_score_with_reasoning_gate (\<lambda>_. []) brute_assignment (\<lambda>_ _. Inr (Fin 0)) (judge_says (u ''b''))
        (u ''spatial_consistency_pos'') gate_reply (JStr (u ''A'')) gate_info = Inr r
     \<and> compute_score (\<lambda>_. []) brute_assignment (\<lambda>_ _. Inr (Fin 0)) (u ''spatial_consistency_pos'') gate_reply (JStr (u ''A'')) = Inr x
     \<and> x = 1 \<and> g_score r = g_R1 r * g_reasoning_gate r * x"
  using gate_product [OF gate_sample(2) gate_sample(1)] gate_sample(1,2) by blast



text \<open>A right answer whose last sentence supports the other option scores 0, and neither the
  boxes nor R4 are looked at: the result is the same for every solver and every R4 client.\<close>

theorem gate_rejects_contradiction:
  assumes "src \<in> set REASONING_GATE_SOURCES" and "answer_correctness fr src s gt = Some 1"
    and "extract_last_sentence (extract_thinking s) \<noteq> []" and "extract_thinking s \<noteq> []"
    and "extract_ab_options ei = Inr (a, b)"
    and "support (extract_last_sentence (extract_thinking s)) a b = Inr v"
    and "read_support fr v = Inr (opt, p)" and "opt \<noteq> u ''U''"
    and "extract_json_answer fr s = Some pred" and "opt \<noteq> py_upper pred"
  shows "compute_score_with_reasoning_gate fr solve r4 support src s gt ei =
    Inr \<lparr>g_score = 0, g_R1 = 1, g_reasoning_gate = 0, g_applied = 1, g_malformed = 0, g_unclear = p\<rparr>"
proof -
  have "opt \<noteq> [85]" using assms(8) by (simp add: u_def)
  then show ?thesis
    using assms by (simp add: compute_score_with_reasoning_gate_def Let_def)
qed

theorem gate_rejects_contradiction_witness:
  "compute_score_with_reasoning_gate (\<lambda>_. []) brute_assignment (\<lambda>_ _. Inr (Fin 0)) (judge_says (u ''B''))
     (u ''spatial_consistency_pos'') gate_reply (JStr (u ''A'')) gate_info
   = Inr \<lparr>g_score = 0, g_R1 = 1, g_reasoning_gate = 0, g_applied = 1, g_malformed = 0,
       g_unclear = 1 / 4\<rparr>"
proof (rule gate_rejects_contradiction)
  show "u ''spatial_consistency_pos'' \<in> set REASONING_GATE_SOURCES" by code_simp
  show "answer_correctness (\<lambda>_. []) (u ''spatial_consistency_pos'') gate_reply (JStr (u ''A'')) = Some 1"
    by code_simp
  show "extract_last_sentence (extract_thinking gate_reply) \<noteq> []" by code_simp
  show "extract_thinking gate_reply \<noteq> []" by code_simp
  show "extract_ab_options gate_info = Inr (u ''stays'', u ''moves'')" by code_simp
  show "judge_says (u ''B'') (extract_last_sentence (extract_thinking gate_reply)) (u ''stays'') (u ''moves'')
    = Inr (JObj [(key_supported_option, JStr (u ''B'')), (key_unclear_probability, JFloat (Fin (1 / 4)))])"
    by (simp add: judge_says_def)
  show "read_support (\<lambda>_. []) (JObj [(key_supported_option, JStr (u ''B'')),
     (key_unclear_probability, JFloat (Fin (1 / 4)))]) = Inr (u ''B'', 1 / 4)" by code_simp
  show "u ''B'' \<noteq> u ''U''" by code_simp
  show "extract_json_answer (\<lambda>_. []) gate_reply = Some (u ''a'')" by code_simp
  show "u ''B'' \<noteq> py_upper (u ''a'')" by code_simp
qed

text \<open>C38: The detailed score's total is the training reward: on every routed source, when
  \<open>compute_score_details\<close> returns, \<open>compute_score\<close> returns the same number.\<close>

theorem details_agree:
  assumes "compute_score_details fr solve r4 src s gt = Inr d"
  shows "map_option Inr (d_reward d) = Some (compute_score fr solve r4 src s gt)"
proof -
  consider "src \<in> set JSON_ANSWER_SOURCES" | "src \<in> set HUNGARIAN_IOU_SOURCES"
    | "src \<notin> set JSON_ANSWER_SOURCES" "src \<notin> set HUNGARIAN_IOU_SOURCES" by blast
  then show ?thesis
  proof cases
    case 1
    then show ?thesis
      using assms in_JSON_not_others [OF 1]
      by (auto simp: compute_score_details_def compute_score_def no_details_def Let_def)
  next
    case 2
    then show ?thesis
      using assms in_hungarian_not_others [OF 2]
      by (auto simp: compute_score_details_def compute_score_def no_details_def Let_def)
  next
    case 3
    then obtain g p where g: "parse_bbox_entries fr gt = Inr g"
      and p: "parse_bbox_entries fr (JStr s) = Inr p"
      using assms by (auto simp: compute_score_details_def Let_def)
    show ?thesis
    proof (cases "src \<in> set SPATIAL_CONSISTENCY_BBOX_SOURCES")
      case True
      then show ?thesis
        using assms 3 g p in_bbox_not_others [OF True]
        by (auto simp: compute_score_details_def compute_score_def bbox_details_def no_details_def
            score_spatial_consistency_bbox_def Let_def split: if_splits)
    next
      case False
      then show ?thesis
        using assms 3 g p
        by (auto simp: compute_score_details_def compute_score_def detection_details_def no_details_def
            score_spatial_detection_def Let_def split: if_splits)
    qed
  qed
qed

theorem details_agree_witness:
  "compute_score (\<lambda>_. []) brute_assignment (\<lambda>_ _. Inr (Fin 0)) (u ''spatial_consistency_bbox_pos'') (u ''{\"answer\": \"B\"}'')
     (JStr (u ''{\"answer\": \"b\", \"boxes\": []}'')) = Inr 1"
proof -
  have "compute_score_details (\<lambda>_. []) brute_assignment (\<lambda>_ _. Inr (Fin 0)) (u ''spatial_consistency_bbox_pos'')
      (u ''{\"answer\": \"B\"}'') (JStr (u ''{\"answer\": \"b\", \"boxes\": []}''))
    = Inr (no_details\<lparr>d_C := Some 1, d_reward := Some 1\<rparr>)" by code_simp
  from details_agree [OF this] show ?thesis by (simp add: no_details_def)
qed

text \<open>An R4 failure is never swallowed: when the answer is right and the ground truth has
  boxes, an exception of the client, or a score it should not return, leaves \<open>compute_score\<close>.\<close>

theorem r4_failure_propagates:
  assumes "src \<in> set SPATIAL_CONSISTENCY_BBOX_SOURCES" and "answer_gate fr s gt = 1"
    and "parse_bbox_entries fr gt = Inr (e # es)" and "parse_bbox_entries fr (JStr s) = Inr preds"
    and "parse_json_obj fr gt = Some g" and "dict_get g key_summary = JStr gs" and "py_strip gs \<noteq> []"
    and "parse_json_obj fr (JStr s) = Some p" and "dict_get p key_summary = JStr ps"
    and "py_strip ps \<noteq> []"
    and "r4 ps gs = Inl exn \<or> r4 ps gs = Inr bad \<and> \<not> in_unit bad \<and> exn = ValueError"
  shows "compute_score fr solve r4 src s gt = Inl exn"
proof -
  have "dict_get_or g key_summary (JStr []) = JStr gs" "dict_get_or p key_summary (JStr []) = JStr ps"
    using assms(6,9) by (auto simp: dict_get_def dict_get_or_def split: option.splits)
  then have "score_r4 r4 (Some p) (Some g) = Inl exn"
    using assms(7,10,11) by (auto simp: score_r4_def)
  moreover have "same_answer (answer_of fr (Some g)) (answer_of fr (Some p))"
    using assms(2,5,8) by (simp add: answer_gate_def split: if_splits)
  ultimately show ?thesis
    using assms(1,3,4,5,8) in_bbox_not_others [OF assms(1)]
    by (simp add: compute_score_def score_spatial_consistency_bbox_def Let_def)
qed

definition bbox_text :: ustr where
  "bbox_text = u ''{\"answer\": \"B\", \"summary\": \"s\", \"boxes\": [{\"bbox\": [1, 1, 3, 3], \"label\": \"add\"}]}''"

theorem r4_failure_propagates_witness:
  "compute_score (\<lambda>_. []) brute_assignment (\<lambda>_ _. Inr NaN) (u ''inconsistent_qwen'') bbox_text (JStr bbox_text)
   = Inl ValueError"
proof (rule r4_failure_propagates)
  show "u ''inconsistent_qwen'' \<in> set SPATIAL_CONSISTENCY_BBOX_SOURCES" by code_simp
  show "answer_gate (\<lambda>_. []) bbox_text (JStr bbox_text) = 1" by code_simp
  show "parse_bbox_entries (\<lambda>_. []) (JStr bbox_text) = Inr (([1, 1, 3, 3], u ''add'') # [])" by code_simp
  show "parse_bbox_entries (\<lambda>_. []) (JStr bbox_text) = Inr [([1, 1, 3, 3], u ''add'')]" by code_simp
  show "parse_json_obj (\<lambda>_. []) (JStr bbox_text) = Some [(key_answer, JStr (u ''B'')),
      (key_summary, JStr (u ''s'')), (key_boxes, JArr [JObj [(key_bbox, JArr [JInt 1, JInt 1, JInt 3, JInt 3]),
        (key_label, JStr (u ''add''))]])]" by code_simp
  then show "parse_json_obj (\<lambda>_. []) (JStr bbox_text) = Some [(key_answer, JStr (u ''B'')),
      (key_summary, JStr (u ''s'')), (key_boxes, JArr [JObj [(key_bbox, JArr [JInt 1, JInt 1, JInt 3, JInt 3]),
        (key_label, JStr (u ''add''))]])]" .
  show "dict_get [(key_answer, JStr (u ''B'')), (key_summary, JStr (u ''s'')),
      (key_boxes, JArr [JObj [(key_bbox, JArr [JInt 1, JInt 1, JInt 3, JInt 3]),
        (key_label, JStr (u ''add''))]])] key_summary = JStr (u ''s'')" by code_simp
  then show "dict_get [(key_answer, JStr (u ''B'')), (key_summary, JStr (u ''s'')),
      (key_boxes, JArr [JObj [(key_bbox, JArr [JInt 1, JInt 1, JInt 3, JInt 3]),
        (key_label, JStr (u ''add''))]])] key_summary = JStr (u ''s'')" .
  show "py_strip (u ''s'') \<noteq> []" by code_simp
  then show "py_strip (u ''s'') \<noteq> []" .
  show "(Inr NaN :: pyfloat py) = Inl ValueError
    \<or> (Inr NaN :: pyfloat py) = Inr NaN \<and> \<not> in_unit NaN \<and> ValueError = ValueError"
    by (simp add: in_unit_def)
qed

text \<open>A list around the reply hides its boxes: the answer is still read from the object
  inside, the boxes are not, so on a ground truth without boxes the reply that wrongly predicts
  one gets 1 instead of the 0.2 the same object gets without the list.\<close>

theorem list_reply_hides_boxes:
  "compute_score (\<lambda>_. []) solve r4 (u ''consistent_qwen'')
     (u ''[{\"answer\": \"A\", \"boxes\": [{\"bbox\": [0, 0, 9, 9], \"label\": \"add\"}]}]'')
     (JStr (u ''{\"answer\": \"A\", \"boxes\": []}'')) = Inr 1
   \<and> compute_score (\<lambda>_. []) solve r4 (u ''consistent_qwen'')
     (u ''{\"answer\": \"A\", \"boxes\": [{\"bbox\": [0, 0, 9, 9], \"label\": \"add\"}]}'')
     (JStr (u ''{\"answer\": \"A\", \"boxes\": []}'')) = Inr (1 / 5)"
proof
  show "compute_score (\<lambda>_. []) solve r4 (u ''consistent_qwen'')
     (u ''[{\"answer\": \"A\", \"boxes\": [{\"bbox\": [0, 0, 9, 9], \"label\": \"add\"}]}]'')
     (JStr (u ''{\"answer\": \"A\", \"boxes\": []}'')) = Inr 1" by code_simp
  show "compute_score (\<lambda>_. []) solve r4 (u ''consistent_qwen'')
     (u ''{\"answer\": \"A\", \"boxes\": [{\"bbox\": [0, 0, 9, 9], \"label\": \"add\"}]}'')
     (JStr (u ''{\"answer\": \"A\", \"boxes\": []}'')) = Inr (1 / 5)" by code_simp
qed

end
