(* ===== verification/LazyClient.thy ===== *)
theory LazyClient
  imports Rewards
begin

text \<open>
  The lazy loader of \<^verbatim>\<open>json_answer_reward.py\<close>: \<open>_get_r4_score_summary\<close> and
  \<open>_get_reasoning_support\<close> find the client functions in \<^verbatim>\<open>reward_model_client.py\<close>,
  register the module in \<open>sys.modules\<close> and keep the functions. Both run under one lock, so a
  call is one atomic step; what the file system and the import machinery answer during a call
  is its argument \<open>env\<close>. Client functions are named by numbers.
\<close>

section \<open>State\<close>

text \<open>\<open>None\<close>: the attribute is missing or not callable.\<close>

record client_module =
  m_score_summary :: "nat option"
  m_classify :: "nat option"

record loader =
  r4_score_summary_fn :: "nat option"
  reasoning_support_fn :: "nat option"
  sys_module :: "client_module option"

text \<open>What the outside answers: is the file there, is there a spec with a loader, and what
  executing the module does.\<close>

record import_env =
  is_file :: bool
  spec_loader :: bool
  exec_module :: "client_module py"

definition fresh_loader :: loader where
  "fresh_loader = \<lparr>r4_score_summary_fn = None, reasoning_support_fn = None, sys_module = None\<rparr>"

section \<open>Operations\<close>

text \<open>The module, loaded if it is not registered. A module whose execution fails is registered
  before and removed after the failure, so the registry is as it was.\<close>

definition load_module :: "import_env \<Rightarrow> loader \<Rightarrow> client_module py \<times> loader" where
  "load_module env st =
     (case sys_module st of
        Some m \<Rightarrow> (Inr m, st)
      | None \<Rightarrow>
        if \<not> spec_loader env then (Inl ImportError, st)
        else (case exec_module env of
                Inl e \<Rightarrow> (Inl e, st\<lparr>sys_module := None\<rparr>)
              | Inr m \<Rightarrow> (Inr m, st\<lparr>sys_module := Some m\<rparr>)))"

definition get_r4_score_summary :: "import_env \<Rightarrow> loader \<Rightarrow> nat py \<times> loader" where
  "get_r4_score_summary env st =
     (case r4_score_summary_fn st of
        Some f \<Rightarrow> (Inr f, st)
      | None \<Rightarrow>
        if \<not> is_file env then (Inl FileNotFoundError, st)
        else (case load_module env st of
                (Inl e, st1) \<Rightarrow> (Inl e, st1)
              | (Inr m, st1) \<Rightarrow>
                (case m_score_summary m of
                   None \<Rightarrow> (Inl AttributeError, st1)
                 | Some f \<Rightarrow> (Inr f, st1\<lparr>r4_score_summary_fn := Some f\<rparr>))))"

definition get_reasoning_support :: "import_env \<Rightarrow> loader \<Rightarrow> nat py \<times> loader" where
  "get_reasoning_support env st =
     (case reasoning_support_fn st of
        Some f \<Rightarrow> (Inr f, st)
      | None \<Rightarrow>
        (case get_r4_score_summary env st of
           (Inl e, st1) \<Rightarrow> (Inl e, st1)
         | (Inr _, st1) \<Rightarrow>
           (case sys_module st1 of
              None \<Rightarrow> (Inl RuntimeError, st1)
            | Some m \<Rightarrow>
              (case m_classify m of
                 None \<Rightarrow> (Inl AttributeError, st1)
               | Some f \<Rightarrow> (Inr f, st1\<lparr>reasoning_support_fn := Some f\<rparr>)))))"

datatype loader_call = GetScore import_env | GetSupport import_env

fun loader_step :: "loader_call \<Rightarrow> loader \<Rightarrow> nat py \<times> loader" where
  "loader_step (GetScore env) st = get_r4_score_summary env st"
| "loader_step (GetSupport env) st = get_reasoning_support env st"

inductive loads :: "loader \<Rightarrow> loader \<Rightarrow> bool" where
  loads_refl: "loads st st"
| loads_step: "loads st st' \<Longrightarrow> loader_step c st' = (r, st'') \<Longrightarrow> loads st st''"


section \<open>Facts\<close>

text \<open>The invariant: kept functions are those of the registered module.\<close>

definition loader_ok :: "loader \<Rightarrow> bool" where
  "loader_ok st \<longleftrightarrow>
     (case r4_score_summary_fn st of None \<Rightarrow> True
      | Some f \<Rightarrow> map_option m_score_summary (sys_module st) = Some (Some f))
     \<and> (case reasoning_support_fn st of None \<Rightarrow> True
      | Some f \<Rightarrow> map_option m_classify (sys_module st) = Some (Some f)
                \<and> r4_score_summary_fn st \<noteq> None)"

lemma fresh_loader_ok [simp]: "loader_ok fresh_loader"
  by (simp add: loader_ok_def fresh_loader_def)

lemma load_module_spec:
  "load_module env st = (r, st') \<Longrightarrow>
     (case r of Inl e \<Rightarrow> st' = st | Inr m \<Rightarrow> st' = st\<lparr>sys_module := Some m\<rparr> \<and>
        (case sys_module st of Some m' \<Rightarrow> m' = m | None \<Rightarrow> exec_module env = Inr m))"
  by (auto simp: load_module_def split: option.splits if_splits sum.splits)

lemma get_r4_spec:
  assumes "get_r4_score_summary env st = (r, st')" and "loader_ok st"
  shows "loader_ok st' \<and> reasoning_support_fn st' = reasoning_support_fn st
    \<and> (case r of Inl e \<Rightarrow> r4_score_summary_fn st' = r4_score_summary_fn st
       | Inr f \<Rightarrow> r4_score_summary_fn st' = Some f)
    \<and> (case sys_module st of Some m \<Rightarrow> sys_module st' = Some m | None \<Rightarrow> True)"
proof (cases "r4_score_summary_fn st")
  case (Some f)
  with assms show ?thesis by (auto simp: get_r4_score_summary_def split: option.splits)
next
  case None
  obtain q st1 where l: "load_module env st = (q, st1)" by fastforce
  have n: "reasoning_support_fn st = None"
    using assms(2) None by (auto simp: loader_ok_def split: option.splits)
  show ?thesis
    using assms None n load_module_spec [OF l]
    by (auto simp: get_r4_score_summary_def l loader_ok_def split: option.splits if_splits sum.splits)
qed

lemma get_support_spec:
  assumes "get_reasoning_support env st = (r, st')" and "loader_ok st"
  shows "loader_ok st'
    \<and> (case r4_score_summary_fn st of Some f \<Rightarrow> r4_score_summary_fn st' = Some f | None \<Rightarrow> True)
    \<and> (case reasoning_support_fn st of Some f \<Rightarrow> reasoning_support_fn st' = Some f | None \<Rightarrow> True)
    \<and> (case r of Inl e \<Rightarrow> reasoning_support_fn st' = None | Inr f \<Rightarrow> reasoning_support_fn st' = Some f)
    \<and> (case sys_module st of Some m \<Rightarrow> sys_module st' = Some m | None \<Rightarrow> True)"
proof (cases "reasoning_support_fn st")
  case (Some f)
  with assms show ?thesis by (auto simp: get_reasoning_support_def split: option.splits)
next
  case None
  obtain q st1 where g: "get_r4_score_summary env st = (q, st1)" by fastforce
  show ?thesis
    using assms None get_r4_spec [OF g assms(2)]
    by (auto simp: get_reasoning_support_def g loader_ok_def split: option.splits sum.splits)
qed

lemma loader_step_ok: "loader_step c st = (r, st') \<Longrightarrow> loader_ok st \<Longrightarrow> loader_ok st'"
  by (cases c) (use get_r4_spec get_support_spec in auto)

lemma loads_ok: "loads st st' \<Longrightarrow> loader_ok st \<Longrightarrow> loader_ok st'"
  by (induction rule: loads.induct) (auto dest: loader_step_ok)

lemma loader_step_keeps:
  assumes "loader_step c st = (r, st')" and "loader_ok st" and "r4_score_summary_fn st = Some f"
  shows "r4_score_summary_fn st' = Some f"
proof (cases c)
  case (GetScore env)
  with assms show ?thesis by (simp add: get_r4_score_summary_def)
next
  case (GetSupport env)
  with assms(1) have "get_reasoning_support env st = (r, st')" by simp
  from get_support_spec [OF this assms(2)] assms(3) show ?thesis by simp
qed

lemma loads_keeps:
  "loads st st' \<Longrightarrow> loader_ok st \<Longrightarrow> r4_score_summary_fn st = Some f \<Longrightarrow> r4_score_summary_fn st' = Some f"
  by (induction rule: loads.induct) (use loads_ok loader_step_keeps in blast)+

section \<open>Properties\<close>

text \<open>Through any sequence of loads, failed ones included, a client function that was once
  returned stays the one that is returned, from the same module, whatever happens to the file
  afterwards; and the two functions always come from one module.\<close>

theorem loader_stable:
  assumes "loads fresh_loader st" and "r4_score_summary_fn st = Some f" and "loads st st'"
  shows "get_r4_score_summary env st' = (Inr f, st') \<and> loader_ok st'"
proof -
  have ok: "loader_ok st" using loads_ok [OF assms(1)] by simp
  have "r4_score_summary_fn st' = Some f" by (rule loads_keeps [OF assms(3) ok assms(2)])
  with loads_ok [OF assms(3) ok] show ?thesis
    by (simp add: get_r4_score_summary_def)
qed

definition good_env :: import_env where
  "good_env = \<lparr>is_file = True, spec_loader = True,
     exec_module = Inr \<lparr>m_score_summary = Some 1, m_classify = Some 2\<rparr>\<rparr>"

theorem loader_stable_witness:
  "\<exists>st. get_r4_score_summary (good_env\<lparr>is_file := False\<rparr>) st = (Inr 1, st)"
proof -
  let ?st = "snd (get_r4_score_summary good_env fresh_loader)"
  have "loads fresh_loader ?st"
    by (rule loads_step [OF loads_refl, of "GetScore good_env"]) (simp add: prod_eq_iff)
  moreover have "r4_score_summary_fn ?st = Some 1" by code_simp
  ultimately show ?thesis
    using loader_stable [OF _ _ loads_refl] by blast
qed

text \<open>A load that fails leaves nothing half loaded: the state is unchanged unless the module
  itself executed (and only lacks the function), so the next call tries again, and it never
  returns a function that stands in for the missing one.\<close>

theorem failed_load_restores:
  assumes "get_r4_score_summary env st = (Inl e, st')"
  shows "r4_score_summary_fn st' = None
    \<and> (if sys_module st = None \<and> exec_module env = Inl x then st' = st
       else st' = st \<or> e = AttributeError)"
  using assms
  by (auto simp: get_r4_score_summary_def load_module_def split: option.splits if_splits sum.splits)

theorem failed_load_restores_witness:
  "get_r4_score_summary (good_env\<lparr>exec_module := Inl (ExternalError 0)\<rparr>) fresh_loader
     = (Inl (ExternalError 0), fresh_loader)
   \<and> r4_score_summary_fn fresh_loader = None"
proof -
  have a: "get_r4_score_summary (good_env\<lparr>exec_module := Inl (ExternalError 0)\<rparr>) fresh_loader
     = (Inl (ExternalError 0), fresh_loader)"
    by (simp add: get_r4_score_summary_def load_module_def fresh_loader_def good_env_def)
  with failed_load_restores [OF a] show ?thesis by simp
qed

end
