(* ===== verification/Utf8.thy ===== *)
theory Utf8
  imports PyText
begin

text \<open>
  \<^verbatim>\<open>str.encode("utf-8")\<close> and \<^verbatim>\<open>bytes.decode("utf-8")\<close>, both strict, which client and server
  exchange JSON with, and the interface of a codec: what is written is read back. Bytes are
  integers, as Python's \<open>bytes\<close> has them.
\<close>

section \<open>The interface\<close>

locale codec =
  fixes enc :: "'a \<Rightarrow> 'b option" and dec :: "'b \<Rightarrow> 'a option" and valid :: "'a \<Rightarrow> bool"
  assumes round: "valid x \<Longrightarrow> enc x = Some y \<Longrightarrow> dec y = Some x"
begin

lemma enc_inj: "valid x \<Longrightarrow> valid x' \<Longrightarrow> enc x = Some y \<Longrightarrow> enc x' = Some y \<Longrightarrow> x = x'"
  by (metis round option.inject)

end

text \<open>Codecs compose: what one layer writes is the valid input of the next.\<close>

locale codec_stack = outer: codec enc dec valid + inner: codec enc' dec' valid'
  for enc :: "'a \<Rightarrow> 'b option" and dec valid and enc' :: "'b \<Rightarrow> 'c option" and dec' valid' +
  assumes layered: "valid x \<Longrightarrow> enc x = Some y \<Longrightarrow> valid' y"
begin

lemma stack_round:
  assumes "valid x" and "Option.bind (enc x) enc' = Some z"
  shows "Option.bind (dec' z) dec = Some x"
proof -
  obtain y where y: "enc x = Some y" "enc' y = Some z" using assms(2) by (auto simp: bind_eq_Some_conv)
  then have "dec' z = Some y" using inner.round layered assms(1) by blast
  then show ?thesis using outer.round [OF assms(1) y(1)] by simp
qed

end

sublocale codec_stack \<subseteq> stack: codec "\<lambda>x. Option.bind (enc x) enc'" "\<lambda>z. Option.bind (dec' z) dec" valid
  by unfold_locales (rule stack_round)

section \<open>Encoding\<close>

definition is_surrogate :: "int \<Rightarrow> bool" where
  "is_surrogate c \<longleftrightarrow> 55296 \<le> c \<and> c \<le> 57343"

definition tail_byte :: "int \<Rightarrow> int" where
  "tail_byte x = 128 + x mod 64"

definition utf8_char :: "int \<Rightarrow> int list" where
  "utf8_char c =
     (if c < 128 then [c]
      else if c < 2048 then [192 + c div 64, tail_byte c]
      else if c < 65536 then [224 + c div 4096, tail_byte (c div 64), tail_byte c]
      else [240 + c div 262144, tail_byte (c div 4096), tail_byte (c div 64), tail_byte c])"

text \<open>A lone surrogate has no encoding (\<open>UnicodeEncodeError\<close>).\<close>

definition utf8_bytes :: "ustr \<Rightarrow> int list option" where
  "utf8_bytes s = (if list_ex is_surrogate s then None else Some (concat (map utf8_char s)))"

section \<open>Decoding\<close>

definition tail_value :: "int \<Rightarrow> int option" where
  "tail_value b = (if 128 \<le> b \<and> b < 192 then Some (b - 128) else None)"

text \<open>One character and the bytes after it; overlong forms, surrogates and values beyond
  Unicode's range are refused.\<close>

definition scan_utf8 :: "int list \<Rightarrow> (int \<times> int list) option" where
  "scan_utf8 bs =
     (case bs of [] \<Rightarrow> None
      | b # r \<Rightarrow>
        if 0 \<le> b \<and> b < 128 then Some (b, r)
        else if 194 \<le> b \<and> b < 224 then
          (case r of b1 # r1 \<Rightarrow>
             (case tail_value b1 of Some x \<Rightarrow> Some ((b - 192) * 64 + x, r1) | None \<Rightarrow> None)
           | _ \<Rightarrow> None)
        else if 224 \<le> b \<and> b < 240 then
          (case r of b1 # b2 # r2 \<Rightarrow>
             (case (tail_value b1, tail_value b2) of
                (Some x, Some y) \<Rightarrow>
                  (let c = (b - 224) * 4096 + x * 64 + y
                   in if c < 2048 \<or> is_surrogate c then None else Some (c, r2))
              | _ \<Rightarrow> None)
           | _ \<Rightarrow> None)
        else if 240 \<le> b \<and> b < 245 then
          (case r of b1 # b2 # b3 # r3 \<Rightarrow>
             (case (tail_value b1, tail_value b2, tail_value b3) of
                (Some x, Some y, Some z) \<Rightarrow>
                  (let c = (b - 240) * 262144 + x * 4096 + y * 64 + z
                   in if c < 65536 \<or> 1114111 < c then None else Some (c, r3))
              | _ \<Rightarrow> None)
           | _ \<Rightarrow> None)
        else None)"

lemma scan_utf8_shorter: "scan_utf8 bs = Some (c, r) \<Longrightarrow> length r < length bs"
  by (auto simp: scan_utf8_def Let_def split: list.splits option.splits if_splits)

function utf8_text :: "int list \<Rightarrow> ustr option" where
  "utf8_text [] = Some []"
| "utf8_text (b # bs) =
     (case scan_utf8 (b # bs) of None \<Rightarrow> None | Some (c, r) \<Rightarrow> map_option ((#) c) (utf8_text r))"
  by pat_completeness auto
termination
  by (relation "measure length") (auto dest: scan_utf8_shorter)

section \<open>Round trip\<close>

definition unicode :: "ustr \<Rightarrow> bool" where
  "unicode s \<longleftrightarrow> list_all (\<lambda>c. 0 \<le> c \<and> c \<le> 1114111) s"

lemma tail_value_byte [simp]: "tail_value (tail_byte x) = Some (x mod 64)"
  by (simp add: tail_value_def tail_byte_def)

lemma split_64: "x = x div 64 * 64 + x mod 64" for x :: int
  by simp

lemma div_4096: "x div 4096 = x div 64 div 64" for x :: int
  by (simp add: zdiv_zmult2_eq [of 64 x 64, simplified])

lemma div_262144: "x div 262144 = x div 64 div 64 div 64" for x :: int
  by (simp add: zdiv_zmult2_eq [of 64 x 4096, simplified] div_4096)

lemma scan_two:
  assumes "2 \<le> a" and "a < 32"
  shows "scan_utf8 ((192 + a) # tail_byte x # r) = Some (a * 64 + x mod 64, r)"
  using assms by (simp add: scan_utf8_def)

lemma scan_three:
  assumes "0 \<le> a" and "a < 16" and "2048 \<le> a * 4096 + x mod 64 * 64 + y mod 64"
    and "\<not> is_surrogate (a * 4096 + x mod 64 * 64 + y mod 64)"
  shows "scan_utf8 ((224 + a) # tail_byte x # tail_byte y # r) = Some (a * 4096 + x mod 64 * 64 + y mod 64, r)"
  using assms by (simp add: scan_utf8_def)

lemma scan_four:
  assumes "0 \<le> a" and "a < 5" and "65536 \<le> a * 262144 + x mod 64 * 4096 + y mod 64 * 64 + z mod 64"
    and "a * 262144 + x mod 64 * 4096 + y mod 64 * 64 + z mod 64 \<le> 1114111"
  shows "scan_utf8 ((240 + a) # tail_byte x # tail_byte y # tail_byte z # r)
    = Some (a * 262144 + x mod 64 * 4096 + y mod 64 * 64 + z mod 64, r)"
  using assms by (simp add: scan_utf8_def)

lemma scan_utf8_char:
  assumes "0 \<le> c" and "c \<le> 1114111" and "\<not> is_surrogate c"
  shows "scan_utf8 (utf8_char c @ r) = Some (c, r)"
proof -
  have e2: "c div 64 * 64 + c mod 64 = c" by simp
  have e3: "c div 4096 * 4096 + c div 64 mod 64 * 64 + c mod 64 = c"
    using split_64 [of c] split_64 [of "c div 64"] unfolding div_4096 by linarith
  have e4: "c div 262144 * 262144 + c div 4096 mod 64 * 4096 + c div 64 mod 64 * 64 + c mod 64 = c"
    using split_64 [of c] split_64 [of "c div 64"] split_64 [of "c div 64 div 64"]
    unfolding div_262144 div_4096 by linarith
  consider "c < 128" | "128 \<le> c" "c < 2048" | "2048 \<le> c" "c < 65536" | "65536 \<le> c" by linarith
  then show ?thesis
  proof cases
    case 1
    then show ?thesis using assms(1) by (simp add: utf8_char_def scan_utf8_def)
  next
    case 2
    then have "2 \<le> c div 64" "c div 64 < 32" by linarith+
    from scan_two [OF this, of c r] 2 show ?thesis unfolding e2 by (simp add: utf8_char_def)
  next
    case 3
    then have "0 \<le> c div 4096" "c div 4096 < 16" by linarith+
    from scan_three [OF this, of "c div 64" c r] 3 assms(3) show ?thesis
      unfolding e3 by (simp add: utf8_char_def)
  next
    case 4
    then have "0 \<le> c div 262144" "c div 262144 < 5" using assms(2) by linarith+
    from scan_four [OF this, of "c div 4096" "c div 64" c r] 4 assms(2) show ?thesis
      unfolding e4 by (simp add: utf8_char_def)
  qed
qed

lemma utf8_char_Cons: "\<exists>b bs. utf8_char c = b # bs"
  by (simp add: utf8_char_def)

lemma utf8_text_char:
  assumes "0 \<le> c" and "c \<le> 1114111" and "\<not> is_surrogate c"
  shows "utf8_text (utf8_char c @ r) = map_option ((#) c) (utf8_text r)"
proof -
  obtain b bs where b: "utf8_char c @ r = b # bs" using utf8_char_Cons [of c] by auto
  with scan_utf8_char [OF assms, of r] show ?thesis by simp
qed

lemma utf8_round: "unicode s \<Longrightarrow> utf8_bytes s = Some bs \<Longrightarrow> utf8_text bs = Some s"
proof -
  assume u: "unicode s" and b: "utf8_bytes s = Some bs"
  have "utf8_text (concat (map utf8_char s)) = Some s"
    if "list_all (\<lambda>c. 0 \<le> c \<and> c \<le> 1114111 \<and> \<not> is_surrogate c) s"
    using that by (induction s) (simp_all add: utf8_text_char)
  with u b show ?thesis
    by (auto simp: utf8_bytes_def unicode_def list_all_iff list_ex_iff split: if_splits)
qed

interpretation utf8: codec utf8_bytes utf8_text unicode
  by unfold_locales (rule utf8_round)

lemma utf8_ascii: "list_all (\<lambda>c. 0 \<le> c \<and> c < 128) s \<Longrightarrow> utf8_bytes s = Some s"
  by (induction s) (auto simp: utf8_bytes_def utf8_char_def is_surrogate_def split: if_splits)

end
