(* ===== verification/RewardClient.thy ===== *)
theory RewardClient
  imports Rewards Utf8
begin

text \<open>
  \<^verbatim>\<open>reward_model_client.py\<close>: the synchronous HTTP client of the reward service. The
  environment variables are arguments (\<open>None\<close>: not set); the network is an argument \<open>post\<close>,
  which gets the URL, the body and the timeout and answers like \<open>urlopen\<close>.
\<close>

section \<open>Request bodies\<close>

text \<open>\<open>json.dumps(payload, ensure_ascii=False)\<close> of a dict whose values are strings.\<close>

definition dumps_char :: "int \<Rightarrow> ustr" where
  "dumps_char c =
     (if c = 34 then [92, 34] else if c = 92 then [92, 92] else if c = 10 then [92, 110]
      else if c = 13 then [92, 114] else if c = 9 then [92, 116] else if c = 12 then [92, 102]
      else if c = 8 then [92, 98]
      else if c < 32 then [92, 117, 48, 48, hex_digit (c div 16), hex_digit (c mod 16)] else [c])"

definition dumps_str :: "ustr \<Rightarrow> ustr" where
  "dumps_str s = [34] @ concat (map dumps_char s) @ [34]"

definition dumps_pair :: "ustr \<times> ustr \<Rightarrow> ustr" where
  "dumps_pair kv = dumps_str (fst kv) @ [58, 32] @ dumps_str (snd kv)"

definition json_dumps :: "(ustr \<times> ustr) list \<Rightarrow> ustr" where
  "json_dumps kvs = [123] @ py_join [44, 32] (map dumps_pair kvs) @ [125]"

text \<open>\<open>s.encode("utf-8")\<close> refuses surrogates.\<close>

definition utf8_encode :: "ustr \<Rightarrow> int list py" where
  "utf8_encode s = (case utf8_bytes s of None \<Rightarrow> Inl UnicodeEncodeError | Some bs \<Rightarrow> Inr bs)"

section \<open>Settings\<close>

definition DEFAULT_REWARD_URL :: ustr where
  "DEFAULT_REWARD_URL = u ''http://127.0.0.1:8765''"

definition DEFAULT_TIMEOUT_SECONDS :: real where
  "DEFAULT_TIMEOUT_SECONDS = 300"

definition rstrip_char :: "int \<Rightarrow> ustr \<Rightarrow> ustr" where
  "rstrip_char x s = rev (dropWhile (\<lambda>c. c = x) (rev s))"

definition endpoint :: "ustr option \<Rightarrow> ustr \<Rightarrow> ustr py" where
  "endpoint url_var path =
     (let base_url = py_strip (case url_var of Some v \<Rightarrow> v | None \<Rightarrow> DEFAULT_REWARD_URL)
      in if base_url = [] then Inl ValueError else Inr (rstrip_char 47 base_url @ path))"

text \<open>\<open>float(str(300.0))\<close> is 300.0.\<close>

definition timeout_seconds :: "ustr option \<Rightarrow> real py" where
  "timeout_seconds timeout_var =
     (case timeout_var of
        None \<Rightarrow> Inr DEFAULT_TIMEOUT_SECONDS
      | Some raw_value \<Rightarrow>
        (case float_of_str raw_value of
           None \<Rightarrow> Inl ValueError
         | Some (Fin t) \<Rightarrow> if 0 < t then Inr t else Inl ValueError
         | Some _ \<Rightarrow> Inl ValueError))"

section \<open>Requests\<close>

text \<open>What \<open>urlopen\<close> and reading the response give: a response with its bytes, or an exception.\<close>

datatype http_outcome =
    Response int "int list"
  | HttpErrorStatus int
  | UrlFailure
  | TimedOut
  | OtherFailure nat

type_synonym network = "ustr \<Rightarrow> int list \<Rightarrow> real \<Rightarrow> http_outcome"

record client_env =
  url_var :: "ustr option"
  timeout_var :: "ustr option"

definition post_score :: "network \<Rightarrow> client_env \<Rightarrow> ustr \<Rightarrow> (ustr \<times> ustr) list \<Rightarrow> dict py" where
  "post_score post env path payload_obj =
     bindE (utf8_encode (json_dumps payload_obj)) (\<lambda>payload.
     bindE (endpoint (url_var env) path) (\<lambda>url.
     bindE (timeout_seconds (timeout_var env)) (\<lambda>timeout.
       (case post url payload timeout of
          HttpErrorStatus _ \<Rightarrow> Inl RuntimeError
        | UrlFailure \<Rightarrow> Inl ConnectionError
        | TimedOut \<Rightarrow> Inl ConnectionError
        | OtherFailure n \<Rightarrow> Inl (ExternalError n)
        | Response status body \<Rightarrow>
          if status \<noteq> 200 then Inl RuntimeError
          else (case utf8_text body of
                  None \<Rightarrow> Inl RuntimeError
                | Some text \<Rightarrow>
                  (case json_loads text of
                     Inl e \<Rightarrow> if e = JSONDecodeError \<or> e = UnicodeDecodeError
                              then Inl RuntimeError else Inl e
                   | Inr (JObj result) \<Rightarrow> Inr result
                   | Inr _ \<Rightarrow> Inl RuntimeError))))))"

definition key_score :: ustr where "key_score = u ''score''"
definition key_pred_summary :: ustr where "key_pred_summary = u ''pred_summary''"
definition key_gt_summary :: ustr where "key_gt_summary = u ''gt_summary''"
definition key_sentence :: ustr where "key_sentence = u ''sentence''"
definition path_score :: ustr where "path_score = u ''/score''"
definition path_classify :: ustr where "path_classify = u ''/classify-option-support''"

definition client_score_summary :: "network \<Rightarrow> client_env \<Rightarrow> ustr \<Rightarrow> ustr \<Rightarrow> pyfloat py" where
  "client_score_summary post env pred_summary gt_summary =
     bindE (post_score post env path_score
              [(key_pred_summary, pred_summary), (key_gt_summary, gt_summary)]) (\<lambda>result.
       (case map_of result key_score of
          None \<Rightarrow> Inl RuntimeError
        | Some v \<Rightarrow> bindE (float_of v) (\<lambda>score. if in_unit score then Inr score else Inl ValueError)))"

definition client_classify_option_support ::
  "(pyfloat \<Rightarrow> ustr) \<Rightarrow> network \<Rightarrow> client_env \<Rightarrow> ustr \<Rightarrow> ustr \<Rightarrow> ustr \<Rightarrow> json py" where
  "client_classify_option_support fr post env sentence option_a option_b =
     bindE (post_score post env path_classify
              [(key_sentence, sentence), (key_option_a, option_a), (key_option_b, option_b)]) (\<lambda>result.
       (case (map_of result key_supported_option, map_of result key_unclear_probability) of
          (Some so, Some up) \<Rightarrow>
            (let supported_option = py_upper (py_strip (py_str fr so))
             in if supported_option \<notin> {[65], [66], [85]} then Inl ValueError
                else bindE (float_of up) (\<lambda>p.
                       if in_unit p then Inr (JObj [(key_supported_option, JStr supported_option),
                                                     (key_unclear_probability, JFloat p)])
                       else Inl ValueError))
        | _ \<Rightarrow> Inl RuntimeError))"

section \<open>The body is read back\<close>

text \<open>Every character of a written string literal is read as one unit.\<close>

lemma hex_val_digit: "0 \<le> d \<Longrightarrow> d < 16 \<Longrightarrow> hex_val (hex_digit d) = Some d"
  by (auto simp: hex_val_def hex_digit_def)

lemma hex4_small:
  assumes "0 \<le> c" and "c < 32"
  shows "hex4 48 48 (hex_digit (c div 16)) (hex_digit (c mod 16)) = Some c"
proof -
  have "hex_val 48 = Some 0" by (simp add: hex_val_def)
  moreover have "0 \<le> c div 16" "c div 16 < 16" "c div 16 * 16 + c mod 16 = c"
    using assms by auto
  ultimately show ?thesis
    by (simp add: hex4_def hex_val_digit)
qed

lemma scan_unit_dumps:
  assumes "0 \<le> c"
  shows "scan_unit (dumps_char c @ r) = Some (Some c, r)"
proof (cases "c < 32 \<and> c \<notin> {8, 9, 10, 12, 13}")
  case True
  then show ?thesis
    using hex4_small [OF assms]
    by (simp add: dumps_char_def scan_unit_def scan_escape_def is_high_def)
next
  case False
  then show ?thesis
    by (auto simp: dumps_char_def scan_unit_def scan_escape_def json_escape_def)
qed

lemma scan_string_dumps:
  "list_all (\<lambda>c. 0 \<le> c) s \<Longrightarrow> scan_string (concat (map dumps_char s) @ 34 # r) = Some (s, r)"
proof (induction s)
  case Nil
  then show ?case by (simp add: scan_string.simps [of "34 # r"] scan_unit_def)
next
  case (Cons c s)
  then show ?case
    by (simp add: scan_string.simps [of "dumps_char c @ t" for t] scan_unit_dumps)
qed

lemma scan_once_dumps_str:
  "list_all (\<lambda>c. 0 \<le> c) s \<Longrightarrow> scan_once (Suc n) (dumps_str s @ r) = Inr (JStr s, r)"
  using scan_string_dumps [of s r] by (simp add: dumps_str_def)

definition valid_pair :: "ustr \<times> ustr \<Rightarrow> bool" where
  "valid_pair kv \<longleftrightarrow> list_all (\<lambda>c. 0 \<le> c) (fst kv) \<and> list_all (\<lambda>c. 0 \<le> c) (snd kv)"

lemma skip_ws_dumps_str: "skip_ws (dumps_str s @ r) = dumps_str s @ r"
  by (simp add: dumps_str_def skip_ws_def json_ws_def)

lemma update_fresh: "k \<notin> fst ` set al \<Longrightarrow> AList.update k v al = al @ [(k, v)]"
  by (induction al) auto

lemma scan_member_dumps:
  assumes "valid_pair (k, v)" and "k \<notin> fst ` set acc"
  shows "scan_members (Suc (Suc n)) acc (dumps_pair (k, v) @ rest) =
    (case skip_ws rest of [] \<Rightarrow> Inl JSONDecodeError
     | d # r \<Rightarrow> if d = 125 then Inr (JObj (acc @ [(k, JStr v)]), r)
               else if d = 44 then scan_members (Suc n) (acc @ [(k, JStr v)]) (skip_ws r)
               else Inl JSONDecodeError)"
proof -
  have k: "list_all (\<lambda>c. 0 \<le> c) k" and v: "list_all (\<lambda>c. 0 \<le> c) v"
    using assms(1) by (simp_all add: valid_pair_def)
  have "skip_ws (32 # dumps_str v @ rest) = dumps_str v @ rest"
    using skip_ws_dumps_str [of v rest] by (simp add: skip_ws_def json_ws_def)
  moreover have "skip_ws (58 # t) = 58 # t" for t
    by (simp add: skip_ws_def json_ws_def)
  ultimately show ?thesis
    unfolding update_fresh [OF assms(2), symmetric]
    using scan_string_dumps [OF k, of "58 # 32 # dumps_str v @ rest"] scan_once_dumps_str [OF v]
    by (subst scan_members.simps(2))
       (simp add: dumps_pair_def dumps_str_def [of k] del: scan_once.simps scan_members.simps)
qed

lemma scan_members_dumps:
  "kvs \<noteq> [] \<Longrightarrow> list_all valid_pair kvs \<Longrightarrow> distinct (map fst kvs) \<Longrightarrow>
   fst ` set acc \<inter> fst ` set kvs = {} \<Longrightarrow> length kvs < n \<Longrightarrow>
   scan_members n acc (py_join [44, 32] (map dumps_pair kvs) @ 125 # r)
     = Inr (JObj (acc @ map (\<lambda>(k, v). (k, JStr v)) kvs), r)"
proof (induction kvs arbitrary: acc n)
  case (Cons kv kvs)
  obtain k v where kv: "kv = (k, v)" by fastforce
  obtain m where n: "n = Suc (Suc m)"
    using Cons.prems(5) by (cases n; cases "n - 1") auto
  have k: "valid_pair (k, v)" "k \<notin> fst ` set acc"
    using Cons.prems(2,4) by (simp_all add: kv)
  have ws: "skip_ws (125 # t) = 125 # t" "skip_ws (44 # t) = 44 # t" "skip_ws (32 # t) = skip_ws t" for t
    by (simp_all add: skip_ws_def json_ws_def)
  show ?case
  proof (cases kvs)
    case Nil
    with scan_member_dumps [OF k, of m "125 # r"] show ?thesis
      by (simp add: kv n ws del: scan_members.simps)
  next
    case (Cons kv' kvs')
    let ?tail = "py_join [44, 32] (map dumps_pair kvs) @ 125 # r"
    have ih: "scan_members (Suc m) (acc @ [(k, JStr v)]) ?tail
        = Inr (JObj ((acc @ [(k, JStr v)]) @ map (\<lambda>(k, v). (k, JStr v)) kvs), r)"
      using Cons.prems local.Cons by (intro Cons.IH) (auto simp: kv n)
    have "skip_ws ?tail = ?tail"
    proof -
      have "\<exists>t. ?tail = 34 # t"
        using local.Cons by (cases "map dumps_pair kvs'") (auto simp: dumps_pair_def dumps_str_def)
      then show ?thesis by (auto simp: skip_ws_def json_ws_def)
    qed
    with ih scan_member_dumps [OF k, of m "44 # 32 # ?tail"] local.Cons show ?thesis
      by (simp add: kv n ws del: scan_members.simps)
  qed
qed simp


text \<open>What the client writes is what a JSON parser reads: the body of a request for any
  strings (quotes, backslashes, control characters, braces included) parses to the dict it was
  made from.\<close>

lemma json_dumps_loads:
  assumes "list_all valid_pair kvs" and "distinct (map fst kvs)"
  shows "json_loads (json_dumps kvs) = Inr (JObj (map (\<lambda>(k, v). (k, JStr v)) kvs))"
proof (cases kvs)
  case Nil
  show ?thesis unfolding Nil by code_simp
next
  case (Cons kv kvs')
  let ?m = "py_join [44, 32] (map dumps_pair kvs)"
  have q: "\<exists>t. ?m = 34 # t"
    using Cons by (cases "map dumps_pair kvs'") (auto simp: dumps_pair_def dumps_str_def)
  then have ws: "skip_ws (?m @ 125 # []) = ?m @ 125 # []"
    by (auto simp: skip_ws_def json_ws_def)
  have len: "length kvs < 2 * length (json_dumps kvs) + 1"
  proof -
    have "length xs \<le> length (py_join [44, 32] (map dumps_pair xs))" for xs
      by (induction xs rule: induct_list012) (auto simp: dumps_pair_def dumps_str_def)
    from this [of kvs] show ?thesis by (simp add: json_dumps_def)
  qed
  have m: "scan_members (2 * length (json_dumps kvs) + 1) [] (?m @ 125 # [])
      = Inr (JObj (map (\<lambda>(k, v). (k, JStr v)) kvs), [])"
    using scan_members_dumps [of kvs "[]" _ "[]", OF _ assms _ len] Cons by simp
  have "scan_once (Suc (2 * length (json_dumps kvs) + 1)) (123 # ?m @ 125 # [])
      = Inr (JObj (map (\<lambda>(k, v). (k, JStr v)) kvs), [])"
    using q ws m by (auto simp del: scan_members.simps)
  moreover have "skip_ws (json_dumps kvs) = json_dumps kvs"
    by (simp add: json_dumps_def skip_ws_def json_ws_def)
  ultimately show ?thesis
    by (simp add: json_loads_def json_dumps_def starts_with_def skip_ws_def del: scan_once.simps)
qed

section \<open>The wire\<close>

text \<open>JSON text is one codec, UTF-8 the next; what client and service exchange is the stack.\<close>

fun string_dict :: "json \<Rightarrow> (ustr \<times> ustr) list option" where
  "string_dict (JObj []) = Some []"
| "string_dict (JObj ((k, JStr v) # kvs)) = map_option ((#) (k, v)) (string_dict (JObj kvs))"
| "string_dict _ = None"

definition loads_strings :: "ustr \<Rightarrow> (ustr \<times> ustr) list option" where
  "loads_strings s = (case json_loads s of Inl _ \<Rightarrow> None | Inr j \<Rightarrow> string_dict j)"

definition sendable :: "(ustr \<times> ustr) list \<Rightarrow> bool" where
  "sendable kvs \<longleftrightarrow> list_all (\<lambda>(k, v). unicode k \<and> unicode v) kvs \<and> distinct (map fst kvs)"

lemma string_dict_strings: "string_dict (JObj (map (\<lambda>(k, v). (k, JStr v)) kvs)) = Some kvs"
  by (induction kvs) auto

lemma sendable_valid: "sendable kvs \<Longrightarrow> list_all valid_pair kvs \<and> distinct (map fst kvs)"
  by (auto simp: sendable_def valid_pair_def unicode_def list_all_iff)

lemma unicode_append [simp]: "unicode (s @ t) \<longleftrightarrow> unicode s \<and> unicode t"
  "unicode (c # s) \<longleftrightarrow> 0 \<le> c \<and> c \<le> 1114111 \<and> unicode s" "unicode []"
  by (simp_all add: unicode_def)

lemma unicode_dumps_str: "unicode s \<Longrightarrow> unicode (dumps_str s)"
proof (induction s)
  case (Cons c s)
  have "unicode (dumps_char c)" if "0 \<le> c" "c \<le> 1114111"
    using that by (auto simp: dumps_char_def unicode_def hex_digit_def)
  with Cons show ?case by (auto simp: dumps_str_def)
qed (simp add: dumps_str_def unicode_def)

lemma unicode_json_dumps:
  assumes "sendable kvs"
  shows "unicode (json_dumps kvs)"
proof -
  have p: "unicode (py_join [44, 32] xs)" if "list_all unicode xs" for xs
    using that by (induction xs rule: induct_list012) (auto simp: unicode_def)
  have "unicode (dumps_pair kv)" if "kv \<in> set kvs" for kv
  proof -
    have "unicode (fst kv)" "unicode (snd kv)"
      using assms that by (auto simp: sendable_def list_all_iff)
    then show ?thesis by (simp add: dumps_pair_def unicode_dumps_str)
  qed
  then have "list_all unicode (map dumps_pair kvs)" by (simp add: list_all_iff)
  from p [OF this] show ?thesis by (simp add: json_dumps_def)
qed

text \<open>The JSON layer, and the stack.\<close>

interpretation request_wire: codec_stack "\<lambda>kvs. Some (json_dumps kvs)" loads_strings sendable
  utf8_bytes utf8_text unicode
proof unfold_locales
  fix kvs s assume "sendable kvs" and "Some (json_dumps kvs) = Some s"
  then show "loads_strings s = Some kvs"
    using json_dumps_loads [of kvs] sendable_valid [of kvs]
    by (auto simp: loads_strings_def string_dict_strings)
qed (auto intro: unicode_json_dumps)

text \<open>The request on the wire: the bytes the client sends for any strings (quotes, backslashes,
  control characters, braces, any alphabet) decode and parse to the dict they were made from.\<close>

theorem request_roundtrip:
  assumes "sendable kvs" and "utf8_encode (json_dumps kvs) = Inr payload"
  shows "\<exists>text. utf8_text payload = Some text
    \<and> json_loads text = Inr (JObj (map (\<lambda>(k, v). (k, JStr v)) kvs))"
proof -
  have b: "utf8_bytes (json_dumps kvs) = Some payload"
    using assms(2) by (auto simp: utf8_encode_def split: option.splits)
  have "utf8_text payload = Some (json_dumps kvs)"
    by (rule utf8.round [OF unicode_json_dumps [OF assms(1)] b])
  with json_dumps_loads sendable_valid [OF assms(1)] show ?thesis by blast
qed

theorem request_roundtrip_witness:
  "\<exists>text. utf8_text (concat (map utf8_char (json_dumps [(key_pred_summary, u ''a'' @ [34, 123, 92, 10, 1, 24819])])))
       = Some text
     \<and> json_loads text = Inr (JObj [(key_pred_summary, JStr (u ''a'' @ [34, 123, 92, 10, 1, 24819]))])"
proof -
  have "sendable [(key_pred_summary, u ''a'' @ [34, 123, 92, 10, 1, 24819])]" by code_simp
  moreover have "utf8_encode (json_dumps [(key_pred_summary, u ''a'' @ [34, 123, 92, 10, 1, 24819])])
      = Inr (concat (map utf8_char (json_dumps [(key_pred_summary, u ''a'' @ [34, 123, 92, 10, 1, 24819])])))"
    by code_simp
  ultimately show ?thesis using request_roundtrip by fastforce
qed

section \<open>Scores from the service\<close>

lemma client_score_unit: "client_score_summary post env p g = Inr f \<Longrightarrow> in_unit f"
  by (auto simp: client_score_summary_def split: option.splits if_splits)

interpretation client: unit_scorer "\<lambda>(p, g). map_sum id fval (client_score_summary post env p g)"
proof
  fix a x
  assume "(case a of (p, g) \<Rightarrow> map_sum id fval (client_score_summary post env p g)) = Inr x"
  then show "0 \<le> x \<and> x \<le> 1"
    by (cases a; cases "client_score_summary post env (fst a) (snd a)")
       (auto simp: in_unit_def dest!: client_score_unit split: pyfloat.splits)
qed

text \<open>C36: The client never invents a score: it returns one only when the service answered 200
  with a JSON object whose \<open>score\<close> converts to that number in the unit interval; in every other
  case it raises. \<close>

theorem client_score_honest:
  assumes "client_score_summary post env p g = Inr f"
  shows "\<exists>url t payload body text result v.
     endpoint (url_var env) path_score = Inr url \<and> timeout_seconds (timeout_var env) = Inr t \<and> 0 < t
     \<and> utf8_encode (json_dumps [(key_pred_summary, p), (key_gt_summary, g)]) = Inr payload
     \<and> post url payload t = Response 200 body \<and> utf8_text body = Some text
     \<and> json_loads text = Inr (JObj result) \<and> map_of result key_score = Some v
     \<and> float_of v = Inr f \<and> in_unit f"
proof -
  obtain result v where r: "post_score post env path_score [(key_pred_summary, p), (key_gt_summary, g)]
      = Inr result" and v: "map_of result key_score = Some v" "float_of v = Inr f" "in_unit f"
    using assms by (auto simp: client_score_summary_def split: option.splits if_splits)
  from r obtain url t payload where
    b: "utf8_encode (json_dumps [(key_pred_summary, p), (key_gt_summary, g)]) = Inr payload"
    and url: "endpoint (url_var env) path_score = Inr url"
    and t: "timeout_seconds (timeout_var env) = Inr t"
    by (auto simp: post_score_def)
  from r b url t obtain body tx where "post url payload t = Response 200 body"
    "utf8_text body = Some tx" "json_loads tx = Inr (JObj result)"
    by (auto simp: post_score_def split: http_outcome.splits if_splits option.splits sum.splits json.splits)
  moreover have "0 < t"
    using t by (auto simp: timeout_seconds_def DEFAULT_TIMEOUT_SECONDS_def
        split: option.splits pyfloat.splits if_splits)
  ultimately show ?thesis using b url t v by blast
qed

definition fixed_reply :: "int \<Rightarrow> int list \<Rightarrow> network" where
  "fixed_reply status body = (\<lambda>_ _ _. Response status body)"

definition default_env :: client_env where
  "default_env = \<lparr>url_var = None, timeout_var = None\<rparr>"

theorem client_score_honest_witness:
  "client_score_summary (fixed_reply 200 (u ''{\"score\": 0.5}'')) default_env (u ''a'') (u ''b'')
     = Inr (Fin (1 / 2))
   \<and> in_unit (Fin (1 / 2))"
proof -
  have a: "client_score_summary (fixed_reply 200 (u ''{\"score\": 0.5}'')) default_env (u ''a'') (u ''b'')
     = Inr (Fin (1 / 2))" by code_simp
  from a client_score_honest [OF a] show ?thesis by blast
qed

text \<open>A summary with a lone surrogate, which the JSON of a reply can contain as an escape,
  never reaches the service: the client raises \<open>UnicodeEncodeError\<close> for any service and any
  settings.\<close>

theorem surrogate_aborts:
  assumes "list_ex is_surrogate p"
  shows "client_score_summary post env p g = Inl UnicodeEncodeError"
proof -
  obtain c where c: "c \<in> set p" "is_surrogate c"
    using assms by (auto simp: list_ex_iff)
  have "c \<in> set (dumps_char c)"
    using c(2) by (auto simp: dumps_char_def is_surrogate_def)
  with c(1) have m: "c \<in> set (concat (map dumps_char p))"
    by auto
  then have "c \<in> set (json_dumps [(key_pred_summary, p), (key_gt_summary, g)])"
    by (simp add: json_dumps_def dumps_pair_def dumps_str_def del: set_concat)
  with c(2) have "list_ex is_surrogate (json_dumps [(key_pred_summary, p), (key_gt_summary, g)])"
    by (auto simp: list_ex_iff)
  then show ?thesis
    by (simp add: client_score_summary_def post_score_def utf8_encode_def utf8_bytes_def)
qed

theorem surrogate_aborts_witness:
  "json_loads ([34, 92, 117, 100, 56, 48, 48, 34]) = Inr (JStr [55296])
   \<and> client_score_summary (fixed_reply 200 []) default_env [55296] [] = Inl UnicodeEncodeError"
proof
  show "json_loads ([34, 92, 117, 100, 56, 48, 48, 34]) = Inr (JStr [55296])" by code_simp
  have "list_ex is_surrogate [55296]" by code_simp
  from surrogate_aborts [OF this] show "client_score_summary (fixed_reply 200 []) default_env [55296] [] = Inl UnicodeEncodeError" .
qed


text \<open>Whatever support answer the client lets through, the reasoning gate accepts: its own
  checks of the option and the probability cannot fail on it.\<close>

theorem client_support_accepted:
  assumes "client_classify_option_support fr post env sentence a b = Inr v"
  shows "\<exists>opt p. read_support fr v = Inr (opt, p) \<and> opt \<in> {u ''A'', u ''B'', u ''U''} \<and> 0 \<le> p \<and> p \<le> 1"
proof -
  obtain opt p where v: "v = JObj [(key_supported_option, JStr opt), (key_unclear_probability, JFloat p)]"
    and opt: "opt \<in> {[65], [66], [85]}" and p: "in_unit p"
    using assms by (auto simp: client_classify_option_support_def Let_def split: option.splits if_splits)
  have id: "list_all (\<lambda>x. py_upper (py_strip x) = x) [[65], [66], [85]]" by code_simp
  have up: "py_upper (py_strip opt) = opt"
    using opt id by auto
  have ne: "key_supported_option \<noteq> key_unclear_probability" by code_simp
  obtain x where x: "p = Fin x" "0 \<le> x" "x \<le> 1"
    using p by (auto simp: in_unit_def split: pyfloat.splits)
  have "read_support fr v = Inr (opt, x)"
    using opt x ne by (auto simp: v read_support_def dict_item_def up in_unit_def Let_def)
  with opt x show ?thesis by (auto simp: u_def)
qed

definition support_reply :: ustr where
  "support_reply = u ''{\"supported_option\": \" b\", \"unclear_probability\": 0.25}''"

theorem client_support_accepted_witness:
  "\<exists>v opt p. client_classify_option_support (\<lambda>_. []) (fixed_reply 200 support_reply) default_env [] [] []
       = Inr v \<and> read_support (\<lambda>_. []) v = Inr (opt, p) \<and> opt \<in> {u ''A'', u ''B'', u ''U''}"
proof -
  have a: "client_classify_option_support (\<lambda>_. []) (fixed_reply 200 support_reply) default_env [] [] []
    = Inr (JObj [(key_supported_option, JStr (u ''B'')), (key_unclear_probability, JFloat (Fin (1 / 4)))])"
    by code_simp
  from client_support_accepted [OF a] a show ?thesis by blast
qed

end
