(* ===== verification/Machine.thy ===== *)
theory Machine
  imports Prelude
begin

text \<open>
  Threads that share state are modelled as step machines: an event names the thread that moves
  and what it does, a step function into \<open>option\<close> gives the state after it (\<open>None\<close>: the thread
  is not at that point of its code). This theory has what all step machines share: runs of
  events, reachability with a condition on the events allowed, and the interface by which an
  invariant is established once and used on every reachable state.
\<close>

fun run :: "('e \<Rightarrow> 's \<Rightarrow> 's option) \<Rightarrow> 'e list \<Rightarrow> 's \<Rightarrow> 's option" where
  "run step [] s = Some s"
| "run step (e # es) s = (case step e s of None \<Rightarrow> None | Some s' \<Rightarrow> run step es s')"

inductive reachable :: "('e \<Rightarrow> 's \<Rightarrow> bool) \<Rightarrow> ('e \<Rightarrow> 's \<Rightarrow> 's option) \<Rightarrow> 's \<Rightarrow> 's \<Rightarrow> bool"
  for allowed step init where
  initial: "reachable allowed step init init"
| move: "reachable allowed step init s \<Longrightarrow> allowed e s \<Longrightarrow> step e s = Some s'
    \<Longrightarrow> reachable allowed step init s'"

abbreviation any_event :: "'e \<Rightarrow> 's \<Rightarrow> bool" where
  "any_event \<equiv> \<lambda>_ _. True"

lemma reachable_mono:
  "reachable allowed step init s \<Longrightarrow> (\<And>e s. allowed e s \<Longrightarrow> allowed' e s) \<Longrightarrow> reachable allowed' step init s"
  by (induction rule: reachable.induct) (auto intro: reachable.intros)

lemma reachable_any: "reachable allowed step init s \<Longrightarrow> reachable any_event step init s"
  by (rule reachable_mono) simp_all

lemma reachable_run:
  "run step es s = Some s' \<Longrightarrow> reachable any_event step init s \<Longrightarrow> reachable any_event step init s'"
  by (induction es arbitrary: s) (auto split: option.splits intro: move)

lemma reachable_from_init: "run step es init = Some s \<Longrightarrow> reachable any_event step init s"
  using reachable_run initial by metis

lemma run_append: "run step (es @ fs) s = (case run step es s of None \<Rightarrow> None | Some s' \<Rightarrow> run step fs s')"
  by (induction es arbitrary: s) (auto split: option.splits)

text \<open>A run all of whose events are allowed where they happen.\<close>

fun run_allowed :: "('e \<Rightarrow> 's \<Rightarrow> bool) \<Rightarrow> ('e \<Rightarrow> 's \<Rightarrow> 's option) \<Rightarrow> 'e list \<Rightarrow> 's \<Rightarrow> bool" where
  "run_allowed allowed step [] s = True"
| "run_allowed allowed step (e # es) s =
     (allowed e s \<and> (case step e s of None \<Rightarrow> True | Some s' \<Rightarrow> run_allowed allowed step es s'))"

lemma reachable_allowed:
  "run_allowed allowed step es s \<Longrightarrow> run step es s = Some s' \<Longrightarrow> reachable allowed step init s
     \<Longrightarrow> reachable allowed step init s'"
  by (induction es arbitrary: s) (auto split: option.splits intro: move)

text \<open>What every step preserves, a run preserves.\<close>

lemma run_preserves:
  assumes "run step es s = Some s'" and "P s"
    and "\<And>e s s'. e \<in> set es \<Longrightarrow> P s \<Longrightarrow> step e s = Some s' \<Longrightarrow> P s'"
  shows "P s'"
  using assms
proof (induction es arbitrary: s)
  case (Cons e es)
  then obtain t where t: "step e s = Some t" "run step es t = Some s'"
    by (auto split: option.splits)
  have "P t" using Cons.prems(2) Cons.prems(3) [of e s t] t(1) by simp
  then show ?case by (rule Cons.IH [OF t(2)]) (use Cons.prems(3) in auto)
qed simp

text \<open>A concrete run is evaluated once; its final state is then named.\<close>

lemma not_none_Some: "\<not> Option.is_none x \<Longrightarrow> x = Some (the x)"
  by (cases x) simp_all

text \<open>The interface of an invariant: it holds at the start, and every allowed event keeps it.\<close>

locale machine_invariant =
  fixes allowed :: "'e \<Rightarrow> 's \<Rightarrow> bool"
    and step :: "'e \<Rightarrow> 's \<Rightarrow> 's option"
    and init :: 's
    and inv :: "'s \<Rightarrow> bool"
  assumes inv_init: "inv init"
    and inv_step: "inv s \<Longrightarrow> allowed e s \<Longrightarrow> step e s = Some s' \<Longrightarrow> inv s'"
begin

lemma reachable_inv: "reachable allowed step init s \<Longrightarrow> inv s"
  by (induction rule: reachable.induct) (auto intro: inv_init inv_step)

lemma next_inv: "reachable allowed step init s \<Longrightarrow> allowed e s \<Longrightarrow> step e s = Some s' \<Longrightarrow> inv s'"
  using reachable_inv inv_step by blast

end

text \<open>An invariant that needs another one: the second is only kept where the first holds.\<close>

locale machine_invariant_on = base: machine_invariant allowed' step init base_inv
  for allowed' :: "'e \<Rightarrow> 's \<Rightarrow> bool" and step and init and base_inv +
  fixes allowed :: "'e \<Rightarrow> 's \<Rightarrow> bool" and inv :: "'s \<Rightarrow> bool"
  assumes allowed_mono: "allowed e s \<Longrightarrow> allowed' e s"
    and on_init: "inv init"
    and on_step: "base_inv s \<Longrightarrow> inv s \<Longrightarrow> allowed e s \<Longrightarrow> step e s = Some s' \<Longrightarrow> inv s'"
begin

lemma both: "machine_invariant allowed step init (\<lambda>s. base_inv s \<and> inv s)"
  by unfold_locales (auto intro: base.inv_init base.inv_step on_init on_step allowed_mono)

lemma reachable_both: "reachable allowed step init s \<Longrightarrow> base_inv s \<and> inv s"
  by (rule machine_invariant.reachable_inv [OF both])

end

end
