(* ===== verification/Scheduler.thy ===== *)
theory Scheduler
  imports Machine
begin

text \<open>
  \<open>QueueLengthInferenceScheduler\<close> of \<^verbatim>\<open>reward_model_server.py\<close>: two batcher threads share
  one model; a thread registers its batch and waits on a condition variable until
  \<open>_may_start\<close> lets it run.

  A step is what one thread does while it holds the condition's lock. A waiting thread that
  nobody has notified is \<open>Asleep\<close>; \<open>notify_all\<close> makes it \<open>Notified\<close>, and it evaluates its
  predicate again when it gets the lock. The request queues are read by the predicate without a
  lock of their own, so requests may join them between any two steps.
\<close>

section \<open>State\<close>

datatype task = R4 | Gate

fun other :: "task \<Rightarrow> task" where
  "other R4 = Gate"
| "other Gate = R4"

instantiation task :: linorder
begin

text \<open>The order of the keys in the \<open>_waiting\<close> dict: \<^verbatim>\<open>max\<close> keeps the first of equals.\<close>

definition less_eq_task :: "task \<Rightarrow> task \<Rightarrow> bool" where
  "s \<le> t \<longleftrightarrow> s = R4 \<or> t = (Gate :: task)"

definition less_task :: "task \<Rightarrow> task \<Rightarrow> bool" where
  "s < t \<longleftrightarrow> s = R4 \<and> t = (Gate :: task)"

instance
proof
  fix s t r :: task
  show "s < t \<longleftrightarrow> s \<le> t \<and> \<not> t \<le> s" by (cases s; cases t) (auto simp: less_eq_task_def less_task_def)
  show "s \<le> s" by (cases s) (auto simp: less_eq_task_def)
  show "s \<le> t \<Longrightarrow> t \<le> r \<Longrightarrow> s \<le> r" by (cases s; cases t; cases r) (auto simp: less_eq_task_def)
  show "s \<le> t \<Longrightarrow> t \<le> s \<Longrightarrow> s = t" by (cases s; cases t) (auto simp: less_eq_task_def)
  show "s \<le> t \<or> t \<le> s" by (cases s; cases t) (auto simp: less_eq_task_def)
qed

end

datatype phase = Idle | Asleep | Notified | Running

record sched =
  active :: bool
  waiting :: "task \<Rightarrow> (nat \<times> nat) option"
  arrival_sequence :: nat
  phase_of :: "task \<Rightarrow> phase"
  queued :: "task \<Rightarrow> nat"

definition init_sched :: sched where
  "init_sched = \<lparr>active = False, waiting = (\<lambda>_. None), arrival_sequence = 0,
     phase_of = (\<lambda>_. Idle), queued = (\<lambda>_. 0)\<rparr>"

section \<open>The predicate\<close>

text \<open>The key of a waiting batch: its size plus the requests queued behind it; on equal sums the
  smaller arrival number wins.\<close>

definition better :: "nat \<times> nat \<Rightarrow> nat \<times> nat \<Rightarrow> bool" where
  "better a b \<longleftrightarrow> fst a > fst b \<or> fst a = fst b \<and> snd a < snd b"

definition wait_key :: "sched \<Rightarrow> task \<Rightarrow> nat \<times> nat \<Rightarrow> nat \<times> nat" where
  "wait_key s t w = (fst w + queued s t, snd w)"

text \<open>\<open>max(candidates, key=...)\<close> over the waiting tasks, in the order of the dict.\<close>

definition selected :: "sched \<Rightarrow> task option" where
  "selected s =
     (case (waiting s R4, waiting s Gate) of
        (None, None) \<Rightarrow> None
      | (Some _, None) \<Rightarrow> Some R4
      | (None, Some _) \<Rightarrow> Some Gate
      | (Some a, Some b) \<Rightarrow>
          if better (wait_key s Gate b) (wait_key s R4 a) then Some Gate else Some R4)"

definition may_start :: "sched \<Rightarrow> task \<Rightarrow> bool" where
  "may_start s t \<longleftrightarrow> \<not> active s \<and> selected s = Some t"

section \<open>Steps\<close>

datatype event =
    Put task
  | Take task nat
  | Arrive task nat
  | Wake task
  | Finish task

definition set_phase :: "task \<Rightarrow> phase \<Rightarrow> sched \<Rightarrow> sched" where
  "set_phase t p s = s\<lparr>phase_of := (phase_of s)(t := p)\<rparr>"

text \<open>Evaluating the predicate: enter, with the registration withdrawn, or (go back to) sleep.\<close>

definition try_start :: "task \<Rightarrow> sched \<Rightarrow> sched" where
  "try_start t s =
     (if may_start s t
      then set_phase t Running (s\<lparr>active := True, waiting := (waiting s)(t := None)\<rparr>)
      else set_phase t Asleep s)"

definition notify_all :: "sched \<Rightarrow> sched" where
  "notify_all s = s\<lparr>phase_of := (\<lambda>t. if phase_of s t = Asleep then Notified else phase_of s t)\<rparr>"

text \<open>\<open>Arrive t n\<close> is a call of \<open>run\<close> with \<open>n\<close> values; \<open>wait_for\<close> evaluates the predicate
  before it waits. \<open>None\<close>: the thread is not where the event has it.\<close>

fun sched_step :: "event \<Rightarrow> sched \<Rightarrow> sched option" where
  "sched_step (Put t) s = Some (s\<lparr>queued := (queued s)(t := Suc (queued s t))\<rparr>)"
| "sched_step (Take t n) s =
     (if phase_of s t = Idle \<and> n \<le> queued s t
      then Some (s\<lparr>queued := (queued s)(t := queued s t - n)\<rparr>) else None)"
| "sched_step (Arrive t n) s =
     (if phase_of s t = Idle \<and> waiting s t = None
      then Some (try_start t (s\<lparr>arrival_sequence := Suc (arrival_sequence s),
             waiting := (waiting s)(t \<mapsto> (n, Suc (arrival_sequence s)))\<rparr>))
      else None)"
| "sched_step (Wake t) s = (if phase_of s t = Notified then Some (try_start t s) else None)"
| "sched_step (Finish t) s =
     (if phase_of s t = Running then Some (notify_all (set_phase t Idle (s\<lparr>active := False\<rparr>)))
      else None)"

text \<open>A state the threads can get into; with \<open>calm\<close> below, one they get into while no request
  joins a waiting batch's queue.\<close>

abbreviation sched_run :: "event list \<Rightarrow> sched \<Rightarrow> sched option" where
  "sched_run \<equiv> run sched_step"

abbreviation reach :: "sched \<Rightarrow> bool" where
  "reach \<equiv> reachable any_event sched_step init_sched"

section \<open>Invariants\<close>

lemma task_all: "(\<forall>t. P t) \<longleftrightarrow> P R4 \<and> P Gate"
  by (metis task.exhaust)

lemma task_ex: "(\<exists>t. P t) \<longleftrightarrow> P R4 \<or> P Gate"
  by (metis task.exhaust)

text \<open>The lock's guarantee, and what the registrations say about the threads.\<close>

definition task_ok :: "sched \<Rightarrow> task \<Rightarrow> bool" where
  "task_ok s t \<longleftrightarrow>
     (case waiting s t of None \<Rightarrow> phase_of s t = Idle \<or> phase_of s t = Running
      | Some w \<Rightarrow> (phase_of s t = Asleep \<or> phase_of s t = Notified) \<and> snd w \<le> arrival_sequence s)"

definition sched_ok :: "sched \<Rightarrow> bool" where
  "sched_ok s \<longleftrightarrow>
     active s = (phase_of s R4 = Running \<or> phase_of s Gate = Running)
     \<and> \<not> (phase_of s R4 = Running \<and> phase_of s Gate = Running)
     \<and> task_ok s R4 \<and> task_ok s Gate
     \<and> (case (waiting s R4, waiting s Gate) of (Some v, Some w) \<Rightarrow> snd v \<noteq> snd w | _ \<Rightarrow> True)"

lemma sched_ok_task: "sched_ok s \<Longrightarrow> task_ok s t"
  by (cases t) (simp_all add: sched_ok_def)

lemma waiting_phase:
  "sched_ok s \<Longrightarrow> waiting s t \<noteq> None \<longleftrightarrow> phase_of s t = Asleep \<or> phase_of s t = Notified"
  using sched_ok_task [of s t] by (auto simp: task_ok_def split: option.splits)

lemma may_start_waiting: "may_start s t \<Longrightarrow> \<not> active s \<and> waiting s t \<noteq> None"
  by (auto simp: may_start_def selected_def split: option.splits if_splits)

text \<open>Registering a batch and evaluating the predicate keep the invariant.\<close>

lemma sched_ok_sleep: "sched_ok s \<Longrightarrow> waiting s t \<noteq> None \<Longrightarrow> sched_ok (set_phase t Asleep s)"
  using sched_ok_task [of s t]
  by (cases t) (auto simp: sched_ok_def task_ok_def set_phase_def split: option.splits)

lemma sched_ok_enter:
  assumes "sched_ok s" and "waiting s t \<noteq> None" and "\<not> active s"
  shows "sched_ok (set_phase t Running (s\<lparr>active := True, waiting := (waiting s)(t := None)\<rparr>))"
  using assms by (cases t) (auto simp: sched_ok_def task_ok_def set_phase_def split: option.splits)

lemma try_start_ok: "sched_ok s \<Longrightarrow> waiting s t \<noteq> None \<Longrightarrow> sched_ok (try_start t s)"
  using sched_ok_sleep sched_ok_enter may_start_waiting by (simp add: try_start_def)

lemma selected_cong:
  assumes "waiting s' = waiting s" and "\<And>t. waiting s t \<noteq> None \<Longrightarrow> queued s' t = queued s t"
  shows "selected s' = selected s"
  using assms by (auto simp: selected_def wait_key_def split: option.splits)

lemma try_start_phase: "try_start t (set_phase t p s) = try_start t s"
proof -
  have "selected (set_phase t p s) = selected s"
    by (rule selected_cong) (simp_all add: set_phase_def)
  then show ?thesis by (simp add: try_start_def may_start_def) (simp add: set_phase_def)
qed

lemma sched_ok_register:
  assumes "sched_ok s" and "phase_of s t = Idle"
  shows "sched_ok (set_phase t Asleep (s\<lparr>arrival_sequence := Suc (arrival_sequence s),
      waiting := (waiting s)(t \<mapsto> (n, Suc (arrival_sequence s)))\<rparr>))"
  using assms by (cases t) (auto simp: sched_ok_def task_ok_def set_phase_def split: option.splits)

lemma sched_ok_queued [simp]: "sched_ok (s\<lparr>queued := q\<rparr>) = sched_ok s"
  by (simp add: sched_ok_def task_ok_def cong: option.case_cong)

lemma sched_ok_leave:
  assumes "sched_ok s" and "phase_of s t = Running"
  shows "sched_ok (notify_all (set_phase t Idle (s\<lparr>active := False\<rparr>)))"
  using assms by (cases t; cases "waiting s R4"; cases "waiting s Gate")
    (auto simp: sched_ok_def task_ok_def notify_all_def set_phase_def)

lemma sched_step_ok:
  assumes "sched_ok s" and "sched_step e s = Some s'"
  shows "sched_ok s'"
proof (cases e)
  case (Arrive t n)
  define a where "a = s\<lparr>arrival_sequence := Suc (arrival_sequence s),
      waiting := (waiting s)(t \<mapsto> (n, Suc (arrival_sequence s)))\<rparr>"
  have p: "phase_of s t = Idle" "s' = try_start t (set_phase t Asleep a)"
    using assms(2) Arrive by (auto simp: a_def try_start_phase split: if_splits)
  have "waiting (set_phase t Asleep a) t \<noteq> None" by (simp add: a_def set_phase_def)
  then show ?thesis
    unfolding p(2) using sched_ok_register [OF assms(1) p(1), of n] by (intro try_start_ok) (simp_all add: a_def)
next
  case (Wake t)
  then have "phase_of s t = Notified" "s' = try_start t s"
    using assms(2) by (auto split: if_splits)
  with assms(1) show ?thesis using try_start_ok [of s t] waiting_phase [of s t] by simp
next
  case (Finish t)
  with assms show ?thesis by (auto simp: sched_ok_leave split: if_splits)
qed (use assms in \<open>auto split: if_splits\<close>)

interpretation sched_machine: machine_invariant any_event sched_step init_sched sched_ok
  by unfold_locales (simp add: sched_ok_def task_ok_def init_sched_def, rule sched_step_ok)

text \<open>A step that leaves the sums of the waiting batches alone.\<close>

definition calm :: "event \<Rightarrow> sched \<Rightarrow> bool" where
  "calm e s = (case e of Put t \<Rightarrow> waiting s t = None | _ \<Rightarrow> True)"

abbreviation calm_reach :: "sched \<Rightarrow> bool" where
  "calm_reach \<equiv> reachable calm sched_step init_sched"

text \<open>While the model is free, the batch that may start is not asleep.\<close>

definition not_forgotten :: "sched \<Rightarrow> bool" where
  "not_forgotten s \<longleftrightarrow>
     (if active s then True
      else (case selected s of None \<Rightarrow> True | Some t \<Rightarrow> phase_of s t = Notified))"

lemma selected_waiting: "selected s = Some t \<Longrightarrow> waiting s t \<noteq> None"
  by (auto simp: selected_def split: option.splits if_splits)

lemma selected_only:
  "waiting s t \<noteq> None \<Longrightarrow> waiting s (other t) = None \<Longrightarrow> selected s = Some t"
  by (cases t) (auto simp: selected_def)

lemma selected_None: "selected s = None \<longleftrightarrow> waiting s R4 = None \<and> waiting s Gate = None"
  by (auto simp: selected_def split: option.splits)

lemma try_start_not_forgotten:
  assumes w: "waiting s t \<noteq> None" and nf: "waiting s (other t) \<noteq> None \<Longrightarrow> \<not> active s \<Longrightarrow>
      selected s = Some (other t) \<Longrightarrow> phase_of s (other t) = Notified"
  shows "not_forgotten (try_start t s)"
proof (cases "may_start s t")
  case True
  then show ?thesis by (simp add: not_forgotten_def try_start_def set_phase_def)
next
  case False
  have sel: "selected (set_phase t Asleep s) = selected s"
    by (rule selected_cong) (simp_all add: set_phase_def)
  show ?thesis
  proof (cases "active s")
    case False
    obtain r where r: "selected s = Some r"
      using w by (cases "selected s"; cases t) (auto simp: selected_None)
    have "r = other t"
      using False \<open>\<not> may_start s t\<close> r by (cases r; cases t) (auto simp: may_start_def)
    then have "phase_of s r = Notified"
      using nf r False selected_waiting [OF r] by auto
    with False \<open>\<not> may_start s t\<close> sel r \<open>r = other t\<close> show ?thesis
      by (cases t) (auto simp: not_forgotten_def try_start_def set_phase_def)
  qed (simp add: not_forgotten_def try_start_def set_phase_def False)
qed

lemma calm_step_not_forgotten:
  assumes ok: "sched_ok s" and nf: "not_forgotten s" and calm: "calm e s"
    and st: "sched_step e s = Some s'"
  shows "not_forgotten s'"
proof (cases e)
  case (Put t)
  then have "selected s' = selected s"
    using st calm by (intro selected_cong) (auto simp: calm_def)
  with nf st Put show ?thesis by (auto simp: not_forgotten_def split: option.splits)
next
  case (Take t n)
  then have "phase_of s t = Idle" using st by (auto split: if_splits)
  then have "waiting s t = None"
    using waiting_phase [OF ok, of t] by (cases "waiting s t") simp_all
  then have "selected s' = selected s"
    using st Take by (intro selected_cong) (auto split: if_splits)
  with nf st Take show ?thesis by (auto simp: not_forgotten_def split: option.splits if_splits)
next
  case (Arrive t n)
  define a where "a = s\<lparr>arrival_sequence := Suc (arrival_sequence s),
      waiting := (waiting s)(t \<mapsto> (n, Suc (arrival_sequence s)))\<rparr>"
  have p: "waiting s t = None" "s' = try_start t a"
    using st Arrive by (auto simp: a_def split: if_splits)
  have "phase_of a (other t) = Notified" if "waiting a (other t) \<noteq> None" "\<not> active a"
  proof -
    have "waiting s (other t) \<noteq> None" "\<not> active s"
      using that by (cases t; simp add: a_def)+
    then have "selected s = Some (other t)"
      using p(1) by (intro selected_only) (cases t; simp)+
    with nf \<open>\<not> active s\<close> show ?thesis by (simp add: not_forgotten_def a_def)
  qed
  then show ?thesis
    unfolding p(2) by (intro try_start_not_forgotten) (simp_all add: a_def)
next
  case (Wake t)
  have p: "phase_of s t = Notified" "s' = try_start t s"
    using st Wake by (auto split: if_splits)
  have "waiting s t \<noteq> None" using waiting_phase [OF ok] p(1) by simp
  with nf show ?thesis
    unfolding p(2) by (intro try_start_not_forgotten) (auto simp: not_forgotten_def)
next
  case (Finish t)
  then have s': "s' = notify_all (set_phase t Idle (s\<lparr>active := False\<rparr>))" and r: "phase_of s t = Running"
    using st by (auto split: if_splits)
  have sel: "selected s' = selected s"
    unfolding s' by (rule selected_cong) (simp_all add: notify_all_def set_phase_def)
  have "phase_of s' r = Notified" if "selected s' = Some r" for r
  proof -
    have "waiting s r \<noteq> None" using that sel selected_waiting by simp
    then have "phase_of s r = Asleep \<or> phase_of s r = Notified" "r \<noteq> t"
      using waiting_phase [OF ok] r by auto
    then show ?thesis by (auto simp: s' notify_all_def set_phase_def)
  qed
  then show ?thesis by (auto simp: not_forgotten_def split: option.splits)
qed

interpretation calm_machine: machine_invariant_on any_event sched_step init_sched sched_ok calm not_forgotten
proof unfold_locales
  show "not_forgotten init_sched" by (simp add: not_forgotten_def selected_def init_sched_def)
qed (simp, rule calm_step_not_forgotten)

section \<open>Properties\<close>

text \<open>C32: The model is used by one batch at a time: in every reachable state \<open>_active\<close> is set
  exactly while a thread runs, the two never run together, and a batch is registered exactly
  while its thread waits.\<close>

theorem mutual_exclusion:
  assumes "reach s"
  shows "\<not> (phase_of s R4 = Running \<and> phase_of s Gate = Running)
    \<and> (active s \<longleftrightarrow> phase_of s R4 = Running \<or> phase_of s Gate = Running)
    \<and> (waiting s t \<noteq> None \<longleftrightarrow> phase_of s t = Asleep \<or> phase_of s t = Notified)"
  using sched_machine.reachable_inv [OF assms] waiting_phase [of s t] by (simp add: sched_ok_def)

definition busy_events :: "event list" where
  "busy_events = [Arrive R4 1, Arrive Gate 2]"

theorem mutual_exclusion_witness:
  "\<exists>s. sched_run busy_events init_sched = Some s \<and> phase_of s R4 = Running \<and> phase_of s Gate = Asleep
     \<and> \<not> (phase_of s R4 = Running \<and> phase_of s Gate = Running)"
proof -
  define s where "s = the (sched_run busy_events init_sched)"
  have r: "sched_run busy_events init_sched = Some s"
    unfolding s_def by (rule not_none_Some) code_simp
  have "phase_of s R4 = Running" "phase_of s Gate = Asleep"
    unfolding s_def by code_simp+
  with mutual_exclusion [OF reachable_from_init [OF r]] r show ?thesis by blast
qed

text \<open>A batch that starts when its thread wakes is the one with the most requests, its own and
  those queued behind it; on a tie it is the one that waited longer.\<close>

theorem fullest_first:
  assumes "reach s" and "sched_step (Wake t) s = Some s'" and "phase_of s' t = Running"
    and "waiting s t = Some (n, k)" and "waiting s (other t) = Some (m, j)"
  shows "m + queued s (other t) < n + queued s t
    \<or> m + queued s (other t) = n + queued s t \<and> k < j"
proof -
  have sel: "selected s = Some t"
    using assms(2,3) by (auto simp: try_start_def set_phase_def may_start_def split: if_splits)
  have "snd (n, k) \<noteq> snd (m, j)"
    using sched_machine.reachable_inv [OF assms(1)] assms(4,5) by (cases t) (auto simp: sched_ok_def)
  with sel assms(4,5) show ?thesis
    by (cases t) (auto simp: selected_def better_def wait_key_def split: if_splits)
qed

definition tie_events :: "event list" where
  "tie_events = [Arrive R4 1, Arrive Gate 2, Finish R4, Put R4, Arrive R4 1]"

theorem fullest_first_witness:
  "\<exists>s s'. sched_run tie_events init_sched = Some s \<and> sched_step (Wake Gate) s = Some s'
     \<and> phase_of s' Gate = Running \<and> queued s R4 = 1 \<and> (1 + 1 < 2 + (0::nat) \<or> 1 + 1 = 2 + (0::nat) \<and> (2::nat) < 3)"
proof -
  define s where "s = the (sched_run tie_events init_sched)"
  have r: "sched_run tie_events init_sched = Some s"
    unfolding s_def by (rule not_none_Some) code_simp
  define s' where "s' = the (sched_step (Wake Gate) s)"
  have w: "sched_step (Wake Gate) s = Some s'"
    unfolding s'_def s_def by (rule not_none_Some) code_simp
  have f: "phase_of s' Gate = Running" "waiting s Gate = Some (2, 2)" "waiting s (other Gate) = Some (1, 3)"
    "queued s R4 = 1" "queued s Gate = 0"
    unfolding s'_def s_def by code_simp+
  from fullest_first [OF reachable_from_init [OF r] w f(1-3)] f r w show ?thesis by auto
qed

text \<open>The steps the two threads make without new work: a notified thread gets the lock, or a batch ends.\<close>

definition own_step :: "event \<Rightarrow> bool" where
  "own_step e = (case e of Wake t \<Rightarrow> True | Finish t \<Rightarrow> True | _ \<Rightarrow> False)"

lemma own_step_calm: "own_step e \<Longrightarrow> calm e s"
  by (cases e) (simp_all add: own_step_def calm_def)

text \<open>Every own step brings the threads closer to the end of their work.\<close>

fun phase_work :: "phase \<Rightarrow> nat" where
  "phase_work Idle = 0"
| "phase_work Asleep = 4"
| "phase_work Notified = 5"
| "phase_work Running = 2"

definition work_left :: "sched \<Rightarrow> nat" where
  "work_left s = phase_work (phase_of s R4) + phase_work (phase_of s Gate)"

lemma phase_work_bound: "phase_work p \<le> 5"
  by (cases p) simp_all

lemma own_step_work:
  assumes "own_step e" and "sched_step e s = Some s'"
  shows "work_left s' < work_left s"
proof (cases e)
  case (Wake t)
  then show ?thesis
    using assms by (cases t) (auto simp: work_left_def try_start_def set_phase_def split: if_splits)
next
  case (Finish t)
  then show ?thesis
    using assms by (cases t; cases "phase_of s (other t)")
      (auto simp: work_left_def notify_all_def set_phase_def split: if_splits)
qed (use assms(1) in \<open>simp_all add: own_step_def\<close>)

lemma own_run_length:
  "list_all own_step es \<Longrightarrow> sched_run es s = Some s' \<Longrightarrow> length es + work_left s' \<le> work_left s"
proof (induction es arbitrary: s)
  case (Cons e es)
  then obtain r where "sched_step e s = Some r" "sched_run es r = Some s'"
    by (auto split: option.splits)
  with Cons own_step_work [of e s r] show ?case by fastforce
qed simp

lemma own_run_calm: "list_all own_step es \<Longrightarrow> run_allowed calm sched_step es s"
  by (induction es arbitrary: s) (auto simp: own_step_calm split: option.splits)

text \<open>A batch whose registration is gone has been started by its own thread.\<close>

definition started_in :: "sched \<Rightarrow> event list \<Rightarrow> task \<Rightarrow> bool" where
  "started_in s es t \<longleftrightarrow> (\<exists>before after r. es = before @ Wake t # after
     \<and> sched_run (before @ [Wake t]) s = Some r \<and> phase_of r t = Running)"

lemma started_in_Cons: "sched_step e s = Some r \<Longrightarrow> started_in r es t \<Longrightarrow> started_in s (e # es) t"
  by (auto simp: started_in_def) (metis append_Cons option.case(2) run.simps(2))

lemma own_step_keeps_waiting:
  assumes "own_step e" and "sched_step e s = Some r" and "waiting s t \<noteq> None"
  shows "waiting r t \<noteq> None \<or> e = Wake t \<and> phase_of r t = Running"
proof (cases e)
  case (Wake v)
  then show ?thesis
    using assms(2,3) by (cases "v = t") (auto simp: try_start_def set_phase_def split: if_splits)
next
  case (Finish v)
  then show ?thesis using assms(2,3) by (auto simp: notify_all_def set_phase_def split: if_splits)
qed (use assms(1) in \<open>simp_all add: own_step_def\<close>)

lemma served_was_started:
  "list_all own_step es \<Longrightarrow> sched_run es s = Some s' \<Longrightarrow> waiting s t \<noteq> None \<Longrightarrow> waiting s' t = None
    \<Longrightarrow> started_in s es t"
proof (induction es arbitrary: s)
  case (Cons e es)
  then obtain r where r: "sched_step e s = Some r" "sched_run es r = Some s'"
    by (auto split: option.splits)
  consider "waiting r t \<noteq> None" | "e = Wake t" "phase_of r t = Running"
    using own_step_keeps_waiting [OF _ r(1) Cons.prems(3)] Cons.prems(1) by (auto simp del: not_None_eq)
  then show ?case
  proof cases
    case 1
    then show ?thesis using Cons r started_in_Cons by simp
  next
    case 2
    with r(1) show ?thesis unfolding started_in_def
      by (intro exI [of _ "[]"] exI [of _ es] exI [of _ r]) simp
  qed
qed simp

text \<open>Where the model is free, the batch selected among the waiting ones has a notified thread, and that
  thread starts it.\<close>

lemma selected_starts:
  assumes "calm_reach s" and "\<not> active s" and "selected s = Some r"
  shows "phase_of s r = Notified \<and> (\<exists>s'. sched_step (Wake r) s = Some s' \<and> phase_of s' r = Running)"
proof -
  have n: "phase_of s r = Notified"
    using calm_machine.reachable_both [OF assms(1)] assms(2,3) by (simp add: not_forgotten_def)
  moreover have "may_start s r" using assms(2,3) by (simp add: may_start_def)
  ultimately show ?thesis by (simp add: try_start_def set_phase_def)
qed

text \<open>Threads that can make no step have no work left.\<close>

lemma no_step_all_served:
  assumes "calm_reach s" and stop: "\<And>e. own_step e \<Longrightarrow> sched_step e s = None"
  shows "waiting s t = None \<and> phase_of s t = Idle"
proof -
  have inv: "sched_ok s" using calm_machine.reachable_both [OF assms(1)] by blast
  have nr: "phase_of s v \<noteq> Running" "phase_of s v \<noteq> Notified" for v
    using stop [of "Finish v"] stop [of "Wake v"] by (auto simp: own_step_def split: if_splits)
  then have "\<not> active s" using inv by (simp add: sched_ok_def)
  then have "selected s = None"
    using selected_starts [OF assms(1)] nr(2) by (cases "selected s") auto
  then have "waiting s t = None" by (cases t) (simp_all add: selected_None)
  then show ?thesis using waiting_phase [OF inv, of t] nr [of t] by (cases "phase_of s t") auto
qed

text \<open>C34: As long as no request joins the queue behind a batch that is already waiting, nothing is
  forgotten. In a state reached that way, whenever the model is free and a batch waits, the thread of the
  batch that is selected has been notified and starts it as soon as it gets the lock. And the two threads' own
  steps (a notified thread gets the lock, a running batch ends) come to an end after at most ten of them,
  wherever they lead; when neither thread can make one, no batch waits, both threads are idle, and every batch
  that waited has been started by its own thread on the way.\<close>

theorem calm_progress:
  assumes "calm_reach s"
  shows "(\<not> active s \<and> waiting s t \<noteq> None \<longrightarrow>
      (\<exists>r s'. selected s = Some r \<and> phase_of s r = Notified
        \<and> sched_step (Wake r) s = Some s' \<and> phase_of s' r = Running))
    \<and> (list_all own_step es \<and> sched_run es s = Some s' \<longrightarrow>
      length es \<le> 10
      \<and> ((\<forall>e. own_step e \<longrightarrow> sched_step e s' = None) \<longrightarrow>
          waiting s' t = None \<and> phase_of s' t = Idle \<and> (waiting s t \<noteq> None \<longrightarrow> started_in s es t)))"
proof (intro conjI impI)
  assume f: "\<not> active s \<and> waiting s t \<noteq> None"
  then obtain r where r: "selected s = Some r"
    by (cases "selected s"; cases t) (auto simp: selected_None)
  then show "\<exists>r s'. selected s = Some r \<and> phase_of s r = Notified
      \<and> sched_step (Wake r) s = Some s' \<and> phase_of s' r = Running"
    using selected_starts [OF assms _ r] f by blast
next
  assume e: "list_all own_step es \<and> sched_run es s = Some s'"
  then show "length es \<le> 10"
    using own_run_length [of es s s'] phase_work_bound [of "phase_of s R4"] phase_work_bound [of "phase_of s Gate"]
    by (simp add: work_left_def)
  have r: "calm_reach s'" using e by (blast intro: reachable_allowed [OF own_run_calm _ assms])
  assume stop: "\<forall>e. own_step e \<longrightarrow> sched_step e s' = None"
  with no_step_all_served [OF r] show gone: "waiting s' t = None" "phase_of s' t = Idle" by blast+
  show "started_in s es t" if "waiting s t \<noteq> None"
    using served_was_started [OF _ _ that gone(1)] e by blast
qed

definition contended_events :: "event list" where
  "contended_events = [Arrive R4 1, Arrive Gate 2]"

theorem calm_progress_witness:
  "\<exists>s s'. sched_run contended_events init_sched = Some s \<and> phase_of s Gate = Asleep
     \<and> sched_run [Finish R4, Wake Gate, Finish Gate] s = Some s' \<and> waiting s' Gate = None
     \<and> phase_of s' Gate = Idle \<and> started_in s [Finish R4, Wake Gate, Finish Gate] Gate"
proof -
  define s where "s = the (sched_run contended_events init_sched)"
  define s' where "s' = the (sched_run [Finish R4, Wake Gate, Finish Gate] s)"
  have r: "sched_run contended_events init_sched = Some s"
    unfolding s_def by (rule not_none_Some) code_simp
  have run: "sched_run [Finish R4, Wake Gate, Finish Gate] s = Some s'"
    unfolding s'_def s_def by (rule not_none_Some) code_simp
  have "run_allowed calm sched_step contended_events init_sched"
    by (simp add: contended_events_def calm_def split: option.splits)
  then have c: "calm_reach s" by (rule reachable_allowed [OF _ r initial])
  have f: "phase_of s Gate = Asleep" "waiting s Gate \<noteq> None" "phase_of s' R4 = Idle" "phase_of s' Gate = Idle"
    unfolding s'_def s_def by code_simp+
  have idle: "phase_of s' v = Idle" for v using f by (cases v) simp_all
  have "sched_step e s' = None" if "own_step e" for e
    using that by (cases e) (simp_all add: own_step_def idle)
  with calm_progress [OF c, of Gate "[Finish R4, Wake Gate, Finish Gate]" s'] run r f show ?thesis
    by (auto simp: own_step_def)
qed

definition stuck :: "sched \<Rightarrow> bool" where
  "stuck s \<longleftrightarrow> \<not> active s \<and> phase_of s R4 = Asleep \<and> phase_of s Gate = Asleep"

definition doomed :: "sched \<Rightarrow> bool" where
  "doomed s \<longleftrightarrow> (\<forall>es s'. sched_run es s = Some s' \<longrightarrow> stuck s')"

lemma stuck_doomed: "stuck s \<Longrightarrow> doomed s"
proof -
  have step: "stuck s \<Longrightarrow> sched_step e s = Some s' \<Longrightarrow> stuck s'" for s e s'
    by (cases e; cases "case e of Put t \<Rightarrow> t | Take t n \<Rightarrow> t | Arrive t n \<Rightarrow> t | Wake t \<Rightarrow> t | Finish t \<Rightarrow> t")
       (auto simp: stuck_def split: if_splits)
  have "stuck s \<Longrightarrow> sched_run es s = Some s' \<Longrightarrow> stuck s'" for es s'
    by (induction es arbitrary: s) (auto split: option.splits intro: step)
  then show "stuck s \<Longrightarrow> doomed s" by (auto simp: doomed_def)
qed

definition deadlock_events :: "event list" where
  "deadlock_events = [Arrive R4 1, Arrive Gate 2, Finish R4, Arrive R4 1, Put R4, Put R4, Wake Gate]"

text \<open>C33: With requests that join between the two evaluations, the scheduler can deadlock: a
  reachable state has both batches asleep and the model free, and no sequence of further steps,
  new requests included, ever wakes one.\<close>

theorem scheduler_deadlock: "\<exists>s. reach s \<and> doomed s \<and> waiting s R4 \<noteq> None \<and> waiting s Gate \<noteq> None"
proof -
  define s where "s = the (sched_run deadlock_events init_sched)"
  have r: "sched_run deadlock_events init_sched = Some s"
    unfolding s_def by (rule not_none_Some) code_simp
  have "stuck s" "waiting s R4 \<noteq> None" "waiting s Gate \<noteq> None"
    unfolding s_def by code_simp+
  with reachable_from_init [OF r] stuck_doomed show ?thesis by blast
qed

end
