(* ===== verification/Batcher.thy ===== *)
theory Batcher
  imports Machine PyJson
begin

text \<open>
  The dynamic batcher of the reward service (\<open>reward_model_server.py\<close>, \<open>DynamicBatcher\<close>): handler
  threads submit single requests and wait for their futures, one worker thread collects requests
  into batches, scores them and answers, and a failure puts the batcher into the fatal state.

  The threads are a step machine. An event is one access to what the threads share: the queue,
  the futures, the fatal error, the stop flag. The clock is not modelled: a timed \<open>get\<close> may time
  out whenever the code would let it, which is every timing. The scorer is a parameter that may
  answer differently at each call (it gets the number of the call). Two places are coarser than the code:
  taking a request and failing its future is one event, and so is answering all futures of a batch.
\<close>

section \<open>State\<close>

record request =
  r_values :: "ustr list"
  r_future :: nat

datatype 'r outcome = Pending | Result 'r | Raised py_exn

datatype phase =
    AtLoop
  | Getting
  | Collecting "request list"
  | Inferring "request list"
  | Draining py_exn "request list"
  | Ended
  | Died

text \<open>\<open>calls\<close> are the \<open>submit\<close> calls that have put their request, each with its values and the
  state of its future; \<open>entering\<close> those that have passed the checks and not put it yet; \<open>aborts\<close>
  the calls of \<open>abort\<close> from other threads that are emptying the queue.\<close>

record 'r batcher =
  max_batch_size :: nat
  max_wait_seconds :: real
  queue :: "request list"
  calls :: "(ustr list \<times> 'r outcome) list"
  entering :: "ustr list list"
  fatal_error :: "py_exn option"
  stopped :: bool
  worker :: phase
  aborts :: "py_exn list"
  inferences :: nat

text \<open>The constructor, and \<open>start\<close>: the worker is before its loop.\<close>

definition fresh_batcher :: "nat \<Rightarrow> real \<Rightarrow> 'r batcher" where
  "fresh_batcher max_batch max_wait =
     \<lparr>max_batch_size = max_batch, max_wait_seconds = max_wait, queue = [], calls = [], entering = [],
      fatal_error = None, stopped = False, worker = AtLoop, aborts = [], inferences = 0\<rparr>"

definition new_batcher :: "int \<Rightarrow> pyfloat \<Rightarrow> 'r batcher py" where
  "new_batcher max_batch max_wait_ms =
     (if max_batch \<le> 0 then Inl ValueError
      else (case max_wait_ms of
          Fin w \<Rightarrow> if w < 0 then Inl ValueError else Inr (fresh_batcher (nat max_batch) (w / 1000))
        | _ \<Rightarrow> Inl ValueError))"

section \<open>Operations\<close>

fun str_values :: "json list \<Rightarrow> ustr list option" where
  "str_values [] = Some []"
| "str_values (JStr v # vs) = map_option ((#) v) (str_values vs)"
| "str_values _ = None"

text \<open>The checks of \<open>submit\<close>.\<close>

definition submit_check :: "json list \<Rightarrow> 'r batcher \<Rightarrow> ustr list py" where
  "submit_check values s =
     (case str_values values of
        None \<Rightarrow> Inl TypeError
      | Some vs \<Rightarrow>
          if vs = [] then Inl TypeError
          else if fatal_error s \<noteq> None then Inl RuntimeError
          else if stopped s then Inl RuntimeError
          else Inr vs)"

definition submit_put :: "nat \<Rightarrow> 'r batcher \<Rightarrow> 'r batcher" where
  "submit_put i s = s\<lparr>entering := take i (entering s) @ drop (Suc i) (entering s),
     queue := queue s @ [\<lparr>r_values = entering s ! i, r_future = length (calls s)\<rparr>],
     calls := calls s @ [(entering s ! i, Pending)]\<rparr>"

text \<open>\<open>Future.set_result\<close> raises on a future that is done; \<open>set_exception\<close> is guarded by
  \<open>done()\<close>.\<close>

fun set_results :: "(nat \<times> 'r) list \<Rightarrow> (ustr list \<times> 'r outcome) list \<Rightarrow> (ustr list \<times> 'r outcome) list option" where
  "set_results [] cs = Some cs"
| "set_results ((i, x) # rest) cs =
     (case snd (cs ! i) of Pending \<Rightarrow> set_results rest (cs[i := (fst (cs ! i), Result x)]) | _ \<Rightarrow> None)"

definition set_exception :: "py_exn \<Rightarrow> nat \<Rightarrow> (ustr list \<times> 'r outcome) list \<Rightarrow> (ustr list \<times> 'r outcome) list" where
  "set_exception e i cs =
     (case snd (cs ! i) of Pending \<Rightarrow> cs[i := (fst (cs ! i), Raised e)] | _ \<Rightarrow> cs)"

text \<open>Scoring a batch: a result that is no list (\<open>None\<close>), one of the wrong length or one that does
  not validate is an error like an exception of the scorer.\<close>

definition infer_batch ::
  "(nat \<Rightarrow> ustr list list \<Rightarrow> 'raw list option py) \<Rightarrow> ('raw \<Rightarrow> 'r py) \<Rightarrow> nat \<Rightarrow> request list \<Rightarrow> 'r list py" where
  "infer_batch score_batch validate n batch =
     bindE (score_batch n (map r_values batch)) (\<lambda>scores.
       case scores of
         None \<Rightarrow> Inl TypeError
       | Some raw \<Rightarrow> if length raw \<noteq> length batch then Inl RuntimeError else mapE validate raw)"

text \<open>The part of \<open>abort\<close> before it empties the queue: the first error stays.\<close>

definition enter_fatal :: "py_exn \<Rightarrow> 'r batcher \<Rightarrow> 'r batcher" where
  "enter_fatal e s =
     s\<lparr>fatal_error := (case fatal_error s of None \<Rightarrow> Some e | Some e' \<Rightarrow> Some e'), stopped := True\<rparr>"

text \<open>One turn of the loop of \<open>abort\<close> that finds a request.\<close>

definition fail_head :: "py_exn \<Rightarrow> 'r batcher \<Rightarrow> 'r batcher option" where
  "fail_head e s =
     (case queue s of [] \<Rightarrow> None
      | r # q \<Rightarrow> Some (s\<lparr>queue := q, calls := set_exception e (r_future r) (calls s)\<rparr>))"

section \<open>Steps\<close>

datatype event =
    Enter "json list"
  | PutRequest nat
  | LoopTest
  | GetFirst
  | GetTimeout
  | Collect
  | CollectEnd
  | Infer
  | DrainOne
  | FailBatch
  | AbortCall py_exn
  | AbortOne nat
  | AbortEnd nat
  | Close

fun batcher_step ::
  "(nat \<Rightarrow> ustr list list \<Rightarrow> 'raw list option py) \<Rightarrow> ('raw \<Rightarrow> 'r py) \<Rightarrow> event \<Rightarrow> 'r batcher \<Rightarrow> 'r batcher option" where
  "batcher_step score validate (Enter values) s =
     (case submit_check values s of Inl _ \<Rightarrow> Some s | Inr vs \<Rightarrow> Some (s\<lparr>entering := entering s @ [vs]\<rparr>))"
| "batcher_step score validate (PutRequest i) s =
     (if i < length (entering s) then Some (submit_put i s) else None)"
| "batcher_step score validate LoopTest s =
     (if worker s = AtLoop then Some (s\<lparr>worker := if stopped s then Ended else Getting\<rparr>) else None)"
| "batcher_step score validate GetFirst s =
     (case (worker s, queue s) of (Getting, r # q) \<Rightarrow> Some (s\<lparr>worker := Collecting [r], queue := q\<rparr>)
      | _ \<Rightarrow> None)"
| "batcher_step score validate GetTimeout s =
     (if worker s = Getting \<and> queue s = [] then Some (s\<lparr>worker := AtLoop\<rparr>) else None)"
| "batcher_step score validate Collect s =
     (case (worker s, queue s) of
        (Collecting batch, r # q) \<Rightarrow>
          if length batch < max_batch_size s
          then Some (s\<lparr>worker := Collecting (batch @ [r]), queue := q\<rparr>) else None
      | _ \<Rightarrow> None)"
| "batcher_step score validate CollectEnd s =
     (case worker s of Collecting batch \<Rightarrow> Some (s\<lparr>worker := Inferring batch\<rparr>) | _ \<Rightarrow> None)"
| "batcher_step score validate Infer s =
     (case worker s of
        Inferring batch \<Rightarrow>
          (case infer_batch score validate (inferences s) batch of
             Inl e \<Rightarrow> Some (enter_fatal e (s\<lparr>inferences := Suc (inferences s), worker := Draining e batch\<rparr>))
           | Inr scores \<Rightarrow>
               (case set_results (zip (map r_future batch) scores) (calls s) of
                  None \<Rightarrow> Some (s\<lparr>inferences := Suc (inferences s), worker := Died\<rparr>)
                | Some cs \<Rightarrow> Some (s\<lparr>inferences := Suc (inferences s), worker := AtLoop, calls := cs\<rparr>)))
      | _ \<Rightarrow> None)"
| "batcher_step score validate DrainOne s =
     (case worker s of Draining e batch \<Rightarrow> fail_head e s | _ \<Rightarrow> None)"
| "batcher_step score validate FailBatch s =
     (case (worker s, queue s) of
        (Draining e batch, []) \<Rightarrow>
          Some (s\<lparr>worker := Ended, calls := fold (set_exception e) (map r_future batch) (calls s)\<rparr>)
      | _ \<Rightarrow> None)"
| "batcher_step score validate (AbortCall e) s = Some (enter_fatal e (s\<lparr>aborts := aborts s @ [e]\<rparr>))"
| "batcher_step score validate (AbortOne i) s =
     (if i < length (aborts s) then fail_head (aborts s ! i) s else None)"
| "batcher_step score validate (AbortEnd i) s =
     (if i < length (aborts s) \<and> queue s = []
      then Some (s\<lparr>aborts := take i (aborts s) @ drop (Suc i) (aborts s)\<rparr>) else None)"
| "batcher_step score validate Close s = Some (s\<lparr>stopped := True\<rparr>)"

section \<open>Who owns a request\<close>

definition holding :: "'r batcher \<Rightarrow> request list" where
  "holding s = (case worker s of Collecting b \<Rightarrow> b | Inferring b \<Rightarrow> b | Draining _ b \<Rightarrow> b | _ \<Rightarrow> [])"

definition owned :: "'r batcher \<Rightarrow> request list" where
  "owned s = holding s @ queue s"

definition unanswered :: "(ustr list \<times> 'r outcome) list \<Rightarrow> nat list" where
  "unanswered cs = filter (\<lambda>i. snd (cs ! i) = Pending) [0..<length cs]"

text \<open>The invariant: the requests the worker holds and then those of the queue are the unanswered
  calls in the order of arrival, with their values; batches respect the bound; an exception was
  only handed out in the fatal state.\<close>

definition requests_ok :: "'r batcher \<Rightarrow> bool" where
  "requests_ok s \<longleftrightarrow> map r_future (owned s) = unanswered (calls s)
     \<and> (\<forall>r \<in> set (owned s). fst (calls s ! r_future r) = r_values r)"

definition some_raised :: "(ustr list \<times> 'r outcome) list \<Rightarrow> bool" where
  "some_raised cs \<longleftrightarrow> (\<exists>e. Raised e \<in> snd ` set cs)"

definition phases_ok :: "'r batcher \<Rightarrow> bool" where
  "phases_ok s \<longleftrightarrow> 0 < max_batch_size s \<and> length (holding s) \<le> max_batch_size s \<and> worker s \<noteq> Died
     \<and> (some_raised (calls s) \<longrightarrow> fatal_error s \<noteq> None)
     \<and> (fatal_error s \<noteq> None \<longrightarrow> stopped s)
     \<and> ((\<exists>e b. worker s = Draining e b) \<or> aborts s \<noteq> [] \<longrightarrow> fatal_error s \<noteq> None)"

definition batcher_ok :: "'r batcher \<Rightarrow> bool" where
  "batcher_ok s \<longleftrightarrow> requests_ok s \<and> phases_ok s"

section \<open>Facts about the futures\<close>

lemma filter_drop_part: "distinct (xs @ gs @ ys) \<Longrightarrow> filter (\<lambda>j. j \<notin> set gs) (xs @ gs @ ys) = xs @ ys"
  by (simp add: filter_empty_conv, intro arg_cong2 [where f = append]) (auto simp: filter_id_conv)

lemma unanswered_iff: "i \<in> set (unanswered cs) \<longleftrightarrow> i < length cs \<and> snd (cs ! i) = Pending"
  by (auto simp: unanswered_def)

lemma unanswered_distinct [simp]: "distinct (unanswered cs)"
  by (simp add: unanswered_def)

lemma unanswered_Nil [simp]: "unanswered [] = []"
  by (simp add: unanswered_def)

lemma unanswered_put: "unanswered (cs @ [(v, Pending)]) = unanswered cs @ [length cs]"
proof -
  have "filter (\<lambda>i. snd ((cs @ [(v, Pending)]) ! i) = Pending) [0..<length cs] = unanswered cs"
    unfolding unanswered_def by (rule filter_cong) (simp_all add: nth_append)
  then show ?thesis by (simp add: unanswered_def)
qed

lemma unanswered_answer:
  "d \<noteq> Pending \<Longrightarrow> unanswered (cs[i := (v, d)]) = filter (\<lambda>j. j \<noteq> i) (unanswered cs)"
  by (auto simp: unanswered_def intro!: filter_cong) (metis nth_list_update_neq nth_list_update_eq snd_conv)

lemma map_fst_update: "map fst (cs[i := (fst (cs ! i), d)]) = map fst cs"
  by (metis fst_conv list_update_id map_update)

lemma set_results_spec:
  assumes "distinct (map fst ps)" and "set (map fst ps) \<subseteq> set (unanswered cs)"
  shows "\<exists>cs'. set_results ps cs = Some cs' \<and> map fst cs' = map fst cs
    \<and> unanswered cs' = filter (\<lambda>j. j \<notin> set (map fst ps)) (unanswered cs)
    \<and> (\<forall>j < length cs. snd (cs' ! j) = (case map_of ps j of Some x \<Rightarrow> Result x | None \<Rightarrow> snd (cs ! j)))"
  using assms
proof (induction ps arbitrary: cs)
  case (Cons p ps)
  obtain i x where p: "p = (i, x)" by (cases p)
  define ds where "ds = cs[i := (fst (cs ! i), Result x)]"
  have i: "i < length cs" "snd (cs ! i) = Pending"
    using Cons.prems(2) by (auto simp: p unanswered_iff)
  have u: "unanswered ds = filter (\<lambda>j. j \<noteq> i) (unanswered cs)"
    by (simp add: ds_def unanswered_answer)
  have "set (map fst ps) \<subseteq> set (unanswered ds)"
    using Cons.prems by (auto simp: u p)
  from Cons.IH [OF _ this] Cons.prems(1) obtain cs' where
    cs': "set_results ps ds = Some cs'" "map fst cs' = map fst ds"
      "unanswered cs' = filter (\<lambda>j. j \<notin> set (map fst ps)) (unanswered ds)"
      "\<forall>j < length ds. snd (cs' ! j) = (case map_of ps j of Some x \<Rightarrow> Result x | None \<Rightarrow> snd (ds ! j))"
    by auto
  have none: "map_of ps i = None" using Cons.prems(1) by (simp add: p map_of_eq_None_iff)
  have "set_results (p # ps) cs = Some cs'" using cs'(1) i by (simp add: p ds_def)
  moreover have "map fst cs' = map fst cs" using cs'(2) by (simp add: ds_def map_fst_update)
  moreover have "unanswered cs' = filter (\<lambda>j. j \<notin> set (map fst (p # ps))) (unanswered cs)"
    using cs'(3) by (auto simp: u p intro!: filter_cong)
  moreover have "\<forall>j < length cs. snd (cs' ! j)
      = (case map_of (p # ps) j of Some x \<Rightarrow> Result x | None \<Rightarrow> snd (cs ! j))"
    using cs'(4) none i by (auto simp: p ds_def nth_list_update split: option.splits)
  ultimately show ?case by blast
qed simp

lemma set_exception_spec:
  assumes "i \<in> set (unanswered cs)"
  shows "set_exception e i cs = cs[i := (fst (cs ! i), Raised e)]"
    and "unanswered (set_exception e i cs) = filter (\<lambda>j. j \<noteq> i) (unanswered cs)"
    and "map fst (set_exception e i cs) = map fst cs"
  using assms by (simp_all add: set_exception_def unanswered_iff unanswered_answer map_fst_update)

lemma fail_all_spec:
  assumes "distinct is" and "set is \<subseteq> set (unanswered cs)"
  shows "unanswered (fold (set_exception e) is cs) = filter (\<lambda>j. j \<notin> set is) (unanswered cs)
    \<and> map fst (fold (set_exception e) is cs) = map fst cs"
  using assms
proof (induction "is" arbitrary: cs)
  case (Cons i "is")
  note s = set_exception_spec [of i cs e]
  have i: "i \<in> set (unanswered cs)" using Cons.prems(2) by simp
  have "set is \<subseteq> set (unanswered (set_exception e i cs))"
    using Cons.prems by (auto simp: s(2) [OF i])
  from Cons.IH [OF _ this] Cons.prems(1) show ?case
    by (auto simp: s(2,3) [OF i] intro!: filter_cong)
qed simp

lemma some_raised_put [simp]: "some_raised (cs @ [(v, Pending)]) = some_raised cs"
  by (simp add: some_raised_def)

lemma some_raised_Nil [simp]: "\<not> some_raised []"
  by (simp add: some_raised_def)

lemma owned_unanswered:
  assumes "requests_ok s" and "r \<in> set (owned s)"
  shows "r_future r \<in> set (unanswered (calls s))" and "fst (calls s ! r_future r) = r_values r"
  using assms by (auto simp: requests_ok_def simp flip: list.set_map) (metis image_eqI list.set_map)

text \<open>Requests that leave the owned ones in any place, with their futures done.\<close>

lemma owned_shrinks:
  assumes ok: "requests_ok s"
    and own: "owned s = before @ gone @ after" "owned s' = before @ after"
    and un: "unanswered (calls s') = filter (\<lambda>j. j \<notin> set (map r_future gone)) (unanswered (calls s))"
    and fst: "map fst (calls s') = map fst (calls s)"
  shows "requests_ok s'"
  unfolding requests_ok_def
proof
  have u: "unanswered (calls s) = map r_future before @ map r_future gone @ map r_future after"
    using ok own(1) by (simp add: requests_ok_def)
  then have "distinct (map r_future before @ map r_future gone @ map r_future after)"
    by (metis unanswered_distinct)
  from filter_drop_part [OF this] show "map r_future (owned s') = unanswered (calls s')"
    by (simp add: un u own)
  show "\<forall>r \<in> set (owned s'). fst (calls s' ! r_future r) = r_values r"
  proof
    fix r assume r: "r \<in> set (owned s')"
    then have "r \<in> set (owned s)" using own by auto
    from owned_unanswered [OF ok this] show "fst (calls s' ! r_future r) = r_values r"
      using fst by (metis unanswered_iff length_map nth_map)
  qed
qed

lemma fail_head_ok:
  assumes ok: "batcher_ok s" and f: "fatal_error s \<noteq> None" and s': "fail_head e s = Some s'"
  shows "batcher_ok s'"
proof -
  obtain r q where q: "queue s = r # q"
    and s'_eq: "s' = s\<lparr>queue := q, calls := set_exception e (r_future r) (calls s)\<rparr>"
    using s' by (auto simp: fail_head_def split: list.splits)
  have req: "requests_ok s" and ph: "phases_ok s" using ok by (simp_all add: batcher_ok_def)
  have own: "owned s = holding s @ [r] @ q" "owned s' = holding s @ q"
    by (simp_all add: owned_def holding_def q s'_eq)
  have "r \<in> set (owned s)" by (simp add: own(1))
  note x = set_exception_spec [OF owned_unanswered(1) [OF req this], of e]
  have "unanswered (calls s') = filter (\<lambda>j. j \<notin> set (map r_future [r])) (unanswered (calls s))"
    "map fst (calls s') = map fst (calls s)"
    by (simp_all add: s'_eq x(2,3))
  from owned_shrinks [OF req own this] ph f show ?thesis
    by (auto simp: batcher_ok_def phases_ok_def s'_eq holding_def)
qed

lemma put_ok: "batcher_ok s \<Longrightarrow> batcher_ok (submit_put i s)"
proof -
  assume ok: "batcher_ok s"
  have req: "requests_ok s" and ph: "phases_ok s" using ok by (simp_all add: batcher_ok_def)
  have own: "owned (submit_put i s) = owned s @ [\<lparr>r_values = entering s ! i, r_future = length (calls s)\<rparr>]"
    by (simp add: owned_def holding_def submit_put_def)
  have c: "calls (submit_put i s) = calls s @ [(entering s ! i, Pending)]" by (simp add: submit_put_def)
  have "fst (calls (submit_put i s) ! r_future r) = r_values r" if "r \<in> set (owned s)" for r
    using owned_unanswered [OF req that] by (simp add: c nth_append unanswered_iff)
  then have "requests_ok (submit_put i s)"
    using req by (auto simp: requests_ok_def own c unanswered_put)
  moreover have "phases_ok (submit_put i s)"
    using ph by (auto simp: phases_ok_def submit_put_def holding_def)
  ultimately show ?thesis by (simp add: batcher_ok_def)
qed


lemma infer_batch_length: "infer_batch score validate n batch = Inr xs \<Longrightarrow> length xs = length batch"
  using mapE_length by (fastforce simp: infer_batch_def split: option.splits if_splits)

text \<open>Answering the batch: every future is still pending, so \<open>set_result\<close> does not raise.\<close>

lemma holding_requests:
  assumes "requests_ok s" and "worker s = Inferring b \<or> worker s = Draining e b"
  shows "owned s = [] @ b @ queue s" and "distinct (map r_future b)"
    and "set (map r_future b) \<subseteq> set (unanswered (calls s))"
proof -
  show own: "owned s = [] @ b @ queue s" using assms(2) by (auto simp: owned_def holding_def)
  then have "map r_future b @ map r_future (queue s) = unanswered (calls s)"
    using assms(1) by (simp add: requests_ok_def)
  then show "distinct (map r_future b)" "set (map r_future b) \<subseteq> set (unanswered (calls s))"
    by (metis distinct_append unanswered_distinct, metis set_append Un_upper1)
qed

lemma answer_batch:
  assumes "requests_ok s" and "worker s = Inferring b" and "length xs = length b"
  obtains cs where "set_results (zip (map r_future b) xs) (calls s) = Some cs"
    and "map fst cs = map fst (calls s)"
    and "unanswered cs = filter (\<lambda>j. j \<notin> set (map r_future b)) (unanswered (calls s))"
    and "\<And>j. j < length (calls s) \<Longrightarrow> snd (cs ! j)
      = (case map_of (zip (map r_future b) xs) j of Some x \<Rightarrow> Result x | None \<Rightarrow> snd (calls s ! j))"
proof -
  have z: "map fst (zip (map r_future b) xs) = map r_future b" using assms(3) by simp
  note h = holding_requests(2,3) [OF assms(1), of b] assms(2)
  from set_results_spec [of "zip (map r_future b) xs" "calls s"] that h show ?thesis
    unfolding z by blast
qed

lemma infer_ok:
  assumes ok: "batcher_ok s" and st: "batcher_step score validate Infer s = Some s'"
  shows "batcher_ok s'"
proof -
  have req: "requests_ok s" and ph: "phases_ok s" using ok by (simp_all add: batcher_ok_def)
  obtain b where w: "worker s = Inferring b" using st by (auto split: phase.splits)
  show ?thesis
  proof (cases "infer_batch score validate (inferences s) b")
    case (Inl e)
    then have s': "s' = enter_fatal e (s\<lparr>inferences := Suc (inferences s), worker := Draining e b\<rparr>)"
      using st w by simp
    have "owned s' = owned s" "calls s' = calls s"
      using w by (simp_all add: s' owned_def holding_def enter_fatal_def)
    then have "requests_ok s'" using req by (simp add: requests_ok_def)
    then show ?thesis using ph w
      by (auto simp: batcher_ok_def phases_ok_def s' holding_def enter_fatal_def split: option.splits)
  next
    case (Inr xs)
    obtain cs where cs: "set_results (zip (map r_future b) xs) (calls s) = Some cs"
      "map fst cs = map fst (calls s)"
      "unanswered cs = filter (\<lambda>j. j \<notin> set (map r_future b)) (unanswered (calls s))"
      "\<And>j. j < length (calls s) \<Longrightarrow> snd (cs ! j)
        = (case map_of (zip (map r_future b) xs) j of Some x \<Rightarrow> Result x | None \<Rightarrow> snd (calls s ! j))"
      using answer_batch [OF req w infer_batch_length [OF Inr]] by blast
    have s': "s' = s\<lparr>inferences := Suc (inferences s), worker := AtLoop, calls := cs\<rparr>"
      using st w Inr cs(1) by simp
    have own: "owned s = [] @ b @ queue s" "owned s' = [] @ queue s"
      using w by (simp_all add: s' owned_def holding_def)
    have r: "requests_ok s'"
      by (rule owned_shrinks [OF req own]) (simp_all add: s' cs(2,3))
    have "some_raised (calls s)" if "some_raised cs"
    proof -
      from that obtain p e where p: "p \<in> set cs" "snd p = Raised e" by (auto simp: some_raised_def)
      then obtain j where j: "j < length cs" "snd (cs ! j) = Raised e" by (auto simp: in_set_conv_nth)
      have l: "length cs = length (calls s)" using cs(2) by (metis length_map)
      have "snd (calls s ! j) = Raised e"
        using cs(4) [of j] j l by (auto split: option.splits)
      then show ?thesis using j(1) l unfolding some_raised_def by (metis image_eqI nth_mem)
    qed
    then have "phases_ok s'" using ph by (auto simp: phases_ok_def s' holding_def)
    with r show ?thesis by (simp add: batcher_ok_def)
  qed
qed

lemma fail_batch_ok:
  assumes ok: "batcher_ok s" and w: "worker s = Draining e b" and q: "queue s = []"
  shows "batcher_ok (s\<lparr>worker := Ended, calls := fold (set_exception e) (map r_future b) (calls s)\<rparr>)"
    (is "batcher_ok ?s'")
proof -
  have req: "requests_ok s" and ph: "phases_ok s" using ok by (simp_all add: batcher_ok_def)
  note h = holding_requests [OF req, of b e]
  have own: "owned s = [] @ b @ []" "owned ?s' = [] @ []"
    using w q by (simp_all add: owned_def holding_def)
  from fail_all_spec [OF h(2,3)] w have "requests_ok ?s'"
    by (intro owned_shrinks [OF req own]) simp_all
  then show ?thesis using ph w by (auto simp: batcher_ok_def phases_ok_def holding_def)
qed


lemma enter_fatal_fields [simp]:
  "fatal_error (enter_fatal e s) = None \<longleftrightarrow> False" "stopped (enter_fatal e s)"
  "worker (enter_fatal e s) = worker s" "queue (enter_fatal e s) = queue s"
  "calls (enter_fatal e s) = calls s" "aborts (enter_fatal e s) = aborts s"
  "entering (enter_fatal e s) = entering s" "max_batch_size (enter_fatal e s) = max_batch_size s"
  by (simp_all add: enter_fatal_def split: option.splits)

lemmas owned_phase = batcher_ok_def requests_ok_def phases_ok_def owned_def holding_def

lemma batcher_step_ok:
  assumes ok: "batcher_ok s" and st: "batcher_step score validate e s = Some s'"
  shows "batcher_ok s'"
proof (cases e)
  case (PutRequest i)
  then show ?thesis using st put_ok [OF ok] by (auto split: if_splits)
next
  case Infer
  then show ?thesis using st infer_ok [OF ok] by simp
next
  case DrainOne
  then obtain x b where w: "worker s = Draining x b" "fail_head x s = Some s'"
    using st by (auto split: phase.splits)
  have "fatal_error s \<noteq> None" using ok w(1) by (auto simp: batcher_ok_def phases_ok_def)
  from fail_head_ok [OF ok this w(2)] show ?thesis .
next
  case (AbortOne i)
  then have i: "aborts s \<noteq> []" "fail_head (aborts s ! i) s = Some s'" using st by (auto split: if_splits)
  have "fatal_error s \<noteq> None" using ok i(1) by (auto simp: batcher_ok_def phases_ok_def)
  from fail_head_ok [OF ok this i(2)] show ?thesis .
next
  case FailBatch
  then show ?thesis using st fail_batch_ok [OF ok] by (auto split: phase.splits list.splits)
next
  case (AbortEnd i)
  then have s': "s' = s\<lparr>aborts := take i (aborts s) @ drop (Suc i) (aborts s)\<rparr>" and i: "aborts s \<noteq> []"
    using st by (auto split: if_splits)
  show ?thesis using ok i
    by (auto simp: s' batcher_ok_def requests_ok_def phases_ok_def owned_def holding_def)
next
  case (Enter vs)
  then have "s' = s \<or> (\<exists>x. s' = s\<lparr>entering := entering s @ [x]\<rparr>)" using st by (auto split: sum.splits)
  then show ?thesis
  proof (elim disjE exE)
    fix x assume s': "s' = s\<lparr>entering := entering s @ [x]\<rparr>"
    show ?thesis using ok unfolding s' by (simp add: owned_phase)
  qed (use ok in simp)
next
  case (AbortCall x)
  then have s': "s' = enter_fatal x (s\<lparr>aborts := aborts s @ [x]\<rparr>)" using st by simp
  have "holding s' = holding s" "owned s' = owned s" by (simp_all add: s' holding_def owned_def)
  note h = this [unfolded s']
  show ?thesis using ok by (simp add: s' batcher_ok_def requests_ok_def phases_ok_def h)
next
  case GetFirst
  then obtain r q where "worker s = Getting" "queue s = r # q"
      "s' = s\<lparr>worker := Collecting [r], queue := q\<rparr>"
    using st by (auto split: phase.splits list.splits)
  then show ?thesis using ok by (simp add: owned_phase)
next
  case Collect
  then obtain b r q where "worker s = Collecting b" "queue s = r # q" "length b < max_batch_size s"
      "s' = s\<lparr>worker := Collecting (b @ [r]), queue := q\<rparr>"
    using st by (auto split: phase.splits list.splits if_splits)
  then show ?thesis using ok by (auto simp: owned_phase)
next
  case CollectEnd
  then obtain b where "worker s = Collecting b" "s' = s\<lparr>worker := Inferring b\<rparr>"
    using st by (auto split: phase.splits)
  then show ?thesis using ok by (simp add: owned_phase)
next
  case LoopTest
  then have "worker s = AtLoop" "s' = s\<lparr>worker := if stopped s then Ended else Getting\<rparr>"
    using st by (auto split: if_splits)
  then show ?thesis using ok by (simp add: owned_phase)
next
  case GetTimeout
  then have "worker s = Getting" "s' = s\<lparr>worker := AtLoop\<rparr>" using st by (auto split: if_splits)
  then show ?thesis using ok by (simp add: owned_phase)
next
  case Close
  then have "s' = s\<lparr>stopped := True\<rparr>" using st by simp
  then show ?thesis using ok by (simp add: owned_phase)
qed

lemma new_batcher_fresh:
  assumes "new_batcher n w = Inr s"
  obtains m v where "s = fresh_batcher (Suc m) v"
proof -
  obtain v where "s = fresh_batcher (nat n) v" "0 < n"
    using assms by (auto simp: new_batcher_def split: pyfloat.splits if_splits)
  then show ?thesis using that [of "nat n - 1" v] by simp
qed

lemma fresh_batcher_ok: "batcher_ok (fresh_batcher (Suc n) w)"
  by (simp add: fresh_batcher_def owned_phase)

interpretation batcher_machine: machine_invariant any_event "batcher_step score validate"
  "fresh_batcher (Suc n) w" batcher_ok
  by unfold_locales (rule fresh_batcher_ok, rule batcher_step_ok)

lemma reachable_batcher_ok:
  assumes "new_batcher n w = Inr s0" and "reachable any_event (batcher_step score validate) s0 s"
  shows "batcher_ok s"
  using assms batcher_machine.reachable_inv new_batcher_fresh by metis

section \<open>What a call is answered with\<close>

definition results_good :: "(ustr list \<Rightarrow> 'r \<Rightarrow> bool) \<Rightarrow> (ustr list \<times> 'r outcome) list \<Rightarrow> bool" where
  "results_good good cs \<longleftrightarrow> (\<forall>i < length cs. \<forall>x. snd (cs ! i) = Result x \<longrightarrow> good (fst (cs ! i)) x)"

lemma nth_set_exception:
  "fst (set_exception e i cs ! j) = fst (cs ! j)"
  "snd (set_exception e i cs ! j) = Result x \<Longrightarrow> snd (cs ! j) = Result x"
  "length (set_exception e i cs) = length cs"
  by (cases "i < length cs"; cases "i = j";
      auto simp: set_exception_def list_update_beyond split: outcome.splits)+

lemma results_good_exception: "results_good good cs \<Longrightarrow> results_good good (set_exception e i cs)"
  unfolding results_good_def nth_set_exception(1,3) by (blast dest: nth_set_exception(2))

lemma results_good_exceptions: "results_good good cs \<Longrightarrow> results_good good (fold (set_exception e) is cs)"
  by (induction "is" arbitrary: cs) (simp_all add: results_good_exception)

lemma results_good_put: "results_good good cs \<Longrightarrow> results_good good (cs @ [(v, Pending)])"
  by (auto simp: results_good_def nth_append less_Suc_eq)

text \<open>The contract between a batcher and the scorer and validator it was made with: a batch that is
  scored and validated has a good result for each request, in order.\<close>

locale batch_contract =
  fixes score :: "nat \<Rightarrow> ustr list list \<Rightarrow> 'raw list option py"
    and validate :: "'raw \<Rightarrow> 'r py"
    and good :: "ustr list \<Rightarrow> 'r \<Rightarrow> bool"
  assumes scored: "infer_batch score validate n batch = Inr xs \<Longrightarrow> list_all2 good (map r_values batch) xs"
begin

lemma infer_good:
  assumes req: "requests_ok s" and w: "worker s = Inferring b" and g: "results_good good (calls s)"
    and x: "infer_batch score validate (inferences s) b = Inr xs"
    and cs: "set_results (zip (map r_future b) xs) (calls s) = Some cs"
  shows "results_good good cs"
proof -
  note len = infer_batch_length [OF x]
  obtain cs' where "set_results (zip (map r_future b) xs) (calls s) = Some cs'"
    and f: "map fst cs' = map fst (calls s)"
    and n: "\<And>j. j < length (calls s) \<Longrightarrow> snd (cs' ! j)
      = (case map_of (zip (map r_future b) xs) j of Some x \<Rightarrow> Result x | None \<Rightarrow> snd (calls s ! j))"
    using answer_batch [OF req w len] by blast
  then have cs': "cs' = cs" using cs by simp
  have l: "length cs = length (calls s)" using f by (metis cs' length_map)
  show ?thesis
    unfolding results_good_def
  proof (intro allI impI)
    fix j y assume j: "j < length cs" and y: "snd (cs ! j) = Result y"
    have fj: "fst (cs ! j) = fst (calls s ! j)" using f j l by (metis cs' nth_map)
    show "good (fst (cs ! j)) y"
    proof (cases "map_of (zip (map r_future b) xs) j")
      case None
      then show ?thesis using n [of j] y j l g by (simp add: cs' fj results_good_def)
    next
      case (Some z)
      then have "z = y" using n [of j] y j l by (simp add: cs')
      obtain k where k: "k < length b" "r_future (b ! k) = j" "xs ! k = z"
        using map_of_SomeD [OF Some] by (auto simp: set_zip)
      have "b ! k \<in> set (owned s)" using k(1) w by (simp add: owned_def holding_def)
      then have "fst (calls s ! j) = r_values (b ! k)" using owned_unanswered(2) [OF req] k(2) by metis
      moreover have "good (r_values (b ! k)) (xs ! k)"
        using list_all2_nthD [OF scored [OF x], of k] k(1) by simp
      ultimately show ?thesis using k(3) \<open>z = y\<close> by (simp add: fj)
    qed
  qed
qed

lemma step_good:
  assumes ok: "batcher_ok s" and g: "results_good good (calls s)"
    and st: "batcher_step score validate e s = Some s'"
  shows "results_good good (calls s')"
proof (cases e)
  case Infer
  have req: "requests_ok s" using ok by (simp add: batcher_ok_def)
  from Infer st obtain b where w: "worker s = Inferring b" by (auto split: phase.splits)
  with Infer st infer_good [OF req w g] g show ?thesis
    by (auto split: sum.splits option.splits)
next
  case FailBatch
  then show ?thesis using st g by (auto split: phase.splits list.splits intro: results_good_exceptions)
next
  case DrainOne
  then show ?thesis using st g
    by (auto simp: fail_head_def split: phase.splits list.splits intro: results_good_exception)
qed (use st g in \<open>auto simp: fail_head_def submit_put_def results_good_put
      split: phase.splits list.splits if_splits sum.splits intro: results_good_exception\<close>)

lemma reachable_good:
  assumes "new_batcher n w = Inr s0" and "reachable any_event (batcher_step score validate) s0 s"
  shows "results_good good (calls s)"
  using assms(2)
proof (induction rule: reachable.induct)
  case initial
  show ?case using assms(1) by (auto simp: new_batcher_def fresh_batcher_def results_good_def
        split: pyfloat.splits if_splits)
next
  case (move s e s')
  show ?case by (rule step_good [OF reachable_batcher_ok [OF assms(1) move(1)] move.IH move(3)])
qed

end

text \<open>Every batcher: a result has passed the validation.\<close>

lemma infer_batch_raw:
  assumes "infer_batch score validate n batch = Inr xs"
  obtains raw where "score n (map r_values batch) = Inr (Some raw)" "mapE validate raw = Inr xs"
    "length raw = length batch"
  using assms by (auto simp: infer_batch_def split: option.splits if_splits)

interpretation validated: batch_contract score validate "\<lambda>_ x. \<exists>raw. validate raw = Inr x"
proof unfold_locales
  fix n batch xs assume "infer_batch score validate n batch = Inr xs"
  then obtain raw where r: "mapE validate raw = Inr xs" "length raw = length batch" by (rule infer_batch_raw)
  then show "list_all2 (\<lambda>_ x. \<exists>raw. validate raw = Inr x) (map r_values batch) xs"
    using mapE_length [OF r(1)] mapE_nth [OF r(1)] by (auto simp: list_all2_conv_all_nth)
qed

section \<open>Prompt submits\<close>

text \<open>A run in which a call that has passed the checks of \<open>submit\<close> puts its request before anything
  else happens.\<close>

definition prompt :: "event \<Rightarrow> 'r batcher \<Rightarrow> bool" where
  "prompt e s \<longleftrightarrow> entering s = [] \<or> e = PutRequest 0"

definition drained :: "'r batcher \<Rightarrow> bool" where
  "drained s \<longleftrightarrow> length (entering s) \<le> 1 \<and>
     (fatal_error s \<noteq> None \<longrightarrow>
        entering s = [] \<and> (queue s = [] \<or> aborts s \<noteq> [] \<or> (\<exists>e b. worker s = Draining e b)))"

lemma fail_head_fields:
  assumes "fail_head e s = Some s'"
  shows "entering s' = entering s" "aborts s' = aborts s" "worker s' = worker s"
    "fatal_error s' = fatal_error s"
  using assms by (auto simp: fail_head_def split: list.splits)

lemma submit_check_fatal: "submit_check vs s = Inr x \<Longrightarrow> fatal_error s = None \<and> \<not> stopped s"
  by (auto simp: submit_check_def split: option.splits if_splits)

lemma prompt_drained:
  assumes ok: "batcher_ok s" and d: "drained s" and p: "prompt e s"
    and st: "batcher_step score validate e s = Some s'"
  shows "drained s'"
proof (cases "entering s = []")
  case False
  then have e: "e = PutRequest 0" "length (entering s) = 1" "fatal_error s = None"
    using p d by (auto simp: prompt_def drained_def le_Suc_eq)
  then have "s' = submit_put 0 s" using st by simp
  then show ?thesis using e by (simp add: drained_def submit_put_def)
next
  case True
  then show ?thesis
  proof (cases e)
    case (Enter vs)
    then have "s' = s \<or> (\<exists>x. s' = s\<lparr>entering := [x]\<rparr> \<and> fatal_error s = None)"
      using st True by (auto split: sum.splits dest: submit_check_fatal)
    then show ?thesis using d True by (auto simp: drained_def)
  next
    case Infer
    then show ?thesis using st d True
      by (auto simp: drained_def split: phase.splits sum.splits option.splits)
  next
    case DrainOne
    then show ?thesis using st d fail_head_fields [of _ s s'] by (auto simp: drained_def split: phase.splits)
  next
    case (AbortOne i)
    then show ?thesis using st d fail_head_fields [of _ s s']
      by (auto simp: drained_def split: if_splits)
  qed (use st d True in \<open>auto simp: drained_def split: phase.splits list.splits if_splits\<close>)
qed

interpretation prompt_machine: machine_invariant_on any_event "batcher_step score validate"
  "fresh_batcher (Suc n) w" batcher_ok prompt drained
  by unfold_locales (simp, simp add: drained_def fresh_batcher_def, rule prompt_drained)

section \<open>The worker alone\<close>

definition worker_event :: "event \<Rightarrow> bool" where
  "worker_event e \<longleftrightarrow> e \<in> {LoopTest, GetFirst, CollectEnd, Infer}"

definition healthy :: "(nat \<Rightarrow> ustr list list \<Rightarrow> 'raw list option py) \<Rightarrow> ('raw \<Rightarrow> 'r py) \<Rightarrow> bool" where
  "healthy score validate \<longleftrightarrow> (\<forall>n batch. \<exists>xs. infer_batch score validate n batch = Inr xs)"

text \<open>One turn of the worker's loop answers the request at the head of the queue.\<close>

lemma answered_not_owned:
  assumes "batcher_ok s" and "i < length (calls s)" and "i \<notin> set (map r_future (owned s))"
  shows "snd (calls s ! i) \<noteq> Pending"
  using assms by (auto simp: batcher_ok_def requests_ok_def unanswered_iff)

lemma worker_infers:
  assumes ok: "batcher_ok s" and w: "worker s = Inferring b" and h: "healthy score validate"
    and ns: "\<not> stopped s"
  obtains s' where "batcher_step score validate Infer s = Some s'" and "worker s' = AtLoop"
    and "queue s' = queue s" and "length (calls s') = length (calls s)" and "\<not> stopped s'"
proof -
  obtain xs where x: "infer_batch score validate (inferences s) b = Inr xs"
    using h by (auto simp: healthy_def)
  have "requests_ok s" using ok by (simp add: batcher_ok_def)
  from answer_batch [OF this w infer_batch_length [OF x]] obtain cs where
    c: "set_results (zip (map r_future b) xs) (calls s) = Some cs" "map fst cs = map fst (calls s)"
    by blast
  have "length cs = length (calls s)" using c(2) by (metis length_map)
  then show ?thesis using that w x c(1) ns by simp
qed

text \<open>From the top of its loop the worker reaches any request in the queue, by itself.\<close>

lemma worker_reaches:
  assumes "batcher_ok s" and "worker s = AtLoop" and "\<not> stopped s" and "healthy score validate"
    and "i < length (calls s)"
  shows "\<exists>es s'. list_all worker_event es \<and> run (batcher_step score validate) es s = Some s'
    \<and> snd (calls s' ! i) \<noteq> Pending \<and> length es \<le> 4 * length (queue s)"
  using assms(1-3,5)
proof (induction "queue s" arbitrary: s)
  case Nil
  then have "owned s = []" by (simp add: owned_def holding_def)
  then have "snd (calls s ! i) \<noteq> Pending" using answered_not_owned [OF Nil(2) Nil(5)] by simp
  then have "list_all worker_event [] \<and> run (batcher_step score validate) [] s = Some s
      \<and> snd (calls s ! i) \<noteq> Pending \<and> length [] \<le> 4 * length (queue s)" by simp
  then show ?case by blast
next
  case (Cons r q)
  define s1 where "s1 = s\<lparr>worker := Inferring [r], queue := q\<rparr>"
  have st: "run (batcher_step score validate) [LoopTest, GetFirst, CollectEnd] s = Some s1"
    using Cons(2,4,5) by (simp add: s1_def flip: Cons.hyps(2))
  have ok1: "batcher_ok s1"
    by (rule run_preserves [where P = batcher_ok, OF st Cons(3)]) (rule batcher_step_ok)
  have w1: "worker s1 = Inferring [r]" "\<not> stopped s1" using Cons(5) by (simp_all add: s1_def)
  obtain s2 where s2: "batcher_step score validate Infer s1 = Some s2" "worker s2 = AtLoop"
    "queue s2 = q" "length (calls s2) = length (calls s)" "\<not> stopped s2"
    using worker_infers [OF ok1 w1(1) assms(4) w1(2)] by (auto simp: s1_def)
  have "\<exists>es s'. list_all worker_event es \<and> run (batcher_step score validate) es s2 = Some s'
      \<and> snd (calls s' ! i) \<noteq> Pending \<and> length es \<le> 4 * length (queue s2)"
    by (rule Cons(1)) (use s2 Cons(6) batcher_step_ok [OF ok1 s2(1)] in auto)
  then obtain es s' where es: "list_all worker_event es" "run (batcher_step score validate) es s2 = Some s'"
    "snd (calls s' ! i) \<noteq> Pending" "length es \<le> 4 * length q" by (auto simp: s2(3))
  have "run (batcher_step score validate) ([LoopTest, GetFirst, CollectEnd] @ Infer # es) s = Some s'"
    unfolding run_append st by (simp add: s2(1) es(2) del: batcher_step.simps)
  moreover have "list_all worker_event ([LoopTest, GetFirst, CollectEnd] @ Infer # es)"
    using es(1) by (simp add: worker_event_def)
  moreover have "length ([LoopTest, GetFirst, CollectEnd] @ Infer # es) \<le> 4 * length (queue s)"
    using es(4) by (simp flip: Cons.hyps(2))
  ultimately show ?case using es(3) by blast
qed

section \<open>Properties\<close>

text \<open>C28: No request is lost, answered twice or overtaken: in every reachable state the requests in the
  worker's hands followed by those in the queue are exactly the unanswered calls, in the order of
  arrival and each with its call's values; a batch never exceeds the bound, the worker never
  dies of a finished future, and a call fails only once the batcher is in the fatal state.\<close>

theorem batcher_no_loss:
  assumes "new_batcher n w = Inr s0" and "reachable any_event (batcher_step score validate) s0 s"
  shows "map r_future (owned s) = unanswered (calls s)
    \<and> map r_values (owned s) = map (\<lambda>i. fst (calls s ! i)) (unanswered (calls s))
    \<and> length (holding s) \<le> max_batch_size s \<and> worker s \<noteq> Died
    \<and> (fatal_error s = None \<longrightarrow> \<not> some_raised (calls s))"
proof -
  have ok: "requests_ok s" "phases_ok s"
    using reachable_batcher_ok [OF assms] by (simp_all add: batcher_ok_def)
  have "\<forall>r \<in> set (owned s). fst (calls s ! r_future r) = r_values r"
    using ok(1) by (simp add: requests_ok_def)
  then have "map r_values (owned s) = map (\<lambda>i. fst (calls s ! i)) (map r_future (owned s))" by simp
  moreover have "map r_future (owned s) = unanswered (calls s)"
    using ok(1) by (simp add: requests_ok_def)
  ultimately show ?thesis using ok(2) by (auto simp: phases_ok_def)
qed

definition echo :: "nat \<Rightarrow> ustr list list \<Rightarrow> ustr list option py" where
  "echo n vs = Inr (Some (map concat vs))"

definition failing :: "nat \<Rightarrow> ustr list list \<Rightarrow> ustr list option py" where
  "failing n vs = Inl RuntimeError"

definition accept :: "ustr \<Rightarrow> ustr py" where
  "accept x = Inr x"

definition enter_call :: "string \<Rightarrow> event" where
  "enter_call v = Enter [JStr (u v)]"

definition batch_events :: "event list" where
  "batch_events = [enter_call ''a'', PutRequest 0, enter_call ''b'', PutRequest 0, LoopTest, GetFirst,
     enter_call ''c'', PutRequest 0, Collect, CollectEnd]"

definition two_batcher :: "ustr batcher" where
  "two_batcher = fresh_batcher 2 0"

lemma two_batcher_new: "new_batcher 2 (Fin 0) = Inr two_batcher"
  by (simp add: new_batcher_def two_batcher_def)

theorem batcher_no_loss_witness:
  "\<exists>s. run (batcher_step echo accept) batch_events two_batcher = Some s
     \<and> worker s = Inferring [\<lparr>r_values = [u ''a''], r_future = 0\<rparr>, \<lparr>r_values = [u ''b''], r_future = 1\<rparr>]
     \<and> map r_future (owned s) = unanswered (calls s)"
proof -
  define s where "s = the (run (batcher_step echo accept) batch_events two_batcher)"
  have r: "run (batcher_step echo accept) batch_events two_batcher = Some s"
    unfolding s_def by (rule not_none_Some) code_simp
  have "worker s = Inferring [\<lparr>r_values = [u ''a''], r_future = 0\<rparr>, \<lparr>r_values = [u ''b''], r_future = 1\<rparr>]"
    unfolding s_def by code_simp
  with batcher_no_loss [OF two_batcher_new reachable_from_init [OF r]] r show ?thesis by blast
qed

text \<open>C29: Every caller gets the answer to its own values: with a scorer that scores the items of a batch
  each by itself, a call that returns has the validated score of what it submitted, however the
  requests were batched.\<close>

theorem batcher_own_answer:
  assumes "\<And>k vs raw. score k vs = Inr (Some raw) \<Longrightarrow> raw = map f vs"
    and "new_batcher n w = Inr s0" and "reachable any_event (batcher_step score validate) s0 s"
    and "i < length (calls s)" and "calls s ! i = (vs, Result x)"
  shows "validate (f vs) = Inr x"
proof -
  have "batch_contract score validate (\<lambda>vs x. validate (f vs) = Inr x)"
  proof unfold_locales
    fix k batch xs assume x: "infer_batch score validate k batch = Inr xs"
    obtain raw where r: "score k (map r_values batch) = Inr (Some raw)" "mapE validate raw = Inr xs"
      "length raw = length batch" using infer_batch_raw [OF x] by blast
    show "list_all2 (\<lambda>vs x. validate (f vs) = Inr x) (map r_values batch) xs"
      using mapE_nth [OF r(2)] r(3) mapE_length [OF r(2)] assms(1) [OF r(1)]
      by (auto simp: list_all2_conv_all_nth)
  qed
  from batch_contract.reachable_good [OF this assms(2,3)] assms(4,5) show ?thesis
    by (auto simp: results_good_def)
qed

theorem batcher_own_answer_witness:
  "\<exists>s. run (batcher_step echo accept) (batch_events @ [Infer]) two_batcher = Some s
     \<and> calls s ! 1 = ([u ''b''], Result (u ''b'')) \<and> accept (concat [u ''b'']) = Inr (u ''b'')"
proof -
  define s where "s = the (run (batcher_step echo accept) (batch_events @ [Infer]) two_batcher)"
  have r: "run (batcher_step echo accept) (batch_events @ [Infer]) two_batcher = Some s"
    unfolding s_def by (rule not_none_Some) code_simp
  have c: "calls s ! 1 = ([u ''b''], Result (u ''b''))" "1 < length (calls s)"
    unfolding s_def by code_simp+
  have "accept (concat [u ''b'']) = Inr (u ''b'')"
    by (rule batcher_own_answer [OF _ two_batcher_new reachable_from_init [OF r] c(2,1)])
       (simp add: echo_def)
  with r c show ?thesis by blast
qed

text \<open>Progress: while the batcher runs and its scorer is healthy, the worker by itself, with no help
  and no timing assumption, gets to answer any call that is in the queue when it is at the top of its loop,
  in at most four steps per request of the queue.\<close>

theorem batcher_progress:
  assumes "new_batcher n w = Inr s0" and "reachable any_event (batcher_step score validate) s0 s"
    and "worker s = AtLoop" and "\<not> stopped s" and "healthy score validate" and "i < length (calls s)"
  shows "\<exists>es s'. list_all worker_event es \<and> run (batcher_step score validate) es s = Some s'
    \<and> snd (calls s' ! i) \<noteq> Pending \<and> length es \<le> 4 * length (queue s)"
  by (rule worker_reaches [OF reachable_batcher_ok [OF assms(1,2)] assms(3-6)])

definition waiting_events :: "event list" where
  "waiting_events = [enter_call ''a'', enter_call ''b'', PutRequest 1, PutRequest 0]"

theorem batcher_progress_witness:
  "\<exists>s es s'. run (batcher_step echo accept) waiting_events two_batcher = Some s
     \<and> calls s ! 1 = ([u ''a''], Pending)
     \<and> run (batcher_step echo accept) es s = Some s' \<and> snd (calls s' ! 1) \<noteq> Pending"
proof -
  define s where "s = the (run (batcher_step echo accept) waiting_events two_batcher)"
  have r: "run (batcher_step echo accept) waiting_events two_batcher = Some s"
    unfolding s_def by (rule not_none_Some) code_simp
  have f: "worker s = AtLoop" "\<not> stopped s" "1 < length (calls s)" "calls s ! 1 = ([u ''a''], Pending)"
    unfolding s_def by code_simp+
  have m: "\<exists>ys. mapE accept xs = Inr ys" for xs
    by (induction xs) (auto simp: accept_def)
  have "healthy echo accept"
    by (simp add: healthy_def infer_batch_def echo_def m)
  from batcher_progress [OF two_batcher_new reachable_from_init [OF r] f(1,2) this f(3)] r f(4)
  show ?thesis by blast
qed

text \<open>C30: A failure reaches every waiting call, if submits are prompt (nothing happens between a
  call's checks and its put): once the batcher is in the fatal state, the worker has ended and
  no \<open>abort\<close> is running, no call is unanswered.\<close>

theorem batcher_failure_reaches_all:
  assumes "new_batcher n w = Inr s0" and "reachable prompt (batcher_step score validate) s0 s"
    and "fatal_error s \<noteq> None" and "worker s = Ended" and "aborts s = []"
  shows "unanswered (calls s) = []"
proof -
  obtain m v where "s0 = fresh_batcher (Suc m) v" using new_batcher_fresh [OF assms(1)] by blast
  with assms(2) have ok: "batcher_ok s \<and> drained s" using prompt_machine.reachable_both by simp
  then have "owned s = []" using assms(3-5) by (auto simp: drained_def owned_def holding_def)
  then show ?thesis using ok by (auto simp: batcher_ok_def requests_ok_def)
qed

definition failure_events :: "event list" where
  "failure_events = [enter_call ''a'', PutRequest 0, enter_call ''b'', PutRequest 0, LoopTest, GetFirst, CollectEnd,
     Infer, DrainOne, FailBatch]"

theorem batcher_failure_reaches_all_witness:
  "\<exists>s. run (batcher_step failing accept) failure_events two_batcher = Some s
     \<and> map snd (calls s) = [Raised RuntimeError, Raised RuntimeError] \<and> unanswered (calls s) = []"
proof -
  define s where "s = the (run (batcher_step failing accept) failure_events two_batcher)"
  have r: "run (batcher_step failing accept) failure_events two_batcher = Some s"
    unfolding s_def by (rule not_none_Some) code_simp
  have "run_allowed prompt (batcher_step failing accept) failure_events two_batcher" by code_simp
  from reachable_allowed [OF this r initial]
  have p: "reachable prompt (batcher_step failing accept) two_batcher s" .
  have f: "\<not> Option.is_none (fatal_error s)" "worker s = Ended" "aborts s = []"
    "map snd (calls s) = [Raised RuntimeError, Raised RuntimeError]"
    unfolding s_def by code_simp+
  have "fatal_error s \<noteq> None" using f(1) by (simp add: Option.is_none_def)
  from batcher_failure_reaches_all [OF two_batcher_new p this f(2,3)] have "unanswered (calls s) = []" .
  with r f(4) show ?thesis by (intro exI [of _ s] conjI)
qed

definition abandoned :: "(event \<Rightarrow> 'r batcher \<Rightarrow> 'r batcher option) \<Rightarrow> nat \<Rightarrow> 'r batcher \<Rightarrow> bool" where
  "abandoned step i s \<longleftrightarrow>
     (\<forall>es s'. (\<forall>x. AbortCall x \<notin> set es) \<longrightarrow> run step es s = Some s' \<longrightarrow> snd (calls s' ! i) = Pending)"

lemma ended_abandoned:
  assumes "worker s = Ended" and "aborts s = []" and "i < length (calls s)" and "snd (calls s ! i) = Pending"
  shows "abandoned (batcher_step score validate) i s"
  unfolding abandoned_def
proof (intro allI impI)
  fix es s' assume es: "\<forall>x. AbortCall x \<notin> set es" and r: "run (batcher_step score validate) es s = Some s'"
  let ?P = "\<lambda>s. worker s = Ended \<and> aborts s = [] \<and> i < length (calls s) \<and> snd (calls s ! i) = Pending"
  have "?P s'"
  proof (rule run_preserves [where P = ?P, OF r])
    show "?P s" using assms by simp
    fix e s s' assume "e \<in> set es" and p: "?P s" and st: "batcher_step score validate e s = Some s'"
    then have "e \<noteq> AbortCall x" for x using es by blast
    with p st show "?P s'"
      by (cases e) (auto simp: submit_put_def nth_append split: sum.splits if_splits)
  qed
  then show "snd (calls s' ! i) = Pending" by simp
qed

definition late_events :: "event list" where
  "late_events = [enter_call ''a'', PutRequest 0, enter_call ''b'', LoopTest, GetFirst, CollectEnd, Infer, FailBatch,
     PutRequest 0]"

definition close_events :: "event list" where
  "close_events = [enter_call ''a'', PutRequest 0, Close, LoopTest]"

text \<open>The failure does not reach a call that passed the checks before it and puts its request after
  the queue was emptied, and \<open>close\<close> leaves what is queued: both calls then wait for ever, whatever
  the threads do, unless some thread calls \<open>abort\<close> again.\<close>

theorem batcher_abandons:
  "(\<exists>s. run (batcher_step failing accept) late_events two_batcher = Some s
      \<and> fatal_error s = Some RuntimeError \<and> calls s ! 1 = ([u ''b''], Pending)
      \<and> abandoned (batcher_step failing accept) 1 s)
   \<and> (\<exists>s. run (batcher_step echo accept) close_events two_batcher = Some s
      \<and> calls s ! 0 = ([u ''a''], Pending) \<and> abandoned (batcher_step echo accept) 0 s)"
proof
  define s where "s = the (run (batcher_step failing accept) late_events two_batcher)"
  have r: "run (batcher_step failing accept) late_events two_batcher = Some s"
    unfolding s_def by (rule not_none_Some) code_simp
  have f: "worker s = Ended" "aborts s = []" "1 < length (calls s)" "calls s ! 1 = ([u ''b''], Pending)"
    "fatal_error s = Some RuntimeError"
    unfolding s_def by code_simp+
  from ended_abandoned [OF f(1-3)] f r
  show "\<exists>s. run (batcher_step failing accept) late_events two_batcher = Some s
      \<and> fatal_error s = Some RuntimeError \<and> calls s ! 1 = ([u ''b''], Pending)
      \<and> abandoned (batcher_step failing accept) 1 s" by auto
next
  define s where "s = the (run (batcher_step echo accept) close_events two_batcher)"
  have r: "run (batcher_step echo accept) close_events two_batcher = Some s"
    unfolding s_def by (rule not_none_Some) code_simp
  have f: "worker s = Ended" "aborts s = []" "0 < length (calls s)" "calls s ! 0 = ([u ''a''], Pending)"
    unfolding s_def by code_simp+
  from ended_abandoned [OF f(1-3)] f r
  show "\<exists>s. run (batcher_step echo accept) close_events two_batcher = Some s
      \<and> calls s ! 0 = ([u ''a''], Pending) \<and> abandoned (batcher_step echo accept) 0 s" by auto
qed

end
