(* ===== verification/RewardServer.thy ===== *)
theory RewardServer
  imports Batcher RewardClient RewardModel Scheduler
begin

text \<open>
  The HTTP side of \<^verbatim>\<open>reward_model_server.py\<close>: validation of what the model returns, the request
  handlers, the start and the end of the service, and the choice of the backend
  (\<^verbatim>\<open>reward_model_transformers.py\<close>, \<open>create_reward_model\<close>). Texts of exceptions are an argument
  (\<open>exn_text\<close>), as is \<open>repr\<close> of a float (\<open>fr\<close>). A handler's call of \<open>submit\<close> is an argument:
  what it can return is the subject of \<open>Batcher\<close>.
\<close>

section \<open>Validation of results\<close>

definition validate_unit_score :: "json \<Rightarrow> pyfloat py" where
  "validate_unit_score value =
     bindE (float_of value) (\<lambda>score. if in_unit score then Inr score else Inl ValueError)"

text \<open>The attributes of a support result, where it has them.\<close>

record support_value =
  v_supported_option :: "json option"
  v_unclear_probability :: "json option"

definition validate_reasoning_gate_result :: "(pyfloat \<Rightarrow> ustr) \<Rightarrow> support_value \<Rightarrow> (ustr \<times> pyfloat) py" where
  "validate_reasoning_gate_result fr value =
     (let supported_option = py_upper (py_str fr
            (case v_supported_option value of Some j \<Rightarrow> j | None \<Rightarrow> JStr []))
      in if supported_option \<notin> {[65], [66], [85]} then Inl ValueError
         else bindE (validate_unit_score
                (case v_unclear_probability value of Some j \<Rightarrow> j | None \<Rightarrow> JNull))
                (\<lambda>p. Inr (supported_option, p)))"

section \<open>Responses\<close>

text \<open>\<open>json.dumps(payload, ensure_ascii=False)\<close>.\<close>

fun dumps_json :: "(pyfloat \<Rightarrow> ustr) \<Rightarrow> json \<Rightarrow> ustr" where
  "dumps_json fr JNull = lit_null"
| "dumps_json fr (JBool b) = (if b then lit_true else lit_false)"
| "dumps_json fr (JInt i) = str_of_int i"
| "dumps_json fr (JFloat f) =
     (case f of Fin _ \<Rightarrow> fr f | NaN \<Rightarrow> lit_NaN | PInf \<Rightarrow> lit_Infinity | NInf \<Rightarrow> 45 # lit_Infinity)"
| "dumps_json fr (JStr s) = dumps_str s"
| "dumps_json fr (JArr vs) = [91] @ py_join [44, 32] (map (dumps_json fr) vs) @ [93]"
| "dumps_json fr (JObj kvs) =
     [123] @ py_join [44, 32] (map (\<lambda>(k, v). dumps_str k @ [58, 32] @ dumps_json fr v) kvs) @ [125]"

text \<open>A response is its status and its body; \<open>Content-Length\<close> is the length of the body.\<close>

definition send_json :: "(pyfloat \<Rightarrow> ustr) \<Rightarrow> int \<Rightarrow> (ustr \<times> json) list \<Rightarrow> (int \<times> int list) py" where
  "send_json fr status payload =
     bindE (utf8_encode (dumps_json fr (JObj payload))) (\<lambda>body. Inr (status, body))"

definition key_error :: ustr where "key_error = u ''error''"
definition key_status :: ustr where "key_status = u ''status''"
definition key_backend :: ustr where "key_backend = u ''backend''"
definition path_health :: ustr where "path_health = u ''/health''"

section \<open>Server state\<close>

record server_state =
  r4_batcher :: "(ustr list \<Rightarrow> pyfloat py) option"
  reasoning_gate_batcher :: "(ustr list \<Rightarrow> (ustr \<times> pyfloat) py) option"
  s_backend :: "ustr option"
  ready :: bool
  s_fatal_error :: "py_exn option"

definition new_server_state :: server_state where
  "new_server_state = \<lparr>r4_batcher = None, reasoning_gate_batcher = None, s_backend = None, ready = False,
     s_fatal_error = None\<rparr>"

section \<open>Handlers\<close>

definition do_GET ::
  "(py_exn \<Rightarrow> ustr) \<Rightarrow> (pyfloat \<Rightarrow> ustr) \<Rightarrow> server_state \<Rightarrow> ustr \<Rightarrow> (int \<times> int list) py" where
  "do_GET exn_text fr st path =
     (if path \<noteq> path_health then send_json fr 404 [(key_error, JStr (u ''not found''))]
      else (case s_fatal_error st of
          Some e \<Rightarrow> send_json fr 500 [(key_status, JStr (u ''fatal'')), (key_error, JStr (exn_text e))]
        | None \<Rightarrow>
            if ready st
            then send_json fr 200 [(key_status, JStr (u ''ok'')),
                   (key_backend, case s_backend st of Some b \<Rightarrow> JStr b | None \<Rightarrow> JNull)]
            else send_json fr 503 [(key_status, JStr (u ''loading''))]))"

definition MAX_REQUEST_BYTES :: int where
  "MAX_REQUEST_BYTES = 1024 * 1024"

text \<open>\<open>int(text)\<close>.\<close>

definition int_of_str :: "ustr \<Rightarrow> int option" where
  "int_of_str s =
     (let (neg, r) = strip_sign (map ascii_digit (py_strip s)); ds = filter (\<lambda>c. c \<noteq> 95) r
      in if r = [] \<or> \<not> underscores_ok False r \<or> \<not> list_all is_digit ds \<or> max_int_digits < int (length ds)
         then None
         else Some (if neg then - digits_val 0 ds else digits_val 0 ds))"

definition read_payload :: "ustr option \<Rightarrow> int list \<Rightarrow> dict py" where
  "read_payload raw_length rfile =
     (case raw_length of None \<Rightarrow> Inl ValueError
      | Some raw \<Rightarrow>
        (case int_of_str raw of None \<Rightarrow> Inl ValueError
         | Some content_length \<Rightarrow>
           if content_length < 0 \<or> MAX_REQUEST_BYTES < content_length then Inl ValueError
           else (case utf8_text (take (nat content_length) rfile) of
               None \<Rightarrow> Inl UnicodeDecodeError
             | Some body \<Rightarrow> bindE (json_loads body) (\<lambda>payload.
                 case payload of JObj d \<Rightarrow> Inr d | _ \<Rightarrow> Inl ValueError))))"

text \<open>The part of \<open>do_POST\<close> under its \<open>try\<close>.\<close>

definition post_action ::
  "(pyfloat \<Rightarrow> ustr) \<Rightarrow> server_state \<Rightarrow> ustr \<Rightarrow> ustr option \<Rightarrow> int list \<Rightarrow> (int \<times> int list) py" where
  "post_action fr st path raw_length rfile =
     bindE (read_payload raw_length rfile) (\<lambda>payload.
       if s_fatal_error st \<noteq> None then Inl RuntimeError
       else if \<not> ready st
       then send_json fr 503 [(key_error, JStr (u ''shared reward model is still loading''))]
       else if path = path_score then
         (case (dict_get payload key_pred_summary, dict_get payload key_gt_summary) of
            (JStr pred_summary, JStr gt_summary) \<Rightarrow>
              (case r4_batcher st of None \<Rightarrow> Inl RuntimeError
               | Some submit \<Rightarrow> bindE (submit [pred_summary, gt_summary]) (\<lambda>score.
                   send_json fr 200 [(key_score, JFloat score)]))
          | _ \<Rightarrow> Inl ValueError)
       else
         (case (dict_get payload key_sentence, dict_get payload key_option_a, dict_get payload key_option_b) of
            (JStr sentence, JStr option_a, JStr option_b) \<Rightarrow>
              (case reasoning_gate_batcher st of None \<Rightarrow> Inl RuntimeError
               | Some submit \<Rightarrow> bindE (submit [sentence, option_a, option_b]) (\<lambda>(supported_option, p).
                   send_json fr 200 [(key_supported_option, JStr supported_option),
                     (key_unclear_probability, JFloat p)]))
          | _ \<Rightarrow> Inl ValueError))"

definition do_POST ::
  "(py_exn \<Rightarrow> ustr) \<Rightarrow> (pyfloat \<Rightarrow> ustr) \<Rightarrow> server_state \<Rightarrow> ustr \<Rightarrow> ustr option \<Rightarrow> int list
     \<Rightarrow> (int \<times> int list) py" where
  "do_POST exn_text fr st path raw_length rfile =
     (if path \<notin> {path_score, path_classify} then send_json fr 404 [(key_error, JStr (u ''not found''))]
      else (case post_action fr st path raw_length rfile of
          Inr response \<Rightarrow> Inr response
        | Inl e \<Rightarrow> send_json fr (if is_ValueError e then 400 else 500) [(key_error, JStr (exn_text e))]))"

section \<open>The choice of the backend\<close>

text \<open>\<open>create_reward_model\<close>: the outcome of \<open>import vllm\<close>, whether the environment sets
  \<open>R4_MODEL_LOCAL_PATH\<close> and whether the configured path exists are arguments.\<close>

datatype model_choice =
    VllmModel "ustr option"
  | TransformersModel ustr ustr

definition vllm_missing :: "py_exn \<Rightarrow> bool" where
  "vllm_missing e \<longleftrightarrow> e \<in> {ImportError, OSError, FileNotFoundError, PermissionError, ConnectionError, TimeoutError,
     URLError, HTTPError, RuntimeError, RecursionError}"

definition create_reward_model ::
  "bool \<Rightarrow> unit py \<Rightarrow> bool \<Rightarrow> (ustr \<Rightarrow> bool) \<Rightarrow> ustr option \<Rightarrow> ustr
     \<Rightarrow> ustr option \<Rightarrow> ustr \<Rightarrow> ustr \<Rightarrow> (model_choice \<times> ustr) py" where
  "create_reward_model win32 import_vllm local_path_set exists MODEL_LOCAL_PATH MODEL_NAME model_path backend device =
     (if backend \<notin> {u ''auto'', u ''vllm'', u ''transformers''} then Inl ValueError
      else bindE (if backend \<noteq> u ''auto'' then Inr backend
                  else if win32 then Inr (u ''transformers'')
                  else (case import_vllm of Inr _ \<Rightarrow> Inr (u ''vllm'')
                        | Inl e \<Rightarrow> if vllm_missing e then Inr (u ''transformers'') else Inl e)) (\<lambda>selected.
        if selected = u ''vllm''
        then Inr (VllmModel (case model_path of Some p \<Rightarrow> Some p | None \<Rightarrow> MODEL_LOCAL_PATH), selected)
        else (let truthy = (\<lambda>p. case p of Some s \<Rightarrow> s \<noteq> [] | None \<Rightarrow> False);
                  configured =
                    (if model_path = None \<and> truthy MODEL_LOCAL_PATH \<and> \<not> local_path_set
                        \<and> \<not> exists (the MODEL_LOCAL_PATH) then None else MODEL_LOCAL_PATH);
                  resolved = (if truthy model_path then the model_path
                              else if truthy configured then the configured else MODEL_NAME)
              in Inr (TransformersModel resolved device, selected))))"

section \<open>The life of the service\<close>

definition main_checks :: "int \<Rightarrow> int \<Rightarrow> pyfloat \<Rightarrow> unit py" where
  "main_checks port max_batch max_wait_ms =
     (if \<not> (1 \<le> port \<and> port \<le> 65535) then Inl ValueError
      else if max_batch \<le> 0 then Inl ValueError
      else (case max_wait_ms of Fin w \<Rightarrow> if w < 0 then Inl ValueError else Inr () | _ \<Rightarrow> Inl ValueError))"

text \<open>\<open>run_server\<close>: where the main thread is, the flags of the service state, and what has been
  aborted, closed and released. Batchers exist from \<open>Serving\<close> on.\<close>

datatype stage = Creating | LoadingModel | Starting | Serving | Closing | Finished

record service =
  stage :: stage
  l_ready :: bool
  l_fatal :: "py_exn option"
  shutdown_started :: bool
  accepting :: bool
  delayed_shutdowns :: nat
  batchers_started :: bool
  batchers_aborted :: bool
  batchers_closed :: bool
  model_open :: bool
  exit_code :: "nat option"

definition new_service :: service where
  "new_service = \<lparr>stage = Creating, l_ready = False, l_fatal = None, shutdown_started = False, accepting = True,
     delayed_shutdowns = 0, batchers_started = False, batchers_aborted = False, batchers_closed = False,
     model_open = False, exit_code = None\<rparr>"

definition shutdown :: "service \<Rightarrow> service" where
  "shutdown l = (if shutdown_started l then l else l\<lparr>shutdown_started := True, accepting := False\<rparr>)"

definition fatal_shutdown :: "py_exn \<Rightarrow> service \<Rightarrow> service" where
  "fatal_shutdown e l = l\<lparr>l_fatal := Some e, l_ready := False,
     batchers_aborted := batchers_aborted l \<or> batchers_started l,
     delayed_shutdowns := Suc (delayed_shutdowns l)\<rparr>"

text \<open>The \<open>except BaseException\<close> of \<open>run_server\<close>.\<close>

definition service_failed :: "py_exn \<Rightarrow> service \<Rightarrow> service" where
  "service_failed e l = shutdown (l\<lparr>l_fatal := Some e, l_ready := False, stage := Closing\<rparr>)"

text \<open>The \<open>finally\<close> and the exit code.\<close>

definition close_all :: "service \<Rightarrow> service" where
  "close_all l = l\<lparr>stage := Finished, batchers_closed := batchers_started l, model_open := False,
     exit_code := Some (if l_fatal l \<noteq> None then 1 else 0)\<rparr>"

datatype life_event =
    CreateModel "unit py"
  | LoadModel "unit py"
  | StartBatchers
  | BatchFatal py_exn
  | DelayedShutdown
  | Signal
  | JoinReturns
  | JoinInterrupted py_exn
  | CloseAll

fun life_step :: "life_event \<Rightarrow> service \<Rightarrow> service option" where
  "life_step (CreateModel r) l =
     (if stage l \<noteq> Creating then None
      else case r of Inl e \<Rightarrow> Some (service_failed e l)
        | Inr _ \<Rightarrow> Some (l\<lparr>stage := LoadingModel, model_open := True\<rparr>))"
| "life_step (LoadModel r) l =
     (if stage l \<noteq> LoadingModel then None
      else case r of Inl e \<Rightarrow> Some (service_failed e l) | Inr _ \<Rightarrow> Some (l\<lparr>stage := Starting\<rparr>))"
| "life_step StartBatchers l =
     (if stage l \<noteq> Starting then None
      else Some (l\<lparr>stage := Serving, batchers_started := True, l_ready := True\<rparr>))"
| "life_step (BatchFatal e) l =
     (if batchers_started l \<and> stage l \<noteq> Finished then Some (fatal_shutdown e l) else None)"
| "life_step DelayedShutdown l =
     (if 0 < delayed_shutdowns l
      then Some (shutdown (l\<lparr>delayed_shutdowns := delayed_shutdowns l - 1\<rparr>)) else None)"
| "life_step Signal l = Some (shutdown l)"
| "life_step JoinReturns l =
     (if stage l = Serving \<and> \<not> accepting l then Some (l\<lparr>stage := Closing\<rparr>) else None)"
| "life_step (JoinInterrupted e) l =
     (if stage l = Serving then Some (service_failed e l) else None)"
| "life_step CloseAll l = (if stage l = Closing then Some (close_all l) else None)"

definition life_ok :: "service \<Rightarrow> bool" where
  "life_ok l \<longleftrightarrow>
     (l_ready l \<longrightarrow> l_fatal l = None \<and> batchers_started l)
     \<and> (accepting l \<longleftrightarrow> \<not> shutdown_started l)
     \<and> (stage l \<in> {Closing, Finished} \<longrightarrow> shutdown_started l)
     \<and> (batchers_started l \<longrightarrow> stage l \<in> {Serving, Closing, Finished})
     \<and> (l_fatal l \<noteq> None \<and> stage l = Serving \<longrightarrow> 0 < delayed_shutdowns l \<or> shutdown_started l)
     \<and> (l_fatal l \<noteq> None \<longrightarrow> stage l \<in> {Serving, Closing, Finished})
     \<and> (model_open l \<longrightarrow> stage l \<noteq> Finished)
     \<and> (stage l = Finished \<longleftrightarrow> exit_code l \<noteq> None)
     \<and> (stage l = Finished \<longrightarrow> batchers_closed l = batchers_started l
          \<and> exit_code l = Some (if l_fatal l \<noteq> None then 1 else 0))"

section \<open>Facts\<close>

lemma shutdown_fields [simp]:
  "stage (shutdown l) = stage l" "l_ready (shutdown l) = l_ready l" "l_fatal (shutdown l) = l_fatal l"
  "shutdown_started (shutdown l)" "batchers_started (shutdown l) = batchers_started l"
  "batchers_closed (shutdown l) = batchers_closed l" "model_open (shutdown l) = model_open l"
  "exit_code (shutdown l) = exit_code l" "delayed_shutdowns (shutdown l) = delayed_shutdowns l"
  "batchers_aborted (shutdown l) = batchers_aborted l"
  by (simp_all add: shutdown_def)

lemma shutdown_accepting: "(accepting l \<longleftrightarrow> \<not> shutdown_started l) \<Longrightarrow> \<not> accepting (shutdown l)"
  by (simp add: shutdown_def)

lemma life_step_ok: "life_ok l \<Longrightarrow> life_step e l = Some l' \<Longrightarrow> life_ok l'"
proof (cases e)
  case (CreateModel r)
  then show "life_ok l \<Longrightarrow> life_step e l = Some l' \<Longrightarrow> life_ok l'"
    by (cases r) (auto simp: life_ok_def service_failed_def shutdown_accepting split: if_splits)
next
  case (LoadModel r)
  then show "life_ok l \<Longrightarrow> life_step e l = Some l' \<Longrightarrow> life_ok l'"
    by (cases r) (auto simp: life_ok_def service_failed_def shutdown_accepting split: if_splits)
next
  case StartBatchers
  then show "life_ok l \<Longrightarrow> life_step e l = Some l' \<Longrightarrow> life_ok l'"
    by (auto simp: life_ok_def service_failed_def fatal_shutdown_def close_all_def shutdown_accepting split: if_splits)
next
  case (BatchFatal x)
  show "life_ok l'" if ok: "life_ok l" and st: "life_step e l = Some l'"
  proof -
    have l': "l' = fatal_shutdown x l" and b: "batchers_started l" "stage l \<noteq> Finished"
      using st BatchFatal by (simp_all split: if_splits)
    have "stage l = Serving \<or> stage l = Closing" using ok b by (simp add: life_ok_def)
    then show ?thesis using ok b by (elim disjE) (simp_all add: l' life_ok_def fatal_shutdown_def)
  qed
next
  case DelayedShutdown
  show "life_ok l'" if ok: "life_ok l" and st: "life_step e l = Some l'"
  proof -
    have l': "l' = shutdown (l\<lparr>delayed_shutdowns := delayed_shutdowns l - 1\<rparr>)" using st DelayedShutdown by (simp_all split: if_splits)
    show ?thesis using ok by (cases "stage l") (auto simp: l' life_ok_def shutdown_accepting)
  qed
next
  case Signal
  show "life_ok l'" if ok: "life_ok l" and st: "life_step e l = Some l'"
  proof -
    have l': "l' = shutdown l" using st Signal by (simp_all split: if_splits)
    show ?thesis using ok by (cases "stage l") (auto simp: l' life_ok_def shutdown_accepting)
  qed
next
  case JoinReturns
  show "life_ok l'" if ok: "life_ok l" and st: "life_step e l = Some l'"
  proof -
    have l': "l' = l\<lparr>stage := Closing\<rparr>" and b: "stage l = Serving" "\<not> accepting l" using st JoinReturns by (simp_all split: if_splits)
    show ?thesis using ok b by (simp add: l' life_ok_def)
  qed
next
  case (JoinInterrupted x)
  show "life_ok l'" if ok: "life_ok l" and st: "life_step e l = Some l'"
  proof -
    have l': "l' = service_failed x l" and b: "stage l = Serving" using st JoinInterrupted by (simp_all split: if_splits)
    show ?thesis using ok b by (simp add: l' life_ok_def service_failed_def shutdown_accepting)
  qed
next
  case CloseAll
  show "life_ok l'" if ok: "life_ok l" and st: "life_step e l = Some l'"
  proof -
    have l': "l' = close_all l" and b: "stage l = Closing" using st CloseAll by (simp_all split: if_splits)
    show ?thesis using ok b by (simp add: l' life_ok_def close_all_def)
  qed
qed

interpretation life: machine_invariant any_event life_step new_service life_ok
  by unfold_locales (simp add: life_ok_def new_service_def, rule life_step_ok)

section \<open>The length header\<close>

lemma nat_digits_digits: "list_all is_digit (nat_digits n)"
proof (induction n rule: nat_digits.induct)
  case (1 n)
  have "is_digit (48 + int k)" if "k < 10" for k using that by (simp add: is_digit_def)
  with 1 show ?case by (subst nat_digits.simps) simp
qed

lemma nat_digits_Nil [simp]: "nat_digits n \<noteq> []"
  by (subst nat_digits.simps) simp

lemma nat_digits_length: "n < 10 ^ k \<Longrightarrow> 0 < k \<Longrightarrow> length (nat_digits n) \<le> k"
proof (induction k arbitrary: n)
  case (Suc k)
  show ?case
  proof (cases "n < 10")
    case False
    then have "0 < k" "n div 10 < 10 ^ k" using Suc.prems(1) by (cases k; auto)+
    from Suc.IH [OF this(2,1)] False show ?thesis by (subst nat_digits.simps) simp
  qed (subst nat_digits.simps, simp)
qed simp

lemma digits_val_snoc: "digits_val a (ds @ [d]) = digits_val a ds * 10 + (d - 48)"
  by (induction ds arbitrary: a) auto

lemma digits_val_nat: "digits_val 0 (nat_digits n) = int n"
proof (induction n rule: nat_digits.induct)
  case (1 n)
  have "int (n div 10) * 10 + int (n mod 10) = int n"
    by (metis div_mult_mod_eq of_nat_add of_nat_mult of_nat_numeral)
  with 1 show ?case by (subst nat_digits.simps) (auto simp: digits_val_snoc)
qed

lemma underscores_digits: "list_all is_digit s \<Longrightarrow> underscores_ok b s"
  by (induction s arbitrary: b) (auto simp: is_digit_def)

lemma filter_digits: "list_all is_digit s \<Longrightarrow> filter (\<lambda>c. c \<noteq> 95) s = s"
  by (induction s) (auto simp: is_digit_def)

lemma ascii_digits: "list_all is_digit s \<Longrightarrow> map ascii_digit s = s"
  by (induction s) (auto simp: is_digit_def ascii_digit_def dec_val_def)

lemma strip_digits: "list_all is_digit s \<Longrightarrow> py_strip s = s"
proof -
  assume d: "list_all is_digit s"
  have sp: "\<not> is_space c" if "is_digit c" for c using that by (auto simp: is_digit_def is_space_def)
  have "dropWhile is_space t = t" if "list_all is_digit t" for t
    using that sp by (cases t) auto
  moreover have "list_all is_digit (rev s)" using d by (simp add: list_all_iff)
  ultimately show ?thesis using d by (simp add: py_strip_def lstrip_def rstrip_def)
qed

lemma strip_sign_digits: "strip_sign (nat_digits n) = (False, nat_digits n)"
  using nat_digits_digits [of n] by (cases "nat_digits n") (auto simp: strip_sign_def is_digit_def)

lemma int_of_str_nat:
  assumes "n < 10 ^ 4300"
  shows "int_of_str (str_of_int (int n)) = Some (int n)"
proof -
  note d = nat_digits_digits [of n]
  have "length (nat_digits n) \<le> 4300" by (rule nat_digits_length [OF assms]) simp
  then show ?thesis
    by (simp add: int_of_str_def str_of_int_def strip_sign_digits strip_digits [OF d] ascii_digits [OF d] underscores_digits [OF d]
        filter_digits [OF d] d digits_val_nat max_int_digits_def)
qed


section \<open>The service under the client\<close>

text \<open>What \<open>repr\<close> of a float gives is read back as that float (documented: the shortest digits that
  round trip), begins with a digit for a number of the unit interval and is ASCII.\<close>

definition float_text :: "(pyfloat \<Rightarrow> ustr) \<Rightarrow> real \<Rightarrow> bool" where
  "float_text fr x \<longleftrightarrow> fr (Fin x) \<noteq> [] \<and> is_digit (hd (fr (Fin x)))
     \<and> list_all (\<lambda>c. 0 \<le> c \<and> c < 128) (fr (Fin x))
     \<and> scan_number (fr (Fin x) @ [125]) = Inr (JFloat (Fin x), [125])"

lemma scan_once_float:
  assumes "float_text fr x"
  shows "scan_once (Suc n) (fr (Fin x) @ [125]) = Inr (JFloat (Fin x), [125])"
proof -
  obtain d r where d: "fr (Fin x) = d # r" "is_digit d"
    using assms by (cases "fr (Fin x)") (auto simp: float_text_def)
  with assms show ?thesis
    by (auto simp: float_text_def is_digit_def starts_with_def lit_null_def lit_true_def lit_false_def
        lit_NaN_def lit_Infinity_def)
qed

lemma score_reply_loads:
  assumes "float_text fr x"
  shows "json_loads (dumps_json fr (JObj [(key_score, JFloat (Fin x))])) = Inr (JObj [(key_score, JFloat (Fin x))])"
proof -
  obtain d r where d: "fr (Fin x) = d # r" "is_digit d"
    using assms by (cases "fr (Fin x)") (auto simp: float_text_def)
  have ws: "skip_ws (fr (Fin x) @ [125]) = fr (Fin x) @ [125]" "skip_ws (32 # t) = skip_ws t"
    "skip_ws (58 # t) = 58 # t" "skip_ws [125] = [125]" "skip_ws [] = []" "skip_ws (34 # t) = 34 # t"
    "skip_ws (123 # t) = 123 # t" for t
    using d by (auto simp: skip_ws_def json_ws_def is_digit_def)
  have k: "dumps_str key_score = 34 # u ''score'' @ [34]" "scan_string (u ''score'' @ 34 # t) = Some (key_score, t)" for t
  proof -
    show e: "dumps_str key_score = 34 # u ''score'' @ [34]" by code_simp
    have "list_all (\<lambda>c. 0 \<le> c) key_score" by code_simp
    from scan_string_dumps [OF this, of t] e show "scan_string (u ''score'' @ 34 # t) = Some (key_score, t)"
      by (simp add: dumps_str_def)
  qed
  have m: "scan_members (Suc (Suc n)) [] (34 # u ''score'' @ 34 # 58 # 32 # fr (Fin x) @ [125])
      = Inr (JObj [(key_score, JFloat (Fin x))], [])" for n
    using scan_once_float [OF assms, of n]
    by (subst scan_members.simps(2)) (simp add: k(2) ws del: scan_once.simps scan_members.simps)
  have t: "dumps_json fr (JObj [(key_score, JFloat (Fin x))])
      = 123 # 34 # u ''score'' @ 34 # 58 # 32 # fr (Fin x) @ [125]"
    by (simp add: k(1))
  have "scan_once (Suc (Suc (Suc n))) (123 # 34 # u ''score'' @ 34 # 58 # 32 # fr (Fin x) @ [125])
      = Inr (JObj [(key_score, JFloat (Fin x))], [])" for n
    using m [of n] by (simp add: ws del: scan_members.simps)
  from this [of "2 * length (dumps_json fr (JObj [(key_score, JFloat (Fin x))])) - 1"]
  show ?thesis unfolding t
    by (simp add: json_loads_def starts_with_def ws del: scan_once.simps scan_members.simps)
qed

lemma score_reply_ascii:
  assumes "float_text fr x"
  shows "list_all (\<lambda>c. 0 \<le> c \<and> c < 128) (dumps_json fr (JObj [(key_score, JFloat (Fin x))]))"
proof -
  have "list_all (\<lambda>c. 0 \<le> c \<and> c < 128) (dumps_str key_score)" by code_simp
  then show ?thesis using assms by (simp add: float_text_def)
qed

lemma score_reply_bytes:
  assumes "float_text fr x"
  shows "send_json fr 200 [(key_score, JFloat (Fin x))]
    = Inr (200, dumps_json fr (JObj [(key_score, JFloat (Fin x))]))"
  using utf8_ascii [OF score_reply_ascii [OF assms]] by (simp add: send_json_def utf8_encode_def)

lemma ascii_unicode: "list_all (\<lambda>c. 0 \<le> c \<and> c < 128) s \<Longrightarrow> unicode s"
  by (induction s) auto

lemma score_reply_text:
  assumes "float_text fr x"
  shows "utf8_text (dumps_json fr (JObj [(key_score, JFloat (Fin x))]))
    = Some (dumps_json fr (JObj [(key_score, JFloat (Fin x))]))"
proof (rule utf8.round)
  show "unicode (dumps_json fr (JObj [(key_score, JFloat (Fin x))]))"
    using score_reply_ascii [OF assms] by (rule ascii_unicode)
qed (rule utf8_ascii [OF score_reply_ascii [OF assms]])

text \<open>\<open>urlopen\<close> on the service: the path is what follows the base URL, \<open>Content-Length\<close> the length of
  the body, any status but a success one an \<open>HTTPError\<close>.\<close>

definition serve :: "(py_exn \<Rightarrow> ustr) \<Rightarrow> (pyfloat \<Rightarrow> ustr) \<Rightarrow> server_state \<Rightarrow> ustr \<Rightarrow> network" where
  "serve exn_text fr st base url payload timeout =
     (case do_POST exn_text fr st (drop (length base) url) (Some (str_of_int (int (length payload)))) payload of
        Inl _ \<Rightarrow> UrlFailure
      | Inr (status, body) \<Rightarrow>
          if 200 \<le> status \<and> status < 300 then Response status body else HttpErrorStatus status)"

lemma score_request_read:
  assumes "sendable [(key_pred_summary, p), (key_gt_summary, g)]"
    and "utf8_encode (json_dumps [(key_pred_summary, p), (key_gt_summary, g)]) = Inr payload"
    and "int (length payload) \<le> MAX_REQUEST_BYTES"
  shows "read_payload (Some (str_of_int (int (length payload)))) payload
    = Inr [(key_pred_summary, JStr p), (key_gt_summary, JStr g)]"
proof -
  have b: "utf8_bytes (json_dumps [(key_pred_summary, p), (key_gt_summary, g)]) = Some payload"
    using assms(2) by (auto simp: utf8_encode_def split: option.splits)
  have "utf8_text payload = Some (json_dumps [(key_pred_summary, p), (key_gt_summary, g)])"
    by (rule utf8.round [OF unicode_json_dumps [OF assms(1)] b])
  moreover have "json_loads (json_dumps [(key_pred_summary, p), (key_gt_summary, g)])
      = Inr (JObj [(key_pred_summary, JStr p), (key_gt_summary, JStr g)])"
    using json_dumps_loads [of "[(key_pred_summary, p), (key_gt_summary, g)]"] sendable_valid [OF assms(1)]
    by simp
  moreover have "int_of_str (str_of_int (int (length payload))) = Some (int (length payload))"
  proof (rule int_of_str_nat)
    have "length payload \<le> 1024 * 1024" using assms(3) by (simp add: MAX_REQUEST_BYTES_def)
    also have "\<dots> < (10::nat) ^ 7" by simp
    also have "\<dots> \<le> 10 ^ 4300" by (rule power_increasing) simp_all
    finally show "length payload < 10 ^ 4300" .
  qed
  ultimately show ?thesis using assms(3) by (simp add: read_payload_def)
qed

lemma send_json_Inr:
  "send_json fr k pl = Inr (j, b) \<longleftrightarrow> j = k \<and> utf8_encode (dumps_json fr (JObj pl)) = Inr b"
  by (auto simp: send_json_def)

section \<open>The batches of the service\<close>

fun as_pair :: "ustr list \<Rightarrow> (ustr \<times> ustr) py" where
  "as_pair [p, g] = Inr (p, g)"
| "as_pair _ = Inl TypeError"

fun as_item :: "ustr list \<Rightarrow> (ustr \<times> ustr \<times> ustr) py" where
  "as_item [s, a, b] = Inr (s, a, b)"
| "as_item _ = Inl TypeError"

text \<open>What the two batchers are made with: the scheduler hands the batch to the model.\<close>

definition r4_score_batch ::
  "model_config \<Rightarrow> tokenizer \<Rightarrow> unit py \<Rightarrow> (ustr list \<Rightarrow> (real list list \<times> real list) py)
     \<Rightarrow> nat \<Rightarrow> ustr list list \<Rightarrow> json list option py" where
  "r4_score_batch c tk loaded infer n batch =
     bindE (mapE as_pair batch) (\<lambda>pairs.
     bindE (score_summaries c tk loaded infer pairs) (\<lambda>scores.
       Inr (Some (map (\<lambda>x. JFloat (Fin x)) scores))))"

definition gate_score_batch ::
  "model_config \<Rightarrow> tokenizer \<Rightarrow> unit py \<Rightarrow> (ustr list \<Rightarrow> (real list list \<times> real list) py)
     \<Rightarrow> nat \<Rightarrow> ustr list list \<Rightarrow> support_value list option py" where
  "gate_score_batch c tk loaded infer n batch =
     bindE (mapE as_item batch) (\<lambda>items.
     bindE (classify_option_support_batch c tk loaded infer items) (\<lambda>results.
       Inr (Some (map (\<lambda>r. \<lparr>v_supported_option = Some (JStr (os_supported_option r)),
         v_unclear_probability = Some (JFloat (Fin (os_unclear_probability r)))\<rparr>) results))))"

lemma validate_float: "validate_unit_score (JFloat f) = Inr x \<Longrightarrow> x = f \<and> in_unit f"
  by (auto simp: validate_unit_score_def split: if_splits)

text \<open>The R4 batcher's contract: every result is the score of its own pair in some call of
  \<open>score_summaries\<close>, made of what the engine said about that pair in that call.\<close>

definition judged_in_batch ::
  "model_config \<Rightarrow> tokenizer \<Rightarrow> vllm_generate \<Rightarrow> (ustr \<times> nat) list \<Rightarrow> ustr list \<Rightarrow> pyfloat \<Rightarrow> bool" where
  "judged_in_batch c tk gen ids vs x \<longleftrightarrow>
     (\<exists>p q y pairs i. vs = [p, q] \<and> x = Fin y \<and> 0 \<le> y \<and> y \<le> 1 \<and> i < length pairs \<and> pairs ! i = (p, q)
        \<and> scored_from (vllm_says c tk gen ids) c tk pairs i y)"

interpretation r4_service: batch_contract
  "r4_score_batch c tk loaded (vllm_summary_infer c tk gen ids)" validate_unit_score
  "judged_in_batch c tk gen ids"
proof unfold_locales
  fix n batch xs
  assume x: "infer_batch (r4_score_batch c tk loaded (vllm_summary_infer c tk gen ids))
    validate_unit_score n batch = Inr xs"
  obtain raw where raw: "r4_score_batch c tk loaded (vllm_summary_infer c tk gen ids) n
      (map r_values batch) = Inr (Some raw)" "mapE validate_unit_score raw = Inr xs" "length raw = length batch"
    using infer_batch_raw [OF x] by blast
  obtain pairs scores where ps: "mapE as_pair (map r_values batch) = Inr pairs"
    and sc: "score_summaries c tk loaded (vllm_summary_infer c tk gen ids) pairs = Inr scores"
    and rs: "raw = map (\<lambda>x. JFloat (Fin x)) scores"
    using raw(1) by (auto simp: r4_score_batch_def)
  have l: "length pairs = length batch" "length scores = length batch" "length xs = length batch"
    using mapE_length [OF ps] raw(3) rs mapE_length [OF raw(2)] by simp_all
  show "list_all2 (judged_in_batch c tk gen ids) (map r_values batch) xs"
  proof (rule list_all2_all_nthI)
    fix i assume i: "i < length (map r_values batch)"
    have v: "as_pair (map r_values batch ! i) = Inr (pairs ! i)" using mapE_nth [OF ps i] .
    have "validate_unit_score (JFloat (Fin (scores ! i))) = Inr (xs ! i)"
      using mapE_nth [OF raw(2), of i] i l by (simp add: rs)
    then have x: "xs ! i = Fin (scores ! i)" "0 \<le> scores ! i" "scores ! i \<le> 1"
      by (auto dest!: validate_float simp: in_unit_def)
    obtain p q where pq: "map r_values batch ! i = [p, q]" "pairs ! i = (p, q)"
      using v by (cases "map r_values batch ! i" rule: as_pair.cases) auto
    have li: "i < length pairs" using i l by simp
    then have "scored_from (vllm_says c tk gen ids) c tk pairs i (scores ! i)"
      using vllm_scored [OF sc] by blast
    with x pq li show "judged_in_batch c tk gen ids (map r_values batch ! i) (xs ! i)"
      unfolding judged_in_batch_def by blast
  qed (simp add: l)
qed

lemma int_of_str_payload:
  assumes "int_of_str (str_of_int (int n)) = Some k"
  shows "k = int n"
  using assms strip_digits [OF nat_digits_digits] digits_val_nat
  by (auto simp: int_of_str_def str_of_int_def Let_def ascii_digits [OF nat_digits_digits]
      strip_sign_digits filter_digits [OF nat_digits_digits] split: if_splits)

section \<open>Properties\<close>

text \<open>The service answers 200 to a scoring request only when it is ready, not in the fatal state, the
  body was a JSON object with strings in the right fields, and the batcher returned the result
  that is sent: no degraded or made-up score has status 200.\<close>

theorem post_ok_only_scored:
  assumes "do_POST exn_text fr st path raw_length rfile = Inr (200, body)"
  shows "ready st \<and> s_fatal_error st = None \<and> (\<exists>payload. read_payload raw_length rfile = Inr payload
    \<and> ((path = path_score \<and> (\<exists>p g submit x. dict_get payload key_pred_summary = JStr p
           \<and> dict_get payload key_gt_summary = JStr g \<and> r4_batcher st = Some submit \<and> submit [p, g] = Inr x
           \<and> send_json fr 200 [(key_score, JFloat x)] = Inr (200, body)))
       \<or> (path = path_classify \<and> (\<exists>s a b submit opt p. dict_get payload key_sentence = JStr s
           \<and> dict_get payload key_option_a = JStr a \<and> dict_get payload key_option_b = JStr b
           \<and> reasoning_gate_batcher st = Some submit \<and> submit [s, a, b] = Inr (opt, p)
           \<and> send_json fr 200 [(key_supported_option, JStr opt), (key_unclear_probability, JFloat p)]
             = Inr (200, body)))))"
proof -
  have path: "path \<in> {path_score, path_classify}"
    using assms by (auto simp: do_POST_def send_json_Inr split: if_splits)
  with assms have a: "post_action fr st path raw_length rfile = Inr (200, body)"
    by (auto simp: do_POST_def split: sum.splits if_splits simp: send_json_Inr)
  obtain payload where pl: "read_payload raw_length rfile = Inr payload"
    using a by (auto simp: post_action_def)
  have r: "ready st" "s_fatal_error st = None"
    using a pl by (auto simp: post_action_def split: if_splits simp: send_json_Inr)
  show ?thesis
  proof (cases "path = path_score")
    case True
    with a pl r show ?thesis
      by (auto simp: post_action_def split: json.splits option.splits)
  next
    case False
    with path have "path = path_classify" by simp
    with False a pl r show ?thesis
      by (auto simp: post_action_def split: json.splits option.splits)
  qed
qed

definition half_text :: "pyfloat \<Rightarrow> ustr" where
  "half_text f = u ''0.5''"

definition half_server :: server_state where
  "half_server = \<lparr>r4_batcher = Some (\<lambda>_. Inr (Fin (1 / 2))), reasoning_gate_batcher = None,
     s_backend = Some (u ''vllm''), ready = True, s_fatal_error = None\<rparr>"

definition pair_body :: ustr where
  "pair_body = json_dumps [(key_pred_summary, u ''a''), (key_gt_summary, u ''b'')]"

theorem post_ok_only_scored_witness:
  "do_POST (\<lambda>_. []) half_text half_server path_score (Some (u ''40'')) pair_body
     = Inr (200, u ''{\"score\": 0.5}'')
   \<and> (\<exists>payload. read_payload (Some (u ''40'')) pair_body = Inr payload)"
proof -
  have r: "do_POST (\<lambda>_. []) half_text half_server path_score (Some (u ''40'')) pair_body
     = Inr (200, u ''{\"score\": 0.5}'')" by code_simp
  from post_ok_only_scored [OF r] r show ?thesis by blast
qed

lemma served_client:
  assumes "sendable [(key_pred_summary, p), (key_gt_summary, g)]"
    and "utf8_encode (json_dumps [(key_pred_summary, p), (key_gt_summary, g)]) = Inr payload"
    and "int (length payload) \<le> MAX_REQUEST_BYTES"
    and "endpoint (url_var env) path_score = Inr (base @ path_score)"
    and "timeout_seconds (timeout_var env) = Inr t"
    and "ready st" and "s_fatal_error st = None" and "r4_batcher st = Some submit"
    and "submit [p, g] = Inr (Fin x)" and "0 \<le> x" and "x \<le> 1" and "float_text fr x"
  shows "client_score_summary (serve exn_text fr st base) env p g = Inr (Fin x)"
proof -
  have ne: "key_pred_summary \<noteq> key_gt_summary" by code_simp
  have "post_action fr st path_score (Some (str_of_int (int (length payload)))) payload
      = Inr (200, dumps_json fr (JObj [(key_score, JFloat (Fin x))]))"
    using assms(6-9) ne score_reply_bytes [OF assms(12)]
    by (simp add: post_action_def score_request_read [OF assms(1-3)] dict_get_def)
  then have "serve exn_text fr st base (base @ path_score) payload t
      = Response 200 (dumps_json fr (JObj [(key_score, JFloat (Fin x))]))"
    by (simp add: serve_def do_POST_def)
  moreover have "utf8_text (dumps_json fr (JObj [(key_score, JFloat (Fin x))]))
      = Some (dumps_json fr (JObj [(key_score, JFloat (Fin x))]))"
    by (rule score_reply_text [OF assms(12)])
  ultimately have "post_score (serve exn_text fr st base) env path_score
      [(key_pred_summary, p), (key_gt_summary, g)] = Inr [(key_score, JFloat (Fin x))]"
    by (simp add: post_score_def assms(2,4,5) score_reply_loads [OF assms(12)] del: dumps_json.simps)
  then show ?thesis using assms(10,11) by (simp add: client_score_summary_def in_unit_def)
qed

text \<open>The client over the service: for summaries UTF-8 can encode, a request within the size limit and
  a service that is up, the client returns exactly the score the batcher returned.\<close>

theorem client_over_server:
  assumes "sendable [(key_pred_summary, p), (key_gt_summary, g)]"
    and "utf8_encode (json_dumps [(key_pred_summary, p), (key_gt_summary, g)]) = Inr payload"
    and "int (length payload) \<le> MAX_REQUEST_BYTES"
    and "endpoint (url_var env) path_score = Inr (base @ path_score)"
    and "timeout_seconds (timeout_var env) = Inr t"
    and "ready st" and "s_fatal_error st = None" and "r4_batcher st = Some submit"
    and "submit [p, g] = Inr (Fin x)" and "0 \<le> x" and "x \<le> 1" and "float_text fr x"
  shows "client_score_summary (serve exn_text fr st base) env p g = Inr (Fin x)"
  by (rule served_client [OF assms])

theorem client_over_server_witness:
  "client_score_summary (serve (\<lambda>_. []) half_text half_server (u ''http://127.0.0.1:8765'')) default_env
     (u ''a'') (u ''b'') = Inr (Fin (1 / 2))"
proof (rule client_over_server)
  show "sendable [(key_pred_summary, u ''a''), (key_gt_summary, u ''b'')]" by code_simp
  show "utf8_encode (json_dumps [(key_pred_summary, u ''a''), (key_gt_summary, u ''b'')]) = Inr pair_body"
    by code_simp
  show "int (length pair_body) \<le> MAX_REQUEST_BYTES" by code_simp
  show "endpoint (url_var default_env) path_score = Inr (u ''http://127.0.0.1:8765'' @ path_score)" by code_simp
  show "timeout_seconds (timeout_var default_env) = Inr 300" by code_simp
  show "ready half_server" "s_fatal_error half_server = None"
    "r4_batcher half_server = Some (\<lambda>_. Inr (Fin (1 / 2)))"
    by (simp_all add: half_server_def)
  show "float_text half_text (1 / 2)" by code_simp
qed simp_all

text \<open>The life of the service: it reports ready only with running batchers and no fatal error; once
  \<open>run_server\<close> has returned, the model is released, the batchers are closed, nothing is accepted any
  more, and the exit code is 1 exactly when there was a fatal error.\<close>

theorem service_life:
  assumes "reachable any_event life_step new_service l"
  shows "(l_ready l \<longrightarrow> l_fatal l = None \<and> batchers_started l)
    \<and> (stage l = Finished \<longrightarrow> \<not> model_open l \<and> \<not> accepting l \<and> batchers_closed l = batchers_started l
         \<and> exit_code l = Some (if l_fatal l \<noteq> None then 1 else 0))"
  using life.reachable_inv [OF assms] by (auto simp: life_ok_def)

definition life_events :: "life_event list" where
  "life_events = [CreateModel (Inr ()), LoadModel (Inr ()), StartBatchers, BatchFatal RuntimeError,
     DelayedShutdown, JoinReturns, CloseAll]"

theorem service_life_witness:
  "\<exists>l. run life_step life_events new_service = Some l \<and> exit_code l = Some 1 \<and> \<not> model_open l"
proof -
  define l where "l = the (run life_step life_events new_service)"
  have r: "run life_step life_events new_service = Some l"
    unfolding l_def by (rule not_none_Some) code_simp
  have "stage l = Finished" "exit_code l = Some 1" unfolding l_def by code_simp+
  with service_life [OF reachable_from_init [OF r]] r show ?thesis by blast
qed

text \<open>A fatal error ends the service: from any reachable state with a fatal error at most three steps
  of the service's own threads (the delayed shutdown, the join, the clean-up) end it with exit
  code 1.\<close>

theorem fatal_service_ends:
  assumes "reachable any_event life_step new_service l" and "l_fatal l \<noteq> None" and "stage l \<noteq> Finished"
  shows "\<exists>es l'. es \<in> {[CloseAll], [JoinReturns, CloseAll], [DelayedShutdown, JoinReturns, CloseAll]}
    \<and> run life_step es l = Some l' \<and> exit_code l' = Some 1"
proof -
  have ok: "life_ok l" by (rule life.reachable_inv [OF assms(1)])
  then consider "stage l = Closing" | "stage l = Serving" "shutdown_started l"
    | "stage l = Serving" "\<not> shutdown_started l" "0 < delayed_shutdowns l"
    using assms(2,3) by (auto simp: life_ok_def)
  then show ?thesis
  proof cases
    case 1
    then have "run life_step [CloseAll] l = Some (close_all l)" by simp
    moreover have "exit_code (close_all l) = Some 1" using assms(2) by (simp add: close_all_def)
    ultimately show ?thesis by blast
  next
    case 2
    then have "\<not> accepting l" using ok by (simp add: life_ok_def)
    with 2 have "run life_step [JoinReturns, CloseAll] l = Some (close_all (l\<lparr>stage := Closing\<rparr>))" by simp
    moreover have "exit_code (close_all (l\<lparr>stage := Closing\<rparr>)) = Some 1"
      using assms(2) by (simp add: close_all_def)
    ultimately show ?thesis by blast
  next
    case 3
    let ?m = "shutdown (l\<lparr>delayed_shutdowns := delayed_shutdowns l - 1\<rparr>)"
    have "\<not> accepting ?m" using ok by (simp add: shutdown_def life_ok_def)
    with 3 have "run life_step [DelayedShutdown, JoinReturns, CloseAll] l = Some (close_all (?m\<lparr>stage := Closing\<rparr>))"
      by simp
    moreover have "exit_code (close_all (?m\<lparr>stage := Closing\<rparr>)) = Some 1"
      using assms(2) by (simp add: close_all_def)
    ultimately show ?thesis by blast
  qed
qed

theorem fatal_service_ends_witness:
  "\<exists>l es l'. run life_step (take 4 life_events) new_service = Some l \<and> l_fatal l \<noteq> None
     \<and> run life_step es l = Some l' \<and> exit_code l' = Some 1"
proof -
  define l where "l = the (run life_step (take 4 life_events) new_service)"
  have r: "run life_step (take 4 life_events) new_service = Some l"
    unfolding l_def by (rule not_none_Some) code_simp
  have f: "\<not> Option.is_none (l_fatal l)" "stage l \<noteq> Finished" unfolding l_def by code_simp+
  then have "l_fatal l \<noteq> None" by (simp add: Option.is_none_def)
  from fatal_service_ends [OF reachable_from_init [OF r] this f(2)] r this show ?thesis by blast
qed

lemma check_items_ok:
  assumes "check_items items = Inr v" and "(x, a, b) \<in> set items"
  shows "py_strip x \<noteq> [] \<and> py_strip a \<noteq> [] \<and> py_strip b \<noteq> []"
  using assms by (auto simp: check_items_def list_ex_iff split: if_splits)

text \<open>One blank text stops the service: \<open>do_POST\<close> accepts any strings, and a batch of the reasoning
  gate that holds an item with a blank sentence or option fails as a whole and puts the batcher into the
  fatal state, with all the other items of the batch.\<close>

theorem blank_item_is_fatal:
  assumes "worker s = Inferring batch" and "r \<in> set batch" and "r_values r = [x, a, b]"
    and "py_strip x = [] \<or> py_strip a = [] \<or> py_strip b = []"
    and "batcher_step (gate_score_batch c tk loaded infer) (validate_reasoning_gate_result fr) Infer s = Some s'"
  shows "\<exists>e. worker s' = Draining e batch \<and> fatal_error s' \<noteq> None"
proof -
  have "\<exists>e. mapE as_item (map r_values batch) = Inl e
      \<or> (\<exists>items. mapE as_item (map r_values batch) = Inr items \<and> items \<noteq> [] \<and> check_items items = Inl e)"
  proof (cases "mapE as_item (map r_values batch)")
    case (Inr items)
    have "[x, a, b] \<in> set (map r_values batch)" using assms(2,3) by force
    then obtain i where "i \<in> set items" "as_item [x, a, b] = Inr i" using mapE_all [OF Inr] by blast
    then have "(x, a, b) \<in> set items" by simp
    moreover from this assms(4) have "\<exists>e. check_items items = Inl e"
      by (cases "check_items items") (auto dest: check_items_ok)
    ultimately show ?thesis using Inr by fastforce
  qed simp
  then have "\<exists>e. gate_score_batch c tk loaded infer (inferences s) (map r_values batch) = Inl e"
    by (auto simp: gate_score_batch_def classify_option_support_batch_def)
  then obtain e where "infer_batch (gate_score_batch c tk loaded infer) (validate_reasoning_gate_result fr)
      (inferences s) batch = Inl e" by (auto simp: infer_batch_def)
  with assms(1,5) have "s' = enter_fatal e (s\<lparr>inferences := Suc (inferences s), worker := Draining e batch\<rparr>)"
    by simp
  then show ?thesis by simp
qed


definition blank_events :: "Batcher.event list" where
  "blank_events = [Enter [JStr (u '' ''), JStr (u ''a''), JStr (u ''b'')], PutRequest 0,
     LoopTest, GetFirst, CollectEnd]"

theorem blank_item_is_fatal_witness:
  "\<exists>s s'. run (batcher_step (gate_score_batch small_config code_tokenizer (Inr ()) (\<lambda>_. Inl RuntimeError))
         (validate_reasoning_gate_result half_text)) blank_events (fresh_batcher 2 0) = Some s
     \<and> batcher_step (gate_score_batch small_config code_tokenizer (Inr ()) (\<lambda>_. Inl RuntimeError))
         (validate_reasoning_gate_result half_text) Infer s = Some s' \<and> fatal_error s' \<noteq> None"
proof -
  let ?step = "batcher_step (gate_score_batch small_config code_tokenizer (Inr ()) (\<lambda>_. Inl RuntimeError))
    (validate_reasoning_gate_result half_text)"
  define s where "s = the (run ?step blank_events (fresh_batcher 2 0))"
  define s' where "s' = the (?step Infer s)"
  have r: "run ?step blank_events (fresh_batcher 2 0) = Some s"
    unfolding s_def by (rule not_none_Some) code_simp
  have w: "worker s = Inferring [\<lparr>r_values = [u '' '', u ''a'', u ''b''], r_future = 0\<rparr>]"
    unfolding s_def by code_simp
  have st: "?step Infer s = Some s'"
    unfolding s'_def by (rule not_none_Some) (simp add: w del: not_None_eq split: sum.splits option.splits)
  have "py_strip (u '' '') = []" by code_simp
  then have "fatal_error s' \<noteq> None"
    using blank_item_is_fatal [OF w _ _ _ st, of _ "u '' ''" "u ''a''" "u ''b''"] by auto
  with r st show ?thesis by blast
qed

text \<open>The choice of the backend: a named backend is the one that is loaded, an unknown name is refused,
  \<open>auto\<close> falls back to Transformers exactly on Windows or when \<open>import vllm\<close> fails in one of the ways
  that are caught, and a model path on the command line is the path that is loaded.\<close>

theorem backend_choice:
  assumes "create_reward_model win32 import_vllm local_set ex local_path name model_path backend device = r"
  shows "(backend \<notin> {u ''auto'', u ''vllm'', u ''transformers''} \<longrightarrow> r = Inl ValueError)
    \<and> (\<forall>choice selected. r = Inr (choice, selected) \<longrightarrow>
         (backend \<noteq> u ''auto'' \<longrightarrow> selected = backend)
         \<and> (backend = u ''auto'' \<longrightarrow> (selected = u ''transformers'' \<longleftrightarrow>
              win32 \<or> (\<exists>e. import_vllm = Inl e \<and> vllm_missing e)))
         \<and> (\<forall>p. model_path = Some p \<and> p \<noteq> [] \<longrightarrow>
              choice = (if selected = u ''vllm'' then VllmModel (Some p) else TransformersModel p device)))"
proof -
  have ne: "u ''vllm'' \<noteq> u ''transformers''" "u ''vllm'' \<noteq> u ''auto''" "u ''transformers'' \<noteq> u ''auto''"
    by code_simp+
  from assms ne show ?thesis
    by (auto simp: create_reward_model_def bindE_def Let_def split: sum.splits if_splits)
qed

theorem backend_choice_witness:
  "create_reward_model False (Inl ImportError) False (\<lambda>_. False) (Some (u ''/m'')) (u ''Q'') None (u ''auto'') (u ''cpu'')
     = Inr (TransformersModel (u ''Q'') (u ''cpu''), u ''transformers'')
   \<and> u ''transformers'' = u ''transformers''"
proof -
  have r: "create_reward_model False (Inl ImportError) False (\<lambda>_. False) (Some (u ''/m'')) (u ''Q'') None (u ''auto'') (u ''cpu'')
     = Inr (TransformersModel (u ''Q'') (u ''cpu''), u ''transformers'')" by code_simp
  from backend_choice [OF r] r show ?thesis by blast
qed

text \<open>The checks of \<open>main\<close> are the checks of the batchers: after them no batcher is refused.\<close>

lemma main_checks_batchers: "main_checks port n w = Inr x \<Longrightarrow> \<exists>s. new_batcher n w = Inr s"
  by (auto simp: main_checks_def new_batcher_def split: pyfloat.splits if_splits)

end
