(* ===== verification/OptionFix.thy ===== *)
theory OptionFix
  imports Rewards
begin

text \<open>
  The row part of \<^verbatim>\<open>fix_parquet_extra_info_options.py\<close>, the tool that gives every training row
  the two options the reasoning gate needs: the prompt is flattened (\<open>_prompt_text\<close>), its A/B
  option lines are collected (\<open>extract_ab_options\<close>, here \<open>prompt_options\<close>), and
  \<open>extra_info["option_a"]\<close> and \<open>extra_info["option_b"]\<close> are written (\<open>enrich_extra_info\<close>). The
  values are those of \<open>to_pylist()\<close>, so \<open>_plain\<close> is the identity. A \<open>DataValidationError\<close> is
  modelled with its reason.
\<close>

datatype data_error =
    NoPromptText
  | MissingOption "int list"
  | AmbiguousOption "(int \<times> ustr list) list"
  | SameOptions
  | BadDataSource
  | UnknownDataSource ustr
  | ExtraNotDict
  | OptionsDisagree

datatype row_status = Detection | Added | Present

section \<open>The prompt's text and its options\<close>

definition key_messages :: ustr where
  "key_messages = u ''messages''"

function message_text :: "json \<Rightarrow> ustr" where
  "message_text value =
     (case value of
        JStr s \<Rightarrow> s
      | JArr vs \<Rightarrow> py_join [10] (filter (\<lambda>p. p \<noteq> []) (map message_text vs))
      | JObj d \<Rightarrow>
          py_join [10] (filter (\<lambda>p. p \<noteq> [])
            [(case map_of d key_content of Some v \<Rightarrow> message_text v | None \<Rightarrow> []),
             (case map_of d key_text of Some v \<Rightarrow> message_text v | None \<Rightarrow> []),
             (case map_of d key_prompt of Some v \<Rightarrow> message_text v | None \<Rightarrow> []),
             (case map_of d key_messages of Some v \<Rightarrow> message_text v | None \<Rightarrow> [])])
      | _ \<Rightarrow> [])"
  by pat_completeness auto
termination
  by (relation "measure size") (auto dest: map_of_size simp: less_Suc_eq_le size_list_estimation')

declare message_text.simps [simp del]

text \<open>The end of a match, \<^verbatim>\<open>[ \t]*(.+?)[ \t]*$\<close>, on the rest of a line: the group.\<close>

definition option_rest :: "ustr \<Rightarrow> ustr option" where
  "option_rest t =
     (case rev (dropWhile is_blank (rev (dropWhile is_blank t))) of
        [] \<Rightarrow> if t = [] then None else Some [last t]
      | c # cs \<Rightarrow> Some (c # cs))"

definition is_ab :: "int \<Rightarrow> bool" where
  "is_ab c \<longleftrightarrow> lower_cp c = 97 \<or> lower_cp c = 98"

text \<open>
  One line against this file's \<open>_OPTION_LINE_RE\<close>, which takes \<open>(A)\<close> as well as a letter and a
  separator: the letter as written, and the option text.
\<close>

definition option_line_ab :: "ustr \<Rightarrow> (int \<times> ustr) option" where
  "option_line_ab line =
     (case skip_option_word (dropWhile is_blank line) of
        c # r \<Rightarrow>
          if c = 40 then
            (case r of
               l # p # t \<Rightarrow> if is_ab l \<and> p = 41 then map_option (Pair l) (option_rest t) else None
             | _ \<Rightarrow> None)
          else if is_ab c then
            (case dropWhile is_blank r of
               p # t \<Rightarrow> if option_sep p then map_option (Pair c) (option_rest t) else None
             | [] \<Rightarrow> None)
          else None
      | [] \<Rightarrow> None)"

definition upper_ab :: "int \<Rightarrow> int" where
  "upper_ab l = (if 97 \<le> l then l - 32 else l)"

text \<open>\<open>matches\<close>, the two lists of different option texts, in order.\<close>

definition add_new :: "ustr \<Rightarrow> ustr list \<Rightarrow> ustr list" where
  "add_new x xs = (if x \<in> set xs then xs else xs @ [x])"

definition add_option :: "int \<times> ustr \<Rightarrow> ustr list \<times> ustr list \<Rightarrow> ustr list \<times> ustr list" where
  "add_option m s =
     (let letter = upper_ab (fst m); option = py_strip (snd m)
      in if option = [] then s
         else if letter = 65 then (add_new option (fst s), snd s)
         else (fst s, add_new option (snd s)))"

definition collect_options :: "ustr \<Rightarrow> ustr list \<times> ustr list" where
  "collect_options text = fold add_option (List.map_filter option_line_ab (split_on 10 text)) ([], [])"

definition prompt_options :: "json \<Rightarrow> data_error + ustr \<times> ustr" where
  "prompt_options prompt =
     (let text = message_text prompt
      in if py_strip text = [] then Inl NoPromptText
         else let (a, b) = collect_options text;
                  missing = (if a = [] then [65] else []) @ (if b = [] then [66] else []);
                  ambiguous = filter (\<lambda>(l, vs). length vs \<noteq> 1) [(65, a), (66, b)]
              in if missing \<noteq> [] then Inl (MissingOption missing)
                 else if ambiguous \<noteq> [] then Inl (AmbiguousOption ambiguous)
                 else if hd a = hd b then Inl SameOptions
                 else Inr (hd a, hd b))"

section \<open>One row\<close>

definition FIX_GATE_SOURCES :: "ustr list" where
  "FIX_GATE_SOURCES = map u [''spatial_consistency_pos'', ''spatial_consistency_pos_train'',
     ''spatial_consistency_neg'', ''spatial_consistency_neg_train'',
     ''spatial_consistency_bbox_pos'', ''spatial_consistency_bbox_pos_train'',
     ''spatial_consistency_bbox_neg'', ''spatial_consistency_bbox_neg_train'',
     ''consistent_qwen_eval'', ''consistent_qwen'', ''inconsistent_qwen_eval'',
     ''inconsistent_qwen'', ''inconsistent_cot_local_eval'']"

definition FIX_DETECTION_SOURCES :: "ustr list" where
  "FIX_DETECTION_SOURCES = map u [''spatial_detection'', ''spatial_detection_train'',
     ''detection_qwen_eval'', ''detection_qwen'']"

text \<open>\<open>isinstance(v, str) and bool(v.strip())\<close>, and the stripped text.\<close>

definition given_text :: "json \<Rightarrow> ustr option" where
  "given_text v =
     (case v of JStr s \<Rightarrow> if py_strip s \<noteq> [] then Some (py_strip s) else None | _ \<Rightarrow> None)"

definition given_options :: "dict \<Rightarrow> (ustr \<times> ustr) option" where
  "given_options info =
     (case (given_text (dict_get info key_option_a), given_text (dict_get info key_option_b)) of
        (Some a, Some b) \<Rightarrow> Some (a, b)
      | _ \<Rightarrow> None)"

definition put_options :: "ustr \<times> ustr \<Rightarrow> dict \<Rightarrow> dict" where
  "put_options ab info =
     AList.update key_option_b (JStr (snd ab)) (AList.update key_option_a (JStr (fst ab)) info)"

definition enrich_extra_info :: "json \<Rightarrow> json \<Rightarrow> json \<Rightarrow> data_error + json \<times> row_status" where
  "enrich_extra_info data_source prompt extra_info =
     (case data_source of
        JStr raw \<Rightarrow>
          (let source = py_strip raw
           in if source = [] then Inl BadDataSource
              else if source \<in> set FIX_DETECTION_SOURCES then Inr (extra_info, Detection)
              else if source \<notin> set FIX_GATE_SOURCES then Inl (UnknownDataSource source)
              else bindE (prompt_options prompt) (\<lambda>ab.
                     bindE (case extra_info of JNull \<Rightarrow> Inr [] | JObj d \<Rightarrow> Inr d
                            | _ \<Rightarrow> Inl ExtraNotDict) (\<lambda>info.
                       case given_options info of
                         None \<Rightarrow> Inr (JObj (put_options ab info), Added)
                       | Some old \<Rightarrow>
                           if old \<noteq> ab then Inl OptionsDisagree
                           else Inr (JObj (put_options ab info), Present))))
      | _ \<Rightarrow> Inl BadDataSource)"

section \<open>Facts about option texts\<close>

text \<open>A collected list holds the different non-empty stripped texts of its letter.\<close>

definition texts_of :: "int \<Rightarrow> (int \<times> ustr) list \<Rightarrow> ustr set" where
  "texts_of l ms = {py_strip t | c t. (c, t) \<in> set ms \<and> (upper_ab c = 65) = (l = 65) \<and> py_strip t \<noteq> []}"

lemma set_add_new [simp]: "set (add_new x xs) = insert x (set xs)"
  by (auto simp: add_new_def)

lemma distinct_add_new [simp]: "distinct (add_new x xs) = distinct xs"
  by (auto simp: add_new_def)

lemma texts_of_Cons:
  "texts_of l ((c, t) # ms) =
     (if (upper_ab c = 65) = (l = 65) \<and> py_strip t \<noteq> [] then {py_strip t} else {}) \<union> texts_of l ms"
  by (auto simp: texts_of_def)

lemma fold_add_option:
  "set (fst (fold add_option ms s)) = set (fst s) \<union> texts_of 65 ms
   \<and> set (snd (fold add_option ms s)) = set (snd s) \<union> texts_of 66 ms
   \<and> (distinct (fst s) \<longrightarrow> distinct (fst (fold add_option ms s)))
   \<and> (distinct (snd s) \<longrightarrow> distinct (snd (fold add_option ms s)))"
proof (induction ms arbitrary: s)
  case Nil
  show ?case by (simp add: texts_of_def)
next
  case (Cons m ms)
  obtain c t where m: "m = (c, t)" by (cases m)
  show ?case using Cons.IH [of "add_option (c, t) s"]
    by (auto simp: m texts_of_Cons add_option_def Let_def)
qed

lemma distinct_singleton: "distinct xs \<Longrightarrow> length xs = 1 \<longleftrightarrow> (\<exists>x. set xs = {x})"
  by (metis card_1_singleton_iff distinct_card One_nat_def)

text \<open>What a prompt must be like for \<open>prompt_options\<close> to return: one text per letter, the two different.\<close>

lemma prompt_options_Inr:
  assumes "prompt_options prompt = Inr (a, b)"
  shows "texts_of 65 (List.map_filter option_line_ab (split_on 10 (message_text prompt))) = {a}
    \<and> texts_of 66 (List.map_filter option_line_ab (split_on 10 (message_text prompt))) = {b} \<and> a \<noteq> b"
proof -
  define ms where "ms = List.map_filter option_line_ab (split_on 10 (message_text prompt))"
  obtain as bs where c: "collect_options (message_text prompt) = (as, bs)"
    by (cases "collect_options (message_text prompt)")
  have f: "fold add_option ms ([], []) = (as, bs)"
    using c by (simp add: collect_options_def ms_def)
  have s: "set as = texts_of 65 ms" "set bs = texts_of 66 ms"
    using fold_add_option [of ms "([], [])"] by (simp_all add: f)
  have "length as = 1" "length bs = 1" "a = hd as" "b = hd bs" "hd as \<noteq> hd bs"
    using assms c by (auto simp: prompt_options_def Let_def split: if_splits)
  then have "as = [a]" "bs = [b]" "a \<noteq> b"
    by (auto simp: length_Suc_conv)
  then show ?thesis using s by (auto simp: ms_def)
qed

lemma prompt_options_texts:
  assumes "prompt_options prompt = Inr (a, b)"
  shows "a \<noteq> [] \<and> b \<noteq> [] \<and> py_strip a = a \<and> py_strip b = b \<and> a \<noteq> b"
proof -
  note i = prompt_options_Inr [OF assms]
  have "a \<in> texts_of 65 (List.map_filter option_line_ab (split_on 10 (message_text prompt)))"
    and "b \<in> texts_of 66 (List.map_filter option_line_ab (split_on 10 (message_text prompt)))"
    using i by simp_all
  then show ?thesis using i by (auto simp: texts_of_def)
qed

lemma option_keys_differ: "key_option_a \<noteq> key_option_b"
  by (simp add: key_option_a_def key_option_b_def)

lemma map_of_put_options:
  "map_of (put_options (a, b) info) k =
     (if k = key_option_b then Some (JStr b) else if k = key_option_a then Some (JStr a)
      else map_of info k)"
  by (simp add: put_options_def update_conv')

lemma dict_get_put_options:
  "dict_get (put_options (a, b) info) key_option_a = JStr a"
  "dict_get (put_options (a, b) info) key_option_b = JStr b"
  "k \<noteq> key_option_a \<Longrightarrow> k \<noteq> key_option_b \<Longrightarrow> dict_get (put_options (a, b) info) k = dict_get info k"
  using option_keys_differ by (simp_all add: dict_get_def map_of_put_options)

lemma put_options_again: "put_options ab (put_options ab info) = put_options ab info"
proof -
  have u: "AList.update k v info' = info'" if "map_of info' k = Some v" for k and v :: json and info'
    using that by (induction info') auto
  show ?thesis
    by (cases ab) (simp add: put_options_def u update_conv' option_keys_differ [symmetric]
        option_keys_differ)
qed

section \<open>What a repaired row is\<close>

lemma enrich_gated:
  assumes "enrich_extra_info ds prompt extra = Inr (out, st)" and "st \<noteq> Detection"
  obtains raw ab info where "ds = JStr raw" and "py_strip raw \<in> set FIX_GATE_SOURCES"
    and "py_strip raw \<notin> set FIX_DETECTION_SOURCES" and "py_strip raw \<noteq> []"
    and "prompt_options prompt = Inr ab" and "extra = JNull \<and> info = [] \<or> extra = JObj info"
    and "out = JObj (put_options ab info)"
    and "st = (if given_options info = None then Added else Present)"
    and "given_options info = None \<or> given_options info = Some ab"
  using assms
  by (auto simp: enrich_extra_info_def Let_def split: json.splits if_splits option.splits)

lemma enrich_detection:
  "enrich_extra_info ds prompt extra = Inr (out, Detection) \<longleftrightarrow>
     (\<exists>raw. ds = JStr raw \<and> py_strip raw \<noteq> [] \<and> py_strip raw \<in> set FIX_DETECTION_SOURCES \<and> out = extra)"
  by (auto simp: enrich_extra_info_def Let_def bindE_def
      split: json.splits if_splits option.splits sum.splits)

lemma given_put_options:
  assumes "prompt_options prompt = Inr (a, b)"
  shows "given_options (put_options (a, b) info) = Some (a, b)"
  using prompt_options_texts [OF assms]
  by (simp add: given_options_def given_text_def dict_get_put_options)

lemma extract_put_options:
  assumes "prompt_options prompt = Inr (a, b)"
  shows "extract_ab_options (JObj (put_options (a, b) info)) = Inr (a, b)"
  using prompt_options_texts [OF assms]
  by (simp add: extract_ab_options_def dict_get_put_options)

text \<open>After the repair of a row, what the reward's reasoning gate reads from its
  \<open>extra_info\<close> are the options of its prompt: two different, non-blank texts. No other entry of
  \<open>extra_info\<close> has changed, and a detection row is as it was.\<close>

theorem repaired_row_read:
  assumes "enrich_extra_info ds prompt extra = Inr (out, st)"
  shows "if st = Detection then out = extra
    else \<exists>a b d. prompt_options prompt = Inr (a, b) \<and> a \<noteq> b \<and> a \<noteq> [] \<and> b \<noteq> []
      \<and> out = JObj d \<and> extract_ab_options out = Inr (a, b)
      \<and> (\<forall>info k. extra = JObj info \<longrightarrow> k \<notin> {key_option_a, key_option_b} \<longrightarrow> map_of d k = map_of info k)"
proof (cases "st = Detection")
  case True
  then show ?thesis using assms enrich_detection by auto
next
  case False
  obtain ab info where p: "prompt_options prompt = Inr ab"
    and e: "extra = JNull \<and> info = [] \<or> extra = JObj info" and o: "out = JObj (put_options ab info)"
    using enrich_gated [OF assms False] by metis
  obtain a b where ab: "ab = (a, b)" by (cases ab)
  have "\<forall>info' k. extra = JObj info' \<longrightarrow> k \<notin> {key_option_a, key_option_b}
      \<longrightarrow> map_of (put_options ab info) k = map_of info' k"
    using e by (auto simp: ab map_of_put_options)
  then show ?thesis
    using False p o prompt_options_texts [of prompt a b] extract_put_options [of prompt a b info]
    by (auto simp: ab)
qed

definition sample_prompt :: json where
  "sample_prompt = JArr [JObj [(u ''role'', JStr (u ''user'')), (u ''content'', JArr
     [JObj [(u ''text'', JStr (u ''Same place?'' @ [10] @ u ''(A) yes'' @ [10] @ u ''OPTION B: no ''))]])]]"

definition sample_extra :: json where
  "sample_extra = JObj [(u ''index'', JInt 7)]"

lemma sample_enrich:
  "enrich_extra_info (JStr (u ''consistent_qwen'')) sample_prompt sample_extra =
     Inr (JObj [(u ''index'', JInt 7), (key_option_a, JStr (u ''yes'')), (key_option_b, JStr (u ''no''))], Added)"
  by code_simp

theorem repaired_row_read_witness:
  "\<exists>out a b. enrich_extra_info (JStr (u ''consistent_qwen'')) sample_prompt sample_extra = Inr (out, Added)
     \<and> extract_ab_options out = Inr (a, b) \<and> a \<noteq> b"
  using repaired_row_read [OF sample_enrich] sample_enrich by auto

text \<open>Repairing is idempotent: a repaired row is accepted, left as it is and counted as
  complete.\<close>

lemma enrich_again:
  assumes "enrich_extra_info ds prompt extra = Inr (out, st)"
  shows "enrich_extra_info ds prompt out = Inr (out, if st = Detection then Detection else Present)"
proof (cases "st = Detection")
  case True
  then show ?thesis using assms enrich_detection by auto
next
  case False
  obtain raw ab info where r: "ds = JStr raw" "py_strip raw \<in> set FIX_GATE_SOURCES"
    "py_strip raw \<notin> set FIX_DETECTION_SOURCES" "py_strip raw \<noteq> []"
    and p: "prompt_options prompt = Inr ab" and o: "out = JObj (put_options ab info)"
    using enrich_gated [OF assms False] by metis
  have "given_options (put_options ab info) = Some ab"
    using p given_put_options by (cases ab) simp
  then show ?thesis
    using r p False by (simp add: enrich_extra_info_def o put_options_again)
qed

theorem repair_idempotent:
  assumes "enrich_extra_info ds prompt extra = Inr (out, st)"
  shows "enrich_extra_info ds prompt out = Inr (out, if st = Detection then Detection else Present)"
  by (rule enrich_again [OF assms])

theorem repair_idempotent_witness:
  "\<exists>out. enrich_extra_info (JStr (u ''consistent_qwen'')) sample_prompt sample_extra = Inr (out, Added)
     \<and> enrich_extra_info (JStr (u ''consistent_qwen'')) sample_prompt out = Inr (out, Present)"
  using repair_idempotent [OF sample_enrich] sample_enrich by auto

text \<open>The rows the tool repairs are exactly the rows the reward gates, and those it leaves are
  those the reward scores as detection.\<close>

lemma source_sets:
  "set FIX_GATE_SOURCES = set REASONING_GATE_SOURCES"
  "set FIX_DETECTION_SOURCES = set SPATIAL_DETECTION_SOURCES"
  by (simp_all add: FIX_GATE_SOURCES_def REASONING_GATE_SOURCES_def FIX_DETECTION_SOURCES_def
      SPATIAL_DETECTION_SOURCES_def INCONSISTENT_COT_LOCAL_EVAL_SOURCE_def)

text \<open>A source the tool accepts is repaired exactly if the reward gates it, and is left alone
  exactly if the reward scores it as detection; a source that is neither is refused.\<close>

theorem repaired_sources:
  assumes "py_strip source = source" and "source \<noteq> []"
  shows "((\<exists>out st. enrich_extra_info (JStr source) prompt extra = Inr (out, st) \<and> st \<noteq> Detection)
      \<longrightarrow> source \<in> set REASONING_GATE_SOURCES)
    \<and> ((\<exists>out. enrich_extra_info (JStr source) prompt extra = Inr (out, Detection))
      \<longleftrightarrow> source \<in> set SPATIAL_DETECTION_SOURCES)
    \<and> (source \<notin> set REASONING_GATE_SOURCES \<union> set SPATIAL_DETECTION_SOURCES
      \<longrightarrow> enrich_extra_info (JStr source) prompt extra = Inl (UnknownDataSource source))"
proof (intro conjI)
  show "(\<exists>out st. enrich_extra_info (JStr source) prompt extra = Inr (out, st) \<and> st \<noteq> Detection)
      \<longrightarrow> source \<in> set REASONING_GATE_SOURCES"
    using assms enrich_gated by (metis json.inject(4) source_sets(1))
  show "(\<exists>out. enrich_extra_info (JStr source) prompt extra = Inr (out, Detection))
      \<longleftrightarrow> source \<in> set SPATIAL_DETECTION_SOURCES"
    using assms by (simp add: enrich_detection source_sets)
  show "source \<notin> set REASONING_GATE_SOURCES \<union> set SPATIAL_DETECTION_SOURCES
      \<longrightarrow> enrich_extra_info (JStr source) prompt extra = Inl (UnknownDataSource source)"
    using assms by (simp add: enrich_extra_info_def source_sets)
qed

theorem repaired_sources_witness:
  "u ''consistent_qwen'' \<in> set REASONING_GATE_SOURCES"
proof -
  have s: "py_strip (u ''consistent_qwen'') = u ''consistent_qwen''" "u ''consistent_qwen'' \<noteq> []"
    by code_simp+
  show ?thesis using repaired_sources [OF s, of sample_prompt sample_extra] sample_enrich by blast
qed

section \<open>Agreement with the reward's own reading of a prompt\<close>

definition parenthesised :: "ustr \<Rightarrow> bool" where
  "parenthesised line \<longleftrightarrow> starts_with [40] (skip_option_word (dropWhile is_blank line))"

lemma option_rest_alt:
  "map_option (Pair c) (option_rest t) =
     (case rev (dropWhile is_blank (rev (dropWhile is_blank t))) of
        [] \<Rightarrow> if t = [] then None else Some (c, [last t])
      | body \<Rightarrow> Some (c, body))"
  unfolding option_rest_def by (simp only: list.case_distrib [of "map_option (Pair c)"]
      if_distrib [of "map_option (Pair c)"] option.map)

lemma option_line_agrees:
  assumes "\<not> parenthesised line"
  shows "option_line_ab line = option_line line"
proof (cases "skip_option_word (dropWhile is_blank line)")
  case Nil
  then show ?thesis by (simp add: option_line_ab_def option_line_def)
next
  case (Cons c r)
  then have "c \<noteq> 40" using assms by (simp add: parenthesised_def starts_with_def)
  then show ?thesis
    by (cases "dropWhile is_blank r")
       (simp_all add: option_line_ab_def option_line_def Cons is_ab_def option_rest_alt
         del: dropWhile_eq_Nil_conv)
qed

lemma option_lines_agree:
  assumes "\<forall>line \<in> set (split_on 10 text). \<not> parenthesised line"
  shows "List.map_filter option_line_ab (split_on 10 text) = option_lines text"
proof -
  have "List.map_filter option_line_ab ls = List.map_filter option_line ls"
    if "\<forall>line \<in> set ls. \<not> parenthesised line" for ls
    using that by (induction ls) (auto simp: map_filter_simps option_line_agrees split: option.splits)
  then show ?thesis using assms by (simp add: option_lines_def)
qed

lemma option_line_letter: "option_line line = Some (c, t) \<Longrightarrow> c \<in> {65, 66, 97, 98}"
  by (auto simp: option_line_def lower_cp_def split: list.splits if_splits)

lemma option_lines_letter: "(c, t) \<in> set (option_lines text) \<Longrightarrow> c \<in> {65, 66, 97, 98}"
  using option_line_letter
  by (fastforce simp: option_lines_def map_filter_def)

lemma map_of_table:
  assumes "texts_of l (option_lines text) = {x}" and "l \<in> {65, 66}"
  shows "map_of (option_table text) l = Some x"
proof -
  have entries: "(k, v) \<in> set (option_table text) \<longleftrightarrow>
      (\<exists>c t. (c, t) \<in> set (option_lines text) \<and> k = upper_ab c \<and> v = py_strip t \<and> v \<noteq> [])" for k v
    unfolding option_table_def upper_ab_def [symmetric] by force
  have keys: "v = x" if "(l, v) \<in> set (option_table text)" for v
  proof -
    have "v \<in> texts_of l (option_lines text)"
      using that by (auto simp: entries texts_of_def)
    then show ?thesis using assms(1) by simp
  qed
  have "x \<in> texts_of l (option_lines text)" by (simp add: assms(1))
  then obtain c t where ct: "(c, t) \<in> set (option_lines text)" "(upper_ab c = 65) = (l = 65)"
    "py_strip t = x" "x \<noteq> []"
    by (auto simp: texts_of_def)
  then have "l = upper_ab c"
    using assms(2) option_lines_letter [OF ct(1)] by (auto simp: upper_ab_def)
  then have "(l, x) \<in> set (option_table text)"
    unfolding entries using ct by blast
  then obtain v where v: "map_of (option_table text) l = Some v"
    by (metis weak_map_of_SomeI)
  then show ?thesis using keys [OF map_of_SomeD [OF v]] by simp
qed

text \<open>C21: On a text prompt without parenthesised option lines, the options the tool writes are the
  ones the reward would read from the prompt itself.\<close>

theorem tool_agrees_with_reward:
  assumes "prompt_options (JStr text) = Inr (a, b)"
    and "\<forall>line \<in> set (split_on 10 text). \<not> parenthesised line"
  shows "extract_ab_options (JObj [(key_prompt, JStr text)]) = Inr (a, b)"
proof -
  have m: "message_text (JStr text) = text" by (simp add: message_text.simps)
  have t: "texts_of 65 (option_lines text) = {a}" "texts_of 66 (option_lines text) = {b}"
    using prompt_options_Inr [OF assms(1)] by (simp_all add: m option_lines_agree [OF assms(2)])
  have f: "first_prompt_text [(key_prompt, JStr text)] = text"
    by (simp add: first_prompt_text_def dict_get_def prompt_text.simps
        key_question_def key_prompt_def key_input_def)
  have "dict_get [(key_prompt, JStr text)] key_option_a = JNull"
    by (simp add: dict_get_def key_option_a_def key_prompt_def)
  then show ?thesis
    using map_of_table [OF t(1)] map_of_table [OF t(2)]
    by (simp add: extract_ab_options_def options_from_prompt_def f)
qed

theorem tool_agrees_with_reward_witness:
  "extract_ab_options (JObj [(key_prompt, JStr (u ''Same?'' @ [10] @ u ''A. yes'' @ [10] @ u ''b) no''))])
     = Inr (u ''yes'', u ''no'')"
  by (rule tool_agrees_with_reward) code_simp+

text \<open>The tool also accepts parenthesised letters, which the reward does not read from a prompt:
  such a row can only be gated after the repair.\<close>

theorem parenthesised_needs_repair:
  "prompt_options (JStr (u ''(A) yes'' @ [10] @ u ''(B) no'')) = Inr (u ''yes'', u ''no'')
   \<and> extract_ab_options (JObj [(key_prompt, JStr (u ''(A) yes'' @ [10] @ u ''(B) no''))]) = Inl ValueError"
  by code_simp

end
