(* ===== verification/ParquetFix.thy ===== *)
theory ParquetFix
  imports OptionFix "HOL-Library.List_Lexorder" "HOL-Library.Word"
begin

text \<open>
  The file part of \<^verbatim>\<open>fix_parquet_extra_info_options.py\<close>: the target schema, the repair of a
  file row group by row group (\<open>process_file\<close>), the check of the written file
  (\<open>_verify_output\<close>), the search for the files and the transaction of \<open>main\<close>: every file is
  repaired into a temporary file first, then the originals are backed up, and only then are
  they replaced.

  Parquet files are pyarrow's: a schema, row groups of columns, a codec. Two things pyarrow
  does are parameters: \<open>arrow\<close>, the conversion of one Python value to the type of the column
  (\<open>pa.array\<close>, which may raise), and \<open>fails\<close>, which says what operations on the file system
  fail. Reading a written table gives the table back. The file system is a map from paths
  (lists of components) to files; a failing operation has no effect. Removing a temporary file does not
  fail in the model: that none is left holds as far as \<open>unlink\<close> succeeds.
\<close>

section \<open>Schemas\<close>

datatype ftype = TString | TLargeString | TStruct "field_t list" | TOther nat
and field_t = Field (fname: ustr) (ftype: ftype) (nullable: bool)

type_synonym schema = "field_t list"

datatype io_op =
    ReadFile "ustr list" | CreateFile "ustr list" | StatFile "ustr list" | Chmod "ustr list"
  | MakeDir "ustr list" | CopyFile "ustr list" | ReplaceFile "ustr list"

datatype fix_error =
    RowInvalid nat data_error
  | MissingColumns "ustr list"
  | ExtraNotStruct
  | OptionNotString ustr
  | ColumnLengths
  | ArrowError
  | RowsDiffer
  | StillMissing nat
  | BackupInside
  | BackupExists "ustr list list"
  | IOFailed io_op

definition key_extra_info :: ustr where
  "key_extra_info = u ''extra_info''"

definition key_data_source :: ustr where
  "key_data_source = u ''data_source''"

text \<open>\<open>schema.get_field_index(name)\<close>: \<open>None\<close> is -1, given for a missing and for an ambiguous name.\<close>

definition field_index :: "schema \<Rightarrow> ustr \<Rightarrow> nat option" where
  "field_index s name =
     (case filter (\<lambda>i. fname (s ! i) = name) [0..<length s] of [i] \<Rightarrow> Some i | _ \<Rightarrow> None)"

definition is_string_type :: "ftype \<Rightarrow> bool" where
  "is_string_type t \<longleftrightarrow> t = TString \<or> t = TLargeString"

definition option_fields :: "field_t list" where
  "option_fields = [Field key_option_a TString True, Field key_option_b TString True]"

text \<open>One of the two fields: appended when the struct has no field of that name, else it must be a
  string. The names are those of the struct as it was.\<close>

definition add_field :: "field_t list \<Rightarrow> field_t \<Rightarrow> field_t list \<Rightarrow> fix_error + field_t list" where
  "add_field old f acc =
     (case find (\<lambda>g. fname g = fname f) old of
        None \<Rightarrow> Inr (acc @ [f])
      | Some existing \<Rightarrow>
          if is_string_type (ftype existing) then Inr acc else Inl (OptionNotString (fname f)))"

definition target_schema :: "schema \<Rightarrow> fix_error + schema" where
  "target_schema s =
     (case field_index s key_extra_info of
        None \<Rightarrow> Inr (s @ [Field key_extra_info (TStruct option_fields) True])
      | Some i \<Rightarrow>
          (case ftype (s ! i) of
             TStruct old \<Rightarrow>
               bindE (add_field old (option_fields ! 0) old) (\<lambda>fs.
               bindE (add_field old (option_fields ! 1) fs) (\<lambda>fs'.
                 Inr (s[i := Field (fname (s ! i)) (TStruct fs') (nullable (s ! i))])))
           | _ \<Rightarrow> Inl ExtraNotStruct))"

section \<open>Row groups\<close>

record table =
  t_rows :: nat
  t_cols :: "(ustr \<times> json list) list"

record file_stats =
  rows :: nat
  gated_rows :: nat
  detection_rows :: nat
  added_rows :: nat
  already_present_rows :: nat

definition no_stats :: file_stats where
  "no_stats = \<lparr>rows = 0, gated_rows = 0, detection_rows = 0, added_rows = 0, already_present_rows = 0\<rparr>"

definition add_stats :: "file_stats \<Rightarrow> file_stats \<Rightarrow> file_stats" where
  "add_stats s t =
     \<lparr>rows = rows s + rows t, gated_rows = gated_rows s + gated_rows t,
      detection_rows = detection_rows s + detection_rows t,
      added_rows = added_rows s + added_rows t,
      already_present_rows = already_present_rows s + already_present_rows t\<rparr>"

definition count_status :: "row_status \<Rightarrow> file_stats \<Rightarrow> file_stats" where
  "count_status st s =
     (if st = Detection then s\<lparr>detection_rows := detection_rows s + 1\<rparr>
      else if st = Added then s\<lparr>gated_rows := gated_rows s + 1, added_rows := added_rows s + 1\<rparr>
      else s\<lparr>gated_rows := gated_rows s + 1, already_present_rows := already_present_rows s + 1\<rparr>)"

definition column :: "table \<Rightarrow> ustr \<Rightarrow> json list" where
  "column t name = (case map_of (t_cols t) name of Some vs \<Rightarrow> vs | None \<Rightarrow> [])"

text \<open>The rows of a group, from file row \<open>before + i\<close> on: the first invalid row is reported.\<close>

fun enrich_rows ::
  "nat \<Rightarrow> (json \<times> json \<times> json) list \<Rightarrow> file_stats \<Rightarrow> fix_error + json list \<times> file_stats" where
  "enrich_rows n [] stats = Inr ([], stats)"
| "enrich_rows n ((source, prompt, extra) # rest) stats =
     (case enrich_extra_info source prompt extra of
        Inl e \<Rightarrow> Inl (RowInvalid n e)
      | Inr (enriched, status) \<Rightarrow>
          bindE (enrich_rows (Suc n) rest (count_status status stats)) (\<lambda>(es, stats').
            Inr (enriched # es, stats')))"

definition zip_rows :: "table \<Rightarrow> bool \<Rightarrow> (json \<times> json \<times> json) list" where
  "zip_rows t has_extra =
     zip (column t key_data_source) (zip (column t key_prompt)
       (if has_extra then column t key_extra_info else replicate (t_rows t) JNull))"

text \<open>\<open>zip(..., strict=True)\<close>, \<open>pa.array\<close>, and \<open>set_column\<close> or \<open>append_column\<close>; the table then has
  the target schema, so the final cast keeps it.\<close>

definition enrich_table ::
  "(ftype \<Rightarrow> json \<Rightarrow> json option) \<Rightarrow> nat option \<Rightarrow> field_t \<Rightarrow> nat \<Rightarrow> table
     \<Rightarrow> fix_error + table \<times> file_stats" where
  "enrich_table arrow source_index target before t =
     (let missing = filter (\<lambda>c. c \<notin> set (map fst (t_cols t))) [key_data_source, key_prompt];
          extras = (if source_index \<noteq> None then column t key_extra_info
                    else replicate (t_rows t) JNull)
      in if missing \<noteq> [] then Inl (MissingColumns missing)
         else if length (column t key_data_source) \<noteq> length (column t key_prompt)
               \<or> length (column t key_prompt) \<noteq> length extras then Inl ColumnLengths
         else bindE (enrich_rows before (zip_rows t (source_index \<noteq> None))
                       (no_stats\<lparr>rows := t_rows t\<rparr>)) (\<lambda>(enriched, stats).
              case those (map (arrow (ftype target)) enriched) of
                None \<Rightarrow> Inl ArrowError
              | Some vs \<Rightarrow>
                  (case source_index of
                     None \<Rightarrow> Inr (t\<lparr>t_cols := t_cols t @ [(fname target, vs)]\<rparr>, stats)
                   | Some i \<Rightarrow> Inr (t\<lparr>t_cols := (t_cols t)[i := (fname target, vs)]\<rparr>, stats))))"

text \<open>The generator of \<open>_iter_enriched_row_groups\<close> and its consumer's \<open>total.add\<close>: the tables it
  has yielded, the tot, and the error that ended it.\<close>

fun enrich_groups ::
  "(ftype \<Rightarrow> json \<Rightarrow> json option) \<Rightarrow> nat option \<Rightarrow> field_t \<Rightarrow> nat \<Rightarrow> table list \<Rightarrow> file_stats
     \<Rightarrow> table list \<times> file_stats \<times> fix_error option" where
  "enrich_groups arrow src target before [] tot = ([], tot, None)"
| "enrich_groups arrow src target before (t # ts) tot =
     (case enrich_table arrow src target before t of
        Inl e \<Rightarrow> ([], tot, Some e)
      | Inr (t', stats) \<Rightarrow>
          (case enrich_groups arrow src target (before + t_rows t) ts (add_stats tot stats) of
             (ts', tot', err) \<Rightarrow> (t' # ts', tot', err)))"

section \<open>Files\<close>

record parquet =
  p_schema :: schema
  p_groups :: "table list"
  p_codec :: ustr

record pfile =
  f_data :: parquet
  f_mode :: nat

type_synonym path = "ustr list"
type_synonym fs = "path \<Rightarrow> pfile option"

text \<open>The codec of the written file: that of the first column of the first group.\<close>

definition compression_codec :: "parquet \<Rightarrow> ustr option" where
  "compression_codec p =
     (if p_groups p \<noteq> [] \<and> p_schema p \<noteq> []
      then (let codec = py_lower (p_codec p) in if codec = u ''uncompressed'' then None else Some codec)
      else Some (u ''snappy''))"

definition codec_name :: "ustr option \<Rightarrow> ustr" where
  "codec_name c = (case c of None \<Rightarrow> u ''UNCOMPRESSED'' | Some n \<Rightarrow> py_upper n)"

definition process_data ::
  "(ftype \<Rightarrow> json \<Rightarrow> json option) \<Rightarrow> parquet \<Rightarrow> schema \<Rightarrow> table list \<times> file_stats \<times> fix_error option" where
  "process_data arrow p target =
     (let i = field_index target key_extra_info;
          field = (case i of Some i \<Rightarrow> target ! i | None \<Rightarrow> last target)
      in enrich_groups arrow (field_index (p_schema p) key_extra_info) field 0 (p_groups p) no_stats)"

text \<open>
  \<open>process_file(path, output)\<close>: the writer is created after the schema has been accepted and is
  closed on every way out, so a failure leaves the groups written so far in the output.
\<close>

definition process_file ::
  "(ftype \<Rightarrow> json \<Rightarrow> json option) \<Rightarrow> (io_op \<Rightarrow> bool) \<Rightarrow> nat \<Rightarrow> path \<Rightarrow> path option \<Rightarrow> fs
     \<Rightarrow> fs \<times> (fix_error + file_stats)" where
  "process_file arrow fails new_mode path output fs =
     (case (if fails (ReadFile path) then None else fs path) of
        None \<Rightarrow> (fs, Inl (IOFailed (ReadFile path)))
      | Some f \<Rightarrow>
          (case target_schema (p_schema (f_data f)) of
             Inl e \<Rightarrow> (fs, Inl e)
           | Inr target \<Rightarrow>
               (case process_data arrow (f_data f) target of
                  (groups, tot, err) \<Rightarrow>
                    (case output of
                       None \<Rightarrow> (fs, case err of Some e \<Rightarrow> Inl e | None \<Rightarrow> Inr tot)
                     | Some out \<Rightarrow>
                         if fails (CreateFile out) then (fs, Inl (IOFailed (CreateFile out)))
                         else (fs(out \<mapsto> \<lparr>f_data = \<lparr>p_schema = target, p_groups = groups,
                                    p_codec = codec_name (compression_codec (f_data f))\<rparr>,
                                  f_mode = new_mode\<rparr>),
                               case err of Some e \<Rightarrow> Inl e | None \<Rightarrow> Inr tot)))))"

definition verify_output ::
  "(ftype \<Rightarrow> json \<Rightarrow> json option) \<Rightarrow> (io_op \<Rightarrow> bool) \<Rightarrow> path \<Rightarrow> file_stats \<Rightarrow> fs \<Rightarrow> fix_error option" where
  "verify_output arrow fails fixed expected fs =
     (case snd (process_file arrow fails 0 fixed None fs) of
        Inl e \<Rightarrow> Some e
      | Inr actual \<Rightarrow>
          if rows actual \<noteq> rows expected \<or> gated_rows actual \<noteq> gated_rows expected then Some RowsDiffer
          else if added_rows actual \<noteq> 0 then Some (StillMissing (added_rows actual))
          else None)"

section \<open>Finding the files\<close>

definition DATASET_NAMES :: "ustr list" where
  "DATASET_NAMES = map u [''consistent_qwen'', ''inconsistent_qwen'', ''detection_qwen'',
     ''consistent_all'', ''inconsistent_all'']"

text \<open>\<open>listing d\<close> gives the names in a directory, \<open>None\<close> when it is none.\<close>

definition discover_parquet_files ::
  "(path \<Rightarrow> ustr list option) \<Rightarrow> path \<Rightarrow> path list \<times> ustr list" where
  "discover_parquet_files listing data_root =
     (let missing = filter (\<lambda>n. listing (data_root @ [n]) = None) DATASET_NAMES;
          files = concat (map (\<lambda>n. case listing (data_root @ [n]) of
                     None \<Rightarrow> []
                   | Some names \<Rightarrow>
                       map (\<lambda>f. data_root @ [n, f]) (sort (filter (ends_with (u ''.parquet'')) names)))
                   DATASET_NAMES)
      in (sort (remdups files), missing))"

text \<open>\<open>uuid.uuid4().hex\<close>: the 32 hexadecimal digits of 128 bits.\<close>

definition uuid_hex :: "128 word \<Rightarrow> ustr" where
  "uuid_hex w = map (\<lambda>i. hex_digit (uint (drop_bit (4 * i) w) mod 16)) (rev [0..<32])"

definition temporary_path :: "(path \<Rightarrow> 128 word) \<Rightarrow> path \<Rightarrow> path" where
  "temporary_path uuid path =
     butlast path @ [u ''.'' @ last path @ u ''.option-fix-'' @ uuid_hex (uuid path) @ u ''.tmp'']"

section \<open>The transaction\<close>

text \<open>What the operations depend on: pyarrow's conversion, the failing operations, the mode of a
  new file, the temporary names.\<close>

record env =
  arrow :: "ftype \<Rightarrow> json \<Rightarrow> json option"
  fails :: "io_op \<Rightarrow> bool"
  new_mode :: nat
  tmp :: "path \<Rightarrow> path"

abbreviation process :: "env \<Rightarrow> path \<Rightarrow> path option \<Rightarrow> fs \<Rightarrow> fs \<times> (fix_error + file_stats)" where
  "process e \<equiv> process_file (arrow e) (fails e) (new_mode e)"

text \<open>The body of the loop with \<open>--apply\<close>; the result says whether the file is to be replaced.\<close>

definition prepare_one :: "env \<Rightarrow> path \<Rightarrow> fs \<Rightarrow> fs \<times> (fix_error + file_stats \<times> bool)" where
  "prepare_one e path fs =
     (let temporary = tmp e path in
      case process e path (Some temporary) fs of
        (fs1, Inl err) \<Rightarrow> (fs1(temporary := None), Inl err)
      | (fs1, Inr stats) \<Rightarrow>
          (case verify_output (arrow e) (fails e) temporary stats fs1 of
             Some err \<Rightarrow> (fs1(temporary := None), Inl err)
           | None \<Rightarrow>
               if added_rows stats = 0 then (fs1(temporary := None), Inr (stats, False))
               else if fails e (StatFile path)
               then (fs1(temporary := None), Inl (IOFailed (StatFile path)))
               else if fails e (Chmod temporary)
               then (fs1(temporary := None), Inl (IOFailed (Chmod temporary)))
               else (fs1(temporary \<mapsto> (the (fs1 temporary))\<lparr>f_mode := f_mode (the (fs1 path))\<rparr>),
                     Inr (stats, True))))"

fun prepare_files ::
  "env \<Rightarrow> path list \<Rightarrow> fs \<Rightarrow> file_stats \<Rightarrow> path list \<Rightarrow> fs \<times> path list \<times> (fix_error + file_stats)" where
  "prepare_files e [] fs sofar prepared = (fs, prepared, Inr sofar)"
| "prepare_files e (p # ps) fs sofar prepared =
     (case prepare_one e p fs of
        (fs1, Inl err) \<Rightarrow> (fs1, prepared, Inl err)
      | (fs1, Inr (stats, replace)) \<Rightarrow>
          prepare_files e ps fs1 (add_stats sofar stats) (if replace then prepared @ [p] else prepared))"

fun check_files :: "env \<Rightarrow> path list \<Rightarrow> fs \<Rightarrow> file_stats \<Rightarrow> fix_error + file_stats" where
  "check_files e [] fs sofar = Inr sofar"
| "check_files e (p # ps) fs sofar =
     bindE (snd (process e p None fs)) (\<lambda>stats. check_files e ps fs (add_stats sofar stats))"

definition destination :: "path \<Rightarrow> path \<Rightarrow> path \<Rightarrow> path" where
  "destination data_root backup_root p = backup_root @ drop (length data_root) p"

fun copy_files :: "env \<Rightarrow> (path \<Rightarrow> path) \<Rightarrow> path list \<Rightarrow> fs \<Rightarrow> fs \<times> fix_error option" where
  "copy_files e dest [] fs = (fs, None)"
| "copy_files e dest (p # ps) fs =
     (if fails e (MakeDir (butlast (dest p))) then (fs, Some (IOFailed (MakeDir (butlast (dest p)))))
      else if fails e (CopyFile p) then (fs, Some (IOFailed (CopyFile p)))
      else copy_files e dest ps (fs(dest p := fs p)))"

definition backup_files :: "env \<Rightarrow> path \<Rightarrow> path \<Rightarrow> path list \<Rightarrow> fs \<Rightarrow> fs \<times> fix_error option" where
  "backup_files e data_root backup_root prepared fs =
     (if take (length data_root) backup_root = data_root then (fs, Some BackupInside)
      else (let destinations = map (destination data_root backup_root) prepared;
                existing = filter (\<lambda>d. fs d \<noteq> None) destinations
            in if existing \<noteq> [] then (fs, Some (BackupExists existing))
               else copy_files e (destination data_root backup_root) prepared fs))"

fun replace_files :: "env \<Rightarrow> path list \<Rightarrow> fs \<Rightarrow> fs \<times> fix_error option" where
  "replace_files e [] fs = (fs, None)"
| "replace_files e (p # ps) fs =
     (if fails e (ReplaceFile p) then (fs, Some (IOFailed (ReplaceFile p)))
      else replace_files e ps (fs(p := fs (tmp e p), tmp e p := None)))"

text \<open>The outer \<open>except Exception\<close>: every prepared temporary file that still exists is removed.\<close>

definition drop_temporaries :: "env \<Rightarrow> path list \<Rightarrow> fs \<Rightarrow> fs" where
  "drop_temporaries e prepared fs = (\<lambda>q. if q \<in> tmp e ` set prepared then None else fs q)"

definition apply_fix ::
  "env \<Rightarrow> path \<Rightarrow> path option \<Rightarrow> path list \<Rightarrow> fs \<Rightarrow> fs \<times> (fix_error + file_stats)" where
  "apply_fix e data_root backup_dir files fs =
     (case prepare_files e files fs no_stats [] of
        (fs1, prepared, Inl err) \<Rightarrow> (drop_temporaries e prepared fs1, Inl err)
      | (fs1, prepared, Inr sofar) \<Rightarrow>
          (case (case backup_dir of None \<Rightarrow> (fs1, None)
                 | Some backup_root \<Rightarrow> backup_files e data_root backup_root prepared fs1) of
             (fs2, Some err) \<Rightarrow> (drop_temporaries e prepared fs2, Inl err)
           | (fs2, None) \<Rightarrow>
               (case replace_files e prepared fs2 of
                  (fs3, Some err) \<Rightarrow> (drop_temporaries e prepared fs3, Inl err)
                | (fs3, None) \<Rightarrow> (fs3, Inr sofar))))"

datatype fix_outcome =
    BackupWithoutApply
  | NoDataRoot
  | MissingDatasets "ustr list"
  | NoFiles
  | Raised fix_error
  | Done file_stats

record fix_args =
  data_root :: path
  apply_it :: bool
  backup_dir :: "path option"
  allow_missing :: bool

definition fix_main ::
  "env \<Rightarrow> (path \<Rightarrow> ustr list option) \<Rightarrow> fix_args \<Rightarrow> fs \<Rightarrow> fs \<times> fix_outcome" where
  "fix_main e listing args fs =
     (if backup_dir args \<noteq> None \<and> \<not> apply_it args then (fs, BackupWithoutApply)
      else if listing (data_root args) = None then (fs, NoDataRoot)
      else (case discover_parquet_files listing (data_root args) of
              (files, missing) \<Rightarrow>
                if missing \<noteq> [] \<and> \<not> allow_missing args then (fs, MissingDatasets missing)
                else if files = [] then (fs, NoFiles)
                else if apply_it args
                then (case apply_fix e (data_root args) (backup_dir args) files fs of
                        (fs', Inl err) \<Rightarrow> (fs', Raised err)
                      | (fs', Inr sofar) \<Rightarrow> (fs', Done sofar))
                else (case check_files e files fs no_stats of
                        Inl err \<Rightarrow> (fs, Raised err)
                      | Inr sofar \<Rightarrow> (fs, Done sofar))))"

section \<open>Temporary names\<close>

text \<open>The interface the transaction rests on: the temporary names of different originals differ,
  and none is the name of an original.\<close>

locale staging =
  fixes name_of :: "path \<Rightarrow> path" and original :: "path \<Rightarrow> bool"
  assumes name_inj: "original p \<Longrightarrow> original q \<Longrightarrow> name_of p = name_of q \<Longrightarrow> p = q"
    and name_apart: "original p \<Longrightarrow> original q \<Longrightarrow> name_of p \<noteq> q"
begin

lemma inj_on_originals: "Ball (set ps) original \<Longrightarrow> inj_on name_of (set ps)"
  using name_inj by (auto intro: inj_onI)

lemma image_apart: "Ball (set ps) original \<Longrightarrow> original q \<Longrightarrow> q \<notin> name_of ` set ps"
  using name_apart by auto

lemma image_mem:
  "Ball (set ps) original \<Longrightarrow> original p \<Longrightarrow> name_of p \<in> name_of ` set ps \<longleftrightarrow> p \<in> set ps"
  using name_inj by auto

end

definition parquet_path :: "path \<Rightarrow> bool" where
  "parquet_path p \<longleftrightarrow> p \<noteq> [] \<and> ends_with (u ''.parquet'') (last p)"

lemma length_uuid_hex [simp]: "length (uuid_hex w) = 32"
  by (simp add: uuid_hex_def)

lemma temporary_path_inj:
  assumes "p \<noteq> []" and "q \<noteq> []" and "temporary_path uuid p = temporary_path uuid q"
  shows "p = q"
proof -
  have "butlast p = butlast q" and "last p = last q"
    using assms(3) by (auto simp: temporary_path_def)
  then show ?thesis using assms(1,2) by (metis append_butlast_last_id)
qed

lemma temporary_not_parquet: "\<not> parquet_path (temporary_path uuid p)"
proof
  assume "parquet_path (temporary_path uuid p)"
  then obtain t where "u ''.'' @ last p @ u ''.option-fix-'' @ uuid_hex (uuid p) @ u ''.tmp'' = t @ u ''.parquet''"
    by (auto simp: parquet_path_def temporary_path_def ends_with_append)
  then have "rev (u ''.tmp'') @ rev (u ''.'' @ last p @ u ''.option-fix-'' @ uuid_hex (uuid p))
      = rev (u ''.parquet'') @ rev t"
    by (metis append.assoc rev_append)
  then show False by (simp add: u_def)
qed

interpretation parquet_staging: staging "temporary_path uuid" parquet_path
proof
  show "temporary_path uuid p = temporary_path uuid q \<Longrightarrow> p = q"
    if "parquet_path p" "parquet_path q" for p q
    using that temporary_path_inj by (simp add: parquet_path_def)
  show "temporary_path uuid p \<noteq> q" if "parquet_path q" for p q
    using that temporary_not_parquet by auto
qed

lemma discovered:
  assumes "p \<in> set (fst (discover_parquet_files listing root'))"
  shows "parquet_path p \<and> take (length root') p = root' \<and> length p = length root' + 2"
  using assms by (auto simp: discover_parquet_files_def Let_def parquet_path_def split: option.splits)

lemma discovered_distinct: "distinct (fst (discover_parquet_files listing root'))"
  by (simp add: discover_parquet_files_def Let_def)

section \<open>Processing one file\<close>

definition repaired :: "env \<Rightarrow> pfile \<Rightarrow> pfile \<Rightarrow> bool" where
  "repaired e f g \<longleftrightarrow>
     (\<exists>target groups stats.
        target_schema (p_schema (f_data f)) = Inr target
        \<and> process_data (arrow e) (f_data f) target = (groups, stats, None) \<and> added_rows stats \<noteq> 0
        \<and> f_data g = \<lparr>p_schema = target, p_groups = groups,
                      p_codec = codec_name (compression_codec (f_data f))\<rparr>
        \<and> f_mode g = f_mode f)"

lemma process_none_fs: "fst (process_file ar fl m p None fs) = fs"
  by (auto simp: process_file_def split: option.splits sum.splits prod.splits)

lemma process_frame:
  "process_file ar fl m p (Some out) fs = (fs', r) \<Longrightarrow> q \<noteq> out \<Longrightarrow> fs' q = fs q"
  by (auto simp: process_file_def split: option.splits sum.splits prod.splits if_splits)

lemma process_written:
  assumes "process_file ar fl m p (Some out) fs = (fs', Inr stats)"
  shows "\<exists>f target groups. fs p = Some f \<and> target_schema (p_schema (f_data f)) = Inr target
    \<and> process_data ar (f_data f) target = (groups, stats, None)
    \<and> fs' = fs(out \<mapsto> \<lparr>f_data = \<lparr>p_schema = target, p_groups = groups,
          p_codec = codec_name (compression_codec (f_data f))\<rparr>, f_mode = m\<rparr>)"
  using assms
  by (auto simp: process_file_def split: option.splits sum.splits prod.splits if_splits)

text \<open>A file is only read through its contents: neither its path nor its mode matter, beyond
  whether the read succeeds.\<close>

lemma process_read:
  "snd (process_file ar fl m p None fs) = Inr stats \<longleftrightarrow>
     (\<not> fl (ReadFile p) \<and> (\<exists>f target groups. fs p = Some f \<and> target_schema (p_schema (f_data f)) = Inr target
        \<and> process_data ar (f_data f) target = (groups, stats, None)))"
  by (auto simp: process_file_def split: option.splits sum.splits prod.splits)

text \<open>The contents of a complete file: read again, no row is missing its options.\<close>

definition up_to_date :: "env \<Rightarrow> pfile \<Rightarrow> bool" where
  "up_to_date e f \<longleftrightarrow>
     (\<exists>target groups stats. target_schema (p_schema (f_data f)) = Inr target
        \<and> process_data (arrow e) (f_data f) target = (groups, stats, None) \<and> added_rows stats = 0)"

lemma verify_up_to_date:
  assumes "verify_output (arrow e) (fails e) t expected fs = None"
  shows "\<exists>f. fs t = Some f \<and> up_to_date e f"
proof -
  obtain actual where a: "snd (process_file (arrow e) (fails e) 0 t None fs) = Inr actual"
    and z: "added_rows actual = 0"
    using assms by (auto simp: verify_output_def split: sum.splits if_splits)
  show ?thesis
    using iffD1 [OF process_read a] z by (auto simp: up_to_date_def)
qed

lemma prepare_one_frame: "prepare_one e p fs = (fs', r) \<Longrightarrow> q \<noteq> tmp e p \<Longrightarrow> fs' q = fs q"
  by (auto simp: prepare_one_def Let_def dest: process_frame
      split: prod.splits sum.splits option.splits if_splits)

lemma prepare_one_dropped:
  "prepare_one e p fs = (fs', r) \<Longrightarrow> \<forall>stats. r \<noteq> Inr (stats, True) \<Longrightarrow> fs' (tmp e p) = None"
  by (auto simp: prepare_one_def Let_def split: prod.splits sum.splits option.splits if_splits)

lemma prepare_one_staged:
  assumes "prepare_one e p fs = (fs', Inr (stats, True))" and "tmp e p \<noteq> p"
  shows "\<exists>f g. fs p = Some f \<and> fs' (tmp e p) = Some g \<and> repaired e f g \<and> up_to_date e g"
proof -
  obtain fs1 where r: "process e p (Some (tmp e p)) fs = (fs1, Inr stats)"
    and v: "verify_output (arrow e) (fails e) (tmp e p) stats fs1 = None"
    and n: "added_rows stats \<noteq> 0"
    and fs': "fs' = fs1(tmp e p \<mapsto> (the (fs1 (tmp e p)))\<lparr>f_mode := f_mode (the (fs1 p))\<rparr>)"
    using assms(1)
    by (auto simp: prepare_one_def Let_def split: prod.splits sum.splits option.splits if_splits)
  obtain f target groups where f: "fs p = Some f" "target_schema (p_schema (f_data f)) = Inr target"
    "process_data (arrow e) (f_data f) target = (groups, stats, None)"
    and fs1: "fs1 = fs(tmp e p \<mapsto> \<lparr>f_data = \<lparr>p_schema = target, p_groups = groups,
          p_codec = codec_name (compression_codec (f_data f))\<rparr>, f_mode = new_mode e\<rparr>)"
    using process_written [OF r] by blast
  obtain g where g: "fs1 (tmp e p) = Some g" "up_to_date e g"
    using verify_up_to_date [OF v] by blast
  have p: "fs1 p = Some f" using assms(2) f(1) by (simp add: fs1)
  have "up_to_date e (g\<lparr>f_mode := f_mode f\<rparr>)" using g(2) by (simp add: up_to_date_def)
  moreover have "repaired e f (g\<lparr>f_mode := f_mode f\<rparr>)"
    using f n g(1) by (auto simp: repaired_def fs1)
  ultimately show ?thesis using f(1) g(1) p by (auto simp: fs')
qed

lemma prepare_one_kept:
  assumes "prepare_one e p fs = (fs', Inr (stats, False))"
  shows "\<exists>f. fs p = Some f \<and> up_to_date e f"
proof -
  obtain fs1 where r: "process e p (Some (tmp e p)) fs = (fs1, Inr stats)"
    and z: "added_rows stats = 0"
    using assms
    by (auto simp: prepare_one_def Let_def split: prod.splits sum.splits option.splits if_splits)
  show ?thesis using process_written [OF r] z by (auto simp: up_to_date_def)
qed

section \<open>The transaction\<close>

text \<open>What holds while the files are prepared: outside the temporary names nothing has changed, the
  temporary file of a prepared original holds its repair, and no other temporary file is left.\<close>

definition staged :: "env \<Rightarrow> path list \<Rightarrow> fs \<Rightarrow> fs \<Rightarrow> path list \<Rightarrow> bool" where
  "staged e files fs0 fs prepared \<longleftrightarrow>
     set prepared \<subseteq> set files
     \<and> (\<forall>q. q \<notin> tmp e ` set files \<longrightarrow> fs q = fs0 q)
     \<and> (\<forall>p \<in> set prepared. \<exists>f g. fs0 p = Some f \<and> fs (tmp e p) = Some g \<and> repaired e f g \<and> up_to_date e g)
     \<and> (\<forall>p \<in> set files - set prepared. fs (tmp e p) = None)"

context staging
begin

lemma staged_keeps:
  assumes "Ball (set files) original" and "staged e files fs0 fs prepared" and "original q"
    and "tmp e = name_of"
  shows "fs q = fs0 q"
  using assms image_apart by (simp add: staged_def)

lemma prepare_one_staged_step:
  assumes t: "tmp e = name_of" and o: "Ball (set files) original" and p: "p \<in> set files"
    and s: "staged e files fs0 fs prepared" and n: "p \<notin> set prepared"
    and r: "prepare_one e p fs = (fs', r)"
  shows "(\<forall>stats. r = Inr (stats, True) \<longrightarrow> staged e files fs0 fs' (prepared @ [p]))
    \<and> ((\<forall>stats. r \<noteq> Inr (stats, True)) \<longrightarrow> staged e files fs0 fs' prepared)
    \<and> (\<forall>stats. r = Inr (stats, False) \<longrightarrow> (\<exists>f. fs0 p = Some f \<and> up_to_date e f))"
proof -
  have op: "original p" using o p by blast
  have apart: "tmp e p \<noteq> q" if "q \<in> set files" for q using name_apart op o that by (simp add: t)
  have fp: "fs p = fs0 p" using staged_keeps [OF o s op t] .
  have fr: "q \<noteq> tmp e p \<Longrightarrow> fs' q = fs q" for q using prepare_one_frame [OF r] .
  have other: "tmp e p' \<noteq> tmp e p" if "p' \<in> set files" "p' \<noteq> p" for p'
    using that o op name_inj by (auto simp: t)
  have outside: "\<forall>q. q \<notin> tmp e ` set files \<longrightarrow> fs' q = fs0 q"
  proof (intro allI impI)
    fix q assume q: "q \<notin> tmp e ` set files"
    then have "q \<noteq> tmp e p" using p by blast
    then show "fs' q = fs0 q" using s fr q by (simp add: staged_def)
  qed
  have kept: "\<forall>p' \<in> set prepared. \<exists>f g. fs0 p' = Some f \<and> fs' (tmp e p') = Some g \<and> repaired e f g \<and> up_to_date e g"
    using s n fr other by (auto simp: staged_def subset_iff) (metis)
  have none: "\<forall>p' \<in> set files - set prepared - {p}. fs' (tmp e p') = None"
    using s fr other by (auto simp: staged_def)
  show ?thesis
  proof (intro conjI allI impI)
    fix stats assume "r = Inr (stats, True)"
    then show "staged e files fs0 fs' (prepared @ [p])"
      using prepare_one_staged [of e p fs fs' stats] r apart [OF p] fp outside kept none s p
      by (auto simp: staged_def)
  next
    assume "\<forall>stats. r \<noteq> Inr (stats, True)"
    then have "fs' (tmp e p) = None" using prepare_one_dropped [OF r] by simp
    then show "staged e files fs0 fs' prepared"
      using outside kept none s unfolding staged_def by blast
  next
    fix stats assume "r = Inr (stats, False)"
    then show "\<exists>f. fs0 p = Some f \<and> up_to_date e f" using prepare_one_kept r fp by metis
  qed
qed

lemma prepare_files_staged:
  assumes "tmp e = name_of" and "Ball (set files) original" and "set ps \<subseteq> set files" and "distinct ps"
    and "staged e files fs0 fs prepared" and "set ps \<inter> set prepared = {}"
    and "prepare_files e ps fs sofar prepared = (fs', prepared', r)"
  shows "staged e files fs0 fs' prepared' \<and> set prepared \<subseteq> set prepared' \<and> set prepared' \<subseteq> set prepared \<union> set ps
    \<and> (\<forall>stats. r = Inr stats \<longrightarrow> (\<forall>p \<in> set ps - set prepared'. \<exists>f. fs0 p = Some f \<and> up_to_date e f))"
  using assms
proof (induction ps arbitrary: fs sofar prepared)
  case Nil
  then show ?case by simp
next
  case (Cons p ps)
  obtain fs1 r1 where one: "prepare_one e p fs = (fs1, r1)" by (cases "prepare_one e p fs")
  have pm: "p \<in> set files" "p \<notin> set prepared" using Cons.prems by auto
  note step = prepare_one_staged_step [OF Cons.prems(1,2) pm(1) Cons.prems(5) pm(2) one]
  show ?case
  proof (cases r1)
    case (Inl err)
    then show ?thesis using Cons.prems step one by auto
  next
    case (Inr sr)
    obtain stats replace where sr: "sr = (stats, replace)" by (cases sr)
    define prep1 where "prep1 = (if replace then prepared @ [p] else prepared)"
    have s1: "staged e files fs0 fs1 prep1" using step Inr sr by (cases replace) (auto simp: prep1_def)
    have run: "prepare_files e ps fs1 (add_stats sofar stats) prep1 = (fs', prepared', r)"
      using Cons.prems(7) one Inr sr by (simp add: prep1_def)
    have "set ps \<inter> set prep1 = {}" using Cons.prems(4,6) by (auto simp: prep1_def)
    note ih = Cons.IH [OF Cons.prems(1,2) _ _ s1 this run]
    have ih': "staged e files fs0 fs' prepared' \<and> set prep1 \<subseteq> set prepared' \<and> set prepared' \<subseteq> set prep1 \<union> set ps
      \<and> (\<forall>stats. r = Inr stats \<longrightarrow> (\<forall>p \<in> set ps - set prepared'. \<exists>f. fs0 p = Some f \<and> up_to_date e f))"
      using ih Cons.prems(3,4) by simp
    have "p \<in> set prepared' \<or> (\<exists>f. fs0 p = Some f \<and> up_to_date e f)"
      using ih' step Inr sr by (cases replace) (auto simp: prep1_def)
    then show ?thesis using ih' by (auto simp: prep1_def split: if_splits)
  qed
qed

end

text \<open>Copies change nothing but their destinations, and replacing changes an original and removes
  its temporary file, one file at a time.\<close>

lemma copy_files_frame:
  "copy_files e dest ps fs = (fs', err) \<Longrightarrow> q \<notin> dest ` set ps \<Longrightarrow> fs' q = fs q"
  by (induction ps arbitrary: fs) (auto split: if_splits)

lemma copy_files_error:
  "copy_files e dest ps fs = (fs', Some err) \<Longrightarrow> \<exists>x. err = IOFailed x \<and> (\<forall>p. x \<noteq> ReplaceFile p)"
  by (induction ps arbitrary: fs) (auto split: if_splits)

lemma copy_files_done:
  assumes "copy_files e dest ps fs = (fs', None)" and "inj_on dest (set ps)"
    and "\<forall>p \<in> set ps. p \<notin> dest ` set ps" and "p \<in> set ps" and "distinct ps"
  shows "fs' (dest p) = fs p"
  using assms
proof (induction ps arbitrary: fs)
  case (Cons a ps)
  have run: "copy_files e dest ps (fs(dest a := fs a)) = (fs', None)"
    using Cons.prems(1) by (auto split: if_splits)
  show ?case
  proof (cases "p = a")
    case True
    have "dest a \<notin> dest ` set ps" using Cons.prems(2,5) by (auto simp: inj_on_def)
    then show ?thesis using copy_files_frame [OF run] True by simp
  next
    case False
    have "fs' (dest p) = (fs(dest a := fs a)) p"
      by (rule Cons.IH [OF run]) (use Cons.prems False in \<open>auto simp: inj_on_def\<close>)
    then show ?thesis using Cons.prems(3,4) by auto
  qed
qed simp

lemma replace_files_frame:
  "replace_files e ps fs = (fs', err) \<Longrightarrow> q \<notin> set ps \<union> tmp e ` set ps \<Longrightarrow> fs' q = fs q"
  by (induction ps arbitrary: fs) (auto split: if_splits)

lemma replace_files_each:
  assumes "replace_files e ps fs = (fs', err)" and "inj_on (tmp e) (set ps)"
    and "set ps \<inter> tmp e ` set ps = {}" and "distinct ps" and "p \<in> set ps"
  shows "(fs' p = fs p \<and> fs' (tmp e p) = fs (tmp e p) \<and> err \<noteq> None)
    \<or> (fs' p = fs (tmp e p) \<and> fs' (tmp e p) = None)"
  using assms
proof (induction ps arbitrary: fs)
  case (Cons a ps)
  show ?case
  proof (cases "fails e (ReplaceFile a)")
    case True
    then show ?thesis using Cons.prems(1) by auto
  next
    case False
    define fs1 where "fs1 = fs(a := fs (tmp e a), tmp e a := None)"
    have run: "replace_files e ps fs1 = (fs', err)" using Cons.prems(1) False by (simp add: fs1_def)
    have na: "a \<noteq> tmp e a" using Cons.prems(3) by auto
    show ?thesis
    proof (cases "p = a")
      case True
      have "a \<notin> set ps \<union> tmp e ` set ps" "tmp e a \<notin> set ps \<union> tmp e ` set ps"
        using Cons.prems(2-4) by (auto simp: inj_on_def)
      then show ?thesis
        using replace_files_frame [OF run] True na by (simp add: fs1_def)
    next
      case False
      have "(fs' p = fs1 p \<and> fs' (tmp e p) = fs1 (tmp e p) \<and> err \<noteq> None)
        \<or> (fs' p = fs1 (tmp e p) \<and> fs' (tmp e p) = None)"
        by (rule Cons.IH [OF run]) (use Cons.prems False in \<open>auto simp: inj_on_def\<close>)
      moreover have "fs1 p = fs p" "fs1 (tmp e p) = fs (tmp e p)"
        using Cons.prems(2-5) False by (auto simp: fs1_def inj_on_def)
      ultimately show ?thesis by simp
    qed
  qed
qed simp

lemma replace_files_error:
  "replace_files e ps fs = (fs', Some err) \<Longrightarrow> \<exists>p \<in> set ps. err = IOFailed (ReplaceFile p)"
  by (induction ps arbitrary: fs) (auto split: if_splits)

text \<open>Backups are apart from the originals and from the temporary files.\<close>

definition under :: "path \<Rightarrow> path \<Rightarrow> bool" where
  "under dir p \<longleftrightarrow> length p = length dir + 2 \<and> take (length dir) p = dir"

lemma under_temporary: "under dir p \<Longrightarrow> under dir (temporary_path uuid p)"
  by (simp add: under_def temporary_path_def take_butlast)

lemma destination_apart:
  assumes "under dir p" and "under dir q" and "take (length dir) backup_root \<noteq> dir"
  shows "destination dir backup_root p \<noteq> q"
proof
  assume e: "destination dir backup_root p = q"
  then have "length backup_root = length dir"
    using assms(1,2) by (auto simp: under_def destination_def)
  then have "take (length dir) q = take (length dir) backup_root"
    by (simp add: destination_def flip: e)
  then show False using assms(2,3) by (simp add: under_def)
qed

lemma destination_inj:
  "under dir p \<Longrightarrow> under dir q \<Longrightarrow> destination dir b p = destination dir b q \<Longrightarrow> p = q"
  by (metis append_take_drop_id destination_def same_append_eq under_def)

text \<open>The parts of a run with \<open>--apply\<close>, on the files below the data root.\<close>

definition fix_ready :: "env \<Rightarrow> (path \<Rightarrow> 128 word) \<Rightarrow> path \<Rightarrow> path list \<Rightarrow> fs \<Rightarrow> bool" where
  "fix_ready e uuid dir files fs \<longleftrightarrow>
     tmp e = temporary_path uuid \<and> distinct files
     \<and> (\<forall>p \<in> set files. parquet_path p \<and> under dir p \<and> fs (tmp e p) = None)"

lemma ready_staged:
  assumes r: "fix_ready e uuid dir files fs" and run: "prepare_files e files fs no_stats [] = (fs1, prepared, res)"
  shows "staged e files fs fs1 prepared
    \<and> (\<forall>stats. res = Inr stats \<longrightarrow> (\<forall>p \<in> set files - set prepared. \<exists>f. fs p = Some f \<and> up_to_date e f))"
proof -
  have b: "Ball (set files) parquet_path" "tmp e = temporary_path uuid" "distinct files"
    using r by (auto simp: fix_ready_def)
  have s: "staged e files fs fs []" using r by (auto simp: staged_def fix_ready_def)
  show ?thesis
    using parquet_staging.prepare_files_staged [OF b(2,1) subset_refl b(3) s _ run] by simp
qed

lemma drop_temporaries_staged:
  assumes "staged e files fs fs1 prepared" and "p \<in> set files"
  shows "drop_temporaries e prepared fs1 (tmp e p) = None"
  using assms by (auto simp: drop_temporaries_def staged_def)

text \<open>After the backup the staged state is as before, and every prepared original has its copy.\<close>

lemma backup_step:
  assumes r: "fix_ready e uuid dir files fs" and s: "staged e files fs fs1 prepared"
    and d: "distinct prepared"
    and run: "backup_files e dir b prepared fs1 = (fs2, err)"
  shows "(\<forall>p \<in> set files. fs2 p = fs p \<and> fs2 (tmp e p) = fs1 (tmp e p))
    \<and> (err = None \<longrightarrow> (\<forall>p \<in> set prepared. fs2 (destination dir b p) = fs p
        \<and> destination dir b p \<notin> set files \<union> tmp e ` set files))"
proof -
  have files: "under dir p" "under dir (tmp e p)" "parquet_path p" if "p \<in> set files" for p
    using r that under_temporary by (auto simp: fix_ready_def)
  have prep: "p \<in> set files" if "p \<in> set prepared" for p using s that by (auto simp: staged_def)
  have keep: "fs1 p = fs p" if "p \<in> set files" for p
    using parquet_staging.staged_keeps [of files e fs fs1 prepared p uuid] r s that by (auto simp: fix_ready_def)
  show ?thesis
  proof (cases "take (length dir) b = dir \<or> (\<exists>q \<in> set prepared. fs1 (destination dir b q) \<noteq> None)")
    case True
    then have "fs2 = fs1 \<and> err \<noteq> None"
      using run by (auto simp: backup_files_def Let_def filter_empty_conv split: if_splits)
    then show ?thesis using keep by auto
  next
    case False
    then have copy: "copy_files e (destination dir b) prepared fs1 = (fs2, err)"
      using run by (auto simp: backup_files_def Let_def filter_empty_conv split: if_splits)
    have apart: "destination dir b q \<noteq> p" "destination dir b q \<noteq> tmp e p"
      if "q \<in> set prepared" "p \<in> set files" for p q
      using destination_apart False files prep that by metis+
    have fr: "fs2 x = fs1 x" if "x \<notin> destination dir b ` set prepared" for x
      using copy_files_frame [OF copy that] .
    have self_apart: "\<forall>p \<in> set prepared. p \<notin> destination dir b ` set prepared"
      using apart prep by blast
    have inj: "inj_on (destination dir b) (set prepared)"
      using destination_inj files prep by (metis inj_onI)
    have "fs2 (destination dir b p) = fs1 p" if "err = None" "p \<in> set prepared" for p
      by (rule copy_files_done [OF _ inj self_apart that(2) d]) (use copy that in simp)
    moreover have "fs2 p = fs p" "fs2 (tmp e p) = fs1 (tmp e p)" if "p \<in> set files" for p
    proof -
      have "p \<notin> destination dir b ` set prepared" "tmp e p \<notin> destination dir b ` set prepared"
        using apart that by (metis imageE)+
      then show "fs2 p = fs p" "fs2 (tmp e p) = fs1 (tmp e p)" using fr keep that by auto
    qed
    moreover have "destination dir b p \<notin> set files \<union> tmp e ` set files" if "p \<in> set prepared" for p
      using apart that by blast
    ultimately show ?thesis using keep prep by simp
  qed
qed

text \<open>The outcome of the whole transaction, for each of the files.\<close>

lemma prepared_distinct:
  "prepare_files e ps fs sofar prepared = (fs', prepared', r) \<Longrightarrow> distinct (prepared @ ps) \<Longrightarrow> distinct prepared'"
proof (induction ps arbitrary: fs sofar prepared)
  case (Cons p ps)
  then show ?case
    by (auto split: prod.splits sum.splits if_splits)
qed simp

definition file_outcome :: "env \<Rightarrow> path \<Rightarrow> path option \<Rightarrow> fs \<Rightarrow> fs \<Rightarrow> path \<Rightarrow> bool" where
  "file_outcome e dir backup fs fs' p \<longleftrightarrow>
     fs' (tmp e p) = None
     \<and> (fs' p = fs p
        \<or> (\<exists>f g. fs p = Some f \<and> fs' p = Some g \<and> repaired e f g \<and> up_to_date e g
             \<and> (\<forall>b. backup = Some b \<longrightarrow> fs' (destination dir b p) = fs p)))"

lemma replace_step:
  assumes r: "fix_ready e uuid dir files fs" and s: "staged e files fs fs1 prepared"
    and d: "distinct prepared" and p: "p \<in> set files"
    and same: "\<forall>p \<in> set files. fs2 p = fs p \<and> fs2 (tmp e p) = fs1 (tmp e p)"
    and copies: "\<forall>b. backup = Some b \<longrightarrow> (\<forall>p \<in> set prepared. fs2 (destination dir b p) = fs p
        \<and> destination dir b p \<notin> set files \<union> tmp e ` set files)"
    and run: "replace_files e prepared fs2 = (fs3, err)"
  shows "file_outcome e dir backup fs (drop_temporaries e prepared fs3) p
    \<and> (err = None \<longrightarrow> fs3 = drop_temporaries e prepared fs3)
    \<and> (err = None \<and> p \<in> set prepared \<longrightarrow> (\<exists>g. fs3 p = Some g \<and> up_to_date e g))
    \<and> (p \<notin> set prepared \<longrightarrow> drop_temporaries e prepared fs3 p = fs p)"
proof -
  have t: "tmp e = temporary_path uuid" and o: "Ball (set files) parquet_path"
    using r by (auto simp: fix_ready_def)
  have prep: "set prepared \<subseteq> set files" using s by (simp add: staged_def)
  have po: "Ball (set prepared) parquet_path" using o prep by blast
  have inj: "inj_on (tmp e) (set prepared)"
    using parquet_staging.inj_on_originals [OF po] by (simp add: t)
  have apart: "x \<notin> tmp e ` set prepared" if "x \<in> set files" for x
    using parquet_staging.image_apart [OF po] o that by (auto simp: t)
  have "set prepared \<inter> tmp e ` set prepared = {}" using apart prep by blast
  note each = replace_files_each [OF run inj this d]
  note frame = replace_files_frame [OF run]
  have mem: "tmp e x \<in> tmp e ` set prepared \<longleftrightarrow> x \<in> set prepared" if "x \<in> set files" for x
    using parquet_staging.image_mem [OF po] o that by (auto simp: t)
  have drop: "drop_temporaries e prepared fs3 x = fs3 x" if "x \<notin> tmp e ` set prepared" for x
    using that by (simp add: drop_temporaries_def)
  have not_file: "tmp e x \<notin> set files" if "x \<in> set files" for x
    using temporary_not_parquet o by (auto simp: t)
  show ?thesis
  proof (cases "p \<in> set prepared")
    case False
    have "fs3 p = fs p" using frame [of p] False apart [OF p] same p by simp
    moreover have "fs3 (tmp e p) = None"
      using frame [of "tmp e p"] mem [OF p] False not_file [OF p] prep same p s by (auto simp: staged_def)
    moreover have "err = None \<longrightarrow> fs3 = drop_temporaries e prepared fs3"
      using each by (auto simp: drop_temporaries_def fun_eq_iff)
    ultimately show ?thesis
      using False drop [OF apart [OF p]] drop [of "tmp e p"] mem [OF p] by (simp add: file_outcome_def)
  next
    case True
    obtain f g where fg: "fs p = Some f" "fs1 (tmp e p) = Some g" "repaired e f g" "up_to_date e g"
      using s True by (auto simp: staged_def)
    have dest: "drop_temporaries e prepared fs3 (destination dir b p) = fs p" if "backup = Some b" for b
    proof -
      have n: "destination dir b p \<notin> set files \<union> tmp e ` set files" "fs2 (destination dir b p) = fs p"
        using copies that True by auto
      then have "destination dir b p \<notin> set prepared" "destination dir b p \<notin> tmp e ` set prepared"
        using prep by blast+
      then show ?thesis
        using frame [of "destination dir b p"] drop [of "destination dir b p"] n(2) by simp
    qed
    have gone: "drop_temporaries e prepared fs3 (tmp e p) = None"
      using True by (simp add: drop_temporaries_def)
    have all: "err = None \<longrightarrow> fs3 = drop_temporaries e prepared fs3"
      using each by (auto simp: drop_temporaries_def fun_eq_iff)
    have "fs3 p = fs p \<and> err \<noteq> None \<or> fs3 p = Some g"
      using each [OF True] same p fg by auto
    then show ?thesis
      using fg dest gone all drop [OF apart [OF p]] True by (auto simp: file_outcome_def)
  qed
qed

lemma apply_fix_outcome:
  assumes r: "fix_ready e uuid dir files fs" and p: "p \<in> set files"
    and run: "apply_fix e dir backup files fs = (fs', res)"
  shows "file_outcome e dir backup fs fs' p
    \<and> (\<forall>err. res = Inl err \<longrightarrow> (\<forall>q. err \<noteq> IOFailed (ReplaceFile q)) \<longrightarrow> fs' p = fs p)
    \<and> (\<forall>stats. res = Inr stats \<longrightarrow> (\<exists>g. fs' p = Some g \<and> up_to_date e g))"
proof -
  obtain fs1 prepared res1 where prep: "prepare_files e files fs no_stats [] = (fs1, prepared, res1)"
    using prod_cases3 by blast
  have s: "staged e files fs fs1 prepared"
    and kept: "\<forall>stats. res1 = Inr stats \<longrightarrow> (\<forall>p \<in> set files - set prepared. \<exists>f. fs p = Some f \<and> up_to_date e f)"
    using ready_staged [OF r prep] by auto
  have d: "distinct prepared"
    using prepared_distinct [OF prep] r by (simp add: fix_ready_def)
  have o: "Ball (set files) parquet_path" "tmp e = temporary_path uuid" using r by (auto simp: fix_ready_def)
  have safe: "file_outcome e dir backup fs (drop_temporaries e prepared fsx) p
      \<and> drop_temporaries e prepared fsx p = fs p"
    if "fsx p = fs p" "fsx (tmp e p) = fs1 (tmp e p)" for fsx
  proof -
    have "drop_temporaries e prepared fsx (tmp e p) = None"
      using drop_temporaries_staged [OF s p] that(2) by (auto simp: drop_temporaries_def split: if_splits)
    moreover have "p \<notin> tmp e ` set prepared"
      using temporary_not_parquet o p by auto
    ultimately show ?thesis using that(1) by (simp add: file_outcome_def drop_temporaries_def)
  qed
  have keep1: "fs1 p = fs p"
    using parquet_staging.staged_keeps [OF o(1) s _ o(2)] o(1) p by simp
  show ?thesis
  proof (cases res1)
    case (Inl err)
    then show ?thesis using run prep safe [of fs1] keep1 by (auto simp: apply_fix_def)
  next
    case (Inr sofar)
    obtain fs2 err2 where b: "(case backup of None \<Rightarrow> (fs1, None)
        | Some root' \<Rightarrow> backup_files e dir root' prepared fs1) = (fs2, err2)" by fastforce
    have same: "\<forall>p \<in> set files. fs2 p = fs p \<and> fs2 (tmp e p) = fs1 (tmp e p)"
      and copies: "err2 = None \<longrightarrow> (\<forall>b. backup = Some b \<longrightarrow> (\<forall>p \<in> set prepared. fs2 (destination dir b p) = fs p
        \<and> destination dir b p \<notin> set files \<union> tmp e ` set files))"
      using b backup_step [OF r s d] parquet_staging.staged_keeps [OF o(1) s _ o(2)] o(1)
      by (auto split: option.splits)
    show ?thesis
    proof (cases err2)
      case (Some err)
      then show ?thesis using run prep Inr b safe [of fs2] same p by (auto simp: apply_fix_def)
    next
      case None
      obtain fs3 err3 where rep: "replace_files e prepared fs2 = (fs3, err3)" by fastforce
      have c: "\<forall>b. backup = Some b \<longrightarrow> (\<forall>p \<in> set prepared. fs2 (destination dir b p) = fs p
        \<and> destination dir b p \<notin> set files \<union> tmp e ` set files)" using copies None by simp
      note st = replace_step [OF r s d p same c rep]
      show ?thesis
      proof (cases err3)
        case (Some err)
        then have "\<exists>q. err = IOFailed (ReplaceFile q)"
          using replace_files_error rep by blast
        then show ?thesis using run prep Inr b None rep Some st by (auto simp: apply_fix_def)
      next
        case n3: None
        then show ?thesis using run prep Inr b None rep st kept p
          by (cases "p \<in> set prepared") (auto simp: apply_fix_def)
      qed
    qed
  qed
qed

section \<open>A written file passes its check\<close>

text \<open>What is used of pyarrow's conversion to a struct type with two string fields of the options' names, as the
  target type is: the two options come out of it as they went in, and a value that came out of it goes
  through it unchanged. Keys the type has no field for may be dropped, missing ones may come out as null.\<close>

definition has_option_fields :: "ftype \<Rightarrow> bool" where
  "has_option_fields t \<longleftrightarrow>
     (case t of
        TStruct fs \<Rightarrow> list_all (\<lambda>k. list_ex (\<lambda>f. fname f = k \<and> is_string_type (ftype f)) fs) [key_option_a, key_option_b]
      | _ \<Rightarrow> False)"

definition keeps_options :: "(ftype \<Rightarrow> json \<Rightarrow> json option) \<Rightarrow> bool" where
  "keeps_options ar \<longleftrightarrow>
     (\<forall>t v w. has_option_fields t \<and> ar t v = Some w \<longrightarrow> ar t w = Some w
       \<and> (\<forall>d. v = JObj d \<longrightarrow> (\<exists>d'. w = JObj d'
            \<and> dict_get d' key_option_a = dict_get d key_option_a
            \<and> dict_get d' key_option_b = dict_get d key_option_b)))"

lemma keeps_optionsD:
  assumes "keeps_options ar" and "has_option_fields t" and "ar t v = Some w"
  shows "ar t w = Some w" and "v = JObj d \<Longrightarrow> \<exists>d'. w = JObj d'
    \<and> dict_get d' key_option_a = dict_get d key_option_a \<and> dict_get d' key_option_b = dict_get d key_option_b"
  using assms unfolding keeps_options_def by blast+

lemma update_same: "map_of kvs k = Some v \<Longrightarrow> AList.update k v kvs = kvs"
  by (induction kvs) auto

lemma dict_get_Some: "dict_get d k = v \<Longrightarrow> v \<noteq> JNull \<Longrightarrow> map_of d k = Some v"
  by (auto simp: dict_get_def split: option.splits)

lemma converted_again:
  assumes e: "enrich_extra_info ds prompt extra = Inr (out, st)" and a: "ar t out = Some w"
    and k: "keeps_options ar" "has_option_fields t"
  shows "enrich_extra_info ds prompt w = Inr (w, if st = Detection then Detection else Present)"
proof (cases "st = Detection")
  case True
  then show ?thesis using e enrich_detection by auto
next
  case False
  obtain raw ab info where r: "ds = JStr raw" "py_strip raw \<in> set FIX_GATE_SOURCES"
    "py_strip raw \<notin> set FIX_DETECTION_SOURCES" "py_strip raw \<noteq> []"
    and p: "prompt_options prompt = Inr ab" and o: "out = JObj (put_options ab info)"
    using enrich_gated [OF e False] by metis
  obtain x y where ab: "ab = (x, y)" by (cases ab)
  obtain d' where w: "w = JObj d'" and g: "dict_get d' key_option_a = JStr x" "dict_get d' key_option_b = JStr y"
    using keeps_optionsD(2) [OF k a o] by (auto simp: ab dict_get_put_options)
  have "given_options d' = Some ab"
    using prompt_options_texts [of prompt x y] p g by (simp add: given_options_def given_text_def ab)
  moreover have "put_options ab d' = d'"
    using dict_get_Some [OF g(1)] dict_get_Some [OF g(2)] by (simp add: put_options_def ab update_same)
  ultimately show ?thesis
    using r p False by (simp add: enrich_extra_info_def w)
qed

text \<open>The same counts, up to the rows that were added.\<close>

definition repaired_stats :: "file_stats \<Rightarrow> file_stats \<Rightarrow> bool" where
  "repaired_stats s t \<longleftrightarrow> rows t = rows s \<and> gated_rows t = gated_rows s
     \<and> detection_rows t = detection_rows s \<and> added_rows t = 0"

lemma enrich_rows_again:
  assumes "enrich_rows n rs st = Inr (es, st')" and "those (map (ar t) es) = Some vs"
    and "keeps_options ar" and "repaired_stats st st2" and "has_option_fields t"
  shows "length vs = length rs \<and> (\<exists>st2'. repaired_stats st' st2' \<and>
     enrich_rows n (map2 (\<lambda>r v. (fst r, fst (snd r), v)) rs vs) st2 = Inr (vs, st2'))"
  using assms
proof (induction rs arbitrary: n st es vs st2)
  case Nil
  then show ?case by auto
next
  case (Cons r rs)
  obtain s p x where r: "r = (s, p, x)" by (cases r)
  obtain out status where e: "enrich_extra_info s p x = Inr (out, status)"
    using Cons.prems(1) by (auto simp: r split: sum.splits)
  obtain es1 where rest: "enrich_rows (Suc n) rs (count_status status st) = Inr (es1, st')"
    and es: "es = out # es1"
    using Cons.prems(1) by (auto simp: r e)
  obtain w vs1 where w: "ar t out = Some w" and vs1: "those (map (ar t) es1) = Some vs1"
    and vs: "vs = w # vs1"
    using Cons.prems(2) by (auto simp: es split: option.splits)
  define status2 where "status2 = (if status = Detection then Detection else Present)"
  have again: "enrich_extra_info s p w = Inr (w, status2)"
    using converted_again [OF e w Cons.prems(3,5)] by (simp add: status2_def)
  have rel: "repaired_stats (count_status status st) (count_status status2 st2)"
    using Cons.prems(4) by (auto simp: repaired_stats_def count_status_def status2_def)
  show ?case
    using Cons.IH [OF rest vs1 Cons.prems(3) rel Cons.prems(5)] by (auto simp: r vs again)
qed

lemma repaired_stats_add:
  "repaired_stats s s' \<Longrightarrow> repaired_stats t t' \<Longrightarrow> repaired_stats (add_stats s t) (add_stats s' t')"
  by (simp add: repaired_stats_def add_stats_def)

section \<open>Columns\<close>

lemma distinct_only: "distinct xs \<Longrightarrow> set xs = {x} \<Longrightarrow> xs = [x]"
proof (cases xs)
  case (Cons a ys)
  assume d: "distinct xs" and s: "set xs = {x}"
  have "a = x" "set ys \<subseteq> {x}" using s Cons by auto
  then have "ys = []" using d Cons by (cases ys) auto
  then show ?thesis using Cons \<open>a = x\<close> by simp
qed simp

lemma distinct_index:
  assumes "distinct (map fname s)"
  shows "field_index s n = Some i \<longleftrightarrow> i < length s \<and> fname (s ! i) = n"
    and "field_index s n = None \<longleftrightarrow> n \<notin> fname ` set s"
proof -
  have u: "j = i" if "i < length s" "j < length s" "fname (s ! j) = fname (s ! i)" for i j
    using assms that by (metis distinct_conv_nth length_map nth_map)
  have one: "filter (\<lambda>j. fname (s ! j) = n) [0..<length s] = [i]" if "i < length s" "fname (s ! i) = n" for i
  proof -
    have "set (filter (\<lambda>j. fname (s ! j) = n) [0..<length s]) = {i}"
    proof (rule set_eqI)
      fix j
      have "j < length s \<and> fname (s ! j) = n \<longleftrightarrow> j = i"
        using u [of i j] that by (cases "j = i") auto
      then show "j \<in> set (filter (\<lambda>j. fname (s ! j) = n) [0..<length s]) \<longleftrightarrow> j \<in> {i}" by simp
    qed
    moreover have "distinct (filter (\<lambda>j. fname (s ! j) = n) [0..<length s])" by simp
    ultimately show ?thesis
      by (rule distinct_only [rotated])
  qed
  have none: "filter (\<lambda>j. fname (s ! j) = n) [0..<length s] = []" if "n \<notin> fname ` set s"
    using that by (simp add: filter_empty_conv) (metis atLeastLessThan_iff imageI nth_mem)
  show "field_index s n = Some i \<longleftrightarrow> i < length s \<and> fname (s ! i) = n"
  proof (cases "n \<in> fname ` set s")
    case True
    then obtain k where k: "k < length s" "fname (s ! k) = n" by (auto simp: in_set_conv_nth)
    have "i < length s \<Longrightarrow> fname (s ! i) = n \<Longrightarrow> i = k" using u k by simp
    then show ?thesis using k by (auto simp: field_index_def one [OF k])
  qed (auto simp: field_index_def none)
  show "field_index s n = None \<longleftrightarrow> n \<notin> fname ` set s"
  proof (cases "n \<in> fname ` set s")
    case True
    then obtain k where k: "k < length s" "fname (s ! k) = n" by (auto simp: in_set_conv_nth)
    then show ?thesis using True by (simp add: field_index_def one [OF k])
  qed (simp add: field_index_def none)
qed

lemma target_fields:
  assumes "add_field old f acc = Inr acc'" and "\<exists>x. acc = old @ x \<and> (\<forall>g \<in> set x. fname g \<noteq> fname f)"
    and "is_string_type (ftype f)"
  shows "(\<exists>x. acc' = acc @ x \<and> set x \<subseteq> {f})
    \<and> (\<exists>g. find (\<lambda>g. fname g = fname f) acc' = Some g \<and> is_string_type (ftype g))"
proof (cases "find (\<lambda>g. fname g = fname f) old")
  case None
  then have "\<forall>g \<in> set acc. fname g \<noteq> fname f"
    using assms(2) by (auto simp: find_None_iff)
  then have "find (\<lambda>g. fname g = fname f) (acc @ [f]) = Some f"
    by (induction acc) auto
  then show ?thesis using None assms(1,3) by (auto simp: add_field_def)
next
  case (Some g)
  then have "find (\<lambda>g. fname g = fname f) (old @ x) = Some g" for x
    by (induction old) auto
  then show ?thesis using Some assms(1,2) by (auto simp: add_field_def split: if_splits)
qed

lemma find_append_Some: "find P xs = Some g \<Longrightarrow> find P (xs @ ys) = Some g"
  by (induction xs) auto

lemma struct_fields:
  assumes "add_field old (option_fields ! 0) old = Inr fs" and "add_field old (option_fields ! 1) fs = Inr fs'"
  shows "add_field fs' (option_fields ! 0) fs' = Inr fs' \<and> add_field fs' (option_fields ! 1) fs' = Inr fs'"
proof -
  have n: "fname (option_fields ! 0) \<noteq> fname (option_fields ! 1)"
    "is_string_type (ftype (option_fields ! 0))" "is_string_type (ftype (option_fields ! 1))"
    using option_keys_differ by (simp_all add: option_fields_def is_string_type_def)
  obtain x g where x: "fs = old @ x" "set x \<subseteq> {option_fields ! 0}"
    and g: "find (\<lambda>g. fname g = fname (option_fields ! 0)) fs = Some g" "is_string_type (ftype g)"
    using target_fields [OF assms(1) _ n(2)] by auto
  have "\<exists>x. fs = old @ x \<and> (\<forall>g \<in> set x. fname g \<noteq> fname (option_fields ! 1))" using x n(1) by auto
  then obtain y h where y: "fs' = fs @ y" and h: "find (\<lambda>g. fname g = fname (option_fields ! 1)) fs' = Some h"
    "is_string_type (ftype h)"
    using target_fields [OF assms(2) _ n(3)] by auto
  show ?thesis using g h find_append_Some [OF g(1)] by (simp add: add_field_def y)
qed

lemma find_option_fields:
  "add_field option_fields (option_fields ! 0) option_fields = Inr option_fields"
  "add_field option_fields (option_fields ! 1) option_fields = Inr option_fields"
  using option_keys_differ by (auto simp: add_field_def option_fields_def is_string_type_def)

text \<open>The target schema: the columns keep their names and order, \<open>extra_info\<close> is one of them, and
  the target of the target is itself.\<close>

lemma target_schema_props:
  assumes "target_schema s = Inr target" and "distinct (map fname s)"
  shows "distinct (map fname target) \<and> target_schema target = Inr target
    \<and> (case field_index s key_extra_info of
         None \<Rightarrow> field_index target key_extra_info = Some (length s)
           \<and> map fname target = map fname s @ [key_extra_info]
       | Some i \<Rightarrow> field_index target key_extra_info = Some i \<and> map fname target = map fname s)"
proof (cases "field_index s key_extra_info")
  case None
  then have t: "target = s @ [Field key_extra_info (TStruct option_fields) True]"
    using assms(1) by (simp add: target_schema_def)
  have d: "distinct (map fname target)"
    using None assms(2) distinct_index(2) by (simp add: t)
  have i: "field_index target key_extra_info = Some (length s)"
    using distinct_index(1) [OF d] by (simp add: t)
  have "target_schema target = Inr target"
    using find_option_fields by (simp add: target_schema_def i) (simp add: t)
  then show ?thesis using None d i by (simp add: t)
next
  case (Some i)
  have i: "i < length s" "fname (s ! i) = key_extra_info"
    using Some distinct_index(1) [OF assms(2)] by auto
  obtain old fs fs' where old: "ftype (s ! i) = TStruct old"
    and a: "add_field old (option_fields ! 0) old = Inr fs" "add_field old (option_fields ! 1) fs = Inr fs'"
    and t: "target = s[i := Field (fname (s ! i)) (TStruct fs') (nullable (s ! i))]"
    using assms(1) Some by (auto simp: target_schema_def split: ftype.splits)
  have m: "map fname target = map fname s"
    using i(1) by (metis field_t.sel(1) list_update_id map_update nth_map t)
  have d: "distinct (map fname target)" using m assms(2) by simp
  have j: "field_index target key_extra_info = Some i"
    using distinct_index(1) [OF d] i by (simp add: t)
  have "target_schema target = Inr target"
    using struct_fields [OF a] i by (simp add: target_schema_def j) (simp add: t)
  then show ?thesis using Some d j m by simp
qed

section \<open>The repair of a row group, again\<close>

definition wf_group :: "schema \<Rightarrow> table \<Rightarrow> bool" where
  "wf_group s t \<longleftrightarrow> map fst (t_cols t) = map fname s \<and> (\<forall>c \<in> set (t_cols t). length (snd c) = t_rows t)"

definition wf_parquet :: "parquet \<Rightarrow> bool" where
  "wf_parquet p \<longleftrightarrow> distinct (map fname (p_schema p)) \<and> (\<forall>t \<in> set (p_groups p). wf_group (p_schema p) t)"

lemma zip_rows_again:
  "length ss = length ps \<Longrightarrow> length ps = length xs \<Longrightarrow> length xs = length vs \<Longrightarrow>
     map2 (\<lambda>r v. (fst r, fst (snd r), v)) (zip ss (zip ps xs)) vs = zip ss (zip ps vs)"
  by (induction ss ps xs vs rule: list_induct4) simp_all

lemma those_again:
  assumes "keeps_options ar" and "has_option_fields t" and "those (map (ar t) xs) = Some vs"
  shows "those (map (ar t) vs) = Some vs"
  using assms(3)
proof (induction xs arbitrary: vs)
  case (Cons x xs)
  then show ?case using keeps_optionsD(1) [OF assms(1,2)] by (auto split: option.splits)
qed simp

lemma map_of_set_column:
  assumes "distinct (map fst cols)" and "i < length cols" and "fst (cols ! i) = n"
  shows "map_of (cols[i := (n, vs)]) k = (if k = n then Some vs else map_of cols k)"
  using assms
proof (induction cols arbitrary: i)
  case (Cons c cols)
  then show ?case by (cases i; cases c) (auto simp: rev_image_eqI)
qed simp

text \<open>What the repair of a group yields, in terms of its columns.\<close>

lemma enrich_table_again:
  assumes run: "enrich_table ar src target before t = Inr (t', stats)"
    and names: "distinct (map fst (t_cols t))" and tname: "fname target = key_extra_info"
    and src: "case src of None \<Rightarrow> key_extra_info \<notin> fst ` set (t_cols t) \<and> i = length (t_cols t)
        | Some j \<Rightarrow> i = j \<and> j < length (t_cols t) \<and> fst (t_cols t ! j) = key_extra_info"
    and k: "keeps_options ar" and o: "has_option_fields (ftype target)"
  shows "t_rows t' = t_rows t \<and> (\<exists>stats'. enrich_table ar (Some i) target before t' = Inr (t', stats')
     \<and> repaired_stats stats stats')"
proof -
  define ss where "ss = column t key_data_source"
  define ps where "ps = column t key_prompt"
  define xs where "xs = (if src \<noteq> None then column t key_extra_info else replicate (t_rows t) JNull)"
  have keys: "key_data_source \<noteq> key_extra_info" "key_prompt \<noteq> key_extra_info"
    by (simp_all add: key_data_source_def key_extra_info_def key_prompt_def u_def)
  obtain es vs where has: "key_data_source \<in> fst ` set (t_cols t)" "key_prompt \<in> fst ` set (t_cols t)"
    and len: "length ss = length ps" "length ps = length xs"
    and rows: "enrich_rows before (zip ss (zip ps xs)) (no_stats\<lparr>rows := t_rows t\<rparr>) = Inr (es, stats)"
    and vs: "those (map (ar (ftype target)) es) = Some vs"
    and t': "t' = t\<lparr>t_cols := (case src of None \<Rightarrow> t_cols t @ [(key_extra_info, vs)]
        | Some j \<Rightarrow> (t_cols t)[j := (key_extra_info, vs)])\<rparr>"
    using run
    by (auto simp: enrich_table_def Let_def ss_def ps_def xs_def zip_rows_def filter_empty_conv tname
        split: if_splits option.splits)
  have rs: "repaired_stats (no_stats\<lparr>rows := t_rows t\<rparr>) (no_stats\<lparr>rows := t_rows t\<rparr>)"
    by (simp add: repaired_stats_def no_stats_def)
  have lv: "length vs = length xs"
    using enrich_rows_again [OF rows vs k rs o] len by simp
  have zip_vs: "map2 (\<lambda>r v. (fst r, fst (snd r), v)) (zip ss (zip ps xs)) vs = zip ss (zip ps vs)"
    by (rule zip_rows_again [OF len]) (simp add: lv)
  obtain stats' where st: "repaired_stats stats stats'"
    and again: "enrich_rows before (zip ss (zip ps vs)) (no_stats\<lparr>rows := t_rows t\<rparr>) = Inr (vs, stats')"
    using enrich_rows_again [OF rows vs k rs o] unfolding zip_vs by blast
  have mo: "map_of (t_cols t') n = (if n = key_extra_info then Some vs else map_of (t_cols t) n)" for n
    using src map_of_set_column [OF names, of i key_extra_info vs]
    by (auto simp: t' map_add_def map_of_eq_None_iff [THEN iffD2] split: option.splits)
  have cols: "column t' key_data_source = ss" "column t' key_prompt = ps" "column t' key_extra_info = vs"
    using keys by (simp_all add: column_def mo ss_def ps_def)
  have sets: "key_data_source \<in> fst ` set (t_cols t')" "key_prompt \<in> fst ` set (t_cols t')"
    using has keys by (metis map_of_eq_None_iff mo)+
  have upd: "(t_cols t')[i := (key_extra_info, vs)] = t_cols t'"
    using src by (auto simp: t' split: option.splits)
  have tr: "t_rows t' = t_rows t" by (simp add: t')
  have ws: "those (map (ar (ftype target)) vs) = Some vs"
    using those_again [OF k o vs] .
  have "enrich_table ar (Some i) target before t' = Inr (t', stats')"
    using sets len lv again upd ws tr
    by (simp add: enrich_table_def Let_def cols zip_rows_def tname)
  then show ?thesis using st tr by blast
qed

lemma enrich_groups_again:
  assumes "enrich_groups ar src target before ts st = (ts', st', None)"
    and "\<forall>t \<in> set ts. distinct (map fst (t_cols t)) \<and> (case src of
          None \<Rightarrow> key_extra_info \<notin> fst ` set (t_cols t) \<and> i = length (t_cols t)
        | Some j \<Rightarrow> i = j \<and> j < length (t_cols t) \<and> fst (t_cols t ! j) = key_extra_info)"
    and "fname target = key_extra_info" and "keeps_options ar" and "repaired_stats st st2"
    and "has_option_fields (ftype target)"
  shows "\<exists>st2'. enrich_groups ar (Some i) target before ts' st2 = (ts', st2', None) \<and> repaired_stats st' st2'"
  using assms
proof (induction ts arbitrary: before st st2 ts')
  case (Cons t ts)
  obtain t1 stats where one: "enrich_table ar src target before t = Inr (t1, stats)"
    using Cons.prems(1) by (auto split: sum.splits)
  obtain ts1 where rest: "enrich_groups ar src target (before + t_rows t) ts (add_stats st stats) = (ts1, st', None)"
    and ts': "ts' = t1 # ts1"
    using Cons.prems(1) by (auto simp: one split: prod.splits)
  have n: "distinct (map fst (t_cols t))" and c: "case src of
          None \<Rightarrow> key_extra_info \<notin> fst ` set (t_cols t) \<and> i = length (t_cols t)
        | Some j \<Rightarrow> i = j \<and> j < length (t_cols t) \<and> fst (t_cols t ! j) = key_extra_info"
    using Cons.prems(2) by simp_all
  obtain stats' where again: "enrich_table ar (Some i) target before t1 = Inr (t1, stats')"
    and rs: "repaired_stats stats stats'" and tr: "t_rows t1 = t_rows t"
    using enrich_table_again [OF one n Cons.prems(3) c Cons.prems(4,6)] by blast
  have all: "\<forall>t \<in> set ts. distinct (map fst (t_cols t)) \<and> (case src of
          None \<Rightarrow> key_extra_info \<notin> fst ` set (t_cols t) \<and> i = length (t_cols t)
        | Some j \<Rightarrow> i = j \<and> j < length (t_cols t) \<and> fst (t_cols t ! j) = key_extra_info)"
    using Cons.prems(2) by simp
  obtain st2' where "enrich_groups ar (Some i) target (before + t_rows t) ts1 (add_stats st2 stats') = (ts1, st2', None)"
    and "repaired_stats st' st2'"
    using Cons.IH [OF rest all Cons.prems(3,4) repaired_stats_add [OF Cons.prems(5) rs] Cons.prems(6)] by blast
  then show ?case using again tr by (simp add: ts')
qed simp

lemma add_field_spec:
  assumes "add_field old f acc = Inr acc'"
  shows "set acc \<subseteq> set acc' \<and> (f \<in> set acc' \<or> (\<exists>g \<in> set old. fname g = fname f \<and> is_string_type (ftype g)))"
  using assms find_Some_iff [of "\<lambda>g. fname g = fname f" old]
  by (auto simp: add_field_def split: option.splits if_splits) (metis nth_mem)+

lemma target_has_options:
  assumes "target_schema s = Inr target" and "distinct (map fname s)" and "field_index target key_extra_info = Some i"
  shows "has_option_fields (ftype (target ! i))"
proof -
  have strings: "is_string_type TString" "fname (option_fields ! 0) = key_option_a" "fname (option_fields ! 1) = key_option_b"
    "ftype (option_fields ! 0) = TString" "ftype (option_fields ! 1) = TString"
    by (simp_all add: is_string_type_def option_fields_def)
  show ?thesis
  proof (cases "field_index s key_extra_info")
    case None
    then have "i = length s" using target_schema_props [OF assms(1,2)] assms(3) by simp
    then show ?thesis
      using assms(1) None by (auto simp: target_schema_def has_option_fields_def option_fields_def is_string_type_def)
  next
    case (Some j)
    then have "i = j" using target_schema_props [OF assms(1,2)] assms(3) by simp
    moreover have "j < length s" using Some distinct_index(1) [OF assms(2)] by blast
    moreover obtain old fs fs' where f: "ftype (s ! j) = TStruct old" "add_field old (option_fields ! 0) old = Inr fs"
      "add_field old (option_fields ! 1) fs = Inr fs'"
      "target = s[j := Field (fname (s ! j)) (TStruct fs') (nullable (s ! j))]"
      using assms(1) Some by (auto simp: target_schema_def bindE_eq_Inr split: ftype.splits)
    have "\<exists>f \<in> set fs'. fname f = k \<and> is_string_type (ftype f)" if "k \<in> {key_option_a, key_option_b}" for k
      using that add_field_spec [OF f(2)] add_field_spec [OF f(3)] strings by (metis insertE singletonD subsetD)
    ultimately show ?thesis by (simp add: f(4) has_option_fields_def list_ex_iff)
  qed
qed

lemma process_data_again:
  assumes wf: "wf_parquet p" and k: "keeps_options ar" and t: "target_schema (p_schema p) = Inr target"
    and run: "process_data ar p target = (groups, stats, None)"
  shows "\<exists>stats'. target_schema target = Inr target
    \<and> process_data ar \<lparr>p_schema = target, p_groups = groups, p_codec = c\<rparr> target = (groups, stats', None)
    \<and> repaired_stats stats stats'"
proof -
  define src where "src = field_index (p_schema p) key_extra_info"
  define i where "i = (case src of Some j \<Rightarrow> j | None \<Rightarrow> length (p_schema p))"
  have d: "distinct (map fname (p_schema p))" using wf by (simp add: wf_parquet_def)
  have idx: "field_index target key_extra_info = Some i" and self: "target_schema target = Inr target"
    and td: "distinct (map fname target)"
    using target_schema_props [OF t d] by (auto simp: src_def i_def split: option.splits)
  have tn: "fname (target ! i) = key_extra_info" using distinct_index(1) [OF td] idx by blast
  have groups: "enrich_groups ar src (target ! i) 0 (p_groups p) no_stats = (groups, stats, None)"
    using run by (simp add: process_data_def idx src_def Let_def)
  have all: "\<forall>t \<in> set (p_groups p). distinct (map fst (t_cols t)) \<and> (case src of
          None \<Rightarrow> key_extra_info \<notin> fst ` set (t_cols t) \<and> i = length (t_cols t)
        | Some j \<Rightarrow> i = j \<and> j < length (t_cols t) \<and> fst (t_cols t ! j) = key_extra_info)"
  proof
    fix t assume "t \<in> set (p_groups p)"
    then have m: "map fst (t_cols t) = map fname (p_schema p)"
      using wf by (simp add: wf_parquet_def wf_group_def)
    have l: "length (t_cols t) = length (p_schema p)" using m by (metis length_map)
    have f: "fst ` set (t_cols t) = fname ` set (p_schema p)" using m by (metis set_map)
    have nt: "j < length (p_schema p) \<Longrightarrow> fst (t_cols t ! j) = fname (p_schema p ! j)" for j
      using m l by (metis nth_map)
    show "distinct (map fst (t_cols t)) \<and> (case src of
          None \<Rightarrow> key_extra_info \<notin> fst ` set (t_cols t) \<and> i = length (t_cols t)
        | Some j \<Rightarrow> i = j \<and> j < length (t_cols t) \<and> fst (t_cols t ! j) = key_extra_info)"
    proof (cases src)
      case None
      then have "key_extra_info \<notin> fst ` set (t_cols t)"
        unfolding f using distinct_index(2) [OF d] by (simp add: src_def)
      then show ?thesis using None m d l by (simp add: i_def)
    next
      case (Some j)
      then have "j < length (p_schema p) \<and> fname (p_schema p ! j) = key_extra_info"
        using distinct_index(1) [OF d] by (simp add: src_def)
      then show ?thesis using Some m d l nt by (simp add: i_def)
    qed
  qed
  have "repaired_stats no_stats no_stats" by (simp add: repaired_stats_def no_stats_def)
  from enrich_groups_again [OF groups all tn k this target_has_options [OF t d idx]] show ?thesis
    using self by (simp add: process_data_def idx Let_def)
qed

text \<open>C20: A repaired file passes the check that follows: for a file whose columns have distinct names and as many
  values as its row group has rows, read again it has the same rows, the same gated rows, and none without its
  options. Assumed is that the file can be read and that pyarrow's conversion to a struct type with the two
  option fields keeps the options and leaves a converted value as it is. So \<open>main\<close> does not fail on its own
  output.\<close>

theorem written_file_verifies:
  assumes "fs path = Some f" and "wf_parquet (f_data f)" and "keeps_options (arrow e)"
    and "process e path (Some out) fs = (fs', Inr stats)" and "\<not> fails e (ReadFile out)"
  shows "verify_output (arrow e) (fails e) out stats fs' = None"
proof -
  obtain target groups where t: "target_schema (p_schema (f_data f)) = Inr target"
    and run: "process_data (arrow e) (f_data f) target = (groups, stats, None)"
    and fs': "fs' out = Some \<lparr>f_data = \<lparr>p_schema = target, p_groups = groups,
          p_codec = codec_name (compression_codec (f_data f))\<rparr>, f_mode = new_mode e\<rparr>"
    using process_written [OF assms(4)] assms(1) by auto
  show ?thesis
    using process_data_again [OF assms(2,3) t run, of "codec_name (compression_codec (f_data f))"] assms(5)
    by (auto simp: verify_output_def process_file_def fs' repaired_stats_def)
qed

section \<open>The tool's run\<close>

text \<open>A complete row, whatever the tool counts: it is a detection row, or its \<open>extra_info\<close> holds both options, as
  texts that are not blank, and they are those of its own prompt.\<close>

definition row_complete :: "json \<times> json \<times> json \<Rightarrow> bool" where
  "row_complete r =
     (case r of (source, prompt, extra) \<Rightarrow>
        (case source of
           JStr raw \<Rightarrow>
             py_strip raw \<in> set FIX_DETECTION_SOURCES
             \<or> (py_strip raw \<in> set FIX_GATE_SOURCES
                \<and> (case extra of
                     JObj d \<Rightarrow>
                       (case (map_of d key_option_a, map_of d key_option_b) of
                          (Some (JStr a), Some (JStr b)) \<Rightarrow>
                            py_strip a \<noteq> [] \<and> py_strip b \<noteq> [] \<and> prompt_options prompt = Inr (py_strip a, py_strip b)
                        | _ \<Rightarrow> False)
                   | _ \<Rightarrow> False))
         | _ \<Rightarrow> False))"

text \<open>A complete file: of no column a value is left over, and every row is complete.\<close>

definition file_complete :: "pfile \<Rightarrow> bool" where
  "file_complete f \<longleftrightarrow>
     list_all (\<lambda>t. let rs = zip_rows t (field_index (p_schema (f_data f)) key_extra_info \<noteq> None)
                   in length rs = length (column t key_data_source) \<and> list_all row_complete rs)
       (p_groups (f_data f))"

lemma present_complete:
  assumes "enrich_extra_info source prompt extra = Inr (out, st)" and "st \<noteq> Added"
  shows "row_complete (source, prompt, extra)"
proof (cases "st = Detection")
  case True
  then show ?thesis using assms(1) by (auto simp: enrich_detection row_complete_def)
next
  case False
  obtain raw ab info where r: "source = JStr raw" "py_strip raw \<in> set FIX_GATE_SOURCES" "prompt_options prompt = Inr ab"
    and extra: "extra = JNull \<and> info = [] \<or> extra = JObj info"
    and st: "st = (if given_options info = None then Added else Present)"
    and same: "given_options info = None \<or> given_options info = Some ab"
    using enrich_gated [OF assms(1) False] by metis
  have g: "given_options info = Some ab" using st same assms(2) by (auto split: if_splits)
  obtain x y where ab: "ab = (x, y)" by (cases ab)
  have given: "given_text (dict_get info key_option_a) = Some x" "given_text (dict_get info key_option_b) = Some y"
    using g ab by (auto simp: given_options_def split: option.splits)
  have holds: "\<exists>s. map_of info k = Some (JStr s) \<and> py_strip s = z \<and> z \<noteq> []" if "given_text (dict_get info k) = Some z" for k z
    using that by (auto simp: given_text_def dict_get_def split: json.splits if_splits option.splits)
  obtain a b where ab': "map_of info key_option_a = Some (JStr a)" "py_strip a = x" "x \<noteq> []"
    "map_of info key_option_b = Some (JStr b)" "py_strip b = y" "y \<noteq> []"
    using holds [OF given(1)] holds [OF given(2)] by auto
  then have "info \<noteq> []" by auto
  then show ?thesis using r extra ab ab' by (simp add: row_complete_def)
qed

lemma enrich_rows_complete:
  "enrich_rows n rs st = Inr (es, st') \<Longrightarrow> added_rows st \<le> added_rows st'
     \<and> (added_rows st' = 0 \<longrightarrow> list_all row_complete rs)"
proof (induction n rs st arbitrary: es rule: enrich_rows.induct)
  case (2 n source prompt extra rest st)
  then obtain out status es' where e: "enrich_extra_info source prompt extra = Inr (out, status)"
    and rest: "enrich_rows (Suc n) rest (count_status status st) = Inr (es', st')"
    by (auto split: sum.splits)
  note ih = 2(1) [OF e refl rest]
  have "status = Added \<Longrightarrow> added_rows st' \<noteq> 0"
    using ih by (auto simp: count_status_def)
  moreover have "added_rows st \<le> added_rows (count_status status st)" by (simp add: count_status_def)
  ultimately show ?case using ih present_complete [OF e] by (cases "status = Added") auto
qed simp

lemma enrich_table_complete:
  assumes "enrich_table ar src target before t = Inr (t', stats)" and "added_rows stats = 0"
  shows "length (zip_rows t (src \<noteq> None)) = length (column t key_data_source) \<and> list_all row_complete (zip_rows t (src \<noteq> None))"
proof -
  obtain es where "enrich_rows before (zip_rows t (src \<noteq> None)) (no_stats\<lparr>rows := t_rows t\<rparr>) = Inr (es, stats)"
    and "length (column t key_data_source) = length (column t key_prompt)"
    "length (column t key_prompt) = length (if src \<noteq> None then column t key_extra_info else replicate (t_rows t) JNull)"
    using assms(1) by (auto simp: enrich_table_def Let_def split: if_splits option.splits)
  then show ?thesis using enrich_rows_complete assms(2) by (auto simp: zip_rows_def)
qed

lemma enrich_groups_added:
  "enrich_groups ar src target before ts st = (ts', st', None) \<Longrightarrow> added_rows st \<le> added_rows st'"
proof (induction ts arbitrary: before st ts')
  case (Cons t ts)
  then show ?case by (fastforce simp: add_stats_def split: sum.splits prod.splits)
qed simp

lemma enrich_groups_complete:
  "enrich_groups ar src target before ts st = (ts', st', None) \<Longrightarrow> added_rows st' = 0 \<Longrightarrow> t \<in> set ts \<Longrightarrow>
     length (zip_rows t (src \<noteq> None)) = length (column t key_data_source) \<and> list_all row_complete (zip_rows t (src \<noteq> None))"
proof (induction ts arbitrary: before st ts')
  case (Cons t0 ts)
  obtain t1 stats ts1 where one: "enrich_table ar src target before t0 = Inr (t1, stats)"
    and rest: "enrich_groups ar src target (before + t_rows t0) ts (add_stats st stats) = (ts1, st', None)"
    using Cons.prems(1) by (auto split: sum.splits prod.splits)
  have "added_rows (add_stats st stats) \<le> added_rows st'" by (rule enrich_groups_added [OF rest])
  then have "added_rows stats = 0" using Cons.prems(2) by (simp add: add_stats_def)
  then show ?case
    using Cons.prems(3) enrich_table_complete [OF one] Cons.IH [OF rest Cons.prems(2)] by auto
qed simp

lemma up_to_date_complete: "up_to_date e f \<Longrightarrow> file_complete f"
  by (auto simp: up_to_date_def file_complete_def process_data_def Let_def list_all_iff
      dest!: enrich_groups_complete [rotated 2])

lemma check_files_sound:
  assumes "check_files e ps fs sofar = Inr stats"
  shows "added_rows sofar \<le> added_rows stats
    \<and> (added_rows stats = 0 \<longrightarrow> (\<forall>p \<in> set ps. \<exists>f. fs p = Some f \<and> up_to_date e f))"
  using assms
proof (induction ps arbitrary: sofar)
  case (Cons p ps)
  obtain s where one: "snd (process e p None fs) = Inr s"
    and rest: "check_files e ps fs (add_stats sofar s) = Inr stats"
    using Cons.prems by auto
  have ih: "added_rows (add_stats sofar s) \<le> added_rows stats"
    "added_rows stats = 0 \<longrightarrow> (\<forall>p \<in> set ps. \<exists>f. fs p = Some f \<and> up_to_date e f)"
    using Cons.IH [OF rest] by auto
  have "added_rows s = 0 \<longrightarrow> (\<exists>f. fs p = Some f \<and> up_to_date e f)"
    using one by (auto simp: process_read up_to_date_def)
  then show ?case using ih by (auto simp: add_stats_def)
qed simp

lemma fix_main_files:
  assumes t: "tmp e = temporary_path uuid"
    and fresh: "\<forall>q \<in> set (fst (discover_parquet_files listing (data_root args))). fs (temporary_path uuid q) = None"
  shows "fix_ready e uuid (data_root args) (fst (discover_parquet_files listing (data_root args))) fs"
  using fresh discovered discovered_distinct by (auto simp: fix_ready_def t under_def)

abbreviation pool :: "(path \<Rightarrow> ustr list option) \<Rightarrow> fix_args \<Rightarrow> path list" where
  "pool listing args \<equiv> fst (discover_parquet_files listing (data_root args))"

abbreviation finished :: "fs \<times> (fix_error + file_stats) \<Rightarrow> fs \<times> fix_outcome" where
  "finished r \<equiv> (fst r, case snd r of Inl err \<Rightarrow> Raised err | Inr stats \<Rightarrow> Done stats)"

lemma fix_main_cases:
  obtains (refused) "fst (fix_main e listing args fs) = fs" and "\<And>s. snd (fix_main e listing args fs) \<noteq> Done s"
      and "\<And>x. snd (fix_main e listing args fs) \<noteq> Raised x"
    | (checked) "\<not> apply_it args"
      and "fix_main e listing args fs = finished (fs, check_files e (pool listing args) fs no_stats)"
    | (applied) "apply_it args"
      and "fix_main e listing args fs =
        finished (apply_fix e (data_root args) (backup_dir args) (pool listing args) fs)"
proof -
  obtain files missing where d: "discover_parquet_files listing (data_root args) = (files, missing)"
    by fastforce
  define g where "g \<longleftrightarrow> (backup_dir args \<noteq> None \<and> \<not> apply_it args) \<or> listing (data_root args) = None
    \<or> (missing \<noteq> [] \<and> \<not> allow_missing args) \<or> files = []"
  define A where "A = (case apply_fix e (data_root args) (backup_dir args) files fs of
      (fs', Inl err) \<Rightarrow> (fs', Raised err) | (fs', Inr sofar) \<Rightarrow> (fs', Done sofar))"
  define C where "C = (case check_files e files fs no_stats of
      Inl err \<Rightarrow> (fs, Raised err) | Inr sofar \<Rightarrow> (fs, Done sofar))"
  have m: "fix_main e listing args fs =
      (if backup_dir args \<noteq> None \<and> \<not> apply_it args then (fs, BackupWithoutApply)
       else if listing (data_root args) = None then (fs, NoDataRoot)
       else if missing \<noteq> [] \<and> \<not> allow_missing args then (fs, MissingDatasets missing)
       else if files = [] then (fs, NoFiles) else if apply_it args then A else C)"
    by (simp only: fix_main_def d prod.case A_def C_def)
  consider "g" | "\<not> g" "\<not> apply_it args" | "\<not> g" "apply_it args" by blast
  then show ?thesis
  proof cases
    case 1
    have "fst (fix_main e listing args fs) = fs \<and> (\<forall>s. snd (fix_main e listing args fs) \<noteq> Done s)
      \<and> (\<forall>x. snd (fix_main e listing args fs) \<noteq> Raised x)"
      using 1 unfolding m g_def by (auto split: if_splits)
    then show ?thesis using refused by blast
  next
    case 2
    then have "fix_main e listing args fs = C" unfolding m g_def by auto
    then have "fix_main e listing args fs = finished (fs, check_files e files fs no_stats)"
      by (simp add: C_def split: sum.splits)
    then show ?thesis using checked 2 d by simp
  next
    case 3
    then have "fix_main e listing args fs = A" unfolding m g_def by auto
    then have "fix_main e listing args fs =
        finished (apply_fix e (data_root args) (backup_dir args) files fs)"
      by (simp add: A_def split: sum.splits prod.splits)
    then show ?thesis using applied 3 d by simp
  qed
qed

text \<open>C18: Whatever fails, an original is either untouched or replaced as a whole by its complete,
  checked repair with the original's mode and, if a backup was asked for, with the original in the
  backup; no temporary file is left (removing one is taken to succeed). Without \<open>--apply\<close> nothing changes
  at all, and unless a replacement itself fails, a run that raises has left every original as it was.\<close>

theorem fix_transaction:
  assumes t: "tmp e = temporary_path uuid"
    and p: "p \<in> set (fst (discover_parquet_files listing (data_root args)))"
    and fresh: "\<forall>q \<in> set (fst (discover_parquet_files listing (data_root args))). fs (temporary_path uuid q) = None"
  shows "file_outcome e (data_root args) (backup_dir args) fs (fst (fix_main e listing args fs)) p
    \<and> (\<not> apply_it args \<longrightarrow> fst (fix_main e listing args fs) = fs)
    \<and> (\<forall>err. snd (fix_main e listing args fs) = Raised err \<longrightarrow> (\<forall>q. err \<noteq> IOFailed (ReplaceFile q))
        \<longrightarrow> fst (fix_main e listing args fs) p = fs p)"
proof -
  have same: "file_outcome e (data_root args) (backup_dir args) fs fs p"
    using fresh p by (simp add: file_outcome_def t)
  note run = apply_fix_outcome [OF fix_main_files [OF t fresh] p prod.collapse [symmetric]]
  show ?thesis
  proof (cases rule: fix_main_cases [of e listing args fs])
    case refused
    then show ?thesis using same by simp
  next
    case checked
    then show ?thesis using same by simp
  next
    case applied
    then show ?thesis using run [of "backup_dir args"]
      by (auto simp: applied(2) split: sum.splits)
  qed
qed

text \<open>C19: A finished run tells the truth: after a run with \<open>--apply\<close>, and after a check that found no row to add,
  every file of the training pool is complete: in each row of a gated source \<open>extra_info\<close> holds both options,
  which are texts that are not blank and the options of that row's prompt, and every other row is a detection
  row. (A check that found rows to add finishes too, and leaves them.)\<close>

theorem fix_done_complete:
  assumes t: "tmp e = temporary_path uuid"
    and p: "p \<in> set (fst (discover_parquet_files listing (data_root args)))"
    and fresh: "\<forall>q \<in> set (fst (discover_parquet_files listing (data_root args))). fs (temporary_path uuid q) = None"
    and fin: "snd (fix_main e listing args fs) = Done stats" and "apply_it args \<or> added_rows stats = 0"
  shows "\<exists>g. fst (fix_main e listing args fs) p = Some g \<and> file_complete g"
proof -
  have "\<exists>g. fst (fix_main e listing args fs) p = Some g \<and> up_to_date e g"
  proof (cases rule: fix_main_cases [of e listing args fs])
    case refused
    then show ?thesis using fin refused(2) [of stats] by simp
  next
    case checked
    then have "check_files e (pool listing args) fs no_stats = Inr stats" "added_rows stats = 0"
      using fin assms(5) by (auto split: sum.splits)
    then show ?thesis using checked check_files_sound p by fastforce
  next
    case applied
    then show ?thesis
      using apply_fix_outcome [OF fix_main_files [OF t fresh] p prod.collapse [symmetric], of "backup_dir args"] fin
      by (auto simp: applied(2) split: sum.splits)
  qed
  then show ?thesis using up_to_date_complete by blast
qed

text \<open>A pool of one file with a gated row and a detection row.\<close>

definition sample_table :: table where
  "sample_table = \<lparr>t_rows = 2, t_cols =
     [(key_data_source, [JStr (u ''consistent_qwen''), JStr (u ''detection_qwen'')]),
      (key_prompt, [sample_prompt, JStr (u ''Find the change.'')])]\<rparr>"

definition sample_file :: pfile where
  "sample_file = \<lparr>f_data = \<lparr>p_schema = [Field key_data_source TString True, Field key_prompt (TOther 0) True],
      p_groups = [sample_table], p_codec = u ''SNAPPY''\<rparr>, f_mode = 420\<rparr>"

definition sample_path :: path where
  "sample_path = [u ''pool'', u ''consistent_qwen'', u ''train.parquet'']"

definition sample_fs :: fs where
  "sample_fs = (\<lambda>q. if q = sample_path then Some sample_file else None)"

definition sample_listing :: "path \<Rightarrow> ustr list option" where
  "sample_listing d =
     (if d = [u ''pool''] then Some [u ''consistent_qwen'']
      else if d = [u ''pool'', u ''consistent_qwen''] then Some [u ''train.parquet'', u ''notes.txt'']
      else None)"

text \<open>A conversion as pyarrow's: of a struct it keeps the fields of the type, in their order, with null for a
  missing one; a string field takes strings and null only.\<close>

definition fits :: "dict \<Rightarrow> field_t \<Rightarrow> bool" where
  "fits d f \<longleftrightarrow> is_string_type (ftype f) \<longrightarrow> (case dict_get d (fname f) of JStr _ \<Rightarrow> True | JNull \<Rightarrow> True | _ \<Rightarrow> False)"

definition to_struct :: "ftype \<Rightarrow> json \<Rightarrow> json option" where
  "to_struct t v =
     (case t of
        TStruct fs \<Rightarrow>
          (case v of
             JNull \<Rightarrow> Some JNull
           | JObj d \<Rightarrow> if list_all (fits d) fs then Some (JObj (map (\<lambda>f. (fname f, dict_get d (fname f))) fs)) else None
           | _ \<Rightarrow> None)
      | _ \<Rightarrow> Some v)"

definition sample_env :: env where
  "sample_env = \<lparr>arrow = to_struct, fails = \<lambda>x. False, new_mode = 384, tmp = temporary_path (\<lambda>p. 0)\<rparr>"

definition sample_args :: fix_args where
  "sample_args = \<lparr>data_root = [u ''pool''], apply_it = True, backup_dir = Some [u ''copy''],
     allow_missing = True\<rparr>"

lemma struct_field:
  assumes "f \<in> set fs"
  shows "dict_get (map (\<lambda>f. (fname f, dict_get d (fname f))) fs) (fname f) = dict_get d (fname f)"
proof -
  have "map_of (map (\<lambda>f. (fname f, dict_get d (fname f))) fs) (fname f) = Some (dict_get d (fname f))"
    using assms by (induction fs) auto
  then show ?thesis by (simp add: dict_get_def)
qed

lemma sample_keeps: "keeps_options (arrow sample_env)"
  unfolding keeps_options_def
proof (intro allI impI)
  fix t v w
  assume a: "has_option_fields t \<and> arrow sample_env t v = Some w"
  then obtain fs where t: "t = TStruct fs"
    and names: "\<forall>k \<in> {key_option_a, key_option_b}. \<exists>f \<in> set fs. fname f = k"
    by (auto simp: has_option_fields_def list_ex_iff split: ftype.splits)
  have w: "to_struct (TStruct fs) v = Some w" using a t by (simp add: sample_env_def)
  then consider (null) "v = JNull" "w = JNull"
    | (obj) d where "v = JObj d" "list_all (fits d) fs" "w = JObj (map (\<lambda>f. (fname f, dict_get d (fname f))) fs)"
    by (auto simp: to_struct_def split: json.splits if_splits)
  then show "arrow sample_env t w = Some w \<and> (\<forall>d. v = JObj d \<longrightarrow> (\<exists>d'. w = JObj d'
      \<and> dict_get d' key_option_a = dict_get d key_option_a \<and> dict_get d' key_option_b = dict_get d key_option_b))"
  proof cases
    case obj
    let ?d = "map (\<lambda>f. (fname f, dict_get d (fname f))) fs"
    have "list_all (fits ?d) fs" using obj(2) struct_field [of _ fs d] by (auto simp: list_all_iff fits_def)
    moreover have "map (\<lambda>f. (fname f, dict_get ?d (fname f))) fs = ?d" using struct_field [of _ fs d] by simp
    moreover have "dict_get ?d k = dict_get d k" if "k \<in> {key_option_a, key_option_b}" for k
      using names that struct_field [of _ fs d] by metis
    ultimately show ?thesis using obj by (simp add: t sample_env_def to_struct_def)
  qed (simp add: t sample_env_def to_struct_def)
qed

lemma sample_written:
  "\<exists>fs' stats. process sample_env sample_path (Some [u ''out'']) sample_fs = (fs', Inr stats) \<and> added_rows stats = 1"
proof -
  have "(case snd (process sample_env sample_path (Some [u ''out'']) sample_fs) of
      Inr stats \<Rightarrow> added_rows stats = 1 | Inl _ \<Rightarrow> False)" by code_simp
  then show ?thesis by (auto split: sum.splits) (metis prod.collapse)
qed

theorem written_file_verifies_witness:
  "\<exists>fs' stats. process sample_env sample_path (Some [u ''out'']) sample_fs = (fs', Inr stats)
     \<and> verify_output (arrow sample_env) (fails sample_env) [u ''out''] stats fs' = None"
proof -
  obtain fs' stats where run: "process sample_env sample_path (Some [u ''out'']) sample_fs = (fs', Inr stats)"
    using sample_written by blast
  have f: "sample_fs sample_path = Some sample_file" by (simp add: sample_fs_def)
  have wf: "wf_parquet (f_data sample_file)" by code_simp
  have "\<not> fails sample_env (ReadFile [u ''out''])" by (simp add: sample_env_def)
  from written_file_verifies [OF f wf sample_keeps run this] run show ?thesis by blast
qed

lemma sample_discovered:
  "fst (discover_parquet_files sample_listing (data_root sample_args)) = [sample_path]"
  by code_simp

lemma sample_fresh: "sample_fs (temporary_path uuid sample_path) = None"
  by (auto simp: sample_fs_def sample_path_def temporary_path_def u_def)

lemma sample_done:
  "\<exists>stats. snd (fix_main sample_env sample_listing sample_args sample_fs) = Done stats \<and> added_rows stats = 1"
proof -
  have "(case snd (fix_main sample_env sample_listing sample_args sample_fs) of
      Done stats \<Rightarrow> added_rows stats = 1 | _ \<Rightarrow> False)" by code_simp
  then show ?thesis by (auto split: fix_outcome.splits)
qed

theorem fix_transaction_witness:
  "file_outcome sample_env [u ''pool''] (Some [u ''copy'']) sample_fs
     (fst (fix_main sample_env sample_listing sample_args sample_fs)) sample_path"
  using fix_transaction [of sample_env "\<lambda>p. 0" sample_path sample_listing sample_args sample_fs]
  by (simp add: sample_discovered sample_fresh) (simp add: sample_env_def sample_args_def)

theorem fix_done_complete_witness:
  "\<exists>g. fst (fix_main sample_env sample_listing sample_args sample_fs) sample_path = Some g
     \<and> file_complete g"
proof -
  obtain stats where "snd (fix_main sample_env sample_listing sample_args sample_fs) = Done stats"
    using sample_done by blast
  then show ?thesis
    using fix_done_complete [of sample_env "\<lambda>p. 0" sample_path sample_listing sample_args sample_fs stats]
    by (simp add: sample_discovered sample_fresh) (simp add: sample_env_def sample_args_def)
qed

end
