(* ===== verification/JsonWriter.thy ===== *)
theory JsonWriter
  imports RewardServer
begin

text \<open>
  Writing JSON and reading it back with \<open>json.loads\<close>, for every way of writing the program uses: the default
  separators, the compact ones, and strings whose characters are escaped further. The interface
  \<open>json_writer\<close> says what the separators and the string literals must be like.
\<close>

text \<open>What may follow a value inside a text: a comma, a bracket, a brace, the end of the line or of the text.\<close>

definition follows :: "ustr \<Rightarrow> bool" where
  "follows r \<longleftrightarrow> (case r of [] \<Rightarrow> True | c # _ \<Rightarrow> c \<in> {44, 93, 125, 10})"

definition starts_number :: "ustr \<Rightarrow> bool" where
  "starts_number s \<longleftrightarrow>
     (case s of [] \<Rightarrow> False
      | c # t \<Rightarrow> is_digit c \<or> c = 45 \<and> (case t of [] \<Rightarrow> False | d # _ \<Rightarrow> is_digit d))"

text \<open>What \<open>repr\<close> of a finite float gives is a number literal that reads back as that float
  (documented: the shortest digits that round trip).\<close>

definition float_reads :: "(pyfloat \<Rightarrow> ustr) \<Rightarrow> real \<Rightarrow> bool" where
  "float_reads fr x \<longleftrightarrow> starts_number (fr (Fin x)) \<and> unicode (fr (Fin x))
     \<and> (\<forall>r. follows r \<longrightarrow> scan_number (fr (Fin x) @ r) = Inr (JFloat (Fin x), r))"

definition nonneg :: "ustr \<Rightarrow> bool" where
  "nonneg s \<longleftrightarrow> list_all (\<lambda>c. 0 \<le> c) s"

fun dumpable :: "(pyfloat \<Rightarrow> ustr) \<Rightarrow> json \<Rightarrow> bool" where
  "dumpable fr JNull = True"
| "dumpable fr (JBool b) = True"
| "dumpable fr (JInt i) = (length (nat_digits (nat \<bar>i\<bar>)) \<le> 4300)"
| "dumpable fr (JFloat f) = (case f of Fin x \<Rightarrow> float_reads fr x | _ \<Rightarrow> True)"
| "dumpable fr (JStr s) = nonneg s"
| "dumpable fr (JArr vs) = list_all (dumpable fr) vs"
| "dumpable fr (JObj kvs) = (list_all (\<lambda>(k, v). nonneg k \<and> dumpable fr v) kvs \<and> distinct (map fst kvs))"

section \<open>Numbers\<close>

lemma follows_skip: "follows (c # r) \<Longrightarrow> c \<noteq> 10 \<Longrightarrow> skip_ws (c # r) = c # r"
  by (auto simp: follows_def skip_ws_def json_ws_def)

lemma nat_digits_split:
  "0 < n \<Longrightarrow> \<exists>c ds. nat_digits n = c # ds \<and> is_digit c \<and> c \<noteq> 48 \<and> list_all is_digit ds"
proof (induction n rule: nat_digits.induct)
  case (1 n)
  show ?case
  proof (cases "n < 10")
    case True
    then show ?thesis using 1(2) by (simp add: nat_digits.simps [of n] is_digit_def)
  next
    case False
    then have "0 < n div 10" by simp
    from 1(1) [OF False this] show ?thesis
      using False by (auto simp: nat_digits.simps [of n] is_digit_def)
  qed
qed

lemma scan_int_digits:
  assumes "follows r"
  shows "scan_int_part (nat_digits n @ r) = Some (nat_digits n, r)"
proof (cases "n = 0")
  case True
  then show ?thesis by (simp add: nat_digits.simps [of 0] scan_int_part_def)
next
  case False
  then obtain c ds where d: "nat_digits n = c # ds" "is_digit c" "c \<noteq> 48" "list_all is_digit ds"
    using nat_digits_split by blast
  have "takeWhile is_digit (ds @ r) = ds \<and> dropWhile is_digit (ds @ r) = r"
    using d(4) assms by (induction ds) (auto simp: follows_def is_digit_def split: list.splits)
  then show ?thesis using d by (simp add: scan_int_part_def)
qed

lemma no_fraction: "follows r \<Longrightarrow> scan_frac r = ([], r) \<and> scan_exp r = (None, r)"
  by (auto simp: follows_def scan_frac_def scan_exp_def split: list.splits)

lemma nat_digits_hd: "\<exists>c ds. nat_digits n = c # ds \<and> is_digit c"
  using nat_digits_split [of n] by (cases "n = 0") (auto simp: nat_digits.simps [of 0] is_digit_def)

lemma scan_number_int:
  assumes "follows r" and "length (nat_digits (nat \<bar>i\<bar>)) \<le> 4300"
  shows "scan_number (str_of_int i @ r) = Inr (JInt i, r)"
proof -
  obtain c ds where c: "nat_digits (nat \<bar>i\<bar>) = c # ds" "is_digit c" using nat_digits_hd by blast
  then have n: "c \<noteq> 45" by (auto simp: is_digit_def)
  have v: "digits_val 0 (nat_digits (nat \<bar>i\<bar>)) = \<bar>i\<bar>" by (simp add: digits_val_nat)
  note s = scan_int_digits [OF assms(1), of "nat \<bar>i\<bar>"]
  show ?thesis
    using s v n c assms(2) no_fraction [OF assms(1)]
    by (cases "i < 0") (auto simp: scan_number_def str_of_int_def max_int_digits_def Let_def)
qed

lemma starts_number_int: "starts_number (str_of_int i)"
  using nat_digits_hd [of "nat i"] nat_digits_hd [of "nat (- i)"]
  by (auto simp: starts_number_def str_of_int_def)

lemma scan_once_number:
  assumes "starts_number s" and "scan_number (s @ r) = Inr (v, r)"
  shows "scan_once (Suc n) (s @ r) = Inr (v, r)"
proof -
  obtain c t where s: "s = c # t" and c: "is_digit c \<or> c = 45 \<and> (\<exists>d t'. t = d # t' \<and> is_digit d)"
    using assms(1) by (auto simp: starts_number_def split: list.splits)
  then have "\<not> (c = 45 \<and> starts_with lit_Infinity (t @ r))"
    by (auto simp: lit_Infinity_def starts_with_def is_digit_def)
  moreover have "c \<notin> {34, 123, 91, 110, 116, 102, 78, 73}"
    using c by (auto simp: is_digit_def)
  ultimately show ?thesis
    using assms(2)
    by (auto simp: s starts_with_def lit_null_def lit_true_def lit_false_def lit_NaN_def lit_Infinity_def)
qed

section \<open>Writers\<close>

fun write_json :: "ustr \<Rightarrow> ustr \<Rightarrow> (ustr \<Rightarrow> ustr) \<Rightarrow> (pyfloat \<Rightarrow> ustr) \<Rightarrow> json \<Rightarrow> ustr" where
  "write_json comma colon quote fr (JStr s) = quote s"
| "write_json comma colon quote fr (JArr vs) =
     [91] @ py_join comma (map (write_json comma colon quote fr) vs) @ [93]"
| "write_json comma colon quote fr (JObj kvs) =
     [123] @ py_join comma (map (\<lambda>(k, v). quote k @ colon @ write_json comma colon quote fr v) kvs) @ [125]"
| "write_json comma colon quote fr v = dumps_json fr v"

lemma py_join_Cons: "py_join sep (x # xs) = x @ (if xs = [] then [] else sep @ py_join sep xs)"
  by (cases xs) simp_all

lemma skip_marks: "skip_ws (93 # t) = 93 # t" "skip_ws (44 # t) = 44 # t" "skip_ws (125 # t) = 125 # t"
  "skip_ws (58 # t) = 58 # t" "skip_ws (34 # t) = 34 # t"
  by (simp_all add: skip_ws_def json_ws_def)

text \<open>\<open>json.loads\<close> reads a separator after optional white space, and a string literal ends where it was closed.\<close>

locale json_writer =
  fixes comma :: ustr and colon :: ustr and quote :: "ustr \<Rightarrow> ustr"
  assumes comma_sep: "\<exists>w. comma = 44 # w \<and> (\<forall>t. skip_ws (w @ t) = skip_ws t)"
    and colon_sep: "\<exists>w. colon = 58 # w \<and> (\<forall>t. skip_ws (w @ t) = skip_ws t)"
    and quote_reads: "nonneg s \<Longrightarrow> \<exists>body. quote s = 34 # body \<and> (\<forall>r. scan_string (body @ r) = Some (s, r))"
begin

text \<open>The first character of a written value is never white space.\<close>

lemma write_starts:
  assumes "dumpable fr v"
  shows "\<exists>c t. write_json comma colon quote fr v = c # t \<and> \<not> json_ws c \<and> c \<notin> {93, 125, 65279}"
proof -
  have n: "\<exists>c t. s = c # t \<and> \<not> json_ws c \<and> c \<notin> {93, 125, 65279}" if "starts_number s" for s
    using that by (auto simp: starts_number_def is_digit_def json_ws_def split: list.splits)
  show ?thesis
  proof (cases v)
    case (JInt i)
    then show ?thesis using n [OF starts_number_int [of i]] by simp
  next
    case (JFloat f)
    then show ?thesis using assms n
      by (cases f) (auto simp: float_reads_def lit_NaN_def lit_Infinity_def json_ws_def)
  next
    case (JStr s)
    then show ?thesis using assms quote_reads [of s] by (auto simp: json_ws_def)
  qed (auto simp: lit_null_def lit_true_def lit_false_def json_ws_def)
qed

lemma skip_ws_write:
  "dumpable fr v \<Longrightarrow> skip_ws (write_json comma colon quote fr v @ r) = write_json comma colon quote fr v @ r"
  using write_starts [of fr v] by (auto simp: skip_ws_def)

definition write_member :: "(pyfloat \<Rightarrow> ustr) \<Rightarrow> ustr \<times> json \<Rightarrow> ustr" where
  "write_member fr = (\<lambda>(k, v). quote k @ colon @ write_json comma colon quote fr v)"

definition reads_back :: "(pyfloat \<Rightarrow> ustr) \<Rightarrow> json \<Rightarrow> bool" where
  "reads_back fr v \<longleftrightarrow>
     (\<forall>n r. 2 * length (write_json comma colon quote fr v) \<le> n \<longrightarrow> follows r
        \<longrightarrow> scan_once n (write_json comma colon quote fr v @ r) = Inr (v, r))"

lemma reads_backD:
  "reads_back fr v \<Longrightarrow> 2 * length (write_json comma colon quote fr v) \<le> n \<Longrightarrow> follows r
     \<Longrightarrow> scan_once n (write_json comma colon quote fr v @ r) = Inr (v, r)"
  by (simp add: reads_back_def)

lemma comma_follows: "follows (comma @ r)"
  using comma_sep by (auto simp: follows_def)

lemma scan_elems_write:
  assumes "vs \<noteq> []" and "list_all (\<lambda>v. dumpable fr v \<and> reads_back fr v) vs"
    and "2 * length (py_join comma (map (write_json comma colon quote fr) vs)) < n"
  shows "scan_elems n acc (py_join comma (map (write_json comma colon quote fr) vs) @ 93 # r) = Inr (JArr (acc @ vs), r)"
  using assms
proof (induction vs arbitrary: acc n)
  case (Cons v vs)
  obtain m where m: "n = Suc m" using Cons.prems(3) by (cases n) simp_all
  have v: "dumpable fr v" "reads_back fr v" using Cons.prems(2) by simp_all
  obtain w where w: "comma = 44 # w" "\<And>t. skip_ws (w @ t) = skip_ws t" using comma_sep by blast
  then have lc: "length comma = Suc (length w)" by simp
  let ?w = "write_json comma colon quote fr"
  let ?j = "py_join comma (map ?w vs)"
  show ?case
  proof (cases "vs = []")
    case True
    have "scan_once m (?w v @ 93 # r) = Inr (v, 93 # r)"
      using Cons.prems(3) True by (intro reads_backD [OF v(2)]) (simp_all add: m follows_def)
    then show ?thesis using True by (simp add: m skip_marks)
  next
    case False
    have s: "scan_once m (?w v @ comma @ ?j @ 93 # r) = Inr (v, comma @ ?j @ 93 # r)"
      using Cons.prems(3) False by (intro reads_backD [OF v(2)] comma_follows) (simp_all add: m py_join_Cons)
    obtain v' vs' where vs: "vs = v' # vs'" using False by (cases vs) auto
    have "dumpable fr v'" using Cons.prems(2) vs by simp
    then have j: "skip_ws (?j @ 93 # r) = ?j @ 93 # r"
      using skip_ws_write [of fr v'] by (simp add: vs py_join_Cons)
    have "scan_elems m (acc @ [v]) (?j @ 93 # r) = Inr (JArr ((acc @ [v]) @ vs), r)"
      using Cons.prems False lc by (intro Cons.IH) (simp_all add: m py_join_Cons)
    then show ?thesis using s j False w by (simp add: m skip_marks py_join_Cons)
  qed
qed simp

lemma scan_members_write:
  assumes "kvs \<noteq> []" and "list_all (\<lambda>(k, v). nonneg k \<and> dumpable fr v \<and> reads_back fr v) kvs"
    and "distinct (map fst kvs)" and "fst ` set acc \<inter> fst ` set kvs = {}"
    and "2 * length (py_join comma (map (write_member fr) kvs)) < n"
  shows "scan_members n acc (py_join comma (map (write_member fr) kvs) @ 125 # r) = Inr (JObj (acc @ kvs), r)"
  using assms
proof (induction kvs arbitrary: acc n)
  case (Cons kv kvs)
  obtain k v where kv: "kv = (k, v)" by fastforce
  obtain m where m: "n = Suc m" using Cons.prems(5) by (cases n) simp_all
  have v: "dumpable fr v" "reads_back fr v" and "nonneg k"
    using Cons.prems(2) by (simp_all add: kv)
  then obtain body where body: "quote k = 34 # body" "\<And>r. scan_string (body @ r) = Some (k, r)"
    using quote_reads [of k] by blast
  obtain w where w: "comma = 44 # w" "\<And>t. skip_ws (w @ t) = skip_ws t" using comma_sep by blast
  obtain x where x: "colon = 58 # x" "\<And>t. skip_ws (x @ t) = skip_ws t" using colon_sep by blast
  have upd: "AList.update k v acc = acc @ [(k, v)]"
    using Cons.prems(4) by (intro update_fresh) (simp add: kv)
  let ?w = "write_json comma colon quote fr"
  let ?j = "py_join comma (map (write_member fr) kvs)"
  have wm: "write_member fr kv @ rest = 34 # body @ colon @ ?w v @ rest" for rest
    by (simp add: write_member_def kv body(1))
  have step: "scan_members n acc (write_member fr kv @ rest) =
      (case skip_ws rest of [] \<Rightarrow> Inl JSONDecodeError
       | d # r \<Rightarrow> if d = 125 then Inr (JObj (acc @ [(k, v)]), r)
               else if d = 44 then scan_members m (acc @ [(k, v)]) (skip_ws r)
               else Inl JSONDecodeError)"
    if f: "follows rest" and l: "2 * length (?w v) \<le> m" for rest
    using body(2) [of "colon @ ?w v @ rest"] reads_backD [OF v(2) l f] skip_ws_write [OF v(1), of rest] x
    unfolding upd [symmetric] wm by (simp add: m skip_marks)
  show ?case
  proof (cases "kvs = []")
    case True
    have "2 * length (?w v) \<le> m" using Cons.prems(5) True by (simp add: kv m write_member_def body)
    then show ?thesis using step [of "125 # r"] True by (simp add: follows_def skip_marks kv)
  next
    case False
    obtain kv' kvs' where kvs: "kvs = kv' # kvs'" using False by (cases kvs) auto
    have l: "2 * length (?w v) \<le> m"
      using Cons.prems(5) False by (simp add: kv m py_join_Cons write_member_def body)
    obtain t where "?j @ 125 # r = 34 # t"
      using Cons.prems(2) quote_reads [of "fst kv'"] by (auto simp: kvs py_join_Cons write_member_def split_beta)
    then have j: "skip_ws (?j @ 125 # r) = ?j @ 125 # r" by (simp add: skip_marks)
    have "scan_members m (acc @ [(k, v)]) (?j @ 125 # r) = Inr (JObj ((acc @ [(k, v)]) @ kvs), r)"
      using Cons.prems False by (intro Cons.IH) (auto simp: m kv py_join_Cons write_member_def body)
    then show ?thesis
      using step [OF comma_follows l, of "?j @ 125 # r"] j False w
      by (simp add: skip_marks kv py_join_Cons)
  qed
qed simp

lemma reads_backI:
  assumes "write_json comma colon quote fr v \<noteq> []"
    and "\<And>n r. 2 * length (write_json comma colon quote fr v) \<le> Suc n \<Longrightarrow> follows r
      \<Longrightarrow> scan_once (Suc n) (write_json comma colon quote fr v @ r) = Inr (v, r)"
  shows "reads_back fr v"
  unfolding reads_back_def
proof (intro allI impI)
  fix n r assume l: "2 * length (write_json comma colon quote fr v) \<le> n" and f: "follows r"
  then obtain m where "n = Suc m" using assms(1) by (cases n) auto
  then show "scan_once n (write_json comma colon quote fr v @ r) = Inr (v, r)" using assms(2) l f by simp
qed

lemma scan_once_array:
  assumes "list_all (\<lambda>v. dumpable fr v \<and> reads_back fr v) vs"
  shows "reads_back fr (JArr vs)"
proof (rule reads_backI)
  let ?w = "write_json comma colon quote fr"
  fix n r assume l: "2 * length (?w (JArr vs)) \<le> Suc n"
  let ?j = "py_join comma (map ?w vs)"
  show "scan_once (Suc n) (?w (JArr vs) @ r) = Inr (JArr vs, r)"
  proof (cases vs)
    case Nil
    then show ?thesis by (simp add: skip_ws_def json_ws_def)
  next
    case (Cons v vs')
    then have "dumpable fr v" using assms by simp
    then obtain c t where c: "?j @ 93 # r = c # t" "\<not> json_ws c" "c \<noteq> 93"
      using write_starts [of fr v] by (auto simp: Cons py_join_Cons)
    have e: "scan_elems n [] (?j @ 93 # r) = Inr (JArr ([] @ vs), r)"
      by (rule scan_elems_write) (use Cons assms l in simp_all)
    have "skip_ws (?j @ 93 # r) = c # t" using c by (simp add: skip_ws_def)
    then show ?thesis using e c by (simp del: scan_elems.simps map_eq_conv)
  qed
qed simp

lemma scan_once_object:
  assumes "list_all (\<lambda>(k, v). nonneg k \<and> dumpable fr v \<and> reads_back fr v) kvs" and "distinct (map fst kvs)"
  shows "reads_back fr (JObj kvs)"
proof (rule reads_backI)
  let ?w = "write_json comma colon quote fr"
  fix n r assume l: "2 * length (?w (JObj kvs)) \<le> Suc n"
  let ?j = "py_join comma (map (write_member fr) kvs)"
  have d: "?w (JObj kvs) = 123 # ?j @ [125]" by (simp add: write_member_def)
  show "scan_once (Suc n) (?w (JObj kvs) @ r) = Inr (JObj kvs, r)"
  proof (cases kvs)
    case Nil
    then show ?thesis by (simp add: skip_ws_def json_ws_def)
  next
    case (Cons kv kvs')
    then obtain t where c: "?j @ 125 # r = 34 # t"
      using assms(1) quote_reads [of "fst kv"] by (auto simp: py_join_Cons write_member_def split_beta)
    have e: "scan_members n [] (?j @ 125 # r) = Inr (JObj ([] @ kvs), r)"
      by (rule scan_members_write) (use Cons assms l d in simp_all)
    have "skip_ws (?j @ 125 # r) = 34 # t" using c by (simp add: skip_marks)
    then show ?thesis using e c unfolding d by (simp del: scan_members.simps map_eq_conv)
  qed
qed simp

lemma write_reads_back: "dumpable fr v \<Longrightarrow> reads_back fr v"
proof (induction v)
  case JNull
  show ?case by (rule reads_backI) (simp_all add: lit_null_def starts_with_def)
next
  case (JBool b)
  show ?case
    by (rule reads_backI) (simp_all add: lit_null_def lit_true_def lit_false_def starts_with_def)
next
  case (JInt i)
  show ?case
  proof (rule reads_backI)
    show "write_json comma colon quote fr (JInt i) \<noteq> []"
      using starts_number_int [of i] by (auto simp: starts_number_def)
    show "scan_once (Suc n) (write_json comma colon quote fr (JInt i) @ r) = Inr (JInt i, r)" if "follows r" for n r
      using scan_once_number [OF starts_number_int scan_number_int [OF that]] JInt by simp
  qed
next
  case (JFloat f)
  show ?case
  proof (cases f)
    case (Fin x)
    then have x: "float_reads fr x" using JFloat by simp
    show ?thesis
    proof (rule reads_backI)
      show "write_json comma colon quote fr (JFloat f) \<noteq> []" using x Fin by (auto simp: float_reads_def starts_number_def)
      show "scan_once (Suc n) (write_json comma colon quote fr (JFloat f) @ r) = Inr (JFloat f, r)" if "follows r" for n r
        using scan_once_number [of "fr (Fin x)" r "JFloat (Fin x)" n] x that Fin by (simp add: float_reads_def)
    qed
  qed (rule reads_backI, simp_all add: lit_null_def lit_true_def lit_false_def lit_NaN_def lit_Infinity_def
        starts_with_def)+
next
  case (JStr s)
  then obtain body where "quote s = 34 # body" "\<And>r. scan_string (body @ r) = Some (s, r)"
    using quote_reads [of s] by auto
  then show ?case by (intro reads_backI) simp_all
next
  case (JArr vs)
  then show ?case by (intro scan_once_array) (auto simp: list_all_iff)
next
  case (JObj kvs)
  then show ?case by (intro scan_once_object) (fastforce simp: list_all_iff)+
qed

lemma loads_write:
  assumes "dumpable fr v" and "e = [] \<or> e = [10]"
  shows "json_loads (write_json comma colon quote fr v @ e) = Inr v"
proof -
  let ?t = "write_json comma colon quote fr v"
  obtain c t where c: "?t = c # t" "\<not> json_ws c" "c \<noteq> 65279"
    using write_starts [OF assms(1)] by blast
  have f: "follows e" using assms(2) by (auto simp: follows_def)
  have l: "2 * length ?t \<le> 2 * length (?t @ e) + 2" by simp
  show ?thesis
    using reads_backD [OF write_reads_back [OF assms(1)] l f] skip_ws_write [OF assms(1), of e] assms(2) c
    by (auto simp: json_loads_def starts_with_def skip_ws_def json_ws_def simp del: scan_once.simps)
qed

text \<open>Different values are written differently.\<close>

lemma write_inj:
  assumes "dumpable fr v" and "dumpable fr v'" and "write_json comma colon quote fr v = write_json comma colon quote fr v'"
  shows "v = v'"
  using loads_write [OF assms(1), of "[]"] loads_write [OF assms(2), of "[]"] assms(3) by simp

end

end
