(* ===== verification/JsonDump.thy ===== *)
theory JsonDump
  imports JsonWriter
begin

text \<open>
  \<open>json.dumps(value, ensure_ascii=False)\<close> followed by \<open>json.loads\<close>: every value the program writes
  (null, booleans, integers, floats, strings, and lists and dicts of them) is read back as it
  was. The checkpoint files and the service's replies rest on this.
\<close>

lemma dumps_json_write: "dumps_json fr v = write_json [44, 32] [58, 32] dumps_str fr v"
proof (induction v)
  case (JArr vs)
  then show ?case by (simp cong: map_cong)
next
  case (JObj kvs)
  then have "map (\<lambda>(k, v). dumps_str k @ [58, 32] @ dumps_json fr v) kvs
      = map (\<lambda>(k, v). dumps_str k @ [58, 32] @ write_json [44, 32] [58, 32] dumps_str fr v) kvs"
    by (intro map_cong) auto
  then show ?case by (simp only: dumps_json.simps write_json.simps)
qed simp_all

lemma dumps_str_reads: "nonneg s \<Longrightarrow> \<exists>body. dumps_str s = 34 # body \<and> (\<forall>r. scan_string (body @ r) = Some (s, r))"
  using scan_string_dumps [of s] by (auto simp: dumps_str_def nonneg_def)

interpretation spaced: json_writer "[44, 32]" "[58, 32]" dumps_str
  using dumps_str_reads by unfold_locales (auto simp: skip_ws_def json_ws_def)

lemma loads_dumps:
  "dumpable fr v \<Longrightarrow> e = [] \<or> e = [10] \<Longrightarrow> json_loads (dumps_json fr v @ e) = Inr v"
  unfolding dumps_json_write by (rule spaced.loads_write)

text \<open>Every dumpable value survives being written and read back, whatever its nesting.\<close>

theorem dump_load_round_trip:
  assumes "dumpable fr v"
  shows "json_loads (dumps_json fr v) = Inr v"
  using loads_dumps [OF assms, of "[]"] by simp

definition sample_fr :: "pyfloat \<Rightarrow> ustr" where
  "sample_fr f = (if f = Fin (1 / 100) then u ''0.01'' else if f = Fin 1 then u ''1.0'' else u ''nan'')"

lemma follows_digits: "follows r \<Longrightarrow> takeWhile is_digit r = [] \<and> dropWhile is_digit r = r"
  by (auto simp: follows_def is_digit_def split: list.splits)

lemma sample_fr_reads: "float_reads sample_fr (1 / 100)" "float_reads sample_fr 1"
  using follows_digits no_fraction
  by (auto simp: float_reads_def sample_fr_def starts_number_def u_def is_digit_def scan_number_def
      scan_int_part_def scan_frac_def decimal_def)

theorem dump_load_round_trip_witness:
  "json_loads (dumps_json sample_fr (JObj [(u ''a'', JArr [JInt (-7), JNull, JBool True, JFloat NaN]),
       (u ''b'', JObj [(u ''s'', JStr (u ''x\"y'' @ [10, 20320])), (u ''t'', JFloat (Fin (1 / 100)))])]))
   = Inr (JObj [(u ''a'', JArr [JInt (-7), JNull, JBool True, JFloat NaN]),
       (u ''b'', JObj [(u ''s'', JStr (u ''x\"y'' @ [10, 20320])), (u ''t'', JFloat (Fin (1 / 100)))])])"
  by (rule dump_load_round_trip)
     (simp add: sample_fr_reads nonneg_def u_def nat_digits.simps)

end
