(* ===== verification/Checkpoint.thy ===== *)
theory Checkpoint
  imports JsonDump
begin

text \<open>
  \<^verbatim>\<open>rollout_checkpoint.py\<close>, which runs a local or a remote model on a selection of the rows of a
  Parquet file and appends one JSON line per row to a checkpoint file, and the functions of
  \<^verbatim>\<open>rollout_parquet_to_html.py\<close> and \<^verbatim>\<open>annotate_val_cases.py\<close> that choose the rows and give their
  ground truth.

  A checkpoint file is the list of its lines (\<open>None\<close>: there is no file). A line holds the text the
  UTF-8 decoder gives back, which is the text written (\<open>Utf8.utf8_round\<close>); writing a text with a
  surrogate raises. Parameters are the dataset, the random sampler, the local engine, the remote
  service with the preparation of its request, the order in which the remote calls complete,
  and the text of an exception.
\<close>

section \<open>Arguments\<close>

record rollout_args =
  a_mode :: ustr
  a_name :: ustr
  a_data_path :: ustr
  a_model_path :: "ustr option"
  a_remote_model :: ustr
  a_internvl :: bool
  a_num_samples :: int
  a_selection :: ustr
  a_seed :: int
  a_start_row :: int
  a_generation_seed :: int
  a_dtype :: ustr
  a_batch_size :: int
  a_max_prompt_length :: int
  a_max_new_tokens :: int
  a_temperature :: pyfloat
  a_top_p :: pyfloat
  a_top_k :: int
  a_repetition_penalty :: pyfloat
  a_reveal_gt_answer :: bool
  a_retry_errors :: bool
  a_overwrite :: bool
  a_remote_workers :: int
  a_gemini_max_retries :: int
  a_gemini_max_image_edge :: int
  a_jpeg_quality :: int

definition mode_local :: ustr where "mode_local = u ''local''"
definition mode_remote :: ustr where "mode_remote = u ''remote''"

record remote_config =
  rc_backend :: ustr
  rc_thinking_level :: ustr

definition contains :: "ustr \<Rightarrow> ustr \<Rightarrow> bool" where
  "contains p s \<longleftrightarrow> py_find p s \<noteq> None"

definition remote_model_config :: "ustr \<Rightarrow> remote_config py" where
  "remote_model_config model =
     (let normalized = filter (\<lambda>c. (97 \<le> c \<and> c \<le> 122) \<or> (48 \<le> c \<and> c \<le> 57)) (py_lower model)
      in if contains (u ''gemini'') normalized
         then Inr \<lparr>rc_backend = u ''gemini'', rc_thinking_level = u ''high''\<rparr>
         else if contains (u ''qwen38'') normalized \<and> contains (u ''flash'') normalized
         then Inr \<lparr>rc_backend = u ''qwen_idealab'', rc_thinking_level = u ''xhigh''\<rparr>
         else Inl ValueError)"

text \<open>\<open>NAME_RE.fullmatch\<close>.\<close>

definition name_start :: "int \<Rightarrow> bool" where
  "name_start c \<longleftrightarrow> (65 \<le> c \<and> c \<le> 90) \<or> (97 \<le> c \<and> c \<le> 122) \<or> (48 \<le> c \<and> c \<le> 57)"

definition name_char :: "int \<Rightarrow> bool" where
  "name_char c \<longleftrightarrow> name_start c \<or> c = 46 \<or> c = 95 \<or> c = 45"

definition valid_name :: "ustr \<Rightarrow> bool" where
  "valid_name name \<longleftrightarrow> (case name of [] \<Rightarrow> False | c # r \<Rightarrow> name_start c \<and> list_all name_char r)"

definition checkpoint_filename :: "ustr \<Rightarrow> ustr \<Rightarrow> ustr py" where
  "checkpoint_filename mode name =
     (if mode \<notin> {mode_local, mode_remote} then Inl ValueError
      else if \<not> valid_name name then Inl ValueError
      else Inr (mode @ u ''__'' @ name @ u ''.jsonl''))"

datatype usage_error =
    BadName | NeedsModelPath | TakesNoModelPath | InternvlIsLocal | BadRemoteModel | NotPositive
  | BadLength | BadSampling | BadPenalty | BadRemoteLimits | BadQuality

text \<open>The checks of \<open>parse_args\<close> in their order; a comparison with NaN is false.\<close>

definition parse_checks :: "rollout_args \<Rightarrow> usage_error option" where
  "parse_checks a =
     (if isl (checkpoint_filename (a_mode a) (a_name a)) then Some BadName
      else if a_mode a = mode_local \<and> (case a_model_path a of None \<Rightarrow> True | Some p \<Rightarrow> p = [])
      then Some NeedsModelPath
      else if a_mode a = mode_remote \<and> (case a_model_path a of None \<Rightarrow> False | Some p \<Rightarrow> p \<noteq> [])
      then Some TakesNoModelPath
      else if a_mode a = mode_remote \<and> a_internvl a then Some InternvlIsLocal
      else if a_mode a = mode_remote \<and> isl (remote_model_config (a_remote_model a))
      then Some BadRemoteModel
      else if a_num_samples a \<le> 0 \<or> a_batch_size a \<le> 0 \<or> a_remote_workers a \<le> 0 then Some NotPositive
      else if a_max_prompt_length a \<le> 0 \<or> a_max_new_tokens a \<le> 0 then Some BadLength
      else if pf_lt (a_temperature a) (Fin 0)
        \<or> \<not> (pf_lt (Fin 0) (a_top_p a) \<and> (pf_lt (a_top_p a) (Fin 1) \<or> a_top_p a = Fin 1))
      then Some BadSampling
      else if pf_lt (a_repetition_penalty a) (Fin 0) \<or> a_repetition_penalty a = Fin 0 then Some BadPenalty
      else if a_gemini_max_retries a \<le> 0 \<or> a_gemini_max_image_edge a < 128 then Some BadRemoteLimits
      else if \<not> (30 \<le> a_jpeg_quality a \<and> a_jpeg_quality a \<le> 100) then Some BadQuality
      else None)"

section \<open>The rows\<close>

record eval_row =
  r_order :: int
  r_source :: int
  r_row :: dict
  r_ground_truth :: ustr

record dataset =
  d_columns :: "ustr list"
  d_rows :: "json list"

definition LOCAL_DATA_SOURCE :: ustr where
  "LOCAL_DATA_SOURCE = INCONSISTENT_COT_LOCAL_EVAL_SOURCE"

definition GEMINI_DATA_SOURCE :: ustr where
  "GEMINI_DATA_SOURCE = INCONSISTENT_COT_GEMINI_EVAL_SOURCE"

text \<open>\<open>random.Random(seed).sample(population, num)\<close> is the parameter \<open>sample\<close>.\<close>

definition select_indices ::
  "(int \<Rightarrow> int list \<Rightarrow> int \<Rightarrow> int list) \<Rightarrow> int \<Rightarrow> int \<Rightarrow> ustr \<Rightarrow> int \<Rightarrow> int \<Rightarrow> int list py" where
  "select_indices sample n num selection seed start_row =
     (if n \<le> 0 then Inl ValueError
      else if start_row < 0 \<or> n \<le> start_row then Inl ValueError
      else if n - start_row < num then Inl ValueError
      else if selection = u ''first'' then Inr [start_row..start_row + num - 1]
      else Inr (sort (sample seed [start_row..n - 1] num)))"

definition key_gts :: ustr where "key_gts = u ''gts''"
definition key_ground_truth :: ustr where "key_ground_truth = u ''ground_truth''"
definition key_gt :: ustr where "key_gt = u ''gt''"
definition key_reward_model :: ustr where "key_reward_model = u ''reward_model''"

definition ground_truth_value :: "dict \<Rightarrow> json" where
  "ground_truth_value row =
     (if dict_get row key_gts \<noteq> JNull then dict_get row key_gts
      else if dict_get row key_ground_truth \<noteq> JNull then dict_get row key_ground_truth
      else if dict_get row key_gt \<noteq> JNull then dict_get row key_gt
      else (case dict_get row key_reward_model of
              JObj d \<Rightarrow> dict_get d key_ground_truth
            | _ \<Rightarrow> JNull))"

text \<open>\<open>json.dumps(..., separators=(",", ":"))\<close>.\<close>

fun dumps_compact :: "(pyfloat \<Rightarrow> ustr) \<Rightarrow> json \<Rightarrow> ustr" where
  "dumps_compact fr (JArr vs) = [91] @ py_join [44] (map (dumps_compact fr) vs) @ [93]"
| "dumps_compact fr (JObj kvs) =
     [123] @ py_join [44] (map (\<lambda>(k, v). dumps_str k @ [58] @ dumps_compact fr v) kvs) @ [125]"
| "dumps_compact fr v = dumps_json fr v"

definition json_text :: "(pyfloat \<Rightarrow> ustr) \<Rightarrow> json \<Rightarrow> ustr" where
  "json_text fr v = (case v of JStr s \<Rightarrow> s | JNull \<Rightarrow> [] | _ \<Rightarrow> dumps_compact fr v)"

definition eval_row_of :: "(pyfloat \<Rightarrow> ustr) \<Rightarrow> int \<times> int \<Rightarrow> json \<Rightarrow> eval_row py" where
  "eval_row_of fr pos row =
     (case row of
        JObj d \<Rightarrow>
          (let ground_truth = json_text fr (ground_truth_value d)
           in if ground_truth = [] then Inl ValueError
              else Inr \<lparr>r_order = fst pos, r_source = snd pos, r_row = d, r_ground_truth = ground_truth\<rparr>)
      | _ \<Rightarrow> Inl TypeError)"

definition load_eval_rows ::
  "(pyfloat \<Rightarrow> ustr) \<Rightarrow> (int \<Rightarrow> int list \<Rightarrow> int \<Rightarrow> int list) \<Rightarrow> dataset \<Rightarrow> int \<Rightarrow> ustr \<Rightarrow> int \<Rightarrow> int
     \<Rightarrow> (eval_row list \<times> int) py" where
  "load_eval_rows fr sample data num selection seed start_row =
     (if key_prompt \<notin> set (d_columns data) then Inl ValueError
      else if set (d_columns data) \<inter> {key_reward_model, key_gts, key_ground_truth, key_gt} = {}
      then Inl ValueError
      else bindE (select_indices sample (int (length (d_rows data))) num selection seed start_row)
        (\<lambda>indices.
           bindE (mapE (\<lambda>(order, source_row). eval_row_of fr (order, source_row) (d_rows data ! nat source_row))
                    (zip [0..int (length indices) - 1] indices)) (\<lambda>rows.
             Inr (rows, int (length (d_rows data))))))"

section \<open>Records\<close>

text \<open>\<open>int(value)\<close>.\<close>

fun int_of :: "json \<Rightarrow> int py" where
  "int_of (JInt i) = Inr i"
| "int_of (JBool b) = Inr (if b then 1 else 0)"
| "int_of (JFloat (Fin x)) = Inr (if 0 \<le> x then \<lfloor>x\<rfloor> else \<lceil>x\<rceil>)"
| "int_of (JFloat NaN) = Inl ValueError"
| "int_of (JFloat _) = Inl OverflowError"
| "int_of (JStr s) = (case int_of_str s of None \<Rightarrow> Inl ValueError | Some i \<Rightarrow> Inr i)"
| "int_of _ = Inl TypeError"

definition key_source_row :: ustr where "key_source_row = u ''source_row''"
definition key_sample_order :: ustr where "key_sample_order = u ''sample_order''"
definition key_prediction :: ustr where "key_prediction = u ''prediction''"
definition key_data_source :: ustr where "key_data_source = u ''data_source''"

type_synonym records = "(int \<times> dict) list"

text \<open>One line: \<open>None\<close> for a blank one. The four exceptions the code catches become a \<open>ValueError\<close>.\<close>

definition read_line :: "ustr \<Rightarrow> (int \<times> dict) option py" where
  "read_line line =
     (if py_strip line = [] then Inr None
      else (case bindE (json_loads line) (\<lambda>value.
                case value of
                  JObj d \<Rightarrow> bindE (dict_item d key_source_row) (\<lambda>v. bindE (int_of v) (\<lambda>i. Inr (i, d)))
                | _ \<Rightarrow> Inl TypeError) of
              Inr r \<Rightarrow> Inr (Some r)
            | Inl e \<Rightarrow> Inl (if is_ValueError e \<or> e = KeyError \<or> e = TypeError then ValueError else e)))"

fun read_lines :: "ustr list \<Rightarrow> records \<Rightarrow> records py" where
  "read_lines [] records = Inr records"
| "read_lines (line # rest) records =
     bindE (read_line line) (\<lambda>r.
       read_lines rest (case r of None \<Rightarrow> records | Some (i, d) \<Rightarrow> AList.update i d records))"

definition read_checkpoint :: "ustr list option \<Rightarrow> records py" where
  "read_checkpoint file = (case file of None \<Rightarrow> Inr [] | Some lines \<Rightarrow> read_lines lines [])"

definition json_opt :: "ustr option \<Rightarrow> json" where
  "json_opt s = (case s of None \<Rightarrow> JNull | Some t \<Rightarrow> JStr t)"

definition checkpoint_metadata :: "rollout_args \<Rightarrow> dict py" where
  "checkpoint_metadata a =
     bindE (if a_mode a = mode_remote then bindE (remote_model_config (a_remote_model a)) (\<lambda>c. Inr (Some c))
            else Inr None) (\<lambda>remote.
       Inr ([(u ''schema_version'', JInt 1), (u ''mode'', JStr (a_mode a)), (u ''name'', JStr (a_name a)),
             (u ''backend'', JStr (case remote of Some c \<Rightarrow> rc_backend c
                | None \<Rightarrow> if a_internvl a then u ''internvl'' else u ''qwen'')),
             (u ''data_path'', JStr (a_data_path a)),
             (u ''model_path'', if a_mode a = mode_local then json_opt (a_model_path a) else JNull),
             (u ''num_samples'', JInt (a_num_samples a)), (u ''selection'', JStr (a_selection a)),
             (u ''seed'', JInt (a_seed a)), (u ''start_row'', JInt (a_start_row a)),
             (u ''generation_seed'', JInt (a_generation_seed a)), (u ''batch_size'', JInt (a_batch_size a)),
             (u ''dtype'', JStr (a_dtype a)), (u ''max_prompt_length'', JInt (a_max_prompt_length a)),
             (u ''max_new_tokens'', JInt (a_max_new_tokens a)), (u ''temperature'', JFloat (a_temperature a)),
             (u ''top_p'', JFloat (a_top_p a)), (u ''top_k'', JInt (a_top_k a)),
             (u ''repetition_penalty'', JFloat (a_repetition_penalty a)),
             (u ''reveal_gt_answer'', JBool (a_reveal_gt_answer a)),
             (u ''remote_model'', if a_mode a = mode_remote then JStr (a_remote_model a) else JNull)]
            @ (case remote of
                 None \<Rightarrow> [(u ''gemini_thinking_level'', JNull)]
               | Some c \<Rightarrow>
                   if rc_backend c = u ''gemini''
                   then [(u ''gemini_thinking_level'', JStr (rc_thinking_level c))]
                   else [(u ''remote_thinking_level'', JStr (rc_thinking_level c))])))"

text \<open>\<open>==\<close> between a saved value and an expected one, which is a string, a number, a boolean or
  \<open>None\<close>; numbers compare by value and NaN is equal to nothing.\<close>

fun number_of :: "json \<Rightarrow> pyfloat option" where
  "number_of (JInt i) = Some (Fin (real_of_int i))"
| "number_of (JBool b) = Some (Fin (if b then 1 else 0))"
| "number_of (JFloat f) = Some f"
| "number_of _ = None"

definition scalar_eq :: "json \<Rightarrow> json \<Rightarrow> bool" where
  "scalar_eq saved expected =
     (case (number_of saved, number_of expected) of
        (Some x, Some y) \<Rightarrow> x = y \<and> x \<noteq> NaN
      | (None, None) \<Rightarrow> saved = expected
      | _ \<Rightarrow> False)"

definition find_row :: "eval_row list \<Rightarrow> int \<Rightarrow> eval_row option" where
  "find_row rows i = map_of (rev (map (\<lambda>r. (r_source r, r)) rows)) i"

text \<open>The keys of one record that differ from this run.\<close>

definition mismatches :: "dict \<Rightarrow> eval_row list \<Rightarrow> int \<times> dict \<Rightarrow> ustr list" where
  "mismatches expected rows rec =
     map fst (filter (\<lambda>(k, v). \<not> scalar_eq (dict_get (snd rec) k) v) expected)
     @ (case find_row rows (fst rec) of
          None \<Rightarrow> [key_source_row]
        | Some r \<Rightarrow>
            if scalar_eq (dict_get (snd rec) key_ground_truth) (JStr (r_ground_truth r)) then []
            else [key_ground_truth])"

definition validate_checkpoint :: "records \<Rightarrow> eval_row list \<Rightarrow> rollout_args \<Rightarrow> unit py" where
  "validate_checkpoint completed rows a =
     bindE (checkpoint_metadata a) (\<lambda>expected.
       if list_all (\<lambda>rec. mismatches expected rows rec = []) completed then Inr () else Inl ValueError)"

definition checkpoint_payload :: "rollout_args \<Rightarrow> eval_row \<Rightarrow> ustr \<Rightarrow> ustr \<Rightarrow> dict py" where
  "checkpoint_payload a row prediction error =
     bindE (checkpoint_metadata a) (\<lambda>meta.
       Inr (meta @ [(key_source_row, JInt (r_source row)), (key_sample_order, JInt (r_order row)),
         (key_data_source, JStr (if a_mode a = mode_local then LOCAL_DATA_SOURCE else GEMINI_DATA_SOURCE)),
         (key_ground_truth, JStr (r_ground_truth row)), (key_prediction, JStr prediction),
         (key_error, JStr error)]))"

text \<open>The file is opened, and so created, before the line is encoded.\<close>

definition append_checkpoint ::
  "(pyfloat \<Rightarrow> ustr) \<Rightarrow> rollout_args \<Rightarrow> eval_row \<Rightarrow> ustr \<times> ustr \<Rightarrow> ustr list option
     \<Rightarrow> ustr list option \<times> unit py" where
  "append_checkpoint fr a row result file =
     (case checkpoint_payload a row (fst result) (snd result) of
        Inl e \<Rightarrow> (file, Inl e)
      | Inr payload \<Rightarrow>
          (let lines = (case file of None \<Rightarrow> [] | Some ls \<Rightarrow> ls);
               line = dumps_json fr (JObj payload) @ [10]
           in case utf8_encode line of
                Inl e \<Rightarrow> (Some lines, Inl e)
              | Inr _ \<Rightarrow> (Some (lines @ [line]), Inr ())))"

section \<open>The two runs\<close>

text \<open>\<open>type(exc).__name__: exc\<close> is the parameter \<open>exn_text\<close>. \<open>generate n batch\<close> is the \<open>n\<close>-th call of
  the engine.\<close>

type_synonym engine = "nat \<Rightarrow> eval_row list \<Rightarrow> ustr list py"

definition single_result :: "(py_exn \<Rightarrow> ustr) \<Rightarrow> ustr list py \<Rightarrow> ustr \<times> ustr" where
  "single_result exn_text r =
     (case r of Inr (p # _) \<Rightarrow> (p, []) | Inr [] \<Rightarrow> ([], exn_text IndexError) | Inl e \<Rightarrow> ([], exn_text e))"

text \<open>The rows one by one, each with its own call.\<close>

fun run_singles ::
  "(py_exn \<Rightarrow> ustr) \<Rightarrow> engine \<Rightarrow> nat \<Rightarrow> eval_row list \<Rightarrow> (int \<rightharpoonup> ustr \<times> ustr) \<Rightarrow> (int \<rightharpoonup> ustr \<times> ustr)" where
  "run_singles exn_text generate n [] results = results"
| "run_singles exn_text generate n (r # rs) results =
     run_singles exn_text generate (Suc n) rs
       (results(r_source r \<mapsto> single_result exn_text (generate n [r])))"

text \<open>A batch: its results by source row and the number of calls made. The strict \<open>zip\<close> raises on a
  wrong number of predictions after it has stored those that fit.\<close>

definition batch_results ::
  "(py_exn \<Rightarrow> ustr) \<Rightarrow> engine \<Rightarrow> nat \<Rightarrow> eval_row list \<Rightarrow> (int \<rightharpoonup> ustr \<times> ustr) \<times> nat" where
  "batch_results exn_text generate n batch =
     (case generate n batch of
        Inr predictions \<Rightarrow>
          (let stored = map_of (rev (zip (map r_source batch) (map (\<lambda>p. (p, [])) predictions)))
           in if length predictions = length batch then (stored, Suc n)
              else (run_singles exn_text generate (Suc n) batch stored, Suc n + length batch))
      | Inl e \<Rightarrow> (run_singles exn_text generate (Suc n) batch (\<lambda>_. None), Suc n + length batch))"

fun append_results ::
  "(pyfloat \<Rightarrow> ustr) \<Rightarrow> rollout_args \<Rightarrow> (int \<rightharpoonup> ustr \<times> ustr) \<Rightarrow> eval_row list \<Rightarrow> ustr list option
     \<Rightarrow> ustr list option \<times> unit py" where
  "append_results fr a results [] file = (file, Inr ())"
| "append_results fr a results (r # rs) file =
     (case results (r_source r) of
        None \<Rightarrow> (file, Inl KeyError)
      | Some res \<Rightarrow>
          (case append_checkpoint fr a r res file of
             (file', Inl e) \<Rightarrow> (file', Inl e)
           | (file', Inr _) \<Rightarrow> append_results fr a results rs file'))"

text \<open>\<open>pending[start : start + batch_size]\<close> for every start.\<close>

fun batches :: "nat \<Rightarrow> 'a list \<Rightarrow> 'a list list" where
  "batches n xs = (if n = 0 \<or> xs = [] then [] else take n xs # batches n (drop n xs))"

declare batches.simps [simp del]

fun run_batches ::
  "(pyfloat \<Rightarrow> ustr) \<Rightarrow> (py_exn \<Rightarrow> ustr) \<Rightarrow> rollout_args \<Rightarrow> engine \<Rightarrow> nat \<Rightarrow> eval_row list list
     \<Rightarrow> ustr list option \<Rightarrow> ustr list option \<times> unit py" where
  "run_batches fr exn_text a generate n [] file = (file, Inr ())"
| "run_batches fr exn_text a generate n (b # bs) file =
     (case batch_results exn_text generate n b of
        (results, n') \<Rightarrow>
          (case append_results fr a results b file of
             (file', Inl e) \<Rightarrow> (file', Inl e)
           | (file', Inr _) \<Rightarrow> run_batches fr exn_text a generate n' bs file'))"

text \<open>\<open>load\<close> is the construction of the engine.\<close>

definition run_local ::
  "(pyfloat \<Rightarrow> ustr) \<Rightarrow> (py_exn \<Rightarrow> ustr) \<Rightarrow> unit py \<Rightarrow> engine \<Rightarrow> rollout_args \<Rightarrow> eval_row list
     \<Rightarrow> ustr list option \<Rightarrow> ustr list option \<times> unit py" where
  "run_local fr exn_text load generate a pending file =
     (case load of
        Inl e \<Rightarrow> (file, Inl e)
      | Inr _ \<Rightarrow>
          if a_batch_size a = 0 then (file, Inl ValueError)
          else run_batches fr exn_text a generate 0 (batches (nat (a_batch_size a)) pending) file)"

text \<open>The remote texts of the code's errors.\<close>

definition no_object_text :: ustr where
  "no_object_text = [36828, 31243, 36755, 20986, 20013, 25214, 19981, 21040, 26377, 25928, 32, 74, 83,
     79, 78, 32, 111, 98, 106, 101, 99, 116]"

definition bad_object_text :: ustr where
  "bad_object_text = [36828, 31243, 32, 74, 83, 79, 78, 32, 24517, 39035, 21253, 21547, 32, 97, 110, 115,
     119, 101, 114, 32, 21644, 23383, 31526, 20018, 32, 115, 117, 109, 109, 97, 114, 121]"

fun truthy :: "json \<Rightarrow> bool" where
  "truthy JNull = False"
| "truthy (JBool b) = b"
| "truthy (JInt i) = (i \<noteq> 0)"
| "truthy (JFloat f) = (f \<noteq> Fin 0)"
| "truthy (JStr s) = (s \<noteq> [])"
| "truthy (JArr vs) = (vs \<noteq> [])"
| "truthy (JObj kvs) = (kvs \<noteq> [])"

text \<open>The part of \<open>generate_one\<close> after the call: \<open>result\<close> is the dict \<open>call_idealab\<close> returns.\<close>

definition read_reply :: "(pyfloat \<Rightarrow> ustr) \<Rightarrow> dict \<Rightarrow> ustr \<times> ustr" where
  "read_reply fr result =
     (if \<not> truthy (dict_get result (u ''ok''))
      then ([], py_str fr (dict_get_or result key_error (JStr (u ''unknown remote error''))))
      else let prediction = py_strip (py_str fr (dict_get_or result key_text (JStr [])))
           in case parse_json_obj fr (JStr prediction) of
                None \<Rightarrow> (prediction, no_object_text)
              | Some obj \<Rightarrow>
                  if \<not> has_key obj key_answer \<or> (case dict_get obj key_summary of JStr _ \<Rightarrow> False | _ \<Rightarrow> True)
                  then (prediction, bad_object_text)
                  else (prediction, []))"

text \<open>\<open>call r\<close> is the preparation of the request of a row and the call of the service.\<close>

definition generate_one ::
  "(pyfloat \<Rightarrow> ustr) \<Rightarrow> (py_exn \<Rightarrow> ustr) \<Rightarrow> (eval_row \<Rightarrow> dict py) \<Rightarrow> eval_row \<Rightarrow> ustr \<times> ustr" where
  "generate_one fr exn_text call row =
     (case call row of Inl e \<Rightarrow> ([], exn_text e) | Inr result \<Rightarrow> read_reply fr result)"

fun append_completed ::
  "(pyfloat \<Rightarrow> ustr) \<Rightarrow> rollout_args \<Rightarrow> (eval_row \<Rightarrow> ustr \<times> ustr) \<Rightarrow> eval_row list \<Rightarrow> ustr list option
     \<Rightarrow> ustr list option \<times> unit py" where
  "append_completed fr a result [] file = (file, Inr ())"
| "append_completed fr a result (r # rs) file =
     (case append_checkpoint fr a r (result r) file of
        (file', Inl e) \<Rightarrow> (file', Inl e)
      | (file', Inr _) \<Rightarrow> append_completed fr a result rs file')"

text \<open>\<open>setup\<close> is the loading of the module, the credentials and the object store; \<open>order\<close> puts the
  pending rows in the order in which their calls complete.\<close>

definition run_remote ::
  "(pyfloat \<Rightarrow> ustr) \<Rightarrow> (py_exn \<Rightarrow> ustr) \<Rightarrow> unit py \<Rightarrow> (eval_row \<Rightarrow> dict py)
     \<Rightarrow> (eval_row list \<Rightarrow> eval_row list) \<Rightarrow> rollout_args \<Rightarrow> eval_row list
     \<Rightarrow> ustr list option \<Rightarrow> ustr list option \<times> unit py" where
  "run_remote fr exn_text setup call order a pending file =
     (case remote_model_config (a_remote_model a) of
        Inl e \<Rightarrow> (file, Inl e)
      | Inr _ \<Rightarrow>
          (case setup of
             Inl e \<Rightarrow> (file, Inl e)
           | Inr _ \<Rightarrow> append_completed fr a (generate_one fr exn_text call) (order pending) file))"

section \<open>The whole run\<close>

record rollout_env =
  e_fr :: "pyfloat \<Rightarrow> ustr"
  e_exn_text :: "py_exn \<Rightarrow> ustr"
  e_sample :: "int \<Rightarrow> int list \<Rightarrow> int \<Rightarrow> int list"
  e_dataset :: dataset
  e_load :: "unit py"
  e_engine :: engine
  e_setup :: "unit py"
  e_call :: "eval_row \<Rightarrow> dict py"
  e_order :: "eval_row list \<Rightarrow> eval_row list"

definition pending_rows :: "rollout_args \<Rightarrow> eval_row list \<Rightarrow> records \<Rightarrow> eval_row list" where
  "pending_rows a rows completed =
     filter (\<lambda>r. case map_of completed (r_source r) of
                   None \<Rightarrow> True
                 | Some d \<Rightarrow> a_retry_errors a \<and> truthy (dict_get d key_error)) rows"

text \<open>\<open>main\<close> after the checks of the paths: the file before, the file after and how it ended.\<close>

definition rollout_main ::
  "rollout_env \<Rightarrow> rollout_args \<Rightarrow> ustr list option \<Rightarrow> ustr list option \<times> unit py" where
  "rollout_main e a file =
     (let file1 = (if a_overwrite a then None else file)
      in case load_eval_rows (e_fr e) (e_sample e) (e_dataset e) (a_num_samples a) (a_selection a)
                (a_seed a) (a_start_row a) of
           Inl err \<Rightarrow> (file1, Inl err)
         | Inr (rows, _) \<Rightarrow>
             (case read_checkpoint file1 of
                Inl err \<Rightarrow> (file1, Inl err)
              | Inr completed \<Rightarrow>
                  (case validate_checkpoint completed rows a of
                     Inl err \<Rightarrow> (file1, Inl err)
                   | Inr _ \<Rightarrow>
                       (let pending = pending_rows a rows completed
                        in if pending = [] then (file1, Inr ())
                           else if a_mode a = mode_local
                           then run_local (e_fr e) (e_exn_text e) (e_load e) (e_engine e) a pending file1
                           else run_remote (e_fr e) (e_exn_text e) (e_setup e) (e_call e) (e_order e) a
                                  pending file1))))"

section \<open>Records and lines\<close>

definition metadata_keys :: "ustr list" where
  "metadata_keys = map u [''schema_version'', ''mode'', ''name'', ''backend'', ''data_path'', ''model_path'',
     ''num_samples'', ''selection'', ''seed'', ''start_row'', ''generation_seed'', ''batch_size'', ''dtype'',
     ''max_prompt_length'', ''max_new_tokens'', ''temperature'', ''top_p'', ''top_k'',
     ''repetition_penalty'', ''reveal_gt_answer'', ''remote_model'']"

definition record_keys :: "ustr list" where
  "record_keys = [key_source_row, key_sample_order, key_data_source, key_ground_truth, key_prediction, key_error]"

lemma metadata_fst:
  assumes "checkpoint_metadata a = Inr m"
  shows "\<exists>k \<in> {u ''gemini_thinking_level'', u ''remote_thinking_level''}. map fst m = metadata_keys @ [k]"
  using assms by (auto simp: checkpoint_metadata_def metadata_keys_def split: if_splits option.splits)

lemma all_keys_distinct:
  "distinct (metadata_keys @ [u ''gemini_thinking_level''] @ record_keys)"
  "distinct (metadata_keys @ [u ''remote_thinking_level''] @ record_keys)"
  by code_simp+

lemma payload_split:
  assumes "checkpoint_payload a row p e = Inr d"
  obtains m where "checkpoint_metadata a = Inr m"
    and "d = m @ [(key_source_row, JInt (r_source row)), (key_sample_order, JInt (r_order row)),
         (key_data_source, JStr (if a_mode a = mode_local then LOCAL_DATA_SOURCE else GEMINI_DATA_SOURCE)),
         (key_ground_truth, JStr (r_ground_truth row)), (key_prediction, JStr p), (key_error, JStr e)]"
  using assms by (auto simp: checkpoint_payload_def)

lemma payload_distinct:
  assumes "checkpoint_payload a row p e = Inr d"
  shows "distinct (map fst d)"
proof -
  obtain m where m: "checkpoint_metadata a = Inr m" and d: "map fst d = map fst m @ record_keys"
    using assms by (auto elim!: payload_split simp: record_keys_def)
  obtain k where k: "k \<in> {u ''gemini_thinking_level'', u ''remote_thinking_level''}"
    and "map fst m = metadata_keys @ [k]"
    using metadata_fst [OF m] by blast
  then have "map fst d = metadata_keys @ [k] @ record_keys" by (simp add: d)
  then show ?thesis using k all_keys_distinct by auto
qed

lemma dict_get_mem: "distinct (map fst d) \<Longrightarrow> (k, v) \<in> set d \<Longrightarrow> dict_get d k = v"
  by (simp add: dict_get_def map_of_is_SomeI)

lemma payload_fields:
  assumes "checkpoint_payload a row p e = Inr d"
  shows "map_of d key_source_row = Some (JInt (r_source row))"
    and "dict_get d key_sample_order = JInt (r_order row)"
    and "dict_get d key_ground_truth = JStr (r_ground_truth row)"
    and "dict_get d key_prediction = JStr p" and "dict_get d key_error = JStr e"
    and "checkpoint_metadata a = Inr m \<Longrightarrow> (k, v) \<in> set m \<Longrightarrow> dict_get d k = v"
proof -
  note dm = payload_distinct [OF assms]
  obtain m' where m': "checkpoint_metadata a = Inr m'" and d: "d = m' @
      [(key_source_row, JInt (r_source row)), (key_sample_order, JInt (r_order row)),
       (key_data_source, JStr (if a_mode a = mode_local then LOCAL_DATA_SOURCE else GEMINI_DATA_SOURCE)),
       (key_ground_truth, JStr (r_ground_truth row)), (key_prediction, JStr p), (key_error, JStr e)]"
    using payload_split [OF assms] by blast
  show "map_of d key_source_row = Some (JInt (r_source row))"
    by (rule map_of_is_SomeI [OF dm]) (simp add: d)
  show "dict_get d key_sample_order = JInt (r_order row)" by (rule dict_get_mem [OF dm]) (simp add: d)
  show "dict_get d key_ground_truth = JStr (r_ground_truth row)" by (rule dict_get_mem [OF dm]) (simp add: d)
  show "dict_get d key_prediction = JStr p" by (rule dict_get_mem [OF dm]) (simp add: d)
  show "dict_get d key_error = JStr e" by (rule dict_get_mem [OF dm]) (simp add: d)
  show "dict_get d k = v" if "checkpoint_metadata a = Inr m" "(k, v) \<in> set m"
    by (rule dict_get_mem [OF dm]) (use m' that in \<open>simp add: d\<close>)
qed

text \<open>The strings and numbers of a run are Python's, and its floats are written as \<open>repr\<close> does.\<close>

definition row_dumpable :: "eval_row \<Rightarrow> bool" where
  "row_dumpable r \<longleftrightarrow> nonneg (r_ground_truth r) \<and> length (nat_digits (nat \<bar>r_source r\<bar>)) \<le> 4300
     \<and> length (nat_digits (nat \<bar>r_order r\<bar>)) \<le> 4300"

definition metadata_dumpable :: "(pyfloat \<Rightarrow> ustr) \<Rightarrow> rollout_args \<Rightarrow> bool" where
  "metadata_dumpable fr a \<longleftrightarrow> (case checkpoint_metadata a of Inr m \<Rightarrow> dumpable fr (JObj m) | Inl _ \<Rightarrow> True)"

definition result_ok :: "ustr \<times> ustr \<Rightarrow> bool" where
  "result_ok res \<longleftrightarrow> nonneg (fst res) \<and> nonneg (snd res)"

lemma nonneg_keys: "list_all nonneg (record_keys @ [LOCAL_DATA_SOURCE, GEMINI_DATA_SOURCE])"
  by code_simp

lemma payload_dumpable:
  assumes "checkpoint_payload a row (fst res) (snd res) = Inr d" and "metadata_dumpable fr a"
    and "row_dumpable row" and "result_ok res"
  shows "dumpable fr (JObj d)"
proof -
  obtain m where m: "checkpoint_metadata a = Inr m" and d: "d = m @
      [(key_source_row, JInt (r_source row)), (key_sample_order, JInt (r_order row)),
       (key_data_source, JStr (if a_mode a = mode_local then LOCAL_DATA_SOURCE else GEMINI_DATA_SOURCE)),
       (key_ground_truth, JStr (r_ground_truth row)), (key_prediction, JStr (fst res)),
       (key_error, JStr (snd res))]"
    using payload_split [OF assms(1)] by blast
  have "list_all (\<lambda>(k, v). nonneg k \<and> dumpable fr v) m"
    using assms(2) m by (simp add: metadata_dumpable_def)
  then show ?thesis
    using payload_distinct [OF assms(1)] nonneg_keys assms(3,4)
    by (simp add: d record_keys_def row_dumpable_def result_ok_def)
qed

text \<open>The line of a record is read back as that record.\<close>

lemma read_record_line:
  assumes "dumpable fr (JObj d)" and "map_of d key_source_row = Some (JInt i)"
  shows "read_line (dumps_json fr (JObj d) @ [10]) = Inr (Some (i, d))"
proof -
  have "\<not> is_space 123" by code_simp
  then have "py_strip (dumps_json fr (JObj d) @ [10]) \<noteq> []"
    by (auto simp: py_strip_eq_Nil)
  then show ?thesis
    using loads_dumps [OF assms(1), of "[10]"] assms(2) by (simp add: read_line_def dict_item_def)
qed

lemma read_lines_append:
  "read_lines (ls @ ls') rs = bindE (read_lines ls rs) (read_lines ls')"
  by (induction ls arbitrary: rs) (auto simp: bindE_assoc)

lemma read_lines_distinct:
  "read_lines ls rs = Inr rs' \<Longrightarrow> distinct (map fst rs) \<Longrightarrow> distinct (map fst rs')"
  by (induction ls arbitrary: rs) (auto split: option.splits simp: distinct_update)

text \<open>After a record has been appended, the checkpoint holds it under its row, in place of an
  earlier record of that row; the other rows keep their records.\<close>

lemma append_read:
  assumes "append_checkpoint fr a row res fl = (fl', Inr ())" and "read_checkpoint fl = Inr recs"
    and "metadata_dumpable fr a" and "row_dumpable row" and "result_ok res"
  shows "\<exists>d. checkpoint_payload a row (fst res) (snd res) = Inr d
    \<and> read_checkpoint fl' = Inr (AList.update (r_source row) d recs)"
proof -
  obtain d where d: "checkpoint_payload a row (fst res) (snd res) = Inr d"
    and f: "fl' = Some ((case fl of None \<Rightarrow> [] | Some ls \<Rightarrow> ls) @ [dumps_json fr (JObj d) @ [10]])"
    using assms(1) by (auto simp: append_checkpoint_def Let_def split: sum.splits)
  have r: "read_line (dumps_json fr (JObj d) @ [10]) = Inr (Some (r_source row, d))"
    using read_record_line [OF payload_dumpable [OF d assms(3-5)] payload_fields(1) [OF d]] .
  have "read_lines (case fl of None \<Rightarrow> [] | Some ls \<Rightarrow> ls) [] = Inr recs"
    using assms(2) by (simp add: read_checkpoint_def split: option.splits)
  then show ?thesis using d r by (simp add: f read_checkpoint_def read_lines_append)
qed

section \<open>Both runs append one record per pending row\<close>

text \<open>What a run leaves in the checkpoint: the rows' records, the last one of a row winning.\<close>

fun record_all ::
  "rollout_args \<Rightarrow> (eval_row \<Rightarrow> ustr \<times> ustr) \<Rightarrow> eval_row list \<Rightarrow> records \<Rightarrow> records" where
  "record_all a res [] recs = recs"
| "record_all a res (r # rs) recs =
     record_all a res rs
       (case checkpoint_payload a r (fst (res r)) (snd (res r)) of
          Inr d \<Rightarrow> AList.update (r_source r) d recs | Inl _ \<Rightarrow> recs)"

lemma append_completed_read:
  assumes "append_completed fr a res rs fl = (fl', Inr ())" and "read_checkpoint fl = Inr recs"
    and "metadata_dumpable fr a" and "\<forall>r \<in> set rs. row_dumpable r \<and> result_ok (res r)"
  shows "read_checkpoint fl' = Inr (record_all a res rs recs)
    \<and> (\<forall>r \<in> set rs. \<not> isl (checkpoint_payload a r (fst (res r)) (snd (res r))))"
  using assms
proof (induction rs arbitrary: fl recs)
  case (Cons r rs)
  obtain fl1 where one: "append_checkpoint fr a r (res r) fl = (fl1, Inr ())"
    and rest: "append_completed fr a res rs fl1 = (fl', Inr ())"
    using Cons.prems(1) by (auto split: prod.splits sum.splits)
  obtain d where d: "checkpoint_payload a r (fst (res r)) (snd (res r)) = Inr d"
    and read: "read_checkpoint fl1 = Inr (AList.update (r_source r) d recs)"
    using append_read [OF one Cons.prems(2,3)] Cons.prems(4) by auto
  show ?case using Cons.IH [OF rest read Cons.prems(3)] Cons.prems(4) d by simp
qed simp

lemma record_all_other: "i \<notin> r_source ` set rs \<Longrightarrow> map_of (record_all a res rs recs) i = map_of recs i"
  by (induction rs arbitrary: recs) (auto simp: update_conv' split: sum.splits)

lemma record_all_row:
  "distinct (map r_source rs) \<Longrightarrow> \<forall>r \<in> set rs. \<not> isl (checkpoint_payload a r (fst (res r)) (snd (res r)))
    \<Longrightarrow> r \<in> set rs \<Longrightarrow> \<exists>d. checkpoint_payload a r (fst (res r)) (snd (res r)) = Inr d
      \<and> map_of (record_all a res rs recs) (r_source r) = Some d"
proof (induction rs arbitrary: recs)
  case (Cons r' rs)
  obtain d where d: "checkpoint_payload a r' (fst (res r')) (snd (res r')) = Inr d"
    using Cons.prems(2) by (cases "checkpoint_payload a r' (fst (res r')) (snd (res r'))") auto
  show ?case
  proof (cases "r = r'")
    case True
    have "r_source r' \<notin> r_source ` set rs" using Cons.prems(1) by simp
    then show ?thesis using record_all_other True d by (simp add: update_conv')
  next
    case False
    then show ?thesis using Cons.IH Cons.prems d by simp
  qed
qed simp

text \<open>The order in which the rows were appended does not matter to what is read.\<close>

lemma record_all_order:
  assumes "distinct (map r_source rs)" and "mset rs' = mset rs"
    and "\<forall>r \<in> set rs. \<not> isl (checkpoint_payload a r (fst (res r)) (snd (res r)))"
  shows "map_of (record_all a res rs' recs) = map_of (record_all a res rs recs)"
proof
  fix i
  have s: "set rs' = set rs" using assms(2) by (metis set_mset_mset)
  have d': "distinct (map r_source rs')" using assms(1,2) by (metis mset_map mset_eq_imp_distinct_iff)
  show "map_of (record_all a res rs' recs) i = map_of (record_all a res rs recs) i"
  proof (cases "i \<in> r_source ` set rs")
    case False
    then show ?thesis using record_all_other s by metis
  next
    case True
    then obtain r where r: "r \<in> set rs" "i = r_source r" by blast
    show ?thesis
      using record_all_row [OF assms(1,3) r(1), of recs] record_all_row [OF d', of a res r recs] assms(3) s r
      by auto
  qed
qed

section \<open>The local run\<close>

lemma batches_concat: "0 < n \<Longrightarrow> concat (batches n xs) = xs"
proof (induction n xs rule: batches.induct)
  case (1 n xs)
  then show ?case by (subst batches.simps) auto
qed

lemma run_singles_all:
  "distinct (map r_source rs) \<Longrightarrow> r \<in> set rs \<Longrightarrow>
     \<exists>k. run_singles exn_text generate n rs m (r_source r) = Some (single_result exn_text (generate k [r]))"
proof (induction rs arbitrary: n m)
  case (Cons r' rs)
  have keep: "i \<notin> r_source ` set rs \<Longrightarrow> run_singles exn_text generate k rs m' i = m' i" for i k m'
    by (induction rs arbitrary: k m') auto
  show ?case
  proof (cases "r = r'")
    case True
    then show ?thesis using Cons.prems keep by auto
  next
    case False
    then show ?thesis using Cons by auto
  qed
qed simp

text \<open>Every row of a batch gets a result: the prediction made for it in its batch, or its own call's
  prediction or error.\<close>

definition local_result :: "(py_exn \<Rightarrow> ustr) \<Rightarrow> engine \<Rightarrow> eval_row list \<Rightarrow> eval_row \<Rightarrow> ustr \<times> ustr \<Rightarrow> bool" where
  "local_result exn_text generate pending r res \<longleftrightarrow>
     (\<exists>k. res = single_result exn_text (generate k [r]))
     \<or> (\<exists>k batch ps j. set batch \<subseteq> set pending \<and> generate k batch = Inr ps \<and> length ps = length batch
          \<and> j < length batch \<and> batch ! j = r \<and> res = (ps ! j, []))"

lemma batch_results_all:
  assumes "distinct (map r_source batch)" and "r \<in> set batch"
  shows "\<exists>res. fst (batch_results exn_text generate n batch) (r_source r) = Some res
    \<and> local_result exn_text generate batch r res"
proof (cases "\<exists>ps. generate n batch = Inr ps \<and> length ps = length batch")
  case False
  have "\<exists>m. fst (batch_results exn_text generate n batch) = run_singles exn_text generate (Suc n) batch m"
    using False by (cases "generate n batch") (auto simp: batch_results_def Let_def)
  then show ?thesis using run_singles_all [OF assms] unfolding local_result_def by metis
next
  case True
  then obtain ps where ps: "generate n batch = Inr ps" "length ps = length batch" by blast
  obtain j where j: "j < length batch" "batch ! j = r" using assms(2) by (auto simp: in_set_conv_nth)
  let ?z = "zip (map r_source batch) (map (\<lambda>p. (p, [])) ps)"
  have "(r_source r, (ps ! j, [])) \<in> set (rev ?z)"
    using j ps(2) by (force simp: in_set_zip)
  moreover have "distinct (map fst (rev ?z))"
    using assms(1) ps(2) by (simp add: rev_map [symmetric] map_fst_zip)
  ultimately have "map_of (rev ?z) (r_source r) = Some (ps ! j, [])" by (rule map_of_is_SomeI [rotated])
  then have "fst (batch_results exn_text generate n batch) (r_source r) = Some (ps ! j, [])"
    using ps by (simp add: batch_results_def)
  moreover have "local_result exn_text generate batch r (ps ! j, [])"
    unfolding local_result_def using ps j by blast
  ultimately show ?thesis by blast
qed

lemma append_results_completed:
  "\<forall>r \<in> set rs. results (r_source r) = Some (res r) \<Longrightarrow>
     append_results fr a results rs fl = append_completed fr a res rs fl"
  by (induction rs arbitrary: fl) (auto split: prod.splits sum.splits)

lemma append_completed_append:
  "append_completed fr a res (rs @ rs') fl =
     (case append_completed fr a res rs fl of
        (fl', Inl e) \<Rightarrow> (fl', Inl e) | (fl', Inr _) \<Rightarrow> append_completed fr a res rs' fl')"
  by (induction rs arbitrary: fl) (auto split: prod.splits sum.splits)

lemma append_completed_cong:
  "\<forall>r \<in> set rs. res r = res' r \<Longrightarrow> append_completed fr a res rs fl = append_completed fr a res' rs fl"
  by (induction rs arbitrary: fl) (auto split: prod.splits sum.splits)

lemma local_result_mono:
  "local_result exn_text generate xs r res \<Longrightarrow> set xs \<subseteq> set ys \<Longrightarrow> local_result exn_text generate ys r res"
  unfolding local_result_def by blast

lemma run_batches_completed:
  fixes bs :: "eval_row list list"
  assumes "distinct (map r_source (concat bs))"
  shows "\<exists>res. run_batches fr exn_text a generate n bs fl = append_completed fr a res (concat bs) fl
    \<and> (\<forall>r \<in> set (concat bs). local_result exn_text generate (concat bs) r (res r))"
  using assms
proof (induction bs arbitrary: n fl)
  case (Cons b bs)
  obtain results n' where b: "batch_results exn_text generate n b = (results, n')" by fastforce
  have db: "distinct (map r_source b)" using Cons.prems by simp
  define res1 where "res1 = (\<lambda>r::eval_row. the (results (r_source r)))"
  have r1: "\<forall>r \<in> set b. results (r_source r) = Some (res1 r) \<and> local_result exn_text generate b r (res1 r)"
    using batch_results_all [OF db, of _ exn_text generate n] by (fastforce simp: b res1_def)
  obtain fl1 x where one: "append_results fr a results b fl = (fl1, x)" by fastforce
  have one': "append_completed fr a res1 b fl = (fl1, x)"
    using append_results_completed [of b results res1] r1 one by simp
  obtain res2 where r2: "run_batches fr exn_text a generate n' bs fl1 = append_completed fr a res2 (concat bs) fl1"
    "\<forall>r \<in> set (concat bs). local_result exn_text generate (concat bs) r (res2 r)"
    using Cons.IH [of n' fl1] Cons.prems by auto
  define res where "res = (\<lambda>r. if r \<in> set b then res1 r else res2 r)"
  have disj: "set b \<inter> set (concat bs) = {}" using Cons.prems by auto
  have e1: "\<forall>r \<in> set b. res r = res1 r" by (simp add: res_def)
  have e2: "\<forall>r \<in> set (concat bs). res r = res2 r"
  proof
    fix r assume "r \<in> set (concat bs)"
    then have "r \<notin> set b" using disj by blast
    then show "res r = res2 r" by (simp add: res_def)
  qed
  have c: "append_completed fr a res b fl = (fl1, x)"
    "append_completed fr a res (concat bs) fl1 = append_completed fr a res2 (concat bs) fl1"
    using append_completed_cong [OF e1] append_completed_cong [OF e2] one' by simp_all
  have "run_batches fr exn_text a generate n (b # bs) fl = append_completed fr a res (concat (b # bs)) fl"
    using b one r2(1) c by (cases x) (simp_all add: append_completed_append)
  moreover have "local_result exn_text generate (concat (b # bs)) r (res r)" if "r \<in> set (concat (b # bs))" for r
    using that r1 r2(2) local_result_mono [of exn_text generate b r "res1 r" "concat (b # bs)"]
      local_result_mono [of exn_text generate "concat bs" r "res2 r" "concat (b # bs)"]
    by (auto simp: res_def)
  ultimately show ?case by blast
qed simp

end
