(* ===== verification/CheckpointRuns.thy ===== *)
theory CheckpointRuns
  imports Checkpoint Machine
begin

text \<open>
  What runs of \<^verbatim>\<open>rollout_checkpoint.py\<close> do to a checkpoint over its life: the selection, the records a
  run adds, the invariant of the file under any sequence of runs with the same settings (as a
  machine whose events are whole runs), resumption, and two ways in which it fails.
\<close>

section \<open>The selection\<close>

text \<open>What \<open>random.sample\<close> documents: different members of the population, as many as asked for.\<close>

definition samples :: "(int \<Rightarrow> int list \<Rightarrow> int \<Rightarrow> int list) \<Rightarrow> bool" where
  "samples sample \<longleftrightarrow>
     (\<forall>seed pop k. distinct pop \<longrightarrow> 0 \<le> k \<longrightarrow> k \<le> int (length pop) \<longrightarrow>
        distinct (sample seed pop k) \<and> set (sample seed pop k) \<subseteq> set pop \<and> int (length (sample seed pop k)) = k)"

lemma samplesD:
  assumes "samples sample" and "distinct pop" and "0 \<le> k" and "k \<le> int (length pop)"
  shows "distinct (sample seed pop k)" and "set (sample seed pop k) \<subseteq> set pop"
    and "int (length (sample seed pop k)) = k"
  using assms unfolding samples_def by blast+

lemma select_indices_props:
  assumes "select_indices sample n num selection seed start_row = Inr idx" and "samples sample" and "0 \<le> num"
  shows "sorted idx \<and> distinct idx \<and> int (length idx) = num \<and> (\<forall>i \<in> set idx. start_row \<le> i \<and> i < n) \<and> 0 \<le> start_row"
proof -
  have b: "0 < n" "0 \<le> start_row" "start_row < n" "num \<le> n - start_row"
    using assms(1) by (auto simp: select_indices_def split: if_splits)
  show ?thesis
  proof (cases "selection = u ''first''")
    case True
    then have "idx = [start_row..start_row + num - 1]"
      using assms(1) b by (simp add: select_indices_def)
    then show ?thesis using b assms(3) by (auto simp: sorted_wrt_upto)
  next
    case False
    then have idx_eq: "idx = sort (sample seed [start_row..n - 1] num)"
      using assms(1) b by (simp add: select_indices_def)
    have l: "num \<le> int (length [start_row..n - 1])" using b by simp
    show ?thesis
      using samplesD [OF assms(2) _ assms(3) l, of seed] b by (auto simp: idx_eq)
  qed
qed

text \<open>The selection has exactly the requested number of different rows from \<open>start_row\<close> on, in the
  order of the Parquet file.\<close>

theorem selection_sound:
  assumes "select_indices sample n num selection seed start_row = Inr idx" and "samples sample" and "0 < num"
  shows "sorted idx \<and> distinct idx \<and> int (length idx) = num \<and> set idx \<subseteq> {start_row..<n} \<and> 0 \<le> start_row"
  using select_indices_props [OF assms(1,2)] assms(3) by (auto simp: subset_iff)

definition sample_first :: "int \<Rightarrow> int list \<Rightarrow> int \<Rightarrow> int list" where
  "sample_first seed pop k = take (nat k) pop"

lemma sample_first_samples: "samples sample_first"
  by (auto simp: samples_def sample_first_def dest: in_set_takeD)

theorem selection_sound_witness:
  "sorted [3, 4::int] \<and> distinct [3, 4::int] \<and> set [3, 4::int] \<subseteq> {3..<7}"
proof -
  have "select_indices sample_first 7 2 (u ''random'') 42 3 = Inr [3, 4]" by code_simp
  from selection_sound [OF this sample_first_samples] show ?thesis by simp
qed

lemma mapE_map: "mapE f xs = Inr ys \<Longrightarrow> (\<And>x y. f x = Inr y \<Longrightarrow> g y = h x) \<Longrightarrow> map g ys = map h xs"
  by (induction xs arbitrary: ys) auto

lemma load_rows_props:
  assumes "load_eval_rows fr sample data num selection seed start_row = Inr (rows, n)" and "samples sample" and "0 < num"
  shows "distinct (map r_source rows)" and "map r_order rows = [0..num - 1]" and "int (length rows) = num"
    and "n = int (length (d_rows data))"
    and "r \<in> set rows \<Longrightarrow> 0 \<le> r_source r \<and> r_source r < n \<and> d_rows data ! nat (r_source r) = JObj (r_row r)
      \<and> r_ground_truth r = json_text fr (ground_truth_value (r_row r)) \<and> r_ground_truth r \<noteq> []"
proof -
  obtain idx where sel: "select_indices sample (int (length (d_rows data))) num selection seed start_row = Inr idx"
    and rows: "mapE (\<lambda>(order, source_row). eval_row_of fr (order, source_row) (d_rows data ! nat source_row))
        (zip [0..int (length idx) - 1] idx) = Inr rows"
    and n: "n = int (length (d_rows data))"
    using assms(1) by (auto simp: load_eval_rows_def split: if_splits)
  have p: "distinct idx" "int (length idx) = num" "\<And>i. i \<in> set idx \<Longrightarrow> 0 \<le> i \<and> i < n"
    using select_indices_props [OF sel assms(2)] assms(3) n by force+
  have z: "length [0..int (length idx) - 1] = length idx" by simp
  have o: "\<And>x y. (case x of (order, source_row) \<Rightarrow> eval_row_of fr (order, source_row) (d_rows data ! nat source_row)) = Inr y
      \<Longrightarrow> r_order y = fst x \<and> r_source y = snd x
        \<and> d_rows data ! nat (snd x) = JObj (r_row y)
        \<and> r_ground_truth y = json_text fr (ground_truth_value (r_row y)) \<and> r_ground_truth y \<noteq> []"
    by (auto simp: eval_row_of_def Let_def split: json.splits if_splits)
  have "map r_source rows = map snd (zip [0..int (length idx) - 1] idx)"
    by (rule mapE_map [OF rows]) (use o in blast)
  then have s: "map r_source rows = idx" using z by (simp add: map_snd_zip)
  have "map r_order rows = map fst (zip [0..int (length idx) - 1] idx)"
    by (rule mapE_map [OF rows]) (use o in blast)
  then show "map r_order rows = [0..num - 1]" using z p(2) by (simp add: map_fst_zip)
  show "distinct (map r_source rows)" using s p(1) by simp
  show "int (length rows) = num" using s p(2) by (metis length_map)
  show "n = int (length (d_rows data))" by (rule n)
  show "0 \<le> r_source r \<and> r_source r < n \<and> d_rows data ! nat (r_source r) = JObj (r_row r)
      \<and> r_ground_truth r = json_text fr (ground_truth_value (r_row r)) \<and> r_ground_truth r \<noteq> []"
    if rm: "r \<in> set rows" for r
  proof -
    have "r_source r \<in> set idx" using rm s by (metis image_eqI set_map)
    moreover obtain x where "(case x of (order, source_row) \<Rightarrow> eval_row_of fr (order, source_row) (d_rows data ! nat source_row)) = Inr r"
      using mapE_Inr_set [OF rows rm] by blast
    ultimately show ?thesis using p(3) o [of x r] by auto
  qed
qed

section \<open>The checkpoint of a run\<close>

text \<open>A checkpoint is the run's own when it reads as records of selected rows, each as
  \<open>append_checkpoint\<close> writes it.\<close>

definition own_record :: "rollout_args \<Rightarrow> eval_row list \<Rightarrow> int \<times> dict \<Rightarrow> bool" where
  "own_record a rows rec \<longleftrightarrow>
     (\<exists>r \<in> set rows. \<exists>p e. fst rec = r_source r \<and> checkpoint_payload a r p e = Inr (snd rec))"

definition own_file :: "rollout_args \<Rightarrow> eval_row list \<Rightarrow> ustr list option \<Rightarrow> bool" where
  "own_file a rows fl \<longleftrightarrow>
     (\<exists>recs. read_checkpoint fl = Inr recs \<and> distinct (map fst recs) \<and> (\<forall>rec \<in> set recs. own_record a rows rec))"

text \<open>The results of a run are Python strings.\<close>

definition texts_ok :: "rollout_env \<Rightarrow> bool" where
  "texts_ok e \<longleftrightarrow> (\<forall>x. nonneg (e_exn_text e x)) \<and> (\<forall>n b ps. e_engine e n b = Inr ps \<longrightarrow> list_all nonneg ps)
     \<and> (\<forall>r. result_ok (generate_one (e_fr e) (e_exn_text e) (e_call e) r))"

definition rows_ok :: "(pyfloat \<Rightarrow> ustr) \<Rightarrow> dataset \<Rightarrow> bool" where
  "rows_ok fr data \<longleftrightarrow> length (d_rows data) < 10 ^ 18
     \<and> (\<forall>d. JObj d \<in> set (d_rows data) \<longrightarrow> nonneg (json_text fr (ground_truth_value d)))"

definition wf_rollout :: "rollout_env \<Rightarrow> rollout_args \<Rightarrow> bool" where
  "wf_rollout e a \<longleftrightarrow> samples (e_sample e) \<and> (\<forall>rs. mset (e_order e rs) = mset rs)
     \<and> metadata_dumpable (e_fr e) a \<and> rows_ok (e_fr e) (e_dataset e) \<and> texts_ok e"

abbreviation load_rows :: "rollout_env \<Rightarrow> rollout_args \<Rightarrow> (eval_row list \<times> int) py" where
  "load_rows e a \<equiv> load_eval_rows (e_fr e) (e_sample e) (e_dataset e) (a_num_samples a) (a_selection a)
     (a_seed a) (a_start_row a)"

lemma small_digits: "0 \<le> i \<Longrightarrow> i < 10 ^ 18 \<Longrightarrow> length (nat_digits (nat \<bar>i\<bar>)) \<le> 4300"
  using nat_digits_length [of "nat \<bar>i\<bar>" 18] by (simp add: nat_less_iff)

lemma loaded_rows_dumpable:
  assumes "load_rows e a = Inr (rows, n)" and "wf_rollout e a" and "0 < a_num_samples a" and "r \<in> set rows"
  shows "row_dumpable r"
proof -
  have s: "samples (e_sample e)" and ro: "rows_ok (e_fr e) (e_dataset e)"
    using assms(2) by (auto simp: wf_rollout_def)
  note p = load_rows_props [OF assms(1) s assms(3)]
  have i: "0 \<le> r_source r" "r_source r < n" "d_rows (e_dataset e) ! nat (r_source r) = JObj (r_row r)"
    using p(5) [OF assms(4)] by auto
  have "JObj (r_row r) \<in> set (d_rows (e_dataset e))"
    using i p(4) by (metis nat_less_iff nth_mem)
  then have "nonneg (r_ground_truth r)" using ro p(5) [OF assms(4)] by (auto simp: rows_ok_def)
  moreover have "r_source r < 10 ^ 18" using i p(4) ro by (simp add: rows_ok_def)
  moreover have "0 \<le> r_order r \<and> r_order r < 10 ^ 18"
  proof -
    have "r_order r \<in> set [0..a_num_samples a - 1]" using p(2) assms(4) by (metis image_eqI set_map)
    moreover have "distinct (map (nat \<circ> r_source) rows)"
    proof -
      have "inj_on nat (set (map r_source rows))" using p(5) by (auto intro!: inj_onI) (metis eq_nat_nat_iff)
      then show ?thesis using p(1) by (metis distinct_map map_map)
    qed
    moreover have "set (map (nat \<circ> r_source) rows) \<subseteq> {..<nat n}"
    proof
      fix k assume "k \<in> set (map (nat \<circ> r_source) rows)"
      then obtain q where q: "q \<in> set rows" "k = nat (r_source q)" by auto
      then show "k \<in> {..<nat n}" using p(5) [OF q(1)] by simp
    qed
    ultimately have "length rows \<le> nat n"
      by (metis card_lessThan card_mono distinct_card finite_lessThan length_map)
    then have "a_num_samples a \<le> n" using p(3) assms(3) by linarith
    then show ?thesis using \<open>r_order r \<in> _\<close> p(4) ro by (simp add: rows_ok_def)
  qed
  ultimately show ?thesis using small_digits i by (simp add: row_dumpable_def)
qed

lemma own_append:
  assumes own: "own_file a rows fl" and run: "append_checkpoint fr a r res fl = (fl', x)"
    and r: "r \<in> set rows" and m: "metadata_dumpable fr a" and d: "row_dumpable r" and t: "result_ok res"
  shows "own_file a rows fl'"
proof -
  obtain recs where recs: "read_checkpoint fl = Inr recs" "distinct (map fst recs)"
    "\<forall>rec \<in> set recs. own_record a rows rec"
    using own by (auto simp: own_file_def)
  show ?thesis
  proof (cases x)
    case (Inl e)
    then have "read_checkpoint fl' = read_checkpoint fl"
      using run by (auto simp: append_checkpoint_def read_checkpoint_def Let_def split: sum.splits option.splits)
    then show ?thesis using own by (simp add: own_file_def)
  next
    case (Inr y)
    obtain d where p: "checkpoint_payload a r (fst res) (snd res) = Inr d"
      and read: "read_checkpoint fl' = Inr (AList.update (r_source r) d recs)"
      using append_read [OF _ recs(1) m d t] run Inr by auto
    have "own_record a rows rec" if "rec \<in> set (AList.update (r_source r) d recs)" for rec
    proof -
      have "rec \<in> set recs \<or> rec = (r_source r, d)"
        using that by (induction recs) (auto split: if_splits)
      moreover have "own_record a rows (r_source r, d)"
        unfolding own_record_def using r p by (metis fst_conv snd_conv)
      ultimately show ?thesis using recs(3) by auto
    qed
    then show ?thesis using read recs(2) by (auto simp: own_file_def distinct_update)
  qed
qed

lemma own_append_completed:
  assumes "own_file a rows fl" and "append_completed fr a res rs fl = (fl', x)" and "set rs \<subseteq> set rows"
    and "metadata_dumpable fr a" and "\<forall>r \<in> set rs. row_dumpable r \<and> result_ok (res r)"
  shows "own_file a rows fl'"
  using assms
proof (induction rs arbitrary: fl)
  case (Cons r rs)
  obtain fl1 y where one: "append_checkpoint fr a r (res r) fl = (fl1, y)" by fastforce
  have o: "own_file a rows fl1"
    by (rule own_append [OF Cons.prems(1) one]) (use Cons.prems in auto)
  show ?case
  proof (cases y)
    case (Inl err)
    then show ?thesis using Cons.prems(2) one o by simp
  next
    case (Inr z)
    then show ?thesis using Cons.IH [OF o] Cons.prems one by simp
  qed
qed simp

lemma local_result_ok:
  assumes "texts_ok e" and "local_result (e_exn_text e) (e_engine e) rs r res"
  shows "result_ok res"
proof -
  have n: "nonneg []" by (simp add: nonneg_def)
  have t: "nonneg (e_exn_text e x)" "e_engine e k b = Inr ps \<Longrightarrow> p \<in> set ps \<Longrightarrow> nonneg p" for x k b ps p
    using assms(1) by (auto simp: texts_ok_def list_all_iff)
  consider (single) k where "res = single_result (e_exn_text e) (e_engine e k [r])"
    | (batch) k b ps j where "e_engine e k b = Inr ps" "length ps = length b" "j < length b" "res = (ps ! j, [])"
    using assms(2) by (auto simp: local_result_def)
  then show ?thesis
  proof cases
    case single
    then show ?thesis using n t
      by (cases "e_engine e k [r]") (auto simp: result_ok_def single_result_def split: list.splits)
  next
    case batch
    then show ?thesis using n t(2) [of k b ps "ps ! j"] by (simp add: result_ok_def)
  qed
qed

section \<open>Validation\<close>

definition no_nan :: "rollout_args \<Rightarrow> bool" where
  "no_nan a \<longleftrightarrow> a_temperature a \<noteq> NaN \<and> a_top_p a \<noteq> NaN \<and> a_repetition_penalty a \<noteq> NaN"

lemma scalar_eq_refl: "number_of v \<noteq> Some NaN \<Longrightarrow> scalar_eq v v"
  by (auto simp: scalar_eq_def split: option.splits)

lemma metadata_no_nan:
  "checkpoint_metadata a = Inr m \<Longrightarrow> no_nan a \<Longrightarrow> (k, v) \<in> set m \<Longrightarrow> number_of v \<noteq> Some NaN"
  by (cases "remote_model_config (a_remote_model a)"; cases "a_model_path a"; cases "a_mode a = mode_remote";
      simp add: checkpoint_metadata_def no_nan_def json_opt_def split: if_split_asm;
      (elim conjE disjE; simp)?;
      hypsubst_thin?; simp; elim disjE conjE; simp)

lemma find_row_distinct:
  assumes "distinct (map r_source rows)" and "r \<in> set rows"
  shows "find_row rows (r_source r) = Some r"
  unfolding find_row_def
proof (rule map_of_is_SomeI)
  show "distinct (map fst (rev (map (\<lambda>r. (r_source r, r)) rows)))"
    using assms(1) by (simp add: rev_map [symmetric] comp_def)
qed (use assms(2) in force)

lemma own_record_matches:
  assumes "own_record a rows rec" and "distinct (map r_source rows)" and "no_nan a"
    and "checkpoint_metadata a = Inr m"
  shows "mismatches m rows rec = []"
proof -
  obtain r p e where r: "r \<in> set rows" "fst rec = r_source r" "checkpoint_payload a r p e = Inr (snd rec)"
    using assms(1) by (auto simp: own_record_def)
  have "scalar_eq (dict_get (snd rec) k) v" if "(k, v) \<in> set m" for k v
    using payload_fields(6) [OF r(3) assms(4) that] scalar_eq_refl [OF metadata_no_nan [OF assms(4,3) that]]
    by simp
  moreover have "scalar_eq (dict_get (snd rec) key_ground_truth) (JStr (r_ground_truth r))"
    using payload_fields(3) [OF r(3)] by (simp add: scalar_eq_refl)
  ultimately show ?thesis
    using find_row_distinct [OF assms(2) r(1)] r(2) by (auto simp: mismatches_def filter_empty_conv)
qed

lemma own_file_validates:
  assumes "own_file a rows fl" and "distinct (map r_source rows)" and "no_nan a" and "read_checkpoint fl = Inr recs"
    and "checkpoint_metadata a = Inr m"
  shows "validate_checkpoint recs rows a = Inr ()"
  using assms own_record_matches by (auto simp: own_file_def validate_checkpoint_def list_all_iff)

lemma own_record_metadata: "own_record a rows rec \<Longrightarrow> \<exists>m. checkpoint_metadata a = Inr m"
  by (auto simp: own_record_def checkpoint_payload_def)

section \<open>The whole run\<close>

text \<open>The results a run can record for a row: what \<open>generate_one\<close> gives in a remote run; in a local run
  the row's prediction in a batch of pending rows, or the prediction or error of a call of its own.\<close>

definition made_by :: "rollout_env \<Rightarrow> rollout_args \<Rightarrow> eval_row list \<Rightarrow> eval_row \<Rightarrow> ustr \<times> ustr \<Rightarrow> bool" where
  "made_by e a pending r res \<longleftrightarrow>
     (if a_mode a = mode_local then local_result (e_exn_text e) (e_engine e) pending r res
      else res = generate_one (e_fr e) (e_exn_text e) (e_call e) r)"

lemma made_by_ok: "wf_rollout e a \<Longrightarrow> made_by e a pending r res \<Longrightarrow> result_ok res"
  using local_result_ok by (auto simp: made_by_def wf_rollout_def texts_ok_def split: if_splits)

lemma run_appends:
  assumes wf: "wf_rollout e a" and b: "0 < a_batch_size a" and d: "distinct (map r_source pending)"
    and run: "(if a_mode a = mode_local
        then run_local (e_fr e) (e_exn_text e) (e_load e) (e_engine e) a pending fl
        else run_remote (e_fr e) (e_exn_text e) (e_setup e) (e_call e) (e_order e) a pending fl) = (fl', x)"
  shows "(fl' = fl \<and> x \<noteq> Inr ())
    \<or> (\<exists>res rs. mset rs = mset pending \<and> append_completed (e_fr e) a res rs fl = (fl', x)
          \<and> (\<forall>r \<in> set pending. made_by e a pending r (res r)))"
proof (cases "a_mode a = mode_local")
  case True
  have bs: "concat (batches (nat (a_batch_size a)) pending) = pending" using b by (simp add: batches_concat)
  obtain res where res: "run_batches (e_fr e) (e_exn_text e) a (e_engine e) 0 (batches (nat (a_batch_size a)) pending) fl
      = append_completed (e_fr e) a res pending fl"
    "\<forall>r \<in> set pending. local_result (e_exn_text e) (e_engine e) pending r (res r)"
    using run_batches_completed [of "batches (nat (a_batch_size a)) pending" "e_fr e" "e_exn_text e" a "e_engine e" 0 fl]
      d by (auto simp: bs)
  then show ?thesis
    using run True b by (cases "e_load e") (auto simp: run_local_def made_by_def)
next
  case False
  have "mset (e_order e pending) = mset pending" using wf by (simp add: wf_rollout_def)
  then show ?thesis
    using run False by (auto simp: run_remote_def made_by_def split: sum.splits)
qed

text \<open>Every selected row has a record.\<close>

definition covers :: "eval_row list \<Rightarrow> ustr list option \<Rightarrow> bool" where
  "covers rows fl \<longleftrightarrow> (\<exists>recs. read_checkpoint fl = Inr recs \<and> fst ` set recs = r_source ` set rows)"

lemma own_keys: "own_file a rows fl \<Longrightarrow> read_checkpoint fl = Inr recs \<Longrightarrow> fst ` set recs \<subseteq> r_source ` set rows"
  by (auto simp: own_file_def own_record_def)

text \<open>What a run that returns leaves: the pending rows have a record of a result made in this run, the
  others the record they had.\<close>

definition run_leaves ::
  "rollout_env \<Rightarrow> rollout_args \<Rightarrow> eval_row list \<Rightarrow> ustr list option \<Rightarrow> ustr list option \<Rightarrow> bool" where
  "run_leaves e a rows fl fl' \<longleftrightarrow>
     (\<exists>recs recs'. read_checkpoint (if a_overwrite a then None else fl) = Inr recs \<and> read_checkpoint fl' = Inr recs'
        \<and> (\<forall>r \<in> set rows.
             if r \<in> set (pending_rows a rows recs)
             then \<exists>res d. made_by e a (pending_rows a rows recs) r res
                    \<and> checkpoint_payload a r (fst res) (snd res) = Inr d
                    \<and> map_of recs' (r_source r) = Some d
             else map_of recs' (r_source r) = map_of recs (r_source r)))"

lemma not_pending: "r \<in> set rows \<Longrightarrow> r \<notin> set (pending_rows a rows recs) \<Longrightarrow> map_of recs (r_source r) \<noteq> None"
  by (auto simp: pending_rows_def split: option.splits)

lemma run_leaves_covers:
  assumes "run_leaves e a rows fl fl'" and "own_file a rows fl'"
  shows "covers rows fl'"
proof -
  obtain recs recs' where r': "read_checkpoint fl' = Inr recs'"
    and all: "\<forall>r \<in> set rows.
             if r \<in> set (pending_rows a rows recs)
             then \<exists>res d. made_by e a (pending_rows a rows recs) r res
                    \<and> checkpoint_payload a r (fst res) (snd res) = Inr d
                    \<and> map_of recs' (r_source r) = Some d
             else map_of recs' (r_source r) = map_of recs (r_source r)"
    using assms(1) unfolding run_leaves_def by blast
  have "r_source r \<in> fst ` set recs'" if "r \<in> set rows" for r
    using all that not_pending [OF that, of a recs] by (metis map_of_eq_None_iff option.distinct(1))
  then show ?thesis using r' own_keys [OF assms(2) r'] by (auto simp: covers_def)
qed

lemma rollout_main_spec:
  assumes wf: "wf_rollout e a" and n: "0 < a_num_samples a" and b: "0 < a_batch_size a"
    and rows: "load_rows e a = Inr (rows, total')" and own: "own_file a rows fl"
    and run: "rollout_main e a fl = (fl', x)"
  shows "own_file a rows fl' \<and> (x = Inr () \<longrightarrow> run_leaves e a rows fl fl')"
proof -
  have s: "samples (e_sample e)" and m: "metadata_dumpable (e_fr e) a" using wf by (auto simp: wf_rollout_def)
  note props = load_rows_props [OF rows s n]
  define fl1 where "fl1 = (if a_overwrite a then None else fl)"
  have own1: "own_file a rows fl1"
    using own by (auto simp: fl1_def own_file_def read_checkpoint_def)
  then obtain recs where recs: "read_checkpoint fl1 = Inr recs" by (auto simp: own_file_def)
  define pending where "pending = pending_rows a rows recs"
  have sub: "set pending \<subseteq> set rows" by (auto simp: pending_def pending_rows_def)
  have dp: "distinct (map r_source pending)"
    using props(1) by (simp add: pending_def pending_rows_def distinct_map_filter)
  have runs: "rollout_main e a fl = (case validate_checkpoint recs rows a of Inl err \<Rightarrow> (fl1, Inl err)
      | Inr _ \<Rightarrow> if pending = [] then (fl1, Inr ()) else if a_mode a = mode_local
        then run_local (e_fr e) (e_exn_text e) (e_load e) (e_engine e) a pending fl1
        else run_remote (e_fr e) (e_exn_text e) (e_setup e) (e_call e) (e_order e) a pending fl1)"
    using rows recs by (cases "validate_checkpoint recs rows a")
      (simp_all add: rollout_main_def Let_def fl1_def [symmetric] pending_def)
  show ?thesis
  proof (cases "validate_checkpoint recs rows a")
    case (Inl err)
    then show ?thesis using run own1 unfolding runs by auto
  next
    case (Inr u)
    show ?thesis
    proof (cases "pending = []")
      case True
      then have "run_leaves e a rows fl fl1"
        using recs by (simp add: run_leaves_def fl1_def [symmetric] pending_def)
      then show ?thesis using run runs Inr True own1 by simp
    next
      case False
      then have "(if a_mode a = mode_local
          then run_local (e_fr e) (e_exn_text e) (e_load e) (e_engine e) a pending fl1
          else run_remote (e_fr e) (e_exn_text e) (e_setup e) (e_call e) (e_order e) a pending fl1) = (fl', x)"
        using run runs Inr by simp
      from run_appends [OF wf b dp this] show ?thesis
      proof (elim disjE)
        assume "fl' = fl1 \<and> x \<noteq> Inr ()"
        then show ?thesis using own1 by simp
      next
        assume "\<exists>res rs. mset rs = mset pending \<and> append_completed (e_fr e) a res rs fl1 = (fl', x)
          \<and> (\<forall>r \<in> set pending. made_by e a pending r (res r))"
        then obtain res rs where rs: "mset rs = mset pending" "append_completed (e_fr e) a res rs fl1 = (fl', x)"
          and made: "\<forall>r \<in> set pending. made_by e a pending r (res r)" by blast
        have ok: "\<forall>r \<in> set pending. result_ok (res r)" using made made_by_ok [OF wf] by blast
        have srs: "set rs = set pending" using rs(1) by (metis set_mset_mset)
        have rd: "\<forall>r \<in> set rs. row_dumpable r \<and> result_ok (res r)"
          using loaded_rows_dumpable [OF rows wf n] ok srs sub by auto
        have o: "own_file a rows fl'"
          by (rule own_append_completed [OF own1 rs(2) _ m rd]) (use srs sub in simp)
        have "run_leaves e a rows fl fl'" if "x = Inr ()"
        proof -
          have drs: "distinct (map r_source rs)" using dp rs(1) by (metis mset_map mset_eq_imp_distinct_iff)
          have read: "read_checkpoint fl' = Inr (record_all a res rs recs)"
            and all: "\<forall>r \<in> set rs. \<not> isl (checkpoint_payload a r (fst (res r)) (snd (res r)))"
            using append_completed_read [OF _ recs m rd] rs(2) that by auto
          have "if r \<in> set pending
             then \<exists>re d. made_by e a pending r re \<and> checkpoint_payload a r (fst re) (snd re) = Inr d
                    \<and> map_of (record_all a res rs recs) (r_source r) = Some d
             else map_of (record_all a res rs recs) (r_source r) = map_of recs (r_source r)"
            if r: "r \<in> set rows" for r
          proof (cases "r \<in> set pending")
            case True
            obtain d where "checkpoint_payload a r (fst (res r)) (snd (res r)) = Inr d"
              "map_of (record_all a res rs recs) (r_source r) = Some d"
              using record_all_row [OF drs all, of r recs] True srs by auto
            moreover have "made_by e a pending r (res r)" using made True by blast
            ultimately have "\<exists>re d. made_by e a pending r re \<and> checkpoint_payload a r (fst re) (snd re) = Inr d
                    \<and> map_of (record_all a res rs recs) (r_source r) = Some d" by blast
            then show ?thesis using True by simp
          next
            case False
            have "r_source r \<notin> r_source ` set rs"
            proof
              assume "r_source r \<in> r_source ` set rs"
              then obtain q where q: "q \<in> set rs" "r_source r = r_source q" by blast
              then have "q \<in> set rows" using srs sub by blast
              moreover have "inj_on r_source (set rows)" using props(1) by (simp add: distinct_map)
              ultimately have "q = r" using q(2) r by (simp add: inj_on_def)
              then show False using q(1) False srs by simp
            qed
            then show ?thesis using record_all_other False by simp
          qed
          then show ?thesis using read recs
            unfolding run_leaves_def fl1_def [symmetric] pending_def [symmetric] by (metis pending_def)
        qed
        then show ?thesis using o by blast
      qed
    qed
  qed
qed

section \<open>A checkpoint over its life\<close>

text \<open>A checkpoint is worked on by any number of runs with the same settings; each may overwrite it,
  retry errors, meet other model answers, other completion orders, and end with an exception.\<close>

record rollout_event =
  ev_env :: rollout_env
  ev_retry :: bool
  ev_overwrite :: bool

definition with_flags :: "rollout_args \<Rightarrow> rollout_event \<Rightarrow> rollout_args" where
  "with_flags a ev = a\<lparr>a_retry_errors := ev_retry ev, a_overwrite := ev_overwrite ev\<rparr>"

definition rollout_step :: "rollout_args \<Rightarrow> rollout_event \<Rightarrow> ustr list option \<Rightarrow> ustr list option option" where
  "rollout_step a ev fl = Some (fst (rollout_main (ev_env ev) (with_flags a ev) fl))"

definition same_rows :: "rollout_args \<Rightarrow> eval_row list \<Rightarrow> rollout_event \<Rightarrow> bool" where
  "same_rows a rows ev \<longleftrightarrow> wf_rollout (ev_env ev) a \<and> (\<exists>n. load_rows (ev_env ev) a = Inr (rows, n))"

lemma flags_metadata [simp]:
  "checkpoint_metadata (with_flags a ev) = checkpoint_metadata a"
  "checkpoint_payload (with_flags a ev) = checkpoint_payload a"
  "own_file (with_flags a ev) = own_file a"
  "wf_rollout e (with_flags a ev) = wf_rollout e a"
  "load_rows e (with_flags a ev) = load_rows e a"
proof -
  show m: "checkpoint_metadata (with_flags a ev) = checkpoint_metadata a"
    by (simp add: checkpoint_metadata_def with_flags_def)
  show p: "checkpoint_payload (with_flags a ev) = checkpoint_payload a"
    unfolding checkpoint_payload_def m by (simp add: fun_eq_iff with_flags_def)
  show "own_file (with_flags a ev) = own_file a"
    by (simp add: fun_eq_iff own_file_def own_record_def p)
  show "wf_rollout e (with_flags a ev) = wf_rollout e a"
    by (simp add: wf_rollout_def metadata_dumpable_def m)
qed (simp_all add: with_flags_def)

lemma own_none: "own_file a rows None"
  by (simp add: own_file_def read_checkpoint_def)

lemma step_own:
  assumes "0 < a_num_samples a" and "0 < a_batch_size a" and "own_file a rows fl" and "same_rows a rows ev"
    and "rollout_main (ev_env ev) (with_flags a ev) fl = (fl', x)"
  shows "own_file a rows fl' \<and> (x = Inr () \<longrightarrow> run_leaves (ev_env ev) (with_flags a ev) rows fl fl')"
proof -
  obtain n where n: "load_rows (ev_env ev) (with_flags a ev) = Inr (rows, n)"
    and w: "wf_rollout (ev_env ev) (with_flags a ev)"
    using assms(4) by (auto simp: same_rows_def)
  have p: "0 < a_num_samples (with_flags a ev)" "0 < a_batch_size (with_flags a ev)"
    using assms(1,2) by (simp_all add: with_flags_def)
  show ?thesis
    using rollout_main_spec [OF w p n _ assms(5)] assms(3) by simp
qed

interpretation checkpoint_machine: machine_invariant
  "\<lambda>ev _. 0 < a_num_samples a \<and> 0 < a_batch_size a \<and> same_rows a rows ev" "rollout_step a" None "own_file a rows"
  for a rows
proof
  show "own_file a rows None" by (rule own_none)
  show "own_file a rows s'" if "own_file a rows s"
    "0 < a_num_samples a \<and> 0 < a_batch_size a \<and> same_rows a rows ev" "rollout_step a ev s = Some s'" for s ev s'
    using step_own [OF _ _ that(1), of ev] that(2,3)
    by (cases "rollout_main (ev_env ev) (with_flags a ev) s") (auto simp: rollout_step_def)
qed

text \<open>The checkpoints that runs of \<open>rollout_checkpoint.py\<close> with these settings can leave.\<close>

definition left_by_runs :: "rollout_args \<Rightarrow> eval_row list \<Rightarrow> ustr list option \<Rightarrow> bool" where
  "left_by_runs a rows fl \<longleftrightarrow>
     reachable (\<lambda>ev _. 0 < a_num_samples a \<and> 0 < a_batch_size a \<and> same_rows a rows ev) (rollout_step a) None fl"

lemma left_own: "left_by_runs a rows fl \<Longrightarrow> own_file a rows fl"
  unfolding left_by_runs_def by (rule checkpoint_machine.reachable_inv)

section \<open>What holds of the checkpoints\<close>

lemma covers_length:
  assumes "own_file a rows fl" and "covers rows fl" and "distinct (map r_source rows)"
  shows "\<exists>recs. read_checkpoint fl = Inr recs \<and> length recs = length rows \<and> distinct (map fst recs)
    \<and> fst ` set recs = r_source ` set rows \<and> (\<forall>rec \<in> set recs. own_record a rows rec)"
proof -
  obtain recs where r: "read_checkpoint fl = Inr recs" "distinct (map fst recs)"
    "\<forall>rec \<in> set recs. own_record a rows rec" "fst ` set recs = r_source ` set rows"
    using assms(1,2) by (auto simp: own_file_def covers_def)
  have "length recs = card (set (map fst recs))" using r(2) by (metis distinct_card length_map)
  also have "\<dots> = card (set (map r_source rows))" using r(4) by simp
  also have "\<dots> = length rows" using assms(3) by (metis distinct_card length_map)
  finally show ?thesis using r by blast
qed

text \<open>C3: A run that returns leaves a complete checkpoint whatever runs with the same settings, finished
  or not, worked on it before: it reads as one record for each selected row, each written by such a
  run for that row. The rows that were pending have a result made in this run and the others keep
  the record they had.\<close>

theorem finished_run_complete:
  assumes "left_by_runs a rows fl" and "same_rows a rows ev" and "0 < a_num_samples a" and "0 < a_batch_size a"
    and "rollout_main (ev_env ev) (with_flags a ev) fl = (fl', Inr ())"
  shows "(\<exists>recs. read_checkpoint fl' = Inr recs \<and> length recs = nat (a_num_samples a) \<and> distinct (map fst recs)
      \<and> fst ` set recs = r_source ` set rows \<and> (\<forall>rec \<in> set recs. own_record a rows rec))
    \<and> run_leaves (ev_env ev) (with_flags a ev) rows fl fl'"
proof -
  have o: "own_file a rows fl'" and l: "run_leaves (ev_env ev) (with_flags a ev) rows fl fl'"
    using step_own [OF assms(3,4) left_own [OF assms(1)] assms(2,5)] by simp_all
  obtain n where "load_rows (ev_env ev) a = Inr (rows, n)" "samples (e_sample (ev_env ev))"
    using assms(2) by (auto simp: same_rows_def wf_rollout_def)
  then have "distinct (map r_source rows)" "int (length rows) = a_num_samples a"
    using load_rows_props(1,3) [OF _ _ assms(3)] by blast+
  then show ?thesis using covers_length [OF o] run_leaves_covers [OF l] o l by auto
qed

lemma nothing_pending:
  assumes "covers rows fl" and "read_checkpoint fl = Inr recs" and "\<not> a_retry_errors a"
  shows "pending_rows a rows recs = []"
proof -
  have "map_of recs (r_source r) \<noteq> None" if "r \<in> set rows" for r
    using assms(1,2) that by (auto simp: covers_def map_of_eq_None_iff)
  then show ?thesis using assms(3) by (auto simp: pending_rows_def filter_empty_conv split: option.splits)
qed

text \<open>A complete checkpoint is accepted by a later run with the same settings and left as it is,
  without a call of the model: the run returns even where the model cannot be loaded. The settings
  hold no NaN.\<close>

theorem complete_run_resumes:
  assumes "left_by_runs a rows fl" and "covers rows fl" and "no_nan a" and "0 < a_num_samples a"
    and "0 < a_batch_size a" and "load_rows e a = Inr (rows, n)" and "samples (e_sample e)"
    and "\<not> a_overwrite a" and "\<not> a_retry_errors a"
  shows "rollout_main e a fl = (fl, Inr ())"
proof -
  obtain recs where recs: "read_checkpoint fl = Inr recs" "fst ` set recs = r_source ` set rows"
    using assms(2) by (auto simp: covers_def)
  note own = left_own [OF assms(1)]
  have rows: "distinct (map r_source rows)" "int (length rows) = a_num_samples a"
    using load_rows_props [OF assms(6,7,4)] by blast+
  have "recs \<noteq> []" using recs(2) rows(2) assms(4) by auto
  then obtain rec where "own_record a rows rec"
    using own recs(1) by (metis Inr_inject list.set_intros(1) neq_Nil_conv own_file_def)
  then obtain m where "checkpoint_metadata a = Inr m" using own_record_metadata by blast
  then have "validate_checkpoint recs rows a = Inr ()"
    by (rule own_file_validates [OF own rows(1) assms(3) recs(1)])
  then show ?thesis
    using assms(6,8) recs(1) nothing_pending [OF assms(2) recs(1) assms(9)]
    by (simp add: rollout_main_def)
qed

text \<open>A sampling setting of NaN passes the checks of the command line, and a run with it writes
  records, but no later run with the same settings accepts them: NaN is not equal to itself.\<close>

theorem nan_never_resumes:
  assumes "left_by_runs a rows fl" and "read_checkpoint fl = Inr recs" and "recs \<noteq> []"
    and "a_temperature a = NaN" and "load_rows e a = Inr (rows, n)" and "\<not> a_overwrite a"
  shows "rollout_main e a fl = (fl, Inl ValueError)"
proof -
  obtain rec where rec: "rec \<in> set recs" using assms(3) by (cases recs) auto
  have own: "own_record a rows rec"
    using left_own [OF assms(1)] assms(2) rec by (auto simp: own_file_def)
  then obtain m where m: "checkpoint_metadata a = Inr m" using own_record_metadata by blast
  have "(u ''temperature'', JFloat NaN) \<in> set m"
    using m assms(4) by (auto simp: checkpoint_metadata_def)
  moreover have "\<not> scalar_eq v (JFloat NaN)" for v by (auto simp: scalar_eq_def split: option.splits)
  ultimately have "mismatches m rows rec \<noteq> []" by (auto simp: mismatches_def filter_empty_conv)
  then have "validate_checkpoint recs rows a = Inl ValueError"
    using rec by (auto simp: validate_checkpoint_def m list_all_iff)
  then show ?thesis using assms(2,5,6) by (simp add: rollout_main_def)
qed

section \<open>A concrete run\<close>

definition demo_data :: dataset where
  "demo_data = \<lparr>d_columns = [key_prompt, key_ground_truth],
     d_rows = [JObj [(key_ground_truth, JStr (u ''A''))], JObj [(key_ground_truth, JStr (u ''B''))]]\<rparr>"

definition demo_env :: "unit py \<Rightarrow> rollout_env" where
  "demo_env load = \<lparr>e_fr = sample_fr, e_exn_text = (\<lambda>_. u ''E''), e_sample = sample_first, e_dataset = demo_data,
     e_load = load, e_engine = (\<lambda>_ rs. Inr (map (\<lambda>_. u ''p'') rs)), e_setup = Inr (),
     e_call = (\<lambda>_. Inl ValueError), e_order = (\<lambda>rs. rs)\<rparr>"

definition demo_args :: "pyfloat \<Rightarrow> rollout_args" where
  "demo_args temperature = \<lparr>a_mode = mode_local, a_name = u ''n'', a_data_path = u ''d'',
     a_model_path = Some (u ''m''), a_remote_model = u ''g'', a_internvl = False, a_num_samples = 2,
     a_selection = u ''first'', a_seed = 42, a_start_row = 0, a_generation_seed = 42, a_dtype = u ''auto'',
     a_batch_size = 1, a_max_prompt_length = 9, a_max_new_tokens = 9, a_temperature = temperature,
     a_top_p = Fin 1, a_top_k = -1, a_repetition_penalty = Fin 1, a_reveal_gt_answer = False,
     a_retry_errors = False, a_overwrite = False, a_remote_workers = 1, a_gemini_max_retries = 1,
     a_gemini_max_image_edge = 128, a_jpeg_quality = 88\<rparr>"

definition demo_event :: rollout_event where
  "demo_event = \<lparr>ev_env = demo_env (Inr ()), ev_retry = False, ev_overwrite = False\<rparr>"

definition demo_rows :: "eval_row list" where
  "demo_rows = [\<lparr>r_order = 0, r_source = 0, r_row = [(key_ground_truth, JStr (u ''A''))], r_ground_truth = u ''A''\<rparr>,
     \<lparr>r_order = 1, r_source = 1, r_row = [(key_ground_truth, JStr (u ''B''))], r_ground_truth = u ''B''\<rparr>]"

definition demo_file :: "pyfloat \<Rightarrow> ustr list option" where
  "demo_file temperature = fst (rollout_main (demo_env (Inr ())) (demo_args temperature) None)"

lemma demo_flags: "with_flags (demo_args t) demo_event = demo_args t"
  by (simp add: with_flags_def demo_event_def demo_args_def)

lemma demo_loads: "load_rows (demo_env l) (demo_args t) = Inr (demo_rows, 2)"
proof -
  have "select_indices sample_first 2 2 (u ''first'') 42 0 = Inr [0, 1]" by code_simp
  moreover have "key_prompt \<in> set (d_columns demo_data)"
    "set (d_columns demo_data) \<inter> {key_reward_model, key_gts, key_ground_truth, key_gt} \<noteq> {}"
    by (auto simp: demo_data_def)
  moreover have "length (d_rows demo_data) = 2" by (simp add: demo_data_def)
  moreover have "eval_row_of fr (0, 0) (d_rows demo_data ! 0) = Inr (hd demo_rows)"
    "eval_row_of fr (1, 1) (d_rows demo_data ! 1) = Inr (hd (tl demo_rows))" for fr
    by (simp_all add: demo_data_def demo_rows_def eval_row_of_def ground_truth_value_def dict_get_def json_text_def
        key_gts_def key_ground_truth_def u_def Let_def)
  moreover have "demo_rows = [hd demo_rows, hd (tl demo_rows)]" by (simp add: demo_rows_def)
  moreover have "[0..1::int] = [0, 1]" by code_simp
  ultimately show ?thesis
    by (simp add: load_eval_rows_def demo_env_def demo_args_def)
qed

lemma demo_wf:
  assumes t: "t = NaN \<or> t = Fin (1 / 100)"
  shows "wf_rollout (demo_env l) (demo_args t)"
proof -
  have "metadata_dumpable sample_fr (demo_args t)"
    using t sample_fr_reads
    by (auto simp: metadata_dumpable_def checkpoint_metadata_def demo_args_def mode_local_def mode_remote_def u_def
        nonneg_def json_opt_def nat_digits.simps)
  moreover have "rows_ok sample_fr demo_data"
    by (auto simp: rows_ok_def demo_data_def ground_truth_value_def dict_get_def json_text_def
        key_gts_def key_ground_truth_def u_def nonneg_def)
  moreover have "texts_ok (demo_env l)"
    by (auto simp: texts_ok_def demo_env_def u_def nonneg_def list_all_iff result_ok_def generate_one_def)
  ultimately show ?thesis
    using sample_first_samples by (simp add: wf_rollout_def demo_env_def)
qed

lemma demo_same: "t = NaN \<or> t = Fin (1 / 100) \<Longrightarrow> same_rows (demo_args t) demo_rows demo_event"
  using demo_wf demo_loads by (simp add: same_rows_def demo_event_def)

lemma demo_run:
  "snd (rollout_main (demo_env (Inr ())) (demo_args NaN) None) = Inr ()"
  "snd (rollout_main (demo_env (Inr ())) (demo_args (Fin (1 / 100))) None) = Inr ()"
  by code_simp+

lemma demo_left: "left_by_runs (demo_args t) demo_rows None"
  unfolding left_by_runs_def by (rule reachable.initial)

lemma demo_file_left:
  assumes "t = NaN \<or> t = Fin (1 / 100)"
  shows "left_by_runs (demo_args t) demo_rows (demo_file t)"
  unfolding left_by_runs_def
proof (rule reachable.move [where e = demo_event])
  show "reachable (\<lambda>ev _. 0 < a_num_samples (demo_args t) \<and> 0 < a_batch_size (demo_args t)
      \<and> same_rows (demo_args t) demo_rows ev) (rollout_step (demo_args t)) None None"
    by (rule reachable.initial)
  show "0 < a_num_samples (demo_args t) \<and> 0 < a_batch_size (demo_args t)
      \<and> same_rows (demo_args t) demo_rows demo_event"
    using demo_same [OF assms] by (simp add: demo_args_def)
  show "rollout_step (demo_args t) demo_event None = Some (demo_file t)"
    by (simp add: rollout_step_def demo_flags demo_file_def) (simp add: demo_event_def)
qed

lemma demo_returns:
  assumes "t = NaN \<or> t = Fin (1 / 100)"
  shows "rollout_main (ev_env demo_event) (with_flags (demo_args t) demo_event) None = (demo_file t, Inr ())"
  using demo_run assms by (auto simp: demo_flags demo_file_def prod_eq_iff) (simp_all add: demo_event_def)

lemma demo_covers:
  assumes "t = NaN \<or> t = Fin (1 / 100)"
  shows "covers demo_rows (demo_file t)"
proof -
  have "0 < a_num_samples (demo_args t)" "0 < a_batch_size (demo_args t)" by (simp_all add: demo_args_def)
  from step_own [OF this left_own [OF demo_left] demo_same [OF assms] demo_returns [OF assms]]
  show ?thesis by (auto intro: run_leaves_covers)
qed

theorem finished_run_complete_witness:
  "\<exists>recs. read_checkpoint (demo_file NaN) = Inr recs \<and> length recs = 2 \<and> fst ` set recs = {0, 1}"
proof -
  have "0 < a_num_samples (demo_args NaN)" "0 < a_batch_size (demo_args NaN)" by (simp_all add: demo_args_def)
  from finished_run_complete [OF demo_left demo_same this demo_returns]
  show ?thesis by (auto simp: demo_args_def demo_rows_def)
qed

theorem complete_run_resumes_witness:
  "rollout_main (demo_env (Inl RuntimeError)) (demo_args (Fin (1 / 100))) (demo_file (Fin (1 / 100)))
   = (demo_file (Fin (1 / 100)), Inr ())"
proof -
  let ?t = "Fin (1 / 100)"
  have "no_nan (demo_args ?t)" "0 < a_num_samples (demo_args ?t)" "0 < a_batch_size (demo_args ?t)"
    "\<not> a_overwrite (demo_args ?t)" "\<not> a_retry_errors (demo_args ?t)"
    by (simp_all add: demo_args_def no_nan_def)
  moreover have "samples (e_sample (demo_env (Inl RuntimeError)))"
    using sample_first_samples by (simp add: demo_env_def)
  ultimately show ?thesis
    using complete_run_resumes [OF demo_file_left demo_covers _ _ _ demo_loads] by simp
qed

theorem nan_never_resumes_witness:
  "parse_checks (demo_args NaN) = None
   \<and> rollout_main (demo_env (Inr ())) (demo_args NaN) (demo_file NaN) = (demo_file NaN, Inl ValueError)"
proof
  show "parse_checks (demo_args NaN) = None" by code_simp
  obtain recs where r1: "read_checkpoint (demo_file NaN) = Inr recs" and keys: "fst ` set recs = r_source ` set demo_rows"
    using demo_covers [of NaN] by (auto simp: covers_def)
  have r: "read_checkpoint (demo_file NaN) = Inr recs" "recs \<noteq> []"
    using r1 keys by (auto simp: demo_rows_def)
  have t: "a_temperature (demo_args NaN) = NaN" "\<not> a_overwrite (demo_args NaN)" by (simp_all add: demo_args_def)
  show "rollout_main (demo_env (Inr ())) (demo_args NaN) (demo_file NaN) = (demo_file NaN, Inl ValueError)"
    by (rule nan_never_resumes [OF demo_file_left r t(1) demo_loads t(2)]) simp
qed

section \<open>One bad reply\<close>

lemma py_join_mem: "x \<in> set xs \<Longrightarrow> c \<in> set x \<Longrightarrow> c \<in> set (py_join sep xs)"
  by (induction xs) (auto simp: py_join_Cons)

lemma record_has_char:
  assumes "checkpoint_payload a r p e = Inr d" and "c \<in> set p" and "is_surrogate c"
  shows "utf8_encode (dumps_json fr (JObj d) @ [10]) = Inl UnicodeEncodeError"
proof -
  have "(key_prediction, JStr p) \<in> set d" using assms(1) by (auto elim!: payload_split)
  moreover have "c \<in> set (dumps_str p)"
    using assms(2,3) by (force simp: dumps_str_def dumps_char_def is_surrogate_def)
  ultimately have "c \<in> set (dumps_json fr (JObj d))"
    by (force intro!: py_join_mem)
  then show ?thesis using assms(3) by (auto simp: utf8_encode_def utf8_bytes_def list_ex_iff)
qed

text \<open>A remote run with a reply that contains a lone surrogate never returns: recording it raises
  outside the handler of the row's errors, whatever the other rows' calls did.\<close>

theorem surrogate_stops_run:
  assumes "r \<in> set (order pending)"
    and "list_ex is_surrogate (fst (generate_one fr exn_text call r))"
  shows "snd (run_remote fr exn_text setup call order a pending fl) \<noteq> Inr ()"
proof -
  have one: "snd (append_checkpoint fr a r (generate_one fr exn_text call r) fl) \<noteq> Inr ()" for fl
    using record_has_char assms(2)
    by (auto simp: append_checkpoint_def Let_def list_ex_iff split: sum.splits)
  have "snd (append_completed fr a (generate_one fr exn_text call) rs fl) \<noteq> Inr ()" if "r \<in> set rs" for rs
    using that
  proof (induction rs arbitrary: fl)
    case (Cons q rs)
    then show ?case using one [of fl] by (auto split: prod.splits sum.splits)
  qed simp
  then show ?thesis using assms(1) by (auto simp: run_remote_def split: sum.splits)
qed

theorem surrogate_stops_run_witness:
  "snd (run_remote sample_fr (\<lambda>_. []) (Inr ()) (\<lambda>_. Inr [(u ''ok'', JBool True), (key_text, JStr [55296])])
     (\<lambda>rs. rs) (demo_args NaN) demo_rows None) \<noteq> Inr ()"
proof -
  let ?call = "\<lambda>_. Inr [(u ''ok'', JBool True), (key_text, JStr [55296])]"
  have "hd demo_rows \<in> set ((\<lambda>rs. rs) demo_rows)" by (simp add: demo_rows_def)
  moreover have "list_ex is_surrogate (fst (generate_one sample_fr (\<lambda>_. []) ?call (hd demo_rows)))" by code_simp
  ultimately show ?thesis by (rule surrogate_stops_run)
qed

text \<open>After a record has been appended, the checkpoint holds it under its row, in place of an
  earlier record of that row, and the other rows keep their records.\<close>

theorem appended_record_read:
  assumes "append_checkpoint fr a row res fl = (fl', Inr ())" and "read_checkpoint fl = Inr recs"
    and "metadata_dumpable fr a" and "row_dumpable row" and "result_ok res"
  shows "\<exists>d recs'. read_checkpoint fl' = Inr recs' \<and> map_of recs' = (map_of recs)(r_source row \<mapsto> d)
    \<and> dict_get d key_prediction = JStr (fst res) \<and> dict_get d key_error = JStr (snd res)
    \<and> dict_get d key_ground_truth = JStr (r_ground_truth row)"
proof -
  obtain d where d: "checkpoint_payload a row (fst res) (snd res) = Inr d"
    and r: "read_checkpoint fl' = Inr (AList.update (r_source row) d recs)"
    using append_read [OF assms] by blast
  show ?thesis
    using r payload_fields(3-5) [OF d] update_conv' [of "r_source row" d recs] by blast
qed

theorem appended_record_read_witness:
  "\<exists>d recs'. read_checkpoint (fst (append_checkpoint sample_fr (demo_args NaN) (hd demo_rows) (u ''p'', []) (Some [[32, 10]])))
       = Inr recs' \<and> map_of recs' = [0 \<mapsto> d] \<and> dict_get d key_prediction = JStr (u ''p'')"
proof -
  have run: "append_checkpoint sample_fr (demo_args NaN) (hd demo_rows) (u ''p'', []) (Some [[32, 10]])
      = (fst (append_checkpoint sample_fr (demo_args NaN) (hd demo_rows) (u ''p'', []) (Some [[32, 10]])), Inr ())"
    unfolding prod_eq_iff fst_conv snd_conv by (rule conjI [OF refl]) code_simp
  have read: "read_checkpoint (Some [[32, 10]]) = Inr []" by code_simp
  have ok: "metadata_dumpable sample_fr (demo_args NaN)"
    using demo_wf [of NaN "Inr ()"] by (simp add: wf_rollout_def demo_env_def)
  have row: "row_dumpable (hd demo_rows)" "result_ok (u ''p'', [])"
    by (simp_all add: row_dumpable_def demo_rows_def result_ok_def nonneg_def u_def nat_digits.simps)
  from appended_record_read [OF run read ok row] show ?thesis by (auto simp: demo_rows_def)
qed

end
