(* ===== verification/Evaluate.thy ===== *)
theory Evaluate
  imports CheckpointRuns "HOL-Library.List_Lexorder"
begin

text \<open>
  \<^verbatim>\<open>evaluate_rollout_checkpoints.py\<close>: the checkpoints of \<^verbatim>\<open>rollout_checkpoint.py\<close> are loaded and
  compared, every usable prediction is scored by the route its file name gives, and one JSON line
  per row is written. The files are their lines, as in \<open>Checkpoint\<close>; the dataset, the
  file system's answers, the start of the reward service, the client of the service and the order
  in which the scoring threads complete are parameters. The images and the HTML page are not
  modelled; a \<open>SystemExit\<close> of \<open>main\<close> keeps the class of the error it reports (\<open>ValueError\<close> for a ground
  truth that differs from the dataset's).
\<close>

section \<open>Names\<close>

record model_run =
  run_file :: ustr
  run_mode :: ustr
  run_name :: ustr
  run_backend :: ustr
  run_records :: records

definition jsonl :: ustr where "jsonl = u ''.jsonl''"

definition drop_suffix :: "ustr \<Rightarrow> ustr \<Rightarrow> ustr option" where
  "drop_suffix suffix s =
     (if length suffix \<le> length s \<and> drop (length s - length suffix) s = suffix
      then Some (take (length s - length suffix) s) else None)"

definition drop_prefix :: "ustr \<Rightarrow> ustr \<Rightarrow> ustr option" where
  "drop_prefix prefix s = (if take (length prefix) s = prefix then Some (drop (length prefix) s) else None)"

text \<open>\<open>CHECKPOINT_RE.fullmatch\<close>, the pattern \<open>^(local|remote)__(.+)\.jsonl$\<close>: the two groups.\<close>

definition name_part :: "ustr \<Rightarrow> ustr \<Rightarrow> ustr option" where
  "name_part mode s =
     (case drop_prefix (mode @ u ''__'') s of
        None \<Rightarrow> None
      | Some rest \<Rightarrow>
          (case drop_suffix jsonl rest of
             None \<Rightarrow> None
           | Some name \<Rightarrow> if name = [] \<or> 10 \<in> set name then None else Some name))"

definition checkpoint_parts :: "ustr \<Rightarrow> (ustr \<times> ustr) option" where
  "checkpoint_parts s =
     (case name_part mode_local s of
        Some name \<Rightarrow> Some (mode_local, name)
      | None \<Rightarrow> (case name_part mode_remote s of
                   Some name \<Rightarrow> Some (mode_remote, name)
                 | None \<Rightarrow> None))"

text \<open>\<open>path.stem\<close> of a name that ends in \<open>.jsonl\<close>.\<close>

definition model_id :: "model_run \<Rightarrow> ustr" where
  "model_id r = (case drop_suffix jsonl (run_file r) of Some stem \<Rightarrow> stem | None \<Rightarrow> run_file r)"

definition discover_checkpoints :: "ustr list \<Rightarrow> ustr list" where
  "discover_checkpoints listing = sort (filter (\<lambda>s. checkpoint_parts s \<noteq> None) listing)"

section \<open>One checkpoint\<close>

definition key_backend :: ustr where "key_backend = u ''backend''"
definition key_mode :: ustr where "key_mode = u ''mode''"
definition key_name :: ustr where "key_name = u ''name''"
definition key_schema_version :: ustr where "key_schema_version = u ''schema_version''"
definition key_num_samples :: ustr where "key_num_samples = u ''num_samples''"
definition key_data_path :: ustr where "key_data_path = u ''data_path''"

definition sample_order_of :: "dict \<Rightarrow> int py" where
  "sample_order_of d = bindE (dict_item d key_sample_order) int_of"

text \<open>The checks of one record: its sample order is put in front of those before it.\<close>

definition check_record :: "ustr \<Rightarrow> ustr \<Rightarrow> ustr \<Rightarrow> int list \<Rightarrow> dict \<Rightarrow> int list py" where
  "check_record mode name backend orders d =
     bindE (case sample_order_of d of
              Inr i \<Rightarrow> Inr (i, [])
            | Inl e \<Rightarrow> if is_ValueError e \<or> e = KeyError \<or> e = TypeError then Inr (-1, [key_sample_order])
                       else Inl e)
       (\<lambda>(order, bad).
          (let mismatched =
                 map fst (filter (\<lambda>(k, v). \<not> scalar_eq (dict_get d k) v)
                   [(key_schema_version, JInt 1), (key_mode, JStr mode), (key_name, JStr name),
                    (key_backend, JStr backend)])
                 @ bad @ (if order \<in> set orders then [key_sample_order] else [])
           in if mismatched = [] then Inr (order # orders) else Inl ValueError))"

fun check_records :: "ustr \<Rightarrow> ustr \<Rightarrow> ustr \<Rightarrow> int list \<Rightarrow> records \<Rightarrow> int list py" where
  "check_records mode name backend orders [] = Inr orders"
| "check_records mode name backend orders ((i, d) # rest) =
     bindE (check_record mode name backend orders d) (\<lambda>orders'. check_records mode name backend orders' rest)"

definition load_model_run :: "(pyfloat \<Rightarrow> ustr) \<Rightarrow> ustr \<Rightarrow> ustr list option \<Rightarrow> model_run py" where
  "load_model_run fr filename content =
     (case checkpoint_parts filename of
        None \<Rightarrow> Inl ValueError
      | Some (mode, name) \<Rightarrow>
          bindE (read_checkpoint content) (\<lambda>recs.
            case recs of
              [] \<Rightarrow> Inl ValueError
            | (_, first) # _ \<Rightarrow>
                (let backend = py_str fr (dict_get_or first key_backend (JStr []))
                 in bindE (int_of (dict_get_or first key_num_samples (JInt (-1)))) (\<lambda>expected_count.
                      if expected_count \<le> 0 \<or> int (length recs) \<noteq> expected_count then Inl ValueError
                      else bindE (check_records mode name backend [] recs) (\<lambda>orders.
                             if set orders = {0..<expected_count}
                             then Inr \<lparr>run_file = filename, run_mode = mode, run_name = name,
                                        run_backend = backend, run_records = recs\<rparr>
                             else Inl ValueError)))))"

section \<open>Several checkpoints\<close>

definition text_of :: "(pyfloat \<Rightarrow> ustr) \<Rightarrow> dict \<Rightarrow> ustr \<Rightarrow> ustr" where
  "text_of fr d k = py_str fr (dict_get_or d k (JStr []))"

text \<open>One record of a later run against the reference run.\<close>

definition same_case :: "(pyfloat \<Rightarrow> ustr) \<Rightarrow> records \<Rightarrow> int \<times> dict \<Rightarrow> unit py" where
  "same_case fr reference rec =
     (case map_of reference (fst rec) of
        None \<Rightarrow> Inl KeyError
      | Some d \<Rightarrow>
          bindE (sample_order_of (snd rec)) (\<lambda>i. bindE (sample_order_of d) (\<lambda>j.
            if i \<noteq> j then Inl ValueError
            else if text_of fr (snd rec) key_ground_truth \<noteq> text_of fr d key_ground_truth then Inl ValueError
            else Inr ())))"

definition same_cases :: "(pyfloat \<Rightarrow> ustr) \<Rightarrow> records \<Rightarrow> model_run \<Rightarrow> unit py" where
  "same_cases fr reference mr =
     (if fst ` set (run_records mr) \<noteq> fst ` set reference then Inl ValueError
      else bindE (mapE (same_case fr reference) (run_records mr)) (\<lambda>_. Inr ()))"

text \<open>\<open>resolve\<close> is \<open>Path(...).expanduser().resolve()\<close>; \<open>is_parquet\<close> says whether the path is a file
  with the suffix \<open>.parquet\<close>.\<close>

definition validate_runs ::
  "(pyfloat \<Rightarrow> ustr) \<Rightarrow> (ustr \<Rightarrow> ustr) \<Rightarrow> (ustr \<Rightarrow> bool) \<Rightarrow> model_run list \<Rightarrow> ustr option \<Rightarrow> ustr py" where
  "validate_runs fr resolve is_parquet runs explicit_data_path =
     (case runs of
        [] \<Rightarrow> Inl IndexError
      | reference # others \<Rightarrow>
          bindE (mapE (\<lambda>rec. sample_order_of (snd rec)) (run_records reference)) (\<lambda>_.
            case remdups (map (\<lambda>rec. text_of fr (snd rec) key_data_path) (concat (map run_records runs))) of
              [recorded] \<Rightarrow>
                (let data_path = (case explicit_data_path of Some p \<Rightarrow> p | None \<Rightarrow> resolve recorded)
                 in bindE (mapE (same_cases fr (run_records reference)) others) (\<lambda>_.
                      if is_parquet data_path then Inr data_path else Inl FileNotFoundError))
            | _ \<Rightarrow> Inl ValueError))"

section \<open>Scores\<close>

record score_job =
  job_run :: model_run
  job_row :: int
  job_prediction :: ustr
  job_ground_truth :: ustr

definition job_of :: "(pyfloat \<Rightarrow> ustr) \<Rightarrow> model_run \<Rightarrow> int \<times> dict \<Rightarrow> score_job list py" where
  "job_of fr mr rec =
     (let prediction = text_of fr (snd rec) key_prediction
      in if prediction \<noteq> [] \<and> \<not> truthy (dict_get (snd rec) key_error)
         then bindE (dict_item (snd rec) key_ground_truth) (\<lambda>gt.
                Inr [\<lparr>job_run = mr, job_row = fst rec, job_prediction = prediction,
                       job_ground_truth = py_str fr gt\<rparr>])
         else Inr [])"

definition score_jobs :: "(pyfloat \<Rightarrow> ustr) \<Rightarrow> model_run list \<Rightarrow> score_job list py" where
  "score_jobs fr runs =
     bindE (mapE (\<lambda>mr. bindE (mapE (job_of fr mr) (run_records mr)) (\<lambda>js. Inr (concat js))) runs)
       (\<lambda>jss. Inr (concat jss))"

definition score_one ::
  "(pyfloat \<Rightarrow> ustr) \<Rightarrow> (real list list \<Rightarrow> (nat \<times> nat) list) \<Rightarrow> summary_client \<Rightarrow> score_job \<Rightarrow> details py" where
  "score_one fr solve r4 job =
     (if run_mode (job_run job) = mode_local
      then compute_score_details fr solve r4 LOCAL_DATA_SOURCE (job_prediction job) (JStr (job_ground_truth job))
      else score_answer_and_summary fr r4 GEMINI_DATA_SOURCE (job_prediction job) (JStr (job_ground_truth job)))"

text \<open>The two tables, by model and row.\<close>

record score_tables =
  t_scores :: "ustr \<times> int \<Rightarrow> details option"
  t_errors :: "ustr \<times> int \<Rightarrow> ustr option"

definition no_scores :: score_tables where
  "no_scores = \<lparr>t_scores = (\<lambda>_. None), t_errors = (\<lambda>_. None)\<rparr>"

definition job_key :: "score_job \<Rightarrow> ustr \<times> int" where
  "job_key job = (model_id (job_run job), job_row job)"

definition store_score ::
  "(py_exn \<Rightarrow> ustr) \<Rightarrow> (score_job \<Rightarrow> details py) \<Rightarrow> score_job \<Rightarrow> score_tables \<Rightarrow> score_tables" where
  "store_score exn_text score job t =
     (case score job of
        Inr s \<Rightarrow> t\<lparr>t_scores := (t_scores t)(job_key job \<mapsto> s)\<rparr>
      | Inl e \<Rightarrow> t\<lparr>t_errors := (t_errors t)(job_key job \<mapsto> exn_text e)\<rparr>)"

text \<open>\<open>order\<close> puts the jobs in the order in which they complete.\<close>

definition score_runs ::
  "(pyfloat \<Rightarrow> ustr) \<Rightarrow> (py_exn \<Rightarrow> ustr) \<Rightarrow> (score_job \<Rightarrow> details py) \<Rightarrow> (score_job list \<Rightarrow> score_job list)
     \<Rightarrow> model_run list \<Rightarrow> score_tables py" where
  "score_runs fr exn_text score order runs =
     bindE (score_jobs fr runs) (\<lambda>jobs. Inr (fold (store_score exn_text score) (order jobs) no_scores))"

section \<open>The results\<close>

definition details_json :: "details \<Rightarrow> json" where
  "details_json s = JObj (concat (map (\<lambda>(k, v). case v of None \<Rightarrow> [] | Some x \<Rightarrow> [(k, JFloat (Fin x))])
     [(u ''C'', d_C s), (u ''R2'', d_R2 s), (u ''R3'', d_R3 s), (u ''R4'', d_R4 s), (u ''reward'', d_reward s)]))"

definition model_entry :: "(pyfloat \<Rightarrow> ustr) \<Rightarrow> score_tables \<Rightarrow> int \<Rightarrow> model_run \<Rightarrow> dict py" where
  "model_entry fr t i mr =
     (case map_of (run_records mr) i of
        None \<Rightarrow> Inl KeyError
      | Some d \<Rightarrow>
          Inr [(u ''name'', JStr (run_name mr)), (u ''mode'', JStr (run_mode mr)),
               (u ''backend'', JStr (run_backend mr)), (u ''checkpoint'', JStr (run_file mr)),
               (u ''prediction'', JStr (text_of fr d key_prediction)),
               (u ''generation_error'', JStr (text_of fr d key_error)),
               (u ''scores'', case t_scores t (model_id mr, i) of None \<Rightarrow> JObj [] | Some s \<Rightarrow> details_json s),
               (u ''evaluation_error'',
                  JStr (case t_errors t (model_id mr, i) of None \<Rightarrow> [] | Some e \<Rightarrow> e))])"

definition result_payload ::
  "(pyfloat \<Rightarrow> ustr) \<Rightarrow> score_tables \<Rightarrow> model_run list \<Rightarrow> int \<Rightarrow> json py" where
  "result_payload fr t runs i =
     (case map_of (run_records (hd runs)) i of
        None \<Rightarrow> Inl KeyError
      | Some first \<Rightarrow>
          bindE (mapE (\<lambda>mr. bindE (model_entry fr t i mr) (\<lambda>e. Inr (model_id mr, JObj e))) runs) (\<lambda>entries.
          bindE (sample_order_of first) (\<lambda>order.
          bindE (dict_item first key_ground_truth) (\<lambda>gt.
            Inr (JObj [(key_source_row, JInt i), (key_sample_order, JInt order),
                       (key_ground_truth, JStr (py_str fr gt)),
                       (u ''models'', JObj (fold (\<lambda>(k, v). AList.update k v) entries []))])))))"

definition ordered_rows :: "model_run \<Rightarrow> int list py" where
  "ordered_rows mr =
     bindE (mapE (\<lambda>rec. bindE (sample_order_of (snd rec)) (\<lambda>k. Inr (k, fst rec))) (run_records mr))
       (\<lambda>keyed. Inr (map snd (sort_key fst keyed)))"

text \<open>The rows of the dataset and the check of their ground truth; \<open>select\<close> is the dataset's.\<close>

definition same_ground_truth :: "(pyfloat \<Rightarrow> ustr) \<Rightarrow> model_run \<Rightarrow> int \<times> json \<Rightarrow> unit py" where
  "same_ground_truth fr mr row =
     (case snd row of
        JObj d \<Rightarrow>
          (case map_of (run_records mr) (fst row) of
             None \<Rightarrow> Inl KeyError
           | Some rec \<Rightarrow>
               bindE (dict_item rec key_ground_truth) (\<lambda>gt.
                 if json_text fr (ground_truth_value d) = py_str fr gt then Inr () else Inl ValueError))
      | _ \<Rightarrow> Inl AttributeError)"

definition check_dataset ::
  "(pyfloat \<Rightarrow> ustr) \<Rightarrow> (int list \<Rightarrow> json list py) \<Rightarrow> int \<Rightarrow> model_run \<Rightarrow> int list \<Rightarrow> unit py" where
  "check_dataset fr select n mr rows =
     (if list_ex (\<lambda>i. n \<le> i) rows then Inl ValueError
      else bindE (select rows) (\<lambda>selected.
        if length selected \<noteq> length rows then Inl ValueError
        else bindE (mapE (same_ground_truth fr mr) (zip rows selected)) (\<lambda>_. Inr ())))"

section \<open>The whole evaluation\<close>

record eval_env =
  v_fr :: "pyfloat \<Rightarrow> ustr"
  v_exn_text :: "py_exn \<Rightarrow> ustr"
  v_resolve :: "ustr \<Rightarrow> ustr"
  v_is_parquet :: "ustr \<Rightarrow> bool"
  v_solve :: "real list list \<Rightarrow> (nat \<times> nat) list"
  v_r4 :: summary_client
  v_server :: "unit py"
  v_order :: "score_job list \<Rightarrow> score_job list"
  v_select :: "int list \<Rightarrow> json list py"
  v_rows :: int

definition has_scorable :: "model_run list \<Rightarrow> bool" where
  "has_scorable runs \<longleftrightarrow>
     list_ex (\<lambda>mr. list_ex (\<lambda>rec. truthy (dict_get (snd rec) key_prediction)
                              \<and> \<not> truthy (dict_get (snd rec) key_error)) (run_records mr)) runs"

text \<open>The lines of \<open>evaluation_results.jsonl\<close> without their newline, from the named files and their contents.\<close>

definition evaluate ::
  "eval_env \<Rightarrow> ustr option \<Rightarrow> (ustr \<times> ustr list option) list \<Rightarrow> ustr list py" where
  "evaluate v explicit_data_path files =
     bindE (mapE (\<lambda>(name, content). load_model_run (v_fr v) name content) files) (\<lambda>runs.
     bindE (validate_runs (v_fr v) (v_resolve v) (v_is_parquet v) runs explicit_data_path) (\<lambda>_.
     bindE (if has_scorable runs then v_server v else Inr ()) (\<lambda>_.
     bindE (score_runs (v_fr v) (v_exn_text v) (score_one (v_fr v) (v_solve v) (v_r4 v)) (v_order v) runs) (\<lambda>t.
     bindE (ordered_rows (hd runs)) (\<lambda>rows.
     bindE (check_dataset (v_fr v) (v_select v) (v_rows v) (hd runs) rows) (\<lambda>_.
     bindE (mapE (result_payload (v_fr v) t runs) rows) (\<lambda>payloads.
       Inr (map (dumps_json (v_fr v)) payloads))))))))"

section \<open>File names\<close>

lemma drop_prefix_append [simp]: "drop_prefix p (p @ s) = Some s"
  by (simp add: drop_prefix_def)

lemma drop_suffix_append [simp]: "drop_suffix q (s @ q) = Some s"
  by (simp add: drop_suffix_def)

lemma drop_prefix_Some: "drop_prefix p s = Some r \<longleftrightarrow> s = p @ r"
  by (auto simp: drop_prefix_def) (metis append_take_drop_id)

lemma drop_suffix_Some: "drop_suffix q s = Some r \<longleftrightarrow> s = r @ q"
  by (auto simp: drop_suffix_def) (metis append_take_drop_id)

lemma name_part_Some: "name_part mode s = Some name \<longleftrightarrow>
    s = mode @ u ''__'' @ name @ jsonl \<and> name \<noteq> [] \<and> 10 \<notin> set name"
proof -
  have pre: "drop_prefix (mode @ u ''__'') (mode @ u ''__'' @ x) = Some x" for x
    using drop_prefix_append [of "mode @ u ''__''" x] by simp
  have suf: "drop_suffix jsonl (x @ jsonl) = Some x" for x by simp
  show ?thesis
  proof
    assume "name_part mode s = Some name"
    then show "s = mode @ u ''__'' @ name @ jsonl \<and> name \<noteq> [] \<and> 10 \<notin> set name"
      by (auto simp: name_part_def drop_prefix_Some drop_suffix_Some split: option.splits if_splits)
  next
    assume "s = mode @ u ''__'' @ name @ jsonl \<and> name \<noteq> [] \<and> 10 \<notin> set name"
    then show "name_part mode s = Some name" by (simp add: name_part_def pre suf)
  qed
qed

lemma name_part_remote: "name_part mode_local (mode_remote @ s) = None"
proof -
  have "mode_remote @ s \<noteq> mode_local @ t" for t by (simp add: mode_remote_def mode_local_def u_def)
  then show ?thesis by (cases "name_part mode_local (mode_remote @ s)") (auto simp: name_part_Some)
qed

lemma filename_parts:
  assumes "checkpoint_filename mode name = Inr f"
  shows "checkpoint_parts f = Some (mode, name)" and "47 \<notin> set f" and "drop_suffix jsonl f = Some (mode @ u ''__'' @ name)"
proof -
  have mode: "mode = mode_local \<or> mode = mode_remote" and v: "valid_name name"
    and f: "f = mode @ u ''__'' @ name @ jsonl"
    using assms by (auto simp: checkpoint_filename_def jsonl_def split: if_splits)
  obtain c r where n: "name = c # r" "name_start c" "list_all name_char r"
    using v by (auto simp: valid_name_def split: list.splits)
  have chars: "\<forall>x \<in> set name. name_char x" using n by (auto simp: name_char_def list_all_iff)
  then have no: "10 \<notin> set name" "47 \<notin> set name" by (auto simp: name_char_def name_start_def)
  then have "name_part mode f = Some name" using n(1) f by (simp add: name_part_Some)
  then show "checkpoint_parts f = Some (mode, name)"
    using mode name_part_remote f by (auto simp: checkpoint_parts_def split: option.splits)
  show "47 \<notin> set f" using mode no by (auto simp: f jsonl_def mode_local_def mode_remote_def u_def)
  show "drop_suffix jsonl f = Some (mode @ u ''__'' @ name)"
    using drop_suffix_append [of jsonl "mode @ u ''__'' @ name"] by (simp add: f)
qed

text \<open>The name a rollout gives its checkpoint is in no other directory, and the evaluation reads
  from it the mode and the name it was made of; so two runs never share a file.\<close>

theorem filename_round_trip:
  assumes "checkpoint_filename mode name = Inr f"
  shows "checkpoint_parts f = Some (mode, name) \<and> 47 \<notin> set f
    \<and> (\<forall>mode' name'. checkpoint_filename mode' name' = Inr f \<longrightarrow> mode' = mode \<and> name' = name)"
  using filename_parts [OF assms] filename_parts(1) by force

theorem filename_round_trip_witness:
  "checkpoint_parts (u ''local__qwen.step_100.jsonl'') = Some (u ''local'', u ''qwen.step_100'')"
proof -
  have "checkpoint_filename (u ''local'') (u ''qwen.step_100'') = Inr (u ''local__qwen.step_100.jsonl'')"
    by code_simp
  from filename_round_trip [OF this] show ?thesis by blast
qed

section \<open>A finished checkpoint is accepted\<close>

definition finished :: "rollout_args \<Rightarrow> eval_row list \<Rightarrow> ustr list option \<Rightarrow> bool" where
  "finished a rows fl \<longleftrightarrow> own_file a rows fl \<and> covers rows fl"

text \<open>Rows as \<open>load_eval_rows\<close> gives them.\<close>

definition selected_rows :: "int \<Rightarrow> eval_row list \<Rightarrow> bool" where
  "selected_rows n rows \<longleftrightarrow> 0 < n \<and> distinct (map r_source rows) \<and> map r_order rows = [0..n - 1]"

definition backend_of :: "rollout_args \<Rightarrow> ustr" where
  "backend_of a = (case checkpoint_metadata a of Inl _ \<Rightarrow> [] | Inr m \<Rightarrow>
     (case map_of m key_backend of Some (JStr b) \<Rightarrow> b | _ \<Rightarrow> []))"

definition row_at :: "eval_row list \<Rightarrow> int \<Rightarrow> eval_row" where
  "row_at rows i = (case find_row rows i of Some r \<Rightarrow> r | None \<Rightarrow> hd rows)"

lemma dict_get_or_mem: "distinct (map fst d) \<Longrightarrow> (k, v) \<in> set d \<Longrightarrow> dict_get_or d k x = v"
  by (simp add: dict_get_or_def map_of_is_SomeI)

lemma metadata_fields:
  assumes "checkpoint_metadata a = Inr m"
  shows "(key_schema_version, JInt 1) \<in> set m" and "(key_mode, JStr (a_mode a)) \<in> set m"
    and "(key_name, JStr (a_name a)) \<in> set m" and "(key_backend, JStr (backend_of a)) \<in> set m"
    and "(key_data_path, JStr (a_data_path a)) \<in> set m" and "(key_num_samples, JInt (a_num_samples a)) \<in> set m"
  using assms
  by (auto simp: checkpoint_metadata_def backend_of_def key_schema_version_def key_mode_def key_name_def
      key_backend_def key_data_path_def key_num_samples_def u_def split: if_splits option.splits)

text \<open>What the evaluation reads from one record of a run.\<close>

lemma own_record_fields:
  assumes "own_record a rows rec" and "distinct (map r_source rows)"
  obtains r p e where "r \<in> set rows" and "row_at rows (fst rec) = r" and "fst rec = r_source r"
    and "checkpoint_payload a r p e = Inr (snd rec)"
    and "sample_order_of (snd rec) = Inr (r_order r)"
    and "dict_item (snd rec) key_ground_truth = Inr (JStr (r_ground_truth r))"
    and "\<And>fr. text_of fr (snd rec) key_ground_truth = r_ground_truth r"
    and "\<And>fr. text_of fr (snd rec) key_prediction = p" and "\<And>fr. text_of fr (snd rec) key_error = e"
    and "\<And>fr. text_of fr (snd rec) key_data_path = a_data_path a"
    and "\<And>fr. text_of fr (snd rec) key_backend = backend_of a"
    and "dict_get_or (snd rec) key_num_samples (JInt (-1)) = JInt (a_num_samples a)"
    and "dict_get (snd rec) key_prediction = JStr p" and "dict_get (snd rec) key_error = JStr e"
    and "\<And>k v. (k, v) \<in> set [(key_schema_version, JInt 1), (key_mode, JStr (a_mode a)), (key_name, JStr (a_name a)),
        (key_backend, JStr (backend_of a))] \<Longrightarrow> scalar_eq (dict_get (snd rec) k) v"
proof -
  obtain r p e where r: "r \<in> set rows" "fst rec = r_source r" and p: "checkpoint_payload a r p e = Inr (snd rec)"
    using assms(1) by (auto simp: own_record_def)
  obtain m where m: "checkpoint_metadata a = Inr m" and d: "snd rec = m @
      [(key_source_row, JInt (r_source r)), (key_sample_order, JInt (r_order r)),
       (key_data_source, JStr (if a_mode a = mode_local then LOCAL_DATA_SOURCE else GEMINI_DATA_SOURCE)),
       (key_ground_truth, JStr (r_ground_truth r)), (key_prediction, JStr p), (key_error, JStr e)]"
    using payload_split [OF p] by blast
  note dm = payload_distinct [OF p]
  have mem: "set m \<subseteq> set (snd rec)" by (auto simp: d)
  note mf = metadata_fields [OF m, THEN subsetD [OF mem]]
  have tail: "(key_sample_order, JInt (r_order r)) \<in> set (snd rec)" "(key_ground_truth, JStr (r_ground_truth r)) \<in> set (snd rec)"
    "(key_prediction, JStr p) \<in> set (snd rec)" "(key_error, JStr e) \<in> set (snd rec)"
    by (simp_all add: d)
  have item: "(k, v) \<in> set (snd rec) \<Longrightarrow> dict_item (snd rec) k = Inr v" for k v
    using map_of_is_SomeI [OF dm] by (simp add: dict_item_def)
  have textv: "(k, JStr v) \<in> set (snd rec) \<Longrightarrow> text_of fr (snd rec) k = v" for fr k v
    using dict_get_or_mem [OF dm] by (simp add: text_of_def)
  show thesis
  proof (rule that [of r p e])
    show "row_at rows (fst rec) = r" using find_row_distinct [OF assms(2) r(1)] r(2) by (simp add: row_at_def)
    show "sample_order_of (snd rec) = Inr (r_order r)" using item [OF tail(1)] by (simp add: sample_order_of_def)
    show "dict_get_or (snd rec) key_num_samples (JInt (-1)) = JInt (a_num_samples a)"
      by (rule dict_get_or_mem [OF dm mf(6)])
    show "scalar_eq (dict_get (snd rec) k) v" if "(k, v) \<in> set [(key_schema_version, JInt 1), (key_mode, JStr (a_mode a)),
        (key_name, JStr (a_name a)), (key_backend, JStr (backend_of a))]" for k v
    proof -
      have "(k, v) \<in> set (snd rec)" using that mf by auto
      then have "dict_get (snd rec) k = v" by (rule dict_get_mem [OF dm])
      then show ?thesis using that by (auto intro!: scalar_eq_refl)
    qed
  qed (use r p item tail textv mf dict_get_mem [OF dm] in blast)+
qed

lemma check_own_record:
  assumes "own_record a rows rec" and "distinct (map r_source rows)"
    and "r_order (row_at rows (fst rec)) \<notin> set orders"
  shows "check_record (a_mode a) (a_name a) (backend_of a) orders (snd rec)
    = Inr (r_order (row_at rows (fst rec)) # orders)"
proof -
  obtain r where "row_at rows (fst rec) = r" "sample_order_of (snd rec) = Inr (r_order r)"
    and eq: "\<And>k v. (k, v) \<in> set [(key_schema_version, JInt 1), (key_mode, JStr (a_mode a)), (key_name, JStr (a_name a)),
        (key_backend, JStr (backend_of a))] \<Longrightarrow> scalar_eq (dict_get (snd rec) k) v"
    using own_record_fields [OF assms(1,2)] by metis
  then show ?thesis using assms(3) by (simp add: check_record_def)
qed

lemma check_own_records:
  assumes "\<forall>rec \<in> set recs. own_record a rows rec" and "distinct (map r_source rows)"
    and "distinct (map (\<lambda>rec. r_order (row_at rows (fst rec))) recs)"
    and "set (map (\<lambda>rec. r_order (row_at rows (fst rec))) recs) \<inter> set orders = {}"
  shows "\<exists>orders'. check_records (a_mode a) (a_name a) (backend_of a) orders recs = Inr orders'
    \<and> set orders' = set orders \<union> set (map (\<lambda>rec. r_order (row_at rows (fst rec))) recs)"
  using assms
proof (induction recs arbitrary: orders)
  case (Cons rec recs)
  obtain i d where rec: "rec = (i, d)" by (cases rec)
  have one: "check_record (a_mode a) (a_name a) (backend_of a) orders d = Inr (r_order (row_at rows i) # orders)"
    using check_own_record [of a rows rec orders] Cons.prems rec by simp
  have "\<exists>orders'. check_records (a_mode a) (a_name a) (backend_of a) (r_order (row_at rows i) # orders) recs = Inr orders'
      \<and> set orders' = set (r_order (row_at rows i) # orders) \<union> set (map (\<lambda>rec. r_order (row_at rows (fst rec))) recs)"
    by (rule Cons.IH) (use Cons.prems rec in auto)
  then show ?case using one rec by auto
qed simp

lemma row_at_source: "distinct (map r_source rows) \<Longrightarrow> r \<in> set rows \<Longrightarrow> row_at rows (r_source r) = r"
  by (simp add: row_at_def find_row_distinct)

lemma finished_orders:
  assumes f: "finished a rows fl" and s: "selected_rows n rows" and read: "read_checkpoint fl = Inr recs"
  shows "distinct (map (\<lambda>rec. r_order (row_at rows (fst rec))) recs)"
    and "(\<lambda>rec. r_order (row_at rows (fst rec))) ` set recs = {0..<n}"
    and "int (length recs) = n"
proof -
  have own: "\<forall>rec \<in> set recs. own_record a rows rec" "distinct (map fst recs)"
    and keys: "fst ` set recs = r_source ` set rows"
    using f read by (auto simp: finished_def own_file_def covers_def)
  have d: "distinct (map r_source rows)" and o: "map r_order rows = [0..n - 1]" "0 < n"
    using s by (auto simp: selected_rows_def)
  have inj: "inj_on r_order (set rows)"
    using o by (metis distinct_map distinct_upto)
  have inj2: "inj_on (\<lambda>i. r_order (row_at rows i)) (r_source ` set rows)"
  proof (rule inj_onI)
    fix i j assume "i \<in> r_source ` set rows" "j \<in> r_source ` set rows"
      and e: "r_order (row_at rows i) = r_order (row_at rows j)"
    then obtain r q where "r \<in> set rows" "i = r_source r" "q \<in> set rows" "j = r_source q" by blast
    then show "i = j" using e row_at_source [OF d] inj by (auto dest: inj_onD)
  qed
  have "distinct (map (\<lambda>i. r_order (row_at rows i)) (map fst recs))"
    using own(2) keys inj2 comp_inj_on [of fst "set recs"] by (simp add: distinct_map)
  then show "distinct (map (\<lambda>rec. r_order (row_at rows (fst rec))) recs)" by (simp add: comp_def)
  have "(\<lambda>rec. r_order (row_at rows (fst rec))) ` set recs = (\<lambda>i. r_order (row_at rows i)) ` (fst ` set recs)"
    by (simp add: image_image)
  also have "\<dots> = r_order ` set rows" using row_at_source [OF d] by (simp add: keys image_image)
  also have "\<dots> = set [0..n - 1]" using o(1) by (metis set_map)
  finally show "(\<lambda>rec. r_order (row_at rows (fst rec))) ` set recs = {0..<n}" by auto
  have "length recs = card (r_source ` set rows)" using own(2) keys by (metis distinct_card length_map set_map)
  also have "\<dots> = length rows" using d by (metis distinct_card length_map set_map)
  finally show "int (length recs) = n" using o by (metis length_map length_upto nat_0_le order_less_imp_le diff_0_right diff_add_cancel)
qed

definition run_of :: "rollout_args \<Rightarrow> ustr \<Rightarrow> records \<Rightarrow> model_run" where
  "run_of a f recs = \<lparr>run_file = f, run_mode = a_mode a, run_name = a_name a, run_backend = backend_of a,
     run_records = recs\<rparr>"

lemma finished_loads:
  assumes f: "finished a rows fl" and s: "selected_rows (a_num_samples a) rows" and read: "read_checkpoint fl = Inr recs"
    and name: "checkpoint_filename (a_mode a) (a_name a) = Inr filename"
  shows "load_model_run fr filename fl = Inr (run_of a filename recs)"
proof -
  note o = finished_orders [OF f s read]
  have own: "\<forall>rec \<in> set recs. own_record a rows rec" and d: "distinct (map r_source rows)" and n: "0 < a_num_samples a"
    using f s read by (auto simp: finished_def own_file_def selected_rows_def)
  obtain i first rest where recs: "recs = (i, first) # rest"
    using o(3) n by (cases recs) auto
  have "own_record a rows (i, first)" using own recs by simp
  then have b: "text_of fr first key_backend = backend_of a"
    and c: "dict_get_or first key_num_samples (JInt (-1)) = JInt (a_num_samples a)"
    using own_record_fields [OF _ d] by (metis snd_conv)+
  obtain orders where "check_records (a_mode a) (a_name a) (backend_of a) [] recs = Inr orders"
    "set orders = {0..<a_num_samples a}"
    using check_own_records [OF own d o(1), of "[]"] o(2) by auto
  then show ?thesis
    using filename_parts(1) [OF name] read b c o(3) n recs
    by (simp add: load_model_run_def run_of_def text_of_def)
qed

section \<open>Scoring\<close>

text \<open>The table of a fold over jobs with different keys: each job's own score or error.\<close>

lemma store_score_fields:
  "t_scores (store_score exn_text score j t) k
     = (if k = job_key j then (case score j of Inr s \<Rightarrow> Some s | Inl _ \<Rightarrow> t_scores t k) else t_scores t k)"
  "t_errors (store_score exn_text score j t) k
     = (if k = job_key j then (case score j of Inl e \<Rightarrow> Some (exn_text e) | Inr _ \<Rightarrow> t_errors t k) else t_errors t k)"
  by (auto simp: store_score_def split: sum.splits)

lemma fold_store_other:
  assumes "\<forall>job \<in> set js. job_key job \<noteq> k"
  shows "t_scores (fold (store_score exn_text score) js t) k = t_scores t k
    \<and> t_errors (fold (store_score exn_text score) js t) k = t_errors t k"
  using assms by (induction js arbitrary: t) (auto simp: store_score_fields)

lemma fold_store_job:
  assumes "distinct (map job_key js)" and "job \<in> set js"
  shows "t_scores (fold (store_score exn_text score) js t) (job_key job)
      = (case score job of Inr s \<Rightarrow> Some s | Inl _ \<Rightarrow> t_scores t (job_key job))"
    and "t_errors (fold (store_score exn_text score) js t) (job_key job)
      = (case score job of Inl e \<Rightarrow> Some (exn_text e) | Inr _ \<Rightarrow> t_errors t (job_key job))"
proof -
  have "t_scores (fold (store_score exn_text score) js t) (job_key job)
      = (case score job of Inr s \<Rightarrow> Some s | Inl _ \<Rightarrow> t_scores t (job_key job))
    \<and> t_errors (fold (store_score exn_text score) js t) (job_key job)
      = (case score job of Inl e \<Rightarrow> Some (exn_text e) | Inr _ \<Rightarrow> t_errors t (job_key job))"
    using assms
  proof (induction js arbitrary: t)
    case (Cons j js)
    show ?case
    proof (cases "job = j")
      case True
      have "job_key j \<notin> job_key ` set js" using Cons.prems(1) by simp
      then have "\<forall>j' \<in> set js. job_key j' \<noteq> job_key job" using True by (metis image_eqI)
      then show ?thesis using fold_store_other [of js "job_key job"] unfolding True
        by (simp add: store_score_fields)
    next
      case False
      then have "job \<in> set js" "job_key j \<noteq> job_key job" using Cons.prems by force+
      then show ?thesis using Cons.IH [of "store_score exn_text score j t"] Cons.prems(1)
        by (cases "score job") (simp_all add: store_score_fields)
    qed
  qed simp
  then show "t_scores (fold (store_score exn_text score) js t) (job_key job)
      = (case score job of Inr s \<Rightarrow> Some s | Inl _ \<Rightarrow> t_scores t (job_key job))"
    and "t_errors (fold (store_score exn_text score) js t) (job_key job)
      = (case score job of Inl e \<Rightarrow> Some (exn_text e) | Inr _ \<Rightarrow> t_errors t (job_key job))" by simp_all
qed

text \<open>The tables without an order: what the score of a usable prediction is.\<close>

definition tables_of :: "(py_exn \<Rightarrow> ustr) \<Rightarrow> (score_job \<Rightarrow> details py) \<Rightarrow> score_job list \<Rightarrow> score_tables" where
  "tables_of exn_text score js =
     \<lparr>t_scores = (\<lambda>k. case find (\<lambda>j. job_key j = k) js of None \<Rightarrow> None
         | Some j \<Rightarrow> (case score j of Inr s \<Rightarrow> Some s | Inl _ \<Rightarrow> None)),
      t_errors = (\<lambda>k. case find (\<lambda>j. job_key j = k) js of None \<Rightarrow> None
         | Some j \<Rightarrow> (case score j of Inl e \<Rightarrow> Some (exn_text e) | Inr _ \<Rightarrow> None))\<rparr>"

lemma fold_store_tables:
  assumes d: "distinct (map job_key js)" and m: "mset js' = mset js"
  shows "fold (store_score exn_text score) js' no_scores = tables_of exn_text score js"
proof (rule score_tables.equality)
  have d': "distinct (map job_key js')" and s: "set js' = set js"
    using d m by (metis mset_map mset_eq_imp_distinct_iff, metis set_mset_mset)
  have *: "t_scores (fold (store_score exn_text score) js' no_scores) k = t_scores (tables_of exn_text score js) k
    \<and> t_errors (fold (store_score exn_text score) js' no_scores) k = t_errors (tables_of exn_text score js) k" for k
  proof (cases "find (\<lambda>j. job_key j = k) js")
    case None
    then have "\<forall>j \<in> set js'. job_key j \<noteq> k" by (auto simp: find_None_iff s)
    then show ?thesis using None fold_store_other [of js' k] by (simp add: tables_of_def no_scores_def)
  next
    case (Some j)
    then have j: "j \<in> set js'" "job_key j = k" by (auto simp: find_Some_iff s)
    show ?thesis
      using Some fold_store_job [OF d' j(1), of exn_text score no_scores] unfolding j(2) [symmetric]
      by (cases "score j") (simp_all add: tables_of_def no_scores_def)
  qed
  show "t_scores (fold (store_score exn_text score) js' no_scores) = t_scores (tables_of exn_text score js)"
    using * by blast
  show "t_errors (fold (store_score exn_text score) js' no_scores) = t_errors (tables_of exn_text score js)"
    using * by blast
qed simp

text \<open>The jobs of one record come from that record, so their keys are its model and row.\<close>

lemma job_of_key: "job_of fr mr rec = Inr js \<Longrightarrow> js = [] \<or> (\<exists>j. js = [j] \<and> job_key j = (model_id mr, fst rec)
    \<and> job_run j = mr)"
  by (auto simp: job_of_def Let_def job_key_def split: if_splits)

lemma run_jobs_keys:
  assumes "mapE (job_of fr mr) recs = Inr jss" and "distinct (map fst recs)"
  shows "distinct (map job_key (concat jss)) \<and> set (map job_key (concat jss)) \<subseteq> {model_id mr} \<times> fst ` set recs"
  using assms
proof (induction recs arbitrary: jss)
  case (Cons rec recs)
  obtain js rest where js: "job_of fr mr rec = Inr js" and rest: "mapE (job_of fr mr) recs = Inr rest"
    and jss: "jss = js # rest"
    using Cons.prems(1) by auto
  have ih: "distinct (map job_key (concat rest))" "job_key ` set (concat rest) \<subseteq> {model_id mr} \<times> fst ` set recs"
    using Cons.IH [OF rest] Cons.prems(2) by simp_all
  show ?case
    using job_of_key [OF js]
  proof (elim disjE exE conjE)
    assume "js = []"
    then show ?thesis using ih by (auto simp: jss)
  next
    fix j assume j: "js = [j]" "job_key j = (model_id mr, fst rec)"
    have "fst rec \<notin> fst ` set recs" using Cons.prems(2) by simp
    then have "(model_id mr, fst rec) \<notin> set (map job_key (concat rest))" using ih(2) unfolding set_map by blast
    moreover have "map job_key (concat jss) = (model_id mr, fst rec) # map job_key (concat rest)"
      by (simp add: jss j)
    moreover have "set (map job_key (concat rest)) \<subseteq> {model_id mr} \<times> fst ` set (rec # recs)"
      using ih(2) unfolding set_map by auto
    ultimately show ?thesis using ih(1) by simp
  qed
qed simp

lemma jobs_keys:
  assumes "score_jobs fr runs = Inr js" and "distinct (map model_id runs)"
    and "\<forall>mr \<in> set runs. distinct (map fst (run_records mr))"
  shows "distinct (map job_key js) \<and> fst ` job_key ` set js \<subseteq> model_id ` set runs"
  using assms
proof (induction runs arbitrary: js)
  case (Cons mr runs)
  obtain jss rest where one: "mapE (job_of fr mr) (run_records mr) = Inr jss" and rest: "score_jobs fr runs = Inr rest"
    and js: "js = concat jss @ rest"
    using Cons.prems(1) by (fastforce simp: score_jobs_def)
  have a: "distinct (map job_key (concat jss))" "set (map job_key (concat jss)) \<subseteq> {model_id mr} \<times> fst ` set (run_records mr)"
    using run_jobs_keys [OF one] Cons.prems(3) by simp_all
  have b: "distinct (map job_key rest)" "fst ` job_key ` set rest \<subseteq> model_id ` set runs"
    using Cons.IH [OF rest] Cons.prems(2,3) by simp_all
  have "set (map job_key (concat jss)) \<inter> set (map job_key rest) = {}"
  proof (rule ccontr)
    assume "set (map job_key (concat jss)) \<inter> set (map job_key rest) \<noteq> {}"
    then obtain k where k: "k \<in> set (map job_key (concat jss))" "k \<in> job_key ` set rest" by auto
    have "k \<in> {model_id mr} \<times> fst ` set (run_records mr)" using k(1) a(2) by blast
    moreover have "fst k \<in> model_id ` set runs" using k(2) b(2) by blast
    ultimately have "fst k = model_id mr" "fst k \<in> model_id ` set runs" by auto
    then show False using Cons.prems(2) by auto
  qed
  moreover have "fst ` job_key ` set js \<subseteq> model_id ` set (mr # runs)"
  proof
    fix m assume "m \<in> fst ` job_key ` set js"
    then obtain x where "x \<in> set js" and m: "m = fst (job_key x)" by blast
    then have x: "x \<in> set (concat jss) \<or> x \<in> set rest" by (simp only: js set_append Un_iff)
    show "m \<in> model_id ` set (mr # runs)"
      using x
    proof
      assume "x \<in> set (concat jss)"
      then have "job_key x \<in> set (map job_key (concat jss))" by (simp only: set_map image_eqI)
      then have "job_key x \<in> {model_id mr} \<times> fst ` set (run_records mr)" using a(2) by blast
      then show ?thesis using m by auto
    next
      assume "x \<in> set rest"
      then show ?thesis using m b(2) by auto
    qed
  qed
  ultimately show ?case using a(1) b(1) by (simp add: js)
qed (simp add: score_jobs_def)

text \<open>The order in which the scoring threads complete does not matter: with different file names
  every usable prediction has, under its model and row, its own score or its own error.\<close>

theorem scores_without_order:
  assumes "score_jobs fr runs = Inr js" and "distinct (map model_id runs)"
    and "\<forall>mr \<in> set runs. distinct (map fst (run_records mr))" and "mset (order js) = mset js"
  shows "score_runs fr exn_text score order runs = Inr (tables_of exn_text score js)"
  using fold_store_tables [of js "order js" exn_text score] jobs_keys [OF assms(1-3)] assms(1,4)
  by (simp add: score_runs_def)

definition demo_run :: "ustr \<Rightarrow> ustr \<Rightarrow> model_run" where
  "demo_run file p = \<lparr>run_file = file, run_mode = mode_local, run_name = u ''n'', run_backend = u ''qwen'',
     run_records = [(0, [(key_prediction, JStr p), (key_ground_truth, JStr (u ''g''))])]\<rparr>"

definition demo_score :: "score_job \<Rightarrow> details py" where
  "demo_score job = (if job_prediction job = u ''good'' then Inr (no_details\<lparr>d_C := Some 1\<rparr>) else Inl RuntimeError)"

definition demo_job :: "ustr \<Rightarrow> ustr \<Rightarrow> score_job" where
  "demo_job file p = \<lparr>job_run = demo_run file p, job_row = 0, job_prediction = p, job_ground_truth = u ''g''\<rparr>"

lemma demo_jobs:
  "p \<noteq> [] \<Longrightarrow> q \<noteq> [] \<Longrightarrow> score_jobs fr [demo_run f p, demo_run g q] = Inr [demo_job f p, demo_job g q]"
  by (simp add: score_jobs_def job_of_def demo_run_def demo_job_def text_of_def dict_get_or_def dict_get_def
      dict_item_def key_prediction_def key_ground_truth_def key_error_def u_def Let_def)

theorem scores_without_order_witness:
  "score_runs sample_fr (\<lambda>_. u ''E'') demo_score rev
     [demo_run (u ''local__a.jsonl'') (u ''good''), demo_run (u ''local__b.jsonl'') (u ''bad'')]
   = Inr (tables_of (\<lambda>_. u ''E'') demo_score
       [demo_job (u ''local__a.jsonl'') (u ''good''), demo_job (u ''local__b.jsonl'') (u ''bad'')])"
proof (rule scores_without_order)
  let ?runs = "[demo_run (u ''local__a.jsonl'') (u ''good''), demo_run (u ''local__b.jsonl'') (u ''bad'')]"
  show "distinct (map model_id ?runs)" by code_simp
  show "\<forall>mr \<in> set ?runs. distinct (map fst (run_records mr))" by (simp add: demo_run_def)
  show "score_jobs sample_fr ?runs
      = Inr [demo_job (u ''local__a.jsonl'') (u ''good''), demo_job (u ''local__b.jsonl'') (u ''bad'')]"
    by (rule demo_jobs) (simp_all add: u_def)
qed simp

text \<open>Two checkpoints of the same file name, from two directories, share their scores: the score of
  either model's row is that of the thread that finishes last.\<close>

theorem same_name_race:
  fixes good bad :: details
  defines "score \<equiv> \<lambda>job. Inr (if job_prediction job = u ''good'' then good else bad)"
    and "runs \<equiv> [demo_run (u ''local__a.jsonl'') (u ''good''), demo_run (u ''local__a.jsonl'') (u ''bad'')]"
    and "key \<equiv> (u ''local__a'', 0)"
  shows "(\<exists>t. score_runs fr exn_text score (\<lambda>js. js) runs = Inr t \<and> t_scores t key = Some bad)
    \<and> (\<exists>t. score_runs fr exn_text score rev runs = Inr t \<and> t_scores t key = Some good)"
proof -
  let ?jobs = "[demo_job (u ''local__a.jsonl'') (u ''good''), demo_job (u ''local__a.jsonl'') (u ''bad'')]"
  have jobs: "score_jobs fr runs = Inr ?jobs"
    unfolding runs_def by (rule demo_jobs) (simp_all add: u_def)
  have id: "job_key (demo_job (u ''local__a.jsonl'') p) = key" for p
    by (simp add: key_def job_key_def demo_job_def demo_run_def model_id_def drop_suffix_def jsonl_def u_def)
  have p: "job_prediction (demo_job f p) = p" for f p by (simp add: demo_job_def)
  have ne: "u ''bad'' \<noteq> u ''good''" by (simp add: u_def)
  show ?thesis
    by (simp add: score_runs_def jobs store_score_def score_def id p ne)
qed

end
