(* ===== verification/EvaluateRuns.thy ===== *)
theory EvaluateRuns
  imports Evaluate
begin

text \<open>
  Rollout and evaluation together: complete checkpoints of runs on one selection are accepted by the
  evaluation, and the report says of every model and row what the checkpoint recorded and what the
  reward of exactly that prediction is.
\<close>

section \<open>Finished checkpoints of one selection\<close>

type_synonym finished_run = "rollout_args \<times> ustr list option"

definition filename_of :: "rollout_args \<Rightarrow> ustr" where
  "filename_of a = (case checkpoint_filename (a_mode a) (a_name a) of Inr f \<Rightarrow> f | Inl _ \<Rightarrow> [])"

definition records_of :: "ustr list option \<Rightarrow> records" where
  "records_of fl = (case read_checkpoint fl of Inr recs \<Rightarrow> recs | Inl _ \<Rightarrow> [])"

definition eval_files :: "finished_run list \<Rightarrow> (ustr \<times> ustr list option) list" where
  "eval_files cs = map (\<lambda>(a, fl). (filename_of a, fl)) cs"

definition loaded_run :: "finished_run \<Rightarrow> model_run" where
  "loaded_run c = run_of (fst c) (filename_of (fst c)) (records_of (snd c))"

text \<open>Complete checkpoints of runs on the same rows of the same file, under different names.\<close>

definition comparable :: "eval_row list \<Rightarrow> ustr \<Rightarrow> finished_run list \<Rightarrow> bool" where
  "comparable rows path cs \<longleftrightarrow> cs \<noteq> [] \<and> distinct (map (filename_of \<circ> fst) cs)
     \<and> (\<forall>(a, fl) \<in> set cs. finished a rows fl \<and> selected_rows (a_num_samples a) rows \<and> a_data_path a = path
          \<and> \<not> isl (checkpoint_filename (a_mode a) (a_name a)))"

lemma comparableD:
  assumes "comparable rows path cs" and "c \<in> set cs"
  shows "finished (fst c) rows (snd c)" and "selected_rows (a_num_samples (fst c)) rows"
    and "a_data_path (fst c) = path" and "checkpoint_filename (a_mode (fst c)) (a_name (fst c)) = Inr (filename_of (fst c))"
    and "read_checkpoint (snd c) = Inr (records_of (snd c))"
    and "\<forall>rec \<in> set (records_of (snd c)). own_record (fst c) rows rec"
    and "distinct (map fst (records_of (snd c)))"
    and "fst ` set (records_of (snd c)) = r_source ` set rows"
    and "distinct (map r_source rows)" and "rows \<noteq> []"
proof -
  have c: "finished (fst c) rows (snd c)" "selected_rows (a_num_samples (fst c)) rows" "a_data_path (fst c) = path"
    "\<not> isl (checkpoint_filename (a_mode (fst c)) (a_name (fst c)))"
    using assms by (auto simp: comparable_def)
  then show "finished (fst c) rows (snd c)" "selected_rows (a_num_samples (fst c)) rows" "a_data_path (fst c) = path"
    by simp_all
  show "checkpoint_filename (a_mode (fst c)) (a_name (fst c)) = Inr (filename_of (fst c))"
    using c(4) by (auto simp: filename_of_def split: sum.splits)
  obtain recs where recs: "read_checkpoint (snd c) = Inr recs" "\<forall>rec \<in> set recs. own_record (fst c) rows rec"
    "distinct (map fst recs)" "fst ` set recs = r_source ` set rows"
    using c(1) by (auto simp: finished_def own_file_def covers_def)
  then show "read_checkpoint (snd c) = Inr (records_of (snd c))"
    "\<forall>rec \<in> set (records_of (snd c)). own_record (fst c) rows rec" "distinct (map fst (records_of (snd c)))"
    "fst ` set (records_of (snd c)) = r_source ` set rows"
    by (simp_all only: records_of_def sum.case)
  show "distinct (map r_source rows)" using c(2) by (simp add: selected_rows_def)
  have "map r_order rows \<noteq> []" using c(2) by (simp add: selected_rows_def)
  then show "rows \<noteq> []" by auto
qed

lemma loaded_run_simps [simp]:
  "run_file (loaded_run c) = filename_of (fst c)" "run_mode (loaded_run c) = a_mode (fst c)"
  "run_name (loaded_run c) = a_name (fst c)" "run_records (loaded_run c) = records_of (snd c)"
  by (simp_all add: loaded_run_def run_of_def)

lemma mapE_comp: "mapE f (map g xs) = mapE (f \<circ> g) xs"
  by (induction xs) auto

lemma mapE_ex: "\<forall>x \<in> set xs. \<exists>y. f x = Inr y \<Longrightarrow> \<exists>ys. mapE f xs = Inr ys"
  by (induction xs) auto

lemma eval_files_load:
  assumes "comparable rows path cs"
  shows "mapE (\<lambda>(name, content). load_model_run fr name content) (eval_files cs) = Inr (map loaded_run cs)"
proof -
  have "load_model_run fr (filename_of (fst c)) (snd c) = Inr (loaded_run c)" if "c \<in> set cs" for c
    using finished_loads [OF comparableD(1,2,5,4) [OF assms that], of fr] by (simp add: loaded_run_def)
  then have "mapE ((\<lambda>(name, content). load_model_run fr name content) \<circ> (\<lambda>(a, fl). (filename_of a, fl))) cs
      = Inr (map loaded_run cs)"
    by (intro mapE_total) (auto simp: case_prod_beta)
  then show ?thesis by (simp add: eval_files_def mapE_comp)
qed

lemma model_ids_distinct:
  assumes "comparable rows path cs"
  shows "distinct (map model_id (map loaded_run cs))"
proof -
  have id: "filename_of (fst c) = model_id (loaded_run c) @ jsonl" if c: "c \<in> set cs" for c
  proof -
    obtain stem where s: "drop_suffix jsonl (filename_of (fst c)) = Some stem"
      using filename_parts(3) [OF comparableD(4) [OF assms c]] by blast
    then have "model_id (loaded_run c) = stem" by (simp add: model_id_def)
    then show ?thesis using s unfolding drop_suffix_Some by simp
  qed
  have d: "distinct (map (filename_of \<circ> fst) cs)" using assms by (simp add: comparable_def)
  have "inj_on (model_id \<circ> loaded_run) (set cs)"
  proof (rule inj_onI)
    fix c c' assume c: "c \<in> set cs" "c' \<in> set cs" and "(model_id \<circ> loaded_run) c = (model_id \<circ> loaded_run) c'"
    then have e: "(filename_of \<circ> fst) c = (filename_of \<circ> fst) c'" using id by simp
    have "inj_on (filename_of \<circ> fst) (set cs)" using d by (simp add: distinct_map)
    then show "c = c'" using e c by (rule inj_onD)
  qed
  moreover have "distinct cs" using d by (simp add: distinct_map)
  ultimately show ?thesis by (simp add: distinct_map)
qed

text \<open>The record of a row.\<close>

lemma record_of_row:
  assumes "comparable rows path cs" and "c \<in> set cs" and "r \<in> set rows"
  obtains d p e where "map_of (records_of (snd c)) (r_source r) = Some d"
    and "checkpoint_payload (fst c) r p e = Inr d"
    and "sample_order_of d = Inr (r_order r)"
    and "dict_item d key_ground_truth = Inr (JStr (r_ground_truth r))"
    and "\<And>fr. text_of fr d key_ground_truth = r_ground_truth r"
    and "\<And>fr. text_of fr d key_prediction = p" and "\<And>fr. text_of fr d key_error = e"
    and "dict_get d key_error = JStr e"
proof -
  note cc = comparableD [OF assms(1,2)]
  have "r_source r \<in> fst ` set (records_of (snd c))" using cc(8) assms(3) by simp
  then obtain rec where rec: "rec \<in> set (records_of (snd c))" "fst rec = r_source r" by auto
  have own: "own_record (fst c) rows rec" using cc(6) rec(1) by blast
  obtain q p e where q: "row_at rows (fst rec) = q" "checkpoint_payload (fst c) q p e = Inr (snd rec)"
    "sample_order_of (snd rec) = Inr (r_order q)"
    "dict_item (snd rec) key_ground_truth = Inr (JStr (r_ground_truth q))"
    "\<And>fr. text_of fr (snd rec) key_ground_truth = r_ground_truth q"
    "\<And>fr. text_of fr (snd rec) key_prediction = p" "\<And>fr. text_of fr (snd rec) key_error = e"
    "dict_get (snd rec) key_error = JStr e"
    using own_record_fields [OF own cc(9)] by metis
  have "q = r" using q(1) rec(2) row_at_source [OF cc(9) assms(3)] by simp
  moreover have "map_of (records_of (snd c)) (r_source r) = Some (snd rec)"
    using rec cc(7) by (metis map_of_is_SomeI prod.collapse)
  ultimately show thesis using q(2-8) that by blast
qed

lemma row_of_record:
  assumes "comparable rows path cs" and "c \<in> set cs" and "rec \<in> set (records_of (snd c))"
  obtains r where "r \<in> set rows" and "fst rec = r_source r" and "map_of (records_of (snd c)) (r_source r) = Some (snd rec)"
proof -
  note cc = comparableD [OF assms(1,2)]
  have "fst rec \<in> r_source ` set rows" using cc(8) assms(3) by blast
  then obtain r where "r \<in> set rows" "fst rec = r_source r" by auto
  moreover have "map_of (records_of (snd c)) (fst rec) = Some (snd rec)"
    using assms(3) cc(7) by (metis map_of_is_SomeI prod.collapse)
  ultimately show thesis using that by simp
qed

lemma remdups_same: "xs \<noteq> [] \<Longrightarrow> \<forall>x \<in> set xs. x = p \<Longrightarrow> remdups xs = [p]"
proof (induction xs)
  case (Cons x xs)
  then show ?case by (cases xs) auto
qed simp

lemma record_order:
  assumes "comparable rows path cs" and "c \<in> set cs" and "rec \<in> set (records_of (snd c))"
  shows "\<exists>r \<in> set rows. fst rec = r_source r \<and> sample_order_of (snd rec) = Inr (r_order r)
    \<and> (\<forall>fr. text_of fr (snd rec) key_ground_truth = r_ground_truth r)"
proof -
  obtain r where r: "r \<in> set rows" "fst rec = r_source r" "map_of (records_of (snd c)) (r_source r) = Some (snd rec)"
    using row_of_record [OF assms] by metis
  show ?thesis
    using record_of_row [OF assms(1,2) r(1)] r by (metis option.inject)
qed

lemma comparable_validates:
  assumes cmp: "comparable rows path cs" and p: "is_parquet (resolve path)"
  shows "validate_runs fr resolve is_parquet (map loaded_run cs) None = Inr (resolve path)"
proof -
  obtain c0 cs' where cs: "cs = c0 # cs'" using cmp by (cases cs) (auto simp: comparable_def)
  then have c0: "c0 \<in> set cs" by simp
  define ref where "ref = records_of (snd c0)"
  have orders: "\<exists>is. mapE (\<lambda>rec. sample_order_of (snd rec)) ref = Inr is"
  proof -
    have "\<forall>rec \<in> set ref. \<exists>i. sample_order_of (snd rec) = Inr i"
      using record_order [OF cmp c0] unfolding ref_def by blast
    then show ?thesis by (rule mapE_ex)
  qed
  have paths: "remdups (map (\<lambda>rec. text_of fr (snd rec) key_data_path) (concat (map run_records (map loaded_run cs)))) = [path]"
  proof (rule remdups_same)
    have "ref \<noteq> []" using comparableD(8,10) [OF cmp c0] by (auto simp: ref_def)
    then show "map (\<lambda>rec. text_of fr (snd rec) key_data_path) (concat (map run_records (map loaded_run cs))) \<noteq> []"
      by (simp add: cs ref_def)
    have "text_of fr (snd rec) key_data_path = path" if "c \<in> set cs" "rec \<in> set (records_of (snd c))" for c rec
      using own_record_fields [OF _ comparableD(9) [OF cmp that(1)], of "fst c" rec] comparableD(3,6) [OF cmp that(1)] that(2)
      by metis
    then show "\<forall>x \<in> set (map (\<lambda>rec. text_of fr (snd rec) key_data_path) (concat (map run_records (map loaded_run cs)))). x = path"
      by auto
  qed
  have case_ok: "same_case fr ref rec = Inr ()" if c: "c \<in> set cs" and rec: "rec \<in> set (records_of (snd c))" for c rec
  proof -
    obtain r where r: "r \<in> set rows" "fst rec = r_source r" "sample_order_of (snd rec) = Inr (r_order r)"
      "text_of fr (snd rec) key_ground_truth = r_ground_truth r"
      using record_order [OF cmp c rec] by blast
    obtain d where "map_of ref (r_source r) = Some d" "sample_order_of d = Inr (r_order r)"
      "text_of fr d key_ground_truth = r_ground_truth r"
      using record_of_row [OF cmp c0 r(1)] by (metis ref_def)
    then show ?thesis using r by (simp add: same_case_def)
  qed
  have "same_cases fr ref (loaded_run c) = Inr ()" if c: "c \<in> set cs" for c
  proof -
    have "mapE (same_case fr ref) (records_of (snd c)) = Inr (map (\<lambda>_. ()) (records_of (snd c)))"
      using case_ok [OF c] by (intro mapE_total) blast
    moreover have "fst ` set (records_of (snd c)) = fst ` set ref"
      using comparableD(8) [OF cmp c] comparableD(8) [OF cmp c0] by (simp add: ref_def)
    ultimately show ?thesis by (simp add: same_cases_def)
  qed
  then have "mapE (same_cases fr ref) (map loaded_run cs') = Inr (map (\<lambda>_. ()) (map loaded_run cs'))"
    by (intro mapE_total) (auto simp: cs)
  then show ?thesis
    using orders paths p by (auto simp: validate_runs_def cs ref_def)
qed

section \<open>The evaluation of finished checkpoints\<close>

lemma selected_inj: "selected_rows n rows \<Longrightarrow> inj_on r_order (set rows)"
  by (metis distinct_map distinct_upto selected_rows_def)

lemma comparable_ordered:
  assumes cmp: "comparable rows path cs" and c: "c \<in> set cs"
  shows "ordered_rows (loaded_run c) = Inr (map r_source rows)"
proof -
  note cc = comparableD [OF cmp c]
  let ?recs = "records_of (snd c)"
  define ord where "ord = (\<lambda>rec::int \<times> dict. (r_order (row_at rows (fst rec)), fst rec))"
  have row: "\<exists>r \<in> set rows. fst rec = r_source r \<and> sample_order_of (snd rec) = Inr (r_order r)
      \<and> row_at rows (fst rec) = r" if "rec \<in> set ?recs" for rec
    using record_order [OF cmp c that] row_at_source [OF cc(9)] by metis
  have "mapE (\<lambda>rec. bindE (sample_order_of (snd rec)) (\<lambda>k. Inr (k, fst rec))) ?recs = Inr (map ord ?recs)"
  proof (rule mapE_total, rule ballI)
    fix rec assume "rec \<in> set ?recs"
    then obtain r where "fst rec = r_source r" "sample_order_of (snd rec) = Inr (r_order r)" "row_at rows (fst rec) = r"
      using row by blast
    then show "bindE (sample_order_of (snd rec)) (\<lambda>k. Inr (k, fst rec)) = Inr (ord rec)" by (simp add: ord_def)
  qed
  moreover have "sort_key fst (map ord ?recs) = map (\<lambda>r. (r_order r, r_source r)) rows"
  proof (rule sort_key_inj_key_eq)
    have eq: "map ord ?recs = map (\<lambda>i. (r_order (row_at rows i), i)) (map fst ?recs)" by (simp add: ord_def)
    have "mset (map fst ?recs) = mset (map r_source rows)"
      using cc(7-9) by (metis mset_set_set set_map)
    then have "mset (map ord ?recs) = mset (map (\<lambda>i. (r_order (row_at rows i), i)) (map r_source rows))"
      unfolding eq by (metis mset_map)
    also have "map (\<lambda>i. (r_order (row_at rows i), i)) (map r_source rows) = map (\<lambda>r. (r_order r, r_source r)) rows"
      using row_at_source [OF cc(9)] by simp
    finally show m: "mset (map ord ?recs) = mset (map (\<lambda>r. (r_order r, r_source r)) rows)" .
    have "set (map ord ?recs) = (\<lambda>r. (r_order r, r_source r)) ` set rows"
      using m by (metis set_map set_mset_mset)
    then show "inj_on fst (set (map ord ?recs))"
      using selected_inj [OF cc(2)] by (auto simp: inj_on_def)
    have e: "map fst (map (\<lambda>r. (r_order r, r_source r)) rows) = map r_order rows" by simp
    show "sorted (map fst (map (\<lambda>r. (r_order r, r_source r)) rows))"
      unfolding e using cc(2) by (simp add: selected_rows_def sorted_wrt_upto)
  qed
  ultimately show ?thesis by (simp add: ordered_rows_def comp_def)
qed

text \<open>The dataset the rows come from: \<open>select\<close> gives the rows at valid indices (documented).\<close>

definition rows_of_dataset :: "eval_env \<Rightarrow> json list \<Rightarrow> eval_row list \<Rightarrow> bool" where
  "rows_of_dataset v data rows \<longleftrightarrow>
     (\<forall>is. (\<forall>i \<in> set is. 0 \<le> i \<and> i < v_rows v) \<longrightarrow> v_select v is = Inr (map (\<lambda>i. data ! nat i) is))
     \<and> (\<forall>r \<in> set rows. 0 \<le> r_source r \<and> r_source r < v_rows v \<and> data ! nat (r_source r) = JObj (r_row r)
          \<and> r_ground_truth r = json_text (v_fr v) (ground_truth_value (r_row r)))"

lemma comparable_dataset:
  assumes cmp: "comparable rows path cs" and c: "c \<in> set cs" and data: "rows_of_dataset v data rows"
  shows "check_dataset (v_fr v) (v_select v) (v_rows v) (loaded_run c) (map r_source rows) = Inr ()"
proof -
  have r: "0 \<le> r_source r \<and> r_source r < v_rows v \<and> data ! nat (r_source r) = JObj (r_row r)
      \<and> r_ground_truth r = json_text (v_fr v) (ground_truth_value (r_row r))" if "r \<in> set rows" for r
    using data that by (auto simp: rows_of_dataset_def)
  have "v_select v (map r_source rows) = Inr (map (\<lambda>i. data ! nat i) (map r_source rows))"
  proof -
    have "\<forall>i \<in> set (map r_source rows). 0 \<le> i \<and> i < v_rows v" using r by auto
    then show ?thesis using data unfolding rows_of_dataset_def by blast
  qed
  also have "map (\<lambda>i. data ! nat i) (map r_source rows) = map (\<lambda>r. JObj (r_row r)) rows"
    using r by simp
  finally have sel: "v_select v (map r_source rows) = Inr (map (\<lambda>r. JObj (r_row r)) rows)" .
  have z: "zip (map r_source rows) (map (\<lambda>r. JObj (r_row r)) rows) = map (\<lambda>r. (r_source r, JObj (r_row r))) rows"
    by (simp add: zip_map_map zip_same_conv_map)
  have "mapE (same_ground_truth (v_fr v) (loaded_run c)) (map (\<lambda>r. (r_source r, JObj (r_row r))) rows)
      = Inr (map (\<lambda>_. ()) (map (\<lambda>r. (r_source r, JObj (r_row r))) rows))"
  proof (rule mapE_total, rule ballI)
    fix x assume "x \<in> set (map (\<lambda>r. (r_source r, JObj (r_row r))) rows)"
    then obtain q where q: "q \<in> set rows" "x = (r_source q, JObj (r_row q))" by auto
    obtain d where d: "map_of (records_of (snd c)) (r_source q) = Some d"
      "dict_item d key_ground_truth = Inr (JStr (r_ground_truth q))"
      using record_of_row [OF cmp c q(1)] by metis
    show "same_ground_truth (v_fr v) (loaded_run c) x = Inr ()"
      using d r [OF q(1)] by (simp add: same_ground_truth_def q(2))
  qed
  moreover have "\<not> list_ex (\<lambda>i. v_rows v \<le> i) (map r_source rows)"
    using r by (fastforce simp: list_ex_iff)
  ultimately show ?thesis by (simp add: check_dataset_def sel z)
qed

text \<open>The job of a record, and all jobs.\<close>

lemma job_of_record:
  assumes cmp: "comparable rows path cs" and c: "c \<in> set cs" and r: "r \<in> set rows"
    and d: "map_of (records_of (snd c)) (r_source r) = Some d"
  shows "job_of fr (loaded_run c) (r_source r, d) =
    (if text_of fr d key_prediction \<noteq> [] \<and> text_of fr d key_error = []
     then Inr [\<lparr>job_run = loaded_run c, job_row = r_source r, job_prediction = text_of fr d key_prediction,
                 job_ground_truth = r_ground_truth r\<rparr>]
     else Inr [])"
proof -
  obtain d' p e where "map_of (records_of (snd c)) (r_source r) = Some d'"
    "dict_item d' key_ground_truth = Inr (JStr (r_ground_truth r))" "\<And>fr. text_of fr d' key_prediction = p"
    "\<And>fr. text_of fr d' key_error = e" "dict_get d' key_error = JStr e"
    using record_of_row [OF cmp c r] by metis
  then show ?thesis using d by (simp add: job_of_def Let_def)
qed

lemma run_jobs_total:
  assumes cmp: "comparable rows path cs" and c: "c \<in> set cs"
  shows "\<exists>jss. mapE (job_of fr (loaded_run c)) (records_of (snd c)) = Inr jss"
proof (rule mapE_ex, rule ballI)
  fix rec assume rec: "rec \<in> set (records_of (snd c))"
  obtain r where r: "r \<in> set rows" "fst rec = r_source r" "map_of (records_of (snd c)) (r_source r) = Some (snd rec)"
    using row_of_record [OF cmp c rec] by metis
  show "\<exists>y. job_of fr (loaded_run c) rec = Inr y"
    using job_of_record [OF cmp c r(1,3), of fr] r(2) by (cases rec) auto
qed

lemma jobs_total:
  assumes cmp: "comparable rows path cs"
  shows "\<exists>js. score_jobs fr (map loaded_run cs) = Inr js"
proof -
  have "\<forall>mr \<in> set (map loaded_run cs). \<exists>y. bindE (mapE (job_of fr mr) (run_records mr)) (\<lambda>js. Inr (concat js)) = Inr y"
    using run_jobs_total [OF cmp, of _ fr] by fastforce
  from mapE_ex [OF this] show ?thesis by (auto simp: score_jobs_def)
qed

lemma jobs_members:
  assumes "score_jobs fr runs = Inr js"
  shows "j \<in> set js \<longleftrightarrow> (\<exists>mr \<in> set runs. \<exists>rec \<in> set (run_records mr). \<exists>l. job_of fr mr rec = Inr l \<and> j \<in> set l)"
proof -
  obtain jss where jss: "mapE (\<lambda>mr. bindE (mapE (job_of fr mr) (run_records mr)) (\<lambda>js. Inr (concat js))) runs = Inr jss"
    and js: "js = concat jss"
    using assms by (auto simp: score_jobs_def)
  show ?thesis
  proof
    assume "j \<in> set js"
    then obtain l where l: "l \<in> set jss" "j \<in> set l" by (auto simp: js)
    then show "\<exists>mr \<in> set runs. \<exists>rec \<in> set (run_records mr). \<exists>l. job_of fr mr rec = Inr l \<and> j \<in> set l"
    proof -
      obtain mr where mr: "mr \<in> set runs" "bindE (mapE (job_of fr mr) (run_records mr)) (\<lambda>js. Inr (concat js)) = Inr l"
        using mapE_Inr_set [OF jss l(1)] by (rule bexE)
      then obtain ls where ls: "mapE (job_of fr mr) (run_records mr) = Inr ls" "l = concat ls" by auto
      then obtain k where k: "k \<in> set ls" "j \<in> set k" using l(2) by auto
      obtain rec where "rec \<in> set (run_records mr)" "job_of fr mr rec = Inr k"
        using mapE_Inr_set [OF ls(1) k(1)] by (rule bexE)
      then show ?thesis using mr(1) k(2) by (intro bexI [of _ mr] bexI [of _ rec] exI [of _ k] conjI)
    qed
  next
    assume "\<exists>mr \<in> set runs. \<exists>rec \<in> set (run_records mr). \<exists>l. job_of fr mr rec = Inr l \<and> j \<in> set l"
    then obtain mr rec l where m: "mr \<in> set runs" "rec \<in> set (run_records mr)" "job_of fr mr rec = Inr l" "j \<in> set l"
      by blast
    obtain y where y: "y \<in> set jss" "bindE (mapE (job_of fr mr) (run_records mr)) (\<lambda>js. Inr (concat js)) = Inr y"
      using mapE_all [OF jss m(1)] by (rule bexE)
    then obtain ls where ls: "mapE (job_of fr mr) (run_records mr) = Inr ls" "y = concat ls" by auto
    then have "l \<in> set ls" using mapE_all [OF ls(1) m(2)] m(3) by auto
    then have "j \<in> set y" using ls(2) m(4) by auto
    then show "j \<in> set js" using y(1) unfolding js set_concat by (rule UN_I [rotated])
  qed
qed

text \<open>The job a record with a usable prediction gives.\<close>

definition record_job :: "finished_run \<Rightarrow> eval_row \<Rightarrow> ustr \<Rightarrow> score_job" where
  "record_job c r p = \<lparr>job_run = loaded_run c, job_row = r_source r, job_prediction = p,
     job_ground_truth = r_ground_truth r\<rparr>"

text \<open>What the report must say of one model on one row: the recorded prediction and error, and the
  score of that prediction against the row's ground truth, if there is one to score.\<close>

definition says_record :: "eval_env \<Rightarrow> finished_run \<Rightarrow> eval_row \<Rightarrow> dict \<Rightarrow> bool" where
  "says_record v c r e \<longleftrightarrow>
     (\<exists>p err d. map_of (records_of (snd c)) (r_source r) = Some d \<and> checkpoint_payload (fst c) r p err = Inr d
        \<and> dict_get e (u ''prediction'') = JStr p \<and> dict_get e (u ''generation_error'') = JStr err
        \<and> dict_get e (u ''scores'') =
            (if p \<noteq> [] \<and> err = []
             then (case score_one (v_fr v) (v_solve v) (v_r4 v) (record_job c r p) of
                     Inr s \<Rightarrow> details_json s | Inl _ \<Rightarrow> JObj [])
             else JObj [])
        \<and> dict_get e (u ''evaluation_error'') =
            JStr (if p \<noteq> [] \<and> err = []
             then (case score_one (v_fr v) (v_solve v) (v_r4 v) (record_job c r p) of
                     Inr _ \<Rightarrow> [] | Inl x \<Rightarrow> v_exn_text v x)
             else []))"

lemma find_job:
  assumes cmp: "comparable rows path cs" and c: "c \<in> set cs" and r: "r \<in> set rows"
    and js: "score_jobs fr (map loaded_run cs) = Inr js"
    and d: "map_of (records_of (snd c)) (r_source r) = Some d"
  shows "find (\<lambda>j. job_key j = (model_id (loaded_run c), r_source r)) js =
    (if text_of fr d key_prediction \<noteq> [] \<and> text_of fr d key_error = []
     then Some (record_job c r (text_of fr d key_prediction)) else None)"
proof -
  let ?k = "(model_id (loaded_run c), r_source r)"
  note mem = jobs_members [OF js]
  have recs: "\<forall>mr \<in> set (map loaded_run cs). distinct (map fst (run_records mr))"
    using comparableD(7) [OF cmp] by auto
  have dk: "distinct (map job_key js)" using jobs_keys [OF js model_ids_distinct [OF cmp] recs] by simp
  have this_job: "job_of fr (loaded_run c) (r_source r, d) =
      (if text_of fr d key_prediction \<noteq> [] \<and> text_of fr d key_error = []
       then Inr [record_job c r (text_of fr d key_prediction)] else Inr [])"
    using job_of_record [OF cmp c r d, of fr] by (simp add: record_job_def)
  have only: "\<exists>l. job_of fr (loaded_run c) (r_source r, d) = Inr l \<and> j \<in> set l"
    if j: "j \<in> set js" "job_key j = ?k" for j
  proof -
    obtain mr rec l where m: "mr \<in> set (map loaded_run cs)" "rec \<in> set (run_records mr)" "job_of fr mr rec = Inr l" "j \<in> set l"
      using mem j(1) by blast
    obtain j' where "l = [j']" "job_key j' = (model_id mr, fst rec)" using job_of_key [OF m(3)] m(4) by auto
    then have k: "model_id mr = model_id (loaded_run c)" "fst rec = r_source r" using j(2) m(4) by auto
    obtain c' where c': "c' \<in> set cs" "mr = loaded_run c'" using m(1) by auto
    have "inj_on (model_id \<circ> loaded_run) (set cs)"
      using model_ids_distinct [OF cmp] by (simp add: distinct_map)
    then have "c' = c" by (rule inj_onD) (use k(1) c' c in simp_all)
    then have "mr = loaded_run c" using c'(2) by simp
    moreover have "rec = (r_source r, d)"
    proof -
      have "map_of (records_of (snd c)) (fst rec) = Some (snd rec)"
        using m(2) \<open>mr = loaded_run c\<close> comparableD(7) [OF cmp c] by (metis loaded_run_simps(4) map_of_is_SomeI prod.collapse)
      then show ?thesis using d k(2) by (cases rec) simp
    qed
    ultimately show ?thesis using m(3,4) by blast
  qed
  show ?thesis
  proof (cases "text_of fr d key_prediction \<noteq> [] \<and> text_of fr d key_error = []")
    case True
    define j where "j = record_job c r (text_of fr d key_prediction)"
    have "(r_source r, d) \<in> set (run_records (loaded_run c))" using map_of_SomeD [OF d] by simp
    moreover have "loaded_run c \<in> set (map loaded_run cs)" using c by simp
    moreover have "job_of fr (loaded_run c) (r_source r, d) = Inr [j]" using this_job True by (simp add: j_def)
    ultimately have j: "j \<in> set js" using mem [of j] by (metis list.set_intros(1))
    have k: "job_key j = ?k" by (simp add: j_def record_job_def job_key_def)
    have uniq: "j' = j" if "j' \<in> set js" "job_key j' = ?k" for j'
      using only [OF that] this_job True by (auto simp: j_def)
    obtain j' where f: "find (\<lambda>j. job_key j = ?k) js = Some j'"
      using j k by (cases "find (\<lambda>j. job_key j = ?k) js") (auto simp: find_None_iff)
    then have "j' \<in> set js" "job_key j' = ?k" by (auto simp: find_Some_iff)
    then have "j' = j" by (rule uniq)
    then show ?thesis using f True by (simp add: j_def)
  next
    case False
    have "find (\<lambda>j. job_key j = ?k) js = None"
      unfolding find_None_iff
    proof
      assume "\<exists>x. x \<in> set js \<and> job_key x = ?k"
      then obtain x where "x \<in> set js" "job_key x = ?k" by blast
      then obtain l where "job_of fr (loaded_run c) (r_source r, d) = Inr l" "x \<in> set l" using only by blast
      then show False using this_job False by (simp split: if_splits)
    qed
    then show ?thesis using False by simp
  qed
qed

lemma model_entry_says:
  assumes cmp: "comparable rows path cs" and c: "c \<in> set cs" and r: "r \<in> set rows"
    and js: "score_jobs (v_fr v) (map loaded_run cs) = Inr js"
  shows "\<exists>e. model_entry (v_fr v) (tables_of (v_exn_text v) (score_one (v_fr v) (v_solve v) (v_r4 v)) js)
      (r_source r) (loaded_run c) = Inr e \<and> says_record v c r e"
proof -
  obtain d p err where d: "map_of (records_of (snd c)) (r_source r) = Some d" "checkpoint_payload (fst c) r p err = Inr d"
    "\<And>fr. text_of fr d key_prediction = p" "\<And>fr. text_of fr d key_error = err"
    using record_of_row [OF cmp c r] by metis
  note f = find_job [OF cmp c r js d(1)]
  let ?t = "tables_of (v_exn_text v) (score_one (v_fr v) (v_solve v) (v_r4 v)) js"
  let ?k = "(model_id (loaded_run c), r_source r)"
  have s: "t_scores ?t ?k = (if p \<noteq> [] \<and> err = [] then
        (case score_one (v_fr v) (v_solve v) (v_r4 v) (record_job c r p) of Inr s \<Rightarrow> Some s | Inl _ \<Rightarrow> None) else None)"
    "t_errors ?t ?k = (if p \<noteq> [] \<and> err = [] then
        (case score_one (v_fr v) (v_solve v) (v_r4 v) (record_job c r p) of Inl x \<Rightarrow> Some (v_exn_text v x) | Inr _ \<Rightarrow> None) else None)"
    using f by (simp_all add: tables_of_def d(3,4))
  obtain e where e: "model_entry (v_fr v) ?t (r_source r) (loaded_run c) = Inr e"
    using d(1) by (simp add: model_entry_def)
  have "says_record v c r e"
    unfolding says_record_def
  proof (intro exI conjI)
    show "map_of (records_of (snd c)) (r_source r) = Some d" "checkpoint_payload (fst c) r p err = Inr d"
      by (fact d(1), fact d(2))
    have ee: "e = [(u ''name'', JStr (a_name (fst c))), (u ''mode'', JStr (a_mode (fst c))),
               (u ''backend'', JStr (run_backend (loaded_run c))), (u ''checkpoint'', JStr (filename_of (fst c))),
               (u ''prediction'', JStr p), (u ''generation_error'', JStr err),
               (u ''scores'', case t_scores ?t ?k of None \<Rightarrow> JObj [] | Some s \<Rightarrow> details_json s),
               (u ''evaluation_error'', JStr (case t_errors ?t ?k of None \<Rightarrow> [] | Some e \<Rightarrow> e))]"
      using e d(1) by (simp add: model_entry_def d(3,4))
    note keys = dict_get_def u_def
    show "dict_get e (u ''prediction'') = JStr p" "dict_get e (u ''generation_error'') = JStr err"
      by (simp_all add: ee keys)
    show "dict_get e (u ''scores'') = (if p \<noteq> [] \<and> err = []
             then (case score_one (v_fr v) (v_solve v) (v_r4 v) (record_job c r p) of
                     Inr s \<Rightarrow> details_json s | Inl _ \<Rightarrow> JObj []) else JObj [])"
      unfolding ee s by (simp add: keys split: sum.splits)
    show "dict_get e (u ''evaluation_error'') = JStr (if p \<noteq> [] \<and> err = []
             then (case score_one (v_fr v) (v_solve v) (v_r4 v) (record_job c r p) of
                     Inr _ \<Rightarrow> [] | Inl x \<Rightarrow> v_exn_text v x) else [])"
      unfolding ee s by (simp add: keys split: sum.splits)
  qed
  then show ?thesis using e by blast
qed

lemma fold_update_distinct:
  "distinct (map fst kvs) \<Longrightarrow> fst ` set kvs \<inter> fst ` set acc = {} \<Longrightarrow>
     fold (\<lambda>(k, v). AList.update k v) kvs acc = acc @ kvs"
proof (induction kvs arbitrary: acc)
  case (Cons kv kvs)
  obtain k v where kv: "kv = (k, v)" by (cases kv)
  have "k \<notin> fst ` set acc" using Cons.prems(2) kv by auto
  then have "AList.update k v acc = acc @ [(k, v)]" by (induction acc) auto
  then show ?case using Cons.IH [of "acc @ [(k, v)]"] Cons.prems kv by auto
qed simp

text \<open>One line of the report.\<close>

definition says_row :: "eval_env \<Rightarrow> finished_run list \<Rightarrow> eval_row \<Rightarrow> json \<Rightarrow> bool" where
  "says_row v cs r payload \<longleftrightarrow>
     (\<exists>models. payload = JObj [(key_source_row, JInt (r_source r)), (key_sample_order, JInt (r_order r)),
          (key_ground_truth, JStr (r_ground_truth r)), (u ''models'', JObj models)]
        \<and> map fst models = map (\<lambda>c. model_id (loaded_run c)) cs
        \<and> (\<forall>k < length cs. \<exists>e. snd (models ! k) = JObj e \<and> says_record v (cs ! k) r e))"

lemma result_says:
  assumes cmp: "comparable rows path cs" and r: "r \<in> set rows"
    and js: "score_jobs (v_fr v) (map loaded_run cs) = Inr js"
  shows "\<exists>payload. result_payload (v_fr v) (tables_of (v_exn_text v) (score_one (v_fr v) (v_solve v) (v_r4 v)) js)
      (map loaded_run cs) (r_source r) = Inr payload \<and> says_row v cs r payload"
proof -
  let ?t = "tables_of (v_exn_text v) (score_one (v_fr v) (v_solve v) (v_r4 v)) js"
  obtain c0 cs' where cs: "cs = c0 # cs'" using cmp by (cases cs) (auto simp: comparable_def)
  obtain first where first: "map_of (records_of (snd c0)) (r_source r) = Some first" "sample_order_of first = Inr (r_order r)"
    "dict_item first key_ground_truth = Inr (JStr (r_ground_truth r))"
    using record_of_row [OF cmp _ r, of c0] cs by (metis list.set_intros(1))
  let ?f = "\<lambda>mr. bindE (model_entry (v_fr v) ?t (r_source r) mr) (\<lambda>e. Inr (model_id mr, JObj e))"
  define entry where "entry = (\<lambda>c. SOME e. model_entry (v_fr v) ?t (r_source r) (loaded_run c) = Inr e \<and> says_record v c r e)"
  have entry: "model_entry (v_fr v) ?t (r_source r) (loaded_run c) = Inr (entry c) \<and> says_record v c r (entry c)"
    if "c \<in> set cs" for c
    unfolding entry_def by (rule someI_ex) (rule model_entry_says [OF cmp that r js])
  define models where "models = map (\<lambda>c. (model_id (loaded_run c), JObj (entry c))) cs"
  have "mapE (?f \<circ> loaded_run) cs = Inr models"
    unfolding models_def by (rule mapE_total) (simp add: entry)
  then have "mapE ?f (map loaded_run cs) = Inr models" by (simp add: mapE_comp)
  moreover have "distinct (map fst models)"
    using model_ids_distinct [OF cmp] by (simp add: models_def comp_def)
  ultimately have "result_payload (v_fr v) ?t (map loaded_run cs) (r_source r) = Inr (JObj [(key_source_row, JInt (r_source r)),
      (key_sample_order, JInt (r_order r)), (key_ground_truth, JStr (r_ground_truth r)), (u ''models'', JObj models)])"
    using first fold_update_distinct [of models "[]"] by (simp add: result_payload_def cs)
  moreover have "says_row v cs r (JObj [(key_source_row, JInt (r_source r)),
      (key_sample_order, JInt (r_order r)), (key_ground_truth, JStr (r_ground_truth r)), (u ''models'', JObj models)])"
    unfolding says_row_def using entry by (intro exI [of _ models]) (simp add: models_def)
  ultimately show ?thesis by blast
qed

text \<open>C4: Whatever complete checkpoints of one selection are evaluated together, under different names and
  whatever the order in which the scores arrive: the evaluation accepts them and writes one line per
  selected row, in the order of the selection, and each line says of each model the recorded prediction
  and error and the score of exactly that prediction against the row's ground truth.\<close>

theorem evaluation_of_finished_runs:
  assumes cmp: "comparable rows path cs" and data: "rows_of_dataset v data rows"
    and found: "v_is_parquet v (v_resolve v path)" and server: "v_server v = Inr ()"
    and order: "\<forall>js. mset (v_order v js) = mset js"
  shows "\<exists>payloads. evaluate v None (eval_files cs) = Inr (map (dumps_json (v_fr v)) payloads)
    \<and> length payloads = length rows \<and> (\<forall>k < length rows. says_row v cs (rows ! k) (payloads ! k))"
proof -
  let ?score = "score_one (v_fr v) (v_solve v) (v_r4 v)"
  obtain c0 cs' where cs: "cs = c0 # cs'" using cmp by (cases cs) (auto simp: comparable_def)
  then have c0: "c0 \<in> set cs" "hd (map loaded_run cs) = loaded_run c0" by simp_all
  obtain js where js: "score_jobs (v_fr v) (map loaded_run cs) = Inr js" using jobs_total [OF cmp] by blast
  have recs: "\<forall>mr \<in> set (map loaded_run cs). distinct (map fst (run_records mr))"
    using comparableD(7) [OF cmp] by auto
  define t where "t = tables_of (v_exn_text v) ?score js"
  have t: "score_runs (v_fr v) (v_exn_text v) ?score (v_order v) (map loaded_run cs) = Inr t"
    using fold_store_tables [of js "v_order v js"] jobs_keys [OF js model_ids_distinct [OF cmp] recs] js order
    by (simp add: score_runs_def t_def)
  define payload where "payload = (\<lambda>r. SOME p. result_payload (v_fr v) t (map loaded_run cs) (r_source r) = Inr p
      \<and> says_row v cs r p)"
  have payload: "result_payload (v_fr v) t (map loaded_run cs) (r_source r) = Inr (payload r) \<and> says_row v cs r (payload r)"
    if "r \<in> set rows" for r
    unfolding payload_def by (rule someI_ex) (use result_says [OF cmp that js] in \<open>simp add: t_def\<close>)
  have "mapE (result_payload (v_fr v) t (map loaded_run cs) \<circ> r_source) rows = Inr (map payload rows)"
    by (rule mapE_total) (simp add: payload)
  then have p: "mapE (result_payload (v_fr v) t (map loaded_run cs)) (map r_source rows) = Inr (map payload rows)"
    by (simp only: mapE_comp)
  have "evaluate v None (eval_files cs) = Inr (map (dumps_json (v_fr v)) (map payload rows))"
    using eval_files_load [OF cmp] comparable_validates [where is_parquet = "v_is_parquet v" and resolve = "v_resolve v", OF cmp found] t p comparable_ordered [OF cmp c0(1)]
      comparable_dataset [OF cmp c0(1) data]
    by (simp add: evaluate_def server c0(2) del: map_map)
  then show ?thesis using payload by (intro exI [of _ "map payload rows"]) simp
qed

lemma left_comparable:
  assumes "left_by_runs a rows fl" and "covers rows fl" and "load_rows e a = Inr (rows, n)" and "samples (e_sample e)"
    and "0 < a_num_samples a"
  shows "finished a rows fl \<and> selected_rows (a_num_samples a) rows"
  using assms(2,5) left_own [OF assms(1)] load_rows_props(1,2) [OF assms(3-5)]
  by (simp add: finished_def selected_rows_def)

definition demo_eval :: eval_env where
  "demo_eval = \<lparr>v_fr = sample_fr, v_exn_text = (\<lambda>_. u ''E''), v_resolve = (\<lambda>p. p), v_is_parquet = (\<lambda>p. p = u ''d''),
     v_solve = brute_assignment, v_r4 = (\<lambda>_ _. Inr (Fin 0)), v_server = Inr (), v_order = rev,
     v_select = (\<lambda>is. Inr (map (\<lambda>i. d_rows demo_data ! nat i) is)), v_rows = 2\<rparr>"

theorem evaluation_of_finished_runs_witness:
  "\<exists>payloads. evaluate demo_eval None [(u ''local__n.jsonl'', demo_file (Fin (1 / 100)))]
      = Inr (map (dumps_json sample_fr) payloads) \<and> length payloads = 2
    \<and> says_row demo_eval [(demo_args (Fin (1 / 100)), demo_file (Fin (1 / 100)))] (demo_rows ! 0) (payloads ! 0)"
proof -
  let ?t = "Fin (1 / 100)"
  let ?cs = "[(demo_args ?t, demo_file ?t)]"
  have f: "checkpoint_filename (a_mode (demo_args ?t)) (a_name (demo_args ?t)) = Inr (u ''local__n.jsonl'')"
    by code_simp
  then have files: "eval_files ?cs = [(u ''local__n.jsonl'', demo_file ?t)]"
    by (simp add: eval_files_def filename_of_def)
  have "finished (demo_args ?t) demo_rows (demo_file ?t) \<and> selected_rows (a_num_samples (demo_args ?t)) demo_rows"
    by (rule left_comparable [OF demo_file_left demo_covers demo_loads [of "Inr ()"]])
      (simp_all add: demo_env_def demo_args_def sample_first_samples)
  then have cmp: "comparable demo_rows (u ''d'') ?cs"
    using f by (simp add: comparable_def) (simp add: demo_args_def)
  have data: "rows_of_dataset demo_eval (d_rows demo_data) demo_rows"
    by (auto simp: rows_of_dataset_def demo_eval_def demo_data_def demo_rows_def ground_truth_value_def dict_get_def
        json_text_def key_gts_def key_ground_truth_def u_def)
  have "v_is_parquet demo_eval (v_resolve demo_eval (u ''d''))" "v_server demo_eval = Inr ()"
    "\<forall>js. mset (v_order demo_eval js) = mset js"
    by (simp_all add: demo_eval_def)
  from evaluation_of_finished_runs [OF cmp data this] obtain payloads where
    p: "evaluate demo_eval None (eval_files ?cs) = Inr (map (dumps_json (v_fr demo_eval)) payloads)"
      "length payloads = length demo_rows" "\<forall>k < length demo_rows. says_row demo_eval ?cs (demo_rows ! k) (payloads ! k)"
    by blast
  have l: "length demo_rows = 2" and fr: "v_fr demo_eval = sample_fr" by (simp_all add: demo_rows_def demo_eval_def)
  show ?thesis using p unfolding files l fr by (intro exI [of _ payloads]) simp
qed

end
