(* ===== verification/PromptKey.thy ===== *)
theory PromptKey
  imports Checkpoint
begin

text \<open>
  The trace-back of a dumped prompt to the row it came from, which \<^verbatim>\<open>plot_val_trends.py\<close> and
  \<^verbatim>\<open>annotate_val_cases.py\<close> share: the texts inside a prompt value, the key two renderings of a
  prompt have in common, the index of the source rows by key, and the search in it. The three
  regular expressions of \<open>prompt_key\<close> are scanners here; the tokens are literals.
\<close>

section \<open>The text of a prompt value\<close>

definition key_content :: ustr where "key_content = u ''content''"
definition key_messages :: ustr where "key_messages = u ''messages''"

function text_parts :: "json \<Rightarrow> ustr list" where
  "text_parts (JStr s) = [s]"
| "text_parts (JObj d) =
     (case dict_get d key_text of
        JStr t \<Rightarrow> [t]
      | _ \<Rightarrow> concat (map (\<lambda>k. case map_of d k of None \<Rightarrow> [] | Some v \<Rightarrow> text_parts v)
               [key_content, key_prompt, key_messages]))"
| "text_parts (JArr vs) = concat (map text_parts vs)"
| "text_parts JNull = []"
| "text_parts (JBool b) = []"
| "text_parts (JInt i) = []"
| "text_parts (JFloat f) = []"
  by pat_completeness auto
termination
  by (relation "measure size") (auto dest: map_of_size simp: less_Suc_eq_le size_list_estimation')

section \<open>Role lines\<close>

definition role_names :: "ustr list" where
  "role_names = map u [''system'', ''user'', ''assistant'']"

text \<open>The rest of the text after the first of the literals that starts it.\<close>

definition after_first :: "ustr list \<Rightarrow> ustr \<Rightarrow> ustr option" where
  "after_first lits s =
     (case find (\<lambda>p. starts_with p s) lits of None \<Rightarrow> None | Some p \<Rightarrow> Some (drop (length p) s))"

text \<open>\<open>\s*$\<close> in a multi-line expression: to the end, or to the last line end of the spaces. Also
  whether what is left starts a line.\<close>

definition line_end :: "ustr \<Rightarrow> (bool \<times> ustr) option" where
  "line_end s =
     (let ws = takeWhile is_space s; k = length ws - 1 - length (takeWhile (\<lambda>c. c \<noteq> 10) (rev ws))
      in if ws = s then Some (False, [])
         else if 10 \<in> set ws then Some (0 < k \<and> ws ! (k - 1) = 10, drop k s)
         else None)"

definition role_line :: "ustr \<Rightarrow> (bool \<times> ustr) option" where
  "role_line s =
     (case after_first role_names (dropWhile is_space s) of None \<Rightarrow> None | Some r \<Rightarrow> line_end r)"

lemma after_first_length: "after_first lits s = Some r \<Longrightarrow> length r \<le> length s"
  by (auto simp: after_first_def split: option.splits)

lemma after_first_shorter: "after_first lits s = Some r \<Longrightarrow> [] \<notin> set lits \<Longrightarrow> length r < length s"
proof -
  assume a: "after_first lits s = Some r" and n: "[] \<notin> set lits"
  from a obtain p where p: "find (\<lambda>p. starts_with p s) lits = Some p" "r = drop (length p) s"
    by (auto simp: after_first_def split: option.splits)
  from p(1) have "p \<in> set lits" "starts_with p s"
    by (auto simp: find_Some_iff)
  with n p(2) show ?thesis by (cases p) (auto simp: starts_with_append)
qed

lemma line_end_length: "line_end s = Some (b, r) \<Longrightarrow> length r \<le> length s"
  by (auto simp: line_end_def Let_def split: if_splits)

lemma role_names_nonempty: "[] \<notin> set role_names"
  by (simp add: role_names_def u_def)

lemma role_line_length: "role_line s = Some (b, r) \<Longrightarrow> length r < length s"
proof -
  assume "role_line s = Some (b, r)"
  then obtain t where "after_first role_names (dropWhile is_space s) = Some t" "line_end t = Some (b, r)"
    by (auto simp: role_line_def split: option.splits)
  then show ?thesis
    using after_first_shorter [OF _ role_names_nonempty] line_end_length length_dropWhile_le
    by (meson le_less_trans less_le_trans)
qed

function drop_role_lines :: "bool \<Rightarrow> ustr \<Rightarrow> ustr" where
  "drop_role_lines line_start [] = []"
| "drop_role_lines line_start (c # cs) =
     (case if line_start then role_line (c # cs) else None of
        Some (b, r) \<Rightarrow> drop_role_lines b r
      | None \<Rightarrow> c # drop_role_lines (c = 10) cs)"
  by pat_completeness auto
termination
  by (relation "measure (\<lambda>(b, s). length s)") (auto split: if_splits dest: role_line_length)

section \<open>Template tokens\<close>

text \<open>A character under \<open>IGNORECASE\<close>, against a lower-case literal: the long s, the dotless and the
  dotted i and the Kelvin sign count as s, i and k.\<close>

definition same_letter :: "int \<Rightarrow> int \<Rightarrow> bool" where
  "same_letter p c \<longleftrightarrow> lower_cp c = p \<or> (p = 115 \<and> c = 383) \<or> (p = 105 \<and> c \<in> {304, 305})
     \<or> (p = 107 \<and> c = 8490)"

definition starts_ci :: "ustr \<Rightarrow> ustr \<Rightarrow> bool" where
  "starts_ci p s \<longleftrightarrow> length p \<le> length s \<and> list_all2 same_letter p (take (length p) s)"

definition im_start :: ustr where "im_start = u ''<|im_start|>''"

definition drop_role :: "ustr \<Rightarrow> ustr" where
  "drop_role s = (case find (\<lambda>p. starts_ci p s) role_names of None \<Rightarrow> s | Some p \<Rightarrow> drop (length p) s)"

lemma drop_role_length: "length (drop_role s) \<le> length s"
  by (auto simp: drop_role_def split: option.splits)

function drop_im_start :: "ustr \<Rightarrow> ustr" where
  "drop_im_start [] = []"
| "drop_im_start (c # cs) =
     (if starts_ci im_start (c # cs)
      then drop_im_start (drop_role (dropWhile is_space (drop (length im_start) (c # cs))))
      else c # drop_im_start cs)"
  by pat_completeness auto
termination
proof (relation "measure length", simp, goal_cases)
  case (1 c cs)
  have "length (drop_role (dropWhile is_space (drop (length im_start) (c # cs)))) \<le> length cs"
    using drop_role_length length_dropWhile_le
    by (rule order_trans [OF _ order_trans]) (simp add: im_start_def u_def)
  then show ?case by simp
qed simp

definition template_tokens :: "ustr list" where
  "template_tokens = map u [''<|im_start|>'', ''<|im_end|>'', ''<|vision_start|>'', ''<|vision_end|>'',
     ''<|image_pad|>'', ''<|eot_id|>'', ''<|endoftext|>'', ''<|end|>'', ''<|assistant|>'', ''<|user|>'',
     ''<|system|>'', ''<image>'', ''[image]'']"

lemma template_tokens_nonempty: "p \<in> set template_tokens \<Longrightarrow> 0 < length p"
  by (auto simp: template_tokens_def u_def)

function drop_tokens :: "ustr \<Rightarrow> ustr" where
  "drop_tokens [] = []"
| "drop_tokens (c # cs) =
     (case find (\<lambda>p. starts_ci p (c # cs)) template_tokens of
        Some p \<Rightarrow> drop_tokens (drop (length p) (c # cs))
      | None \<Rightarrow> if is_space c then drop_tokens cs else c # drop_tokens cs)"
  by pat_completeness auto
termination
  by (relation "measure length")
     (auto simp: find_Some_iff dest!: template_tokens_nonempty [OF nth_mem])

definition prompt_key :: "json \<Rightarrow> ustr" where
  "prompt_key value =
     drop_tokens (drop_im_start (drop_role_lines True (py_lower (py_strip (py_join [10] (text_parts value))))))"

section \<open>The index\<close>

text \<open>\<open>by_key\<close>, a \<open>defaultdict(list)\<close> in insertion order, and \<open>keys_by_length\<close>.\<close>

definition add_entry :: "('e \<Rightarrow> ustr) \<Rightarrow> 'e \<Rightarrow> (ustr \<times> 'e list) list \<Rightarrow> (ustr \<times> 'e list) list" where
  "add_entry key e ix =
     AList.update (key e) ((case map_of ix (key e) of None \<Rightarrow> [] | Some es \<Rightarrow> es) @ [e]) ix"

definition group_by_key :: "('e \<Rightarrow> ustr) \<Rightarrow> 'e list \<Rightarrow> (ustr \<times> 'e list) list" where
  "group_by_key key es = fold (add_entry key) es []"

definition keys_by_length :: "(ustr \<times> 'e list) list \<Rightarrow> ustr list" where
  "keys_by_length by_key = sort_key (\<lambda>k. - int (length k)) (map fst by_key)"

definition entries_at :: "(ustr \<times> 'e list) list \<Rightarrow> ustr \<Rightarrow> 'e list" where
  "entries_at by_key key = (case map_of by_key key of None \<Rightarrow> [] | Some es \<Rightarrow> es)"

definition find_candidates :: "(ustr \<times> 'e list) list \<Rightarrow> ustr list \<Rightarrow> ustr \<Rightarrow> 'e list" where
  "find_candidates by_key keys key =
     (if entries_at by_key key = [] \<and> key \<noteq> []
      then (case find (\<lambda>k. 24 \<le> length k \<and> contains k key) keys of
              None \<Rightarrow> [] | Some k \<Rightarrow> entries_at by_key k)
      else entries_at by_key key)"

definition narrow :: "('e \<Rightarrow> ustr) \<Rightarrow> ustr \<Rightarrow> 'e list \<Rightarrow> 'e list" where
  "narrow gt_of gt candidates =
     (if gt \<noteq> [] \<and> 1 < length candidates
      then (let same_gt = filter (\<lambda>e. gt_of e = gt) candidates
            in if same_gt \<noteq> [] then same_gt else candidates)
      else candidates)"

section \<open>Facts about the key\<close>

lemma drop_tokens_no_space: "c \<in> set (drop_tokens s) \<Longrightarrow> \<not> is_space c"
  by (induction s rule: drop_tokens.induct) (auto split: option.splits if_splits)

lemma prompt_key_no_space: "c \<in> set (prompt_key v) \<Longrightarrow> \<not> is_space c"
  unfolding prompt_key_def by (rule drop_tokens_no_space)

definition token_char :: "int \<Rightarrow> bool" where
  "token_char q \<longleftrightarrow> q \<in> {60, 62, 91, 93, 95, 124} \<or> (97 \<le> q \<and> q \<le> 122)"

lemma space_lower: "is_space c \<Longrightarrow> lower_cp c = c"
  by (auto simp: is_space_def lower_cp_def)

lemma space_no_token: "is_space c \<Longrightarrow> \<not> token_char c \<and> c \<noteq> 383 \<and> c \<noteq> 304 \<and> c \<noteq> 305 \<and> c \<noteq> 8490"
  unfolding is_space_def token_char_def by force

lemma token_char_no_space: "token_char q \<Longrightarrow> is_space c \<Longrightarrow> \<not> same_letter q c"
  using space_no_token [of c] space_lower [of c] by (auto simp: same_letter_def)

lemma token_chars: "list_all (list_all token_char) (im_start # template_tokens @ role_names)"
  by code_simp

lemma tokens_have_no_space:
  assumes "p \<in> set template_tokens \<or> p = im_start \<or> p \<in> set role_names" and "is_space c"
  shows "list_all (\<lambda>q. \<not> same_letter q c) p"
proof -
  have "list_all token_char p" using token_chars assms(1) by (auto simp: list_all_iff)
  then show ?thesis using token_char_no_space [OF _ assms(2)] by (auto elim!: list.pred_mono_strong)
qed

lemma space_starts_nothing:
  assumes "is_space c"
  shows "find (\<lambda>p. starts_ci p (c # cs)) template_tokens = None"
proof -
  have "\<not> starts_ci p (c # cs)" if p: "p \<in> set template_tokens" for p
  proof -
    obtain q ps where "p = q # ps" using template_tokens_nonempty [OF p] by (cases p) auto
    then show ?thesis using tokens_have_no_space [OF disjI1 [OF p] assms] by (simp add: starts_ci_def)
  qed
  then show ?thesis by (simp add: find_None_iff)
qed

lemma drop_tokens_space [simp]: "is_space c \<Longrightarrow> drop_tokens (c # cs) = drop_tokens cs"
  by (simp add: space_starts_nothing)

lemma starts_ci_append:
  assumes "is_space x" and p: "p \<in> set template_tokens \<or> p = im_start \<or> p \<in> set role_names"
  shows "starts_ci p (s @ x # t) = starts_ci p s"
proof (cases "length p \<le> length s")
  case False
  have "\<not> list_all2 same_letter p (take (length p) (s @ x # t))"
  proof
    assume l: "list_all2 same_letter p (take (length p) (s @ x # t))"
    have "same_letter (p ! length s) (take (length p) (s @ x # t) ! length s)"
      using False by (intro list_all2_nthD [OF l]) simp
    then have "same_letter (p ! length s) x" using False by (simp add: nth_append take_Cons')
    then show False using tokens_have_no_space [OF p assms(1)] False by (simp add: list_all_length)
  qed
  then show ?thesis using False by (simp add: starts_ci_def)
qed (simp add: starts_ci_def)

lemma starts_ci_drop: "starts_ci p s \<Longrightarrow> drop (length p) (s @ t) = drop (length p) s @ t"
  by (simp add: starts_ci_def)

lemmas token_over_space = starts_ci_append

lemma find_token_append:
  "is_space x \<Longrightarrow> find (\<lambda>p. starts_ci p (s @ x # t)) template_tokens = find (\<lambda>p. starts_ci p s) template_tokens"
  by (rule find_cong) (auto simp: token_over_space)

lemma drop_tokens_append_space: "is_space x \<Longrightarrow> drop_tokens (s @ [x]) = drop_tokens s"
proof (induction s rule: drop_tokens.induct)
  case 1
  then show ?case by (simp only: append_Nil drop_tokens_space)
next
  case (2 c cs)
  have f: "find (\<lambda>p. starts_ci p ((c # cs) @ [x])) template_tokens = find (\<lambda>p. starts_ci p (c # cs)) template_tokens"
    using 2(4) by (rule find_token_append)
  show ?case
  proof (cases "find (\<lambda>p. starts_ci p (c # cs)) template_tokens")
    case None
    then show ?thesis using 2 f by auto
  next
    case (Some p)
    then have "starts_ci p (c # cs)" by (auto simp: find_Some_iff)
    then have "drop (length p) ((c # cs) @ [x]) = drop (length p) (c # cs) @ [x]" by (rule starts_ci_drop)
    then show ?thesis using Some f 2(3) [OF Some 2(4)] by simp
  qed
qed

lemma drop_im_start_append_space:
  assumes "is_space x"
  shows "\<exists>w. drop_im_start (s @ [x]) = drop_im_start s @ w \<and> (w = [] \<or> w = [x])"
proof (induction s rule: drop_im_start.induct)
  case 1
  have "\<not> starts_ci im_start [x]" by (simp add: starts_ci_def im_start_def u_def)
  then show ?case by simp
next
  case (2 c cs)
  have f: "starts_ci im_start ((c # cs) @ [x]) = starts_ci im_start (c # cs)"
    using assms by (rule token_over_space) simp
  show ?case
  proof (cases "starts_ci im_start (c # cs)")
    case True
    let ?d = "drop (length im_start) (c # cs)"
    have l: "drop (length im_start) ((c # cs) @ [x]) = ?d @ [x]"
      using True by (rule starts_ci_drop)
    show ?thesis
    proof (cases "\<exists>a \<in> set ?d. \<not> is_space a")
      case True': True
      then have w: "dropWhile is_space (?d @ [x]) = dropWhile is_space ?d @ [x]"
        by (auto simp: dropWhile_append)
      have r: "find (\<lambda>p. starts_ci p (t @ [x])) role_names = find (\<lambda>p. starts_ci p t) role_names" for t
        by (rule find_cong) (auto simp: token_over_space assms)
      have dr: "drop_role (t @ [x]) = drop_role t @ [x]" for t
      proof (cases "find (\<lambda>p. starts_ci p t) role_names")
        case (Some p)
        then have "starts_ci p t" by (auto simp: find_Some_iff)
        then show ?thesis using Some by (simp only: drop_role_def r option.case starts_ci_drop)
      qed (simp add: drop_role_def r)
      show ?thesis using 2(1) [OF True] True f l w dr by simp
    next
      case False
      then have "dropWhile is_space (?d @ [x]) = []" "dropWhile is_space ?d = []"
        using assms by (auto simp: dropWhile_eq_Nil_conv)
      moreover have "drop_role [] = []" by code_simp
      ultimately show ?thesis using True f l by (simp del: dropWhile_eq_Nil_conv)
    qed
  next
    case False
    then show ?thesis using 2(2) [OF False] f by auto
  qed
qed

section \<open>Chat renderings of a prompt\<close>

lemma last_no_space: "s \<noteq> [] \<Longrightarrow> \<not> is_space (last s) \<Longrightarrow> \<exists>a \<in> set s. \<not> is_space a"
  by (meson last_in_set)

lemma after_role_append:
  "after_first role_names (s @ 10 # t) = map_option (\<lambda>r. r @ 10 # t) (after_first role_names s)"
proof -
  have s: "starts_with p (s @ 10 # t) = starts_with p s \<and> (starts_with p s \<longrightarrow> length p \<le> length s)"
    if p: "p \<in> set role_names" for p
  proof (cases "length p \<le> length s")
    case False
    have n: "10 \<notin> set p" using p by (auto simp: role_names_def u_def)
    have "take (length p) (s @ 10 # t) \<noteq> p"
    proof
      assume "take (length p) (s @ 10 # t) = p"
      moreover have "10 \<in> set (take (length p) (s @ 10 # t))" using False by (auto simp: take_Cons')
      ultimately show False using n by metis
    qed
    moreover have "take (length p) s \<noteq> p" using False by (metis length_take min_def nat_le_linear)
    ultimately show ?thesis by (simp only: starts_with_def) simp
  qed (simp add: starts_with_def)
  have f: "find (\<lambda>p. starts_with p (s @ 10 # t)) role_names = find (\<lambda>p. starts_with p s) role_names"
    by (rule find_cong) (auto simp: s)
  have "length p \<le> length s" if "find (\<lambda>p. starts_with p s) role_names = Some p" for p
    using that s by (auto simp: find_Some_iff)
  then show ?thesis by (auto simp: after_first_def f split: option.splits)
qed

lemma line_end_append:
  assumes "r = [] \<or> \<not> is_space (last r)" and "t \<noteq> []" and "\<not> is_space (hd t)"
  shows "line_end (r @ 10 # t) = map_option (\<lambda>(b, x). (b, x @ 10 # t)) (line_end r)"
proof (cases "r = []")
  case True
  have "takeWhile is_space (10 # t) = [10]"
    using assms by (cases t) (auto simp: is_space_def)
  then show ?thesis using True assms by (cases t) (simp_all add: line_end_def)
next
  case False
  then obtain a where a: "a \<in> set r" "\<not> is_space a" using assms(1) last_no_space by blast
  then have w: "takeWhile is_space (r @ 10 # t) = takeWhile is_space r"
    by (rule takeWhile_append1)
  have n: "takeWhile is_space r \<noteq> r" "takeWhile is_space r \<noteq> r @ 10 # t"
    using a by (metis set_takeWhileD, metis Un_iff set_append set_takeWhileD)
  have "length (takeWhile is_space r) \<le> length r" by (rule length_takeWhile_le)
  then show ?thesis using n by (simp add: line_end_def w Let_def del: takeWhile_eq_all_conv)
qed

lemma after_role_suffix: "after_first ps s = Some r \<Longrightarrow> \<exists>p. s = p @ r"
  by (auto simp: after_first_def split: option.splits) (metis append_take_drop_id)

lemma line_end_suffix: "line_end r = Some (b, x) \<Longrightarrow> \<exists>p. r = p @ x"
  by (auto simp: line_end_def Let_def split: if_splits) (metis append_take_drop_id)+

lemma role_line_append:
  assumes "s \<noteq> []" and "\<not> is_space (last s)" and "t \<noteq> []" and "\<not> is_space (hd t)"
  shows "role_line (s @ 10 # t) = map_option (\<lambda>(b, x). (b, x @ 10 # t)) (role_line s)"
proof -
  let ?s = "dropWhile is_space s"
  have d: "dropWhile is_space (s @ 10 # t) = ?s @ 10 # t"
    using last_no_space [OF assms(1,2)] by (auto simp: dropWhile_append)
  obtain p where p: "s = p @ ?s" by (metis takeWhile_dropWhile_id)
  show ?thesis
  proof (cases "after_first role_names ?s")
    case (Some r)
    obtain q where "?s = q @ r" using after_role_suffix [OF Some] by blast
    then have "r = [] \<or> \<not> is_space (last r)" using p assms(2) by (metis append_assoc last_appendR)
    then show ?thesis using Some by (simp add: role_line_def d after_role_append line_end_append assms)
  qed (simp add: role_line_def d after_role_append)
qed

lemma role_line_suffix: "role_line s = Some (b, x) \<Longrightarrow> \<exists>p. s = p @ x"
proof -
  assume "role_line s = Some (b, x)"
  then obtain r where r: "after_first role_names (dropWhile is_space s) = Some r" "line_end r = Some (b, x)"
    by (auto simp: role_line_def split: option.splits)
  then show ?thesis
    using after_role_suffix line_end_suffix by (metis append_assoc takeWhile_dropWhile_id)
qed

lemma line_end_nil: "line_end s = Some (b, []) \<Longrightarrow> \<not> b"
proof -
  assume l: "line_end s = Some (b, [])"
  let ?ws = "takeWhile is_space s"
  show "\<not> b"
  proof (cases "?ws = s")
    case False
    then have "10 \<in> set ?ws" and "drop (length ?ws - 1 - length (takeWhile (\<lambda>c. c \<noteq> 10) (rev ?ws))) s = []"
      using l by (auto simp: line_end_def Let_def split: if_splits)
    moreover from this(1) have "0 < length ?ws" by (metis length_pos_if_in_set)
    ultimately have "length s \<le> length ?ws - 1" by simp
    then show ?thesis using \<open>0 < length ?ws\<close> length_takeWhile_le [of is_space s] by linarith
  qed (use l in \<open>simp add: line_end_def\<close>)
qed

lemma role_line_nil_flag: "role_line s = Some (b, []) \<Longrightarrow> \<not> b"
  by (auto simp: role_line_def dest: line_end_nil split: option.splits)

lemma drop_role_lines_append:
  assumes "t \<noteq> []" and "\<not> is_space (hd t)"
  shows "(s = [] \<longrightarrow> \<not> b) \<Longrightarrow> (s \<noteq> [] \<longrightarrow> \<not> is_space (last s)) \<Longrightarrow>
    drop_role_lines b (s @ 10 # t) = drop_role_lines b s @ 10 # drop_role_lines True t"
proof (induction b s rule: drop_role_lines.induct)
  case (2 b c cs)
  have last: "\<not> is_space (last (c # cs))" using 2(4) by simp
  note app = role_line_append [OF _ last assms, simplified]
  show ?case
  proof (cases "if b then role_line (c # cs) else None")
    case None
    have n: "(if b then role_line (c # cs @ 10 # t) else None) = None"
      using None app by (auto split: if_splits)
    have c: "cs = [] \<Longrightarrow> c \<noteq> 10" using last by (auto simp: is_space_def)
    have "drop_role_lines (c = 10) (cs @ 10 # t) = drop_role_lines (c = 10) cs @ 10 # drop_role_lines True t"
      using 2(1) [OF None] c last by (auto split: if_splits)
    then show ?thesis using None n by simp
  next
    case (Some y)
    obtain f r where y: "y = (f, r)" by (cases y)
    from Some y have b: "b" and rl: "role_line (c # cs) = Some (f, r)" by (auto split: if_splits)
    obtain p where "c # cs = p @ r" using role_line_suffix [OF rl] by blast
    then have "r \<noteq> [] \<Longrightarrow> \<not> is_space (last r)" using last by (metis last_appendR)
    moreover have "r = [] \<longrightarrow> \<not> f" using role_line_nil_flag rl by blast
    ultimately have "drop_role_lines f (r @ 10 # t) = drop_role_lines f r @ 10 # drop_role_lines True t"
      using 2(2) [OF Some y [symmetric]] by simp
    then show ?thesis using b rl app by simp
  qed
qed simp

text \<open>What the decoder gives back for a prompt \<open>q\<close> under a system text \<open>sy\<close>, with the special tokens
  skipped: the role names stay as lines.\<close>

definition chat_text :: "ustr \<Rightarrow> ustr \<Rightarrow> ustr" where
  "chat_text sy q = u ''system'' @ 10 # sy @ 10 # u ''user'' @ 10 # q @ 10 # u ''assistant'' @ [10]"

lemma strip_newline:
  assumes "s \<noteq> []" and "\<not> is_space (hd s)" and "\<not> is_space (last s)"
  shows "py_strip (s @ [10]) = s"
proof -
  have "dropWhile is_space (s @ [10]) = s @ [10]" using assms(1,2) by (cases s) auto
  moreover have "dropWhile is_space (rev s) = rev s" using assms(1,3) by (cases s rule: rev_cases) auto
  ultimately show ?thesis by (simp add: py_strip_def lstrip_def rstrip_def is_space_def)
qed

lemma drop_role_lines_set: "c \<in> set (drop_role_lines b s) \<Longrightarrow> c \<in> set s"
proof (induction b s rule: drop_role_lines.induct)
  case (2 b c' cs)
  show ?case
  proof (cases "if b then role_line (c' # cs) else None")
    case None
    then show ?thesis using 2 by auto
  next
    case (Some y)
    obtain f r where y: "y = (f, r)" by (cases y)
    with Some have b: "b" and rl: "role_line (c' # cs) = Some (f, r)" by (auto split: if_splits)
    obtain p where "c' # cs = p @ r" using role_line_suffix [OF rl] by blast
    moreover have "c \<in> set r" using 2(2) [OF Some y [symmetric]] 2(3) b rl by simp
    ultimately show ?thesis by simp
  qed
qed simp

lemma no_im_start:
  assumes "c \<noteq> 60"
  shows "\<not> starts_ci im_start (c # cs)"
proof -
  have i: "im_start = 60 # tl im_start" by (simp add: im_start_def u_def)
  have "\<not> same_letter 60 c" using assms by (auto simp: same_letter_def lower_cp_def)
  then show ?thesis by (subst i) (simp add: starts_ci_def)
qed

lemma drop_im_start_prefix: "60 \<notin> set s \<Longrightarrow> drop_im_start (s @ t) = s @ drop_im_start t"
  by (induction s) (auto simp: no_im_start)

lemma drop_tokens_over_space: "is_space x \<Longrightarrow> drop_tokens (s @ x # t) = drop_tokens s @ drop_tokens t"
proof (induction s rule: drop_tokens.induct)
  case 1
  then show ?case by (simp only: append_Nil drop_tokens_space drop_tokens.simps(1))
next
  case (2 c cs)
  have f: "find (\<lambda>p. starts_ci p ((c # cs) @ x # t)) template_tokens = find (\<lambda>p. starts_ci p (c # cs)) template_tokens"
    using 2(4) by (rule find_token_append)
  show ?case
  proof (cases "find (\<lambda>p. starts_ci p (c # cs)) template_tokens")
    case None
    then show ?thesis using 2 f by auto
  next
    case (Some p)
    then have "starts_ci p (c # cs)" by (auto simp: find_Some_iff)
    then have "drop (length p) ((c # cs) @ x # t) = drop (length p) (c # cs) @ x # t" by (rule starts_ci_drop)
    then show ?thesis using Some f 2(3) [OF Some 2(4)] by simp
  qed
qed

lemma stripped_ends: "py_strip s = s \<Longrightarrow> s \<noteq> [] \<Longrightarrow> \<not> is_space (hd s) \<and> \<not> is_space (last s)"
  using py_strip_hd [of s] py_strip_last [of s] by simp

lemma prompt_key_text: "prompt_key (JStr s) = drop_tokens (drop_im_start (drop_role_lines True (py_lower (py_strip s))))"
  by (simp add: prompt_key_def)

lemma lower_ends:
  assumes "s \<noteq> []" and "\<not> is_space (hd s) \<and> \<not> is_space (last s)"
  shows "py_lower s \<noteq> []" and "\<not> is_space (hd (py_lower s))" and "\<not> is_space (last (py_lower s))"
  using assms by (simp_all add: py_lower_def hd_map last_map)

lemma roles_drop: "drop_role_lines True (u ''system'') = []" "drop_role_lines True (u ''user'') = []"
  "drop_role_lines True (u ''assistant'') = []"
  by code_simp+

lemma roles_lower: "py_lower (u ''system'') = u ''system''" "py_lower (u ''user'') = u ''user''"
  "py_lower (u ''assistant'') = u ''assistant''"
  by code_simp+

lemma roles_ends: "list_all (\<lambda>r. r \<noteq> [] \<and> \<not> is_space (hd r) \<and> \<not> is_space (last r)) role_names"
  by code_simp

lemma chat_roles_dropped:
  assumes sy: "sy \<noteq> []" "\<not> is_space (hd sy)" "\<not> is_space (last sy)"
    and q: "q \<noteq> []" "\<not> is_space (hd q)" "\<not> is_space (last q)"
  shows "drop_role_lines True (u ''system'' @ 10 # sy @ 10 # u ''user'' @ 10 # q @ 10 # u ''assistant'')
    = 10 # drop_role_lines True sy @ 10 # 10 # drop_role_lines True q @ [10]"
proof -
  have r: "u ''system'' \<noteq> []" "\<not> is_space (last (u ''system''))" "u ''user'' \<noteq> []"
    "\<not> is_space (hd (u ''user''))" "\<not> is_space (last (u ''user''))" "u ''assistant'' \<noteq> []"
    "\<not> is_space (hd (u ''assistant''))"
    using roles_ends by (simp_all add: role_names_def)
  have a: "drop_role_lines True (q @ 10 # u ''assistant'') = drop_role_lines True q @ [10]"
    using drop_role_lines_append [of "u ''assistant''" q True] q r roles_drop by simp
  have b: "drop_role_lines True (u ''user'' @ 10 # q @ 10 # u ''assistant'') = 10 # drop_role_lines True q @ [10]"
    using drop_role_lines_append [of "q @ 10 # u ''assistant''" "u ''user''" True] q r roles_drop a by simp
  have c: "drop_role_lines True (sy @ 10 # u ''user'' @ 10 # q @ 10 # u ''assistant'')
      = drop_role_lines True sy @ 10 # 10 # drop_role_lines True q @ [10]"
    using drop_role_lines_append [of "u ''user'' @ 10 # q @ 10 # u ''assistant''" sy True] sy r b by simp
  show ?thesis
    using drop_role_lines_append [of "sy @ 10 # u ''user'' @ 10 # q @ 10 # u ''assistant''" "u ''system''" True]
      sy r roles_drop c by simp
qed

text \<open>The key sees through the chat template: the text the decoder gives back for a prompt, with the
  role names as lines and the system text in front, has the key of the system text followed by the key
  of the prompt, so the prompt's own key is found in it.\<close>

theorem chat_prompt_key:
  assumes sy: "py_strip sy = sy" "sy \<noteq> []" "60 \<notin> set sy" and q: "py_strip q = q" "q \<noteq> []"
  shows "prompt_key (JStr (chat_text sy q)) = prompt_key (JStr sy) @ prompt_key (JStr q)"
proof -
  let ?w = "u ''system'' @ 10 # sy @ 10 # u ''user'' @ 10 # q @ 10 # u ''assistant''"
  let ?S = "drop_role_lines True (py_lower sy)" and ?Q = "drop_role_lines True (py_lower q)"
  have ends: "u ''system'' \<noteq> []" "\<not> is_space (hd (u ''system''))" "u ''assistant'' \<noteq> []" "\<not> is_space (last (u ''assistant''))"
    using roles_ends by (simp_all add: role_names_def)
  have "py_strip (?w @ [10]) = ?w"
    using ends by (intro strip_newline) auto
  then have strip: "py_strip (chat_text sy q) = ?w" by (simp add: chat_text_def)
  have low: "py_lower ?w = u ''system'' @ 10 # py_lower sy @ 10 # u ''user'' @ 10 # py_lower q @ 10 # u ''assistant''"
    using roles_lower by (simp add: py_lower_def lower_cp_def)
  have drop: "drop_role_lines True (py_lower ?w) = 10 # ?S @ 10 # 10 # ?Q @ [10]"
    unfolding low using lower_ends stripped_ends sy q by (intro chat_roles_dropped) auto
  have n: "60 \<notin> set (py_lower sy)"
    using sy(3) by (auto simp: py_lower_def lower_cp_def split: if_splits)
  then have "60 \<notin> set ?S" using drop_role_lines_set by blast
  then have p: "60 \<notin> set (10 # ?S @ [10, 10])" "60 \<notin> set ?S" by simp_all
  obtain w where w: "drop_im_start (?Q @ [10]) = drop_im_start ?Q @ w" "w = [] \<or> w = [10]"
    using drop_im_start_append_space [of 10 ?Q] by (auto simp: is_space_def)
  have "drop_im_start (10 # ?S @ 10 # 10 # ?Q @ [10]) = (10 # ?S @ [10, 10]) @ drop_im_start (?Q @ [10])"
    using drop_im_start_prefix [OF p(1), of "?Q @ [10]"] by simp
  then have im: "drop_im_start (drop_role_lines True (py_lower ?w)) = 10 # ?S @ 10 # 10 # drop_im_start ?Q @ w"
    by (simp only: drop w(1)) simp
  have sp: "is_space 10" by (simp add: is_space_def)
  have "drop_tokens (drop_im_start ?Q @ w) = drop_tokens (drop_im_start ?Q)"
    using w(2) drop_tokens_append_space [OF sp] by auto
  then have "drop_tokens (10 # ?S @ 10 # 10 # drop_im_start ?Q @ w) = drop_tokens ?S @ drop_tokens (drop_im_start ?Q)"
    using drop_tokens_over_space [OF sp] drop_tokens_space [OF sp] by (simp del: drop_tokens.simps)
  moreover have "drop_im_start ?S = ?S" using drop_im_start_prefix [OF p(2), of "[]"] by simp
  ultimately show ?thesis by (simp only: prompt_key_text strip im sy(1) q(1))
qed

theorem chat_prompt_key_witness:
  "prompt_key (JStr (chat_text (u ''Be brief.'') (u ''Left <image> or Right?'')))
   = prompt_key (JStr (u ''Be brief.'')) @ prompt_key (JStr (u ''Left <image> or Right?''))
   \<and> prompt_key (JStr (u ''Left <image> or Right?'')) = u ''leftorright?''"
proof -
  have "py_strip (u ''Be brief.'') = u ''Be brief.''" "u ''Be brief.'' \<noteq> []" "60 \<notin> set (u ''Be brief.'')"
    "py_strip (u ''Left <image> or Right?'') = u ''Left <image> or Right?''" "u ''Left <image> or Right?'' \<noteq> []"
    "prompt_key (JStr (u ''Left <image> or Right?'')) = u ''leftorright?''" by code_simp+
  then show ?thesis using chat_prompt_key by blast
qed

section \<open>Facts about the index\<close>

lemma entries_at_add:
  "entries_at (add_entry key e ix) k = (if k = key e then entries_at ix k @ [e] else entries_at ix k)"
  by (simp add: entries_at_def add_entry_def AList.update_conv)

lemma entries_at_fold:
  "entries_at (fold (add_entry key) es ix) k = entries_at ix k @ filter (\<lambda>e. key e = k) es"
  by (induction es arbitrary: ix) (auto simp: entries_at_add)

lemma entries_at_group: "entries_at (group_by_key key es) k = filter (\<lambda>e. key e = k) es"
  by (simp add: group_by_key_def entries_at_fold) (simp add: entries_at_def)

lemma keys_fold: "fst ` set (fold (add_entry key) es ix) = fst ` set ix \<union> key ` set es"
  by (induction es arbitrary: ix) (auto simp: add_entry_def dom_update)

lemma keys_group: "set (keys_by_length (group_by_key key es)) = key ` set es"
  using keys_fold [of key es "[]"] by (simp add: keys_by_length_def group_by_key_def)

lemma keys_longest_first:
  "i < j \<Longrightarrow> j < length (keys_by_length ix) \<Longrightarrow> length (keys_by_length ix ! j) \<le> length (keys_by_length ix ! i)"
  using sorted_nth_mono [of "map (\<lambda>k. - int (length k)) (keys_by_length ix)" i j]
  by (simp add: keys_by_length_def)

lemma contains_iff: "contains p s \<longleftrightarrow> (\<exists>a b. s = a @ p @ b)"
proof -
  have "py_find p s \<noteq> None \<longleftrightarrow> (\<exists>a b. s = a @ p @ b)"
  proof (induction p s rule: py_find.induct)
    case (2 p c cs)
    have "(\<exists>a b. c # cs = a @ p @ b) \<longleftrightarrow> starts_with p (c # cs) \<or> (\<exists>a b. cs = a @ p @ b)"
      by (auto simp: starts_with_append Cons_eq_append_conv)
    then show ?case using 2 by auto
  qed auto
  then show ?thesis by (simp add: contains_def)
qed

text \<open>The key a search settles on.\<close>

definition traces :: "ustr set \<Rightarrow> ustr \<Rightarrow> ustr \<Rightarrow> bool" where
  "traces keys key k \<longleftrightarrow>
     k \<in> keys \<and>
     (k = key \<or> key \<notin> keys \<and> 24 \<le> length k \<and> contains k key
        \<and> (\<forall>k' \<in> keys. contains k' key \<longrightarrow> length k' \<le> length k))"

lemma candidates_trace:
  assumes "find_candidates (group_by_key key es) (keys_by_length (group_by_key key es)) k0 \<noteq> []"
  obtains k where "traces (key ` set es) k0 k"
    and "find_candidates (group_by_key key es) (keys_by_length (group_by_key key es)) k0
      = filter (\<lambda>e. key e = k) es"
proof (cases "k0 \<in> key ` set es")
  case True
  then have "filter (\<lambda>e. key e = k0) es \<noteq> []" by (auto simp: filter_empty_conv)
  then show ?thesis
    using True that [of k0] by (simp add: find_candidates_def entries_at_group traces_def)
next
  case False
  let ?keys = "keys_by_length (group_by_key key es)"
  have n: "filter (\<lambda>e. key e = k0) es = []" using False by (auto simp: filter_empty_conv)
  with assms obtain k where f: "find (\<lambda>k. 24 \<le> length k \<and> contains k k0) ?keys = Some k"
    by (auto simp: find_candidates_def entries_at_group split: option.splits if_splits)
  then obtain i where i: "i < length ?keys" "24 \<le> length k" "contains k k0" "k = ?keys ! i"
    "\<forall>j < i. \<not> (24 \<le> length (?keys ! j) \<and> contains (?keys ! j) k0)"
    by (auto simp: find_Some_iff)
  have "length k' \<le> length k" if k': "k' \<in> key ` set es" "contains k' k0" for k'
  proof -
    obtain j where j: "j < length ?keys" "k' = ?keys ! j"
      using k'(1) by (metis keys_group in_set_conv_nth)
    show ?thesis
    proof (cases "j < i")
      case True
      then show ?thesis using i(2,5) j k'(2) by force
    next
      case False
      then show ?thesis using keys_longest_first [of i j] i(4) j by (cases "i = j") auto
    qed
  qed
  moreover have "k \<in> key ` set es" using i(1,4) keys_group nth_mem by metis
  ultimately have "traces (key ` set es) k0 k" using False i(2,3) by (simp add: traces_def)
  moreover have "find_candidates (group_by_key key es) ?keys k0 = filter (\<lambda>e. key e = k) es"
    using n f assms by (auto simp: find_candidates_def entries_at_group split: if_splits)
  ultimately show ?thesis by (rule that)
qed

text \<open>No candidate: no row has the key and none of the rows' keys of 24 characters is part of it.\<close>

lemma no_candidates:
  "find_candidates (group_by_key key es) (keys_by_length (group_by_key key es)) k0 = [] \<longleftrightarrow>
     k0 \<notin> key ` set es \<and> (k0 = [] \<or> (\<forall>k \<in> key ` set es. 24 \<le> length k \<longrightarrow> \<not> contains k k0))"
proof -
  have h: "filter (\<lambda>e. key e = k) es = [] \<longleftrightarrow> k \<notin> key ` set es" for k
    by (auto simp: filter_empty_conv)
  show ?thesis
  proof (cases "find (\<lambda>k. 24 \<le> length k \<and> contains k k0) (keys_by_length (group_by_key key es))")
    case None
    then have "\<forall>k \<in> key ` set es. \<not> (24 \<le> length k \<and> contains k k0)"
      by (simp add: find_None_iff keys_group)
    then show ?thesis using None by (auto simp: find_candidates_def entries_at_group h)
  next
    case (Some k)
    then have "k \<in> key ` set es" "24 \<le> length k" "contains k k0"
      using nth_mem by (auto simp: find_Some_iff simp flip: keys_group)
    then show ?thesis using Some by (auto simp: find_candidates_def entries_at_group h)
  qed
qed

lemma narrow_set: "e \<in> set (narrow gt_of gt cs) \<Longrightarrow> e \<in> set cs"
  by (auto simp: narrow_def Let_def split: if_splits)

lemma narrow_nonempty: "narrow gt_of gt cs = [] \<longleftrightarrow> cs = []"
  by (auto simp: narrow_def Let_def)

lemma narrow_hd:
  assumes "cs \<noteq> []"
  shows "hd (narrow gt_of gt cs) =
    (case find (\<lambda>e. gt \<noteq> [] \<and> gt_of e = gt) cs of Some e \<Rightarrow> e | None \<Rightarrow> hd cs)"
proof (cases "gt \<noteq> [] \<and> 1 < length cs")
  case True
  have "find (\<lambda>e. gt_of e = gt) cs = (case filter (\<lambda>e. gt_of e = gt) cs of [] \<Rightarrow> None | x # _ \<Rightarrow> Some x)"
    by (induction cs) auto
  then show ?thesis using True by (auto simp: narrow_def Let_def split: list.splits)
next
  case False
  then consider "gt = []" | "gt \<noteq> []" "length cs = 1" using assms by (cases cs) auto
  then show ?thesis
  proof cases
    case 1
    then show ?thesis by (simp add: narrow_def find_None_iff [THEN iffD2])
  next
    case 2
    then obtain e where "cs = [e]" by (metis One_nat_def length_0_conv length_Suc_conv)
    then show ?thesis by (simp add: narrow_def)
  qed
qed

end
