(* ===== verification/Trends.thy ===== *)
theory Trends
  imports PromptKey RewardModel "HOL-Library.List_Lexorder"
begin

text \<open>
  \<^verbatim>\<open>plot_val_trends.py\<close>: the validation files a training run dumps are read step by step, every
  record is traced to its source row, its reward is recomputed, the R4 pairs are scored in batches by
  a local model, and every metric is averaged by dataset and step. Floats are reals. The listing of
  the two directories is a parameter, as is the local model's batch scorer \<open>model\<close>. The charts
  and the HTML around them are not modelled.
\<close>

section \<open>The files\<close>

record val_file =
  v_stem :: ustr
  v_path :: ustr
  v_lines :: "ustr list"

text \<open>\<open>discover_steps\<close>: \<open>\d+\<close>, \<open>int(name)\<close>, and the order of \<open>(step, path)\<close>.\<close>

definition discover_steps :: "val_file list \<Rightarrow> (int \<times> val_file) list py" where
  "discover_steps listing =
     bindE (mapE (\<lambda>f. case int_of_str (v_stem f) of None \<Rightarrow> Inl ValueError | Some i \<Rightarrow> Inr (i, f))
              (filter (\<lambda>f. v_stem f \<noteq> [] \<and> list_all (\<lambda>c. dec_val c \<noteq> None) (v_stem f)) listing))
       (\<lambda>files. Inr (sort_key fst (sort_key (\<lambda>(i, f). v_path f) files)))"

fun load_jsonl :: "ustr list \<Rightarrow> dict list py" where
  "load_jsonl [] = Inr []"
| "load_jsonl (line # rest) =
     (let t = py_strip line
      in if t = [] then load_jsonl rest
         else (case json_loads t of
                 Inl e \<Rightarrow> Inl (if e = JSONDecodeError then ValueError else e)
               | Inr (JObj d) \<Rightarrow> bindE (load_jsonl rest) (\<lambda>ds. Inr (d # ds))
               | Inr _ \<Rightarrow> Inl ValueError))"

section \<open>The source rows\<close>

record source_entry =
  s_key :: ustr
  s_data_source :: ustr
  s_source :: ustr
  s_ground_truth :: ustr
  s_path :: ustr

datatype source_content = JsonlFile "ustr list" | ParquetFile "json list" | OtherFile

record source_file =
  f_parts :: "ustr list"
  f_stem :: ustr
  f_path :: ustr
  f_content :: source_content

text \<open>\<open>data_root\<close>: one file, or the sorted JSONL and Parquet files under a directory, with their parts
  relative to it.\<close>

datatype data_root = MissingRoot | FileRoot source_file | DirRoot "source_file list" "source_file list"

definition dataset_source :: "data_root \<Rightarrow> source_file \<Rightarrow> ustr" where
  "dataset_source rt f =
     (case rt of
        DirRoot _ _ \<Rightarrow> if 1 < length (f_parts f) then hd (f_parts f) else f_stem f
      | _ \<Rightarrow> f_stem f)"

definition file_rows :: "source_file \<Rightarrow> dict list py" where
  "file_rows f =
     (case f_content f of
        JsonlFile lines \<Rightarrow> load_jsonl lines
      | ParquetFile rows \<Rightarrow> Inr (concat (map (\<lambda>r. case r of JObj d \<Rightarrow> [d] | _ \<Rightarrow> []) rows))
      | OtherFile \<Rightarrow> Inr [])"

definition iter_source_rows :: "data_root \<Rightarrow> (dict \<times> ustr \<times> ustr) list py" where
  "iter_source_rows rt =
     (case rt of MissingRoot \<Rightarrow> Inl FileNotFoundError
      | _ \<Rightarrow>
        (let files = (case rt of DirRoot jsonl parquet \<Rightarrow> jsonl @ parquet | FileRoot f \<Rightarrow> [f] | MissingRoot \<Rightarrow> [])
         in if files = [] then Inl FileNotFoundError
            else bindE (mapE (\<lambda>f. bindE (file_rows f) (\<lambda>rows.
                         Inr (map (\<lambda>row. (row, dataset_source rt f, f_path f)) rows))) files)
                   (\<lambda>rss. Inr (concat rss))))"

definition entry_of :: "(pyfloat \<Rightarrow> ustr) \<Rightarrow> dict \<times> ustr \<times> ustr \<Rightarrow> source_entry option" where
  "entry_of fr r =
     (case r of (row, source, path) \<Rightarrow>
        (let key = prompt_key (dict_get_or row key_prompt (dict_get_or row key_input
                     (dict_get_or row key_messages (JStr []))))
         in if key = [] then None
            else Some \<lparr>s_key = key,
                       s_data_source = (case dict_get row key_data_source of JStr s \<Rightarrow> s | _ \<Rightarrow> []),
                       s_source = source, s_ground_truth = json_text fr (ground_truth_value row),
                       s_path = path\<rparr>))"

definition build_index :: "(pyfloat \<Rightarrow> ustr) \<Rightarrow> data_root \<Rightarrow> source_entry list py" where
  "build_index fr rt =
     bindE (iter_source_rows rt) (\<lambda>rows.
       (let entries = List.map_filter (entry_of fr) rows
        in if entries = [] then Inl RuntimeError else Inr entries))"

section \<open>The search with its cache\<close>

type_synonym cache_key = "ustr \<times> ustr \<times> ustr"

record source_index =
  ix_by_key :: "(ustr \<times> source_entry list) list"
  ix_keys :: "ustr list"
  ix_cache :: "cache_key \<rightharpoonup> source_entry option"

definition make_index :: "source_entry list \<Rightarrow> source_index" where
  "make_index entries =
     (let by_key = group_by_key s_key entries
      in \<lparr>ix_by_key = by_key, ix_keys = keys_by_length by_key, ix_cache = \<lambda>_. None\<rparr>)"

definition explicit_source :: "dict \<Rightarrow> ustr" where
  "explicit_source record = (case dict_get record key_data_source of JStr s \<Rightarrow> s | _ \<Rightarrow> [])"

definition record_key :: "(pyfloat \<Rightarrow> ustr) \<Rightarrow> dict \<Rightarrow> cache_key" where
  "record_key fr record =
     (prompt_key (dict_get_or record key_input (dict_get_or record key_prompt (JStr []))),
      json_text fr (ground_truth_value record), explicit_source record)"

definition search :: "source_index \<Rightarrow> cache_key \<Rightarrow> source_entry option" where
  "search ix ck =
     (case ck of (key, gt, explicit) \<Rightarrow>
        (case narrow s_ground_truth gt (find_candidates (ix_by_key ix) (ix_keys ix) key) of
           [] \<Rightarrow> None
         | item # _ \<Rightarrow>
             (let data_source = (if explicit \<noteq> [] then explicit else s_data_source item)
              in if data_source = [] then None else Some (item\<lparr>s_data_source := data_source\<rparr>))))"

definition match_record ::
  "(pyfloat \<Rightarrow> ustr) \<Rightarrow> dict \<Rightarrow> source_index \<Rightarrow> source_index \<times> source_entry option" where
  "match_record fr record ix =
     (let ck = record_key fr record
      in case ix_cache ix ck of
           Some r \<Rightarrow> (ix, r)
         | None \<Rightarrow> (let r = search ix ck in (ix\<lparr>ix_cache := (ix_cache ix)(ck \<mapsto> r)\<rparr>, r)))"

section \<open>One case\<close>

record trend_case =
  t_step :: int
  t_source :: ustr
  t_data_source :: ustr
  t_output :: ustr
  t_ground_truth :: ustr
  t_recorded :: "real option"
  t_metrics :: details
  t_r4_pair :: "(ustr \<times> ustr) option"

definition finite_float :: "json \<Rightarrow> real option py" where
  "finite_float value =
     (case float_of value of
        Inr (Fin x) \<Rightarrow> Inr (Some x)
      | Inr _ \<Rightarrow> Inr None
      | Inl e \<Rightarrow> if is_ValueError e \<or> e = TypeError then Inr None else Inl e)"

text \<open>The end of \<open>decompose_case\<close>: R4 is 0, or a pair to be scored.\<close>

definition pair_or_zero ::
  "dict option \<Rightarrow> dict option \<Rightarrow> details \<Rightarrow> details \<times> (ustr \<times> ustr) option" where
  "pair_or_zero pred_obj gt_obj m =
     (case (pred_obj, gt_obj) of
        (Some p, Some g) \<Rightarrow>
          (case (dict_get p key_summary, dict_get g key_summary) of
             (JStr pred_summary, JStr gt_summary) \<Rightarrow>
               if py_strip pred_summary = [] \<or> py_strip gt_summary = [] then (m\<lparr>d_R4 := Some 0\<rparr>, None)
               else (m, Some (pred_summary, gt_summary))
           | _ \<Rightarrow> (m\<lparr>d_R4 := Some 0\<rparr>, None))
      | _ \<Rightarrow> (m\<lparr>d_R4 := Some 0\<rparr>, None))"

definition decompose_case ::
  "(pyfloat \<Rightarrow> ustr) \<Rightarrow> (real list list \<Rightarrow> (nat \<times> nat) list) \<Rightarrow> ustr \<Rightarrow> ustr \<Rightarrow> ustr
     \<Rightarrow> (details \<times> (ustr \<times> ustr) option) py" where
  "decompose_case fr solve ds output gt =
     (let pred_obj = parse_json_obj fr (JStr output); gt_obj = parse_json_obj fr (JStr gt)
      in if ds \<in> set JSON_ANSWER_SOURCES
         then (let c = score_json_answer fr output (JStr gt)
               in Inr (no_details\<lparr>d_C := Some c, d_reward := Some c\<rparr>, None))
         else if ds \<in> set HUNGARIAN_IOU_SOURCES
         then bindE (score_hungarian_iou fr solve output (JStr gt)) (\<lambda>r2.
                Inr (no_details\<lparr>d_R2 := Some r2, d_reward := Some r2\<rparr>, None))
         else bindE (parse_bbox_entries fr (JStr gt)) (\<lambda>gt_entries.
              bindE (parse_bbox_entries fr (JStr output)) (\<lambda>pred_entries.
                (let matches = hungarian_match solve gt_entries pred_entries;
                     r2 = score_r2 gt_entries pred_entries;
                     r3 = score_r3 gt_entries pred_entries matches
                 in if ds \<in> set SPATIAL_CONSISTENCY_BBOX_SOURCES
                    then (let c = (if same_answer (answer_of fr gt_obj) (answer_of fr pred_obj) then 1 else 0);
                              m = no_details\<lparr>d_C := Some c\<rparr>
                          in if gt_entries = []
                             then Inr (m\<lparr>d_reward := Some (c * (if pred_entries = [] then 1 else 1 / 5))\<rparr>, None)
                             else Inr (pair_or_zero pred_obj gt_obj (m\<lparr>d_R2 := Some r2, d_R3 := Some r3\<rparr>)))
                    else if ds \<in> set SPATIAL_DETECTION_SOURCES
                    then Inr (pair_or_zero pred_obj gt_obj (no_details\<lparr>d_R2 := Some r2, d_R3 := Some r3\<rparr>))
                    else Inl ValueError))))"

text \<open>\<open>str(output or "")\<close>.\<close>

definition output_text :: "(pyfloat \<Rightarrow> ustr) \<Rightarrow> dict \<Rightarrow> ustr" where
  "output_text fr record =
     (let output = dict_get_or record (u ''output'') (dict_get_or record (u ''response'') (JStr []))
      in if truthy output then py_str fr output else [])"

definition make_case ::
  "(pyfloat \<Rightarrow> ustr) \<Rightarrow> (real list list \<Rightarrow> (nat \<times> nat) list) \<Rightarrow> int \<Rightarrow> source_entry \<Rightarrow> dict \<Rightarrow> trend_case py" where
  "make_case fr solve step entry record =
     (let own = json_text fr (ground_truth_value record);
          gt = (if own \<noteq> [] then own else s_ground_truth entry);
          output = output_text fr record
      in bindE (finite_float (dict_get_or record (u ''score'') (dict_get record (u ''reward'')))) (\<lambda>recorded.
         bindE (decompose_case fr solve (s_data_source entry) output gt) (\<lambda>(m, pair).
           Inr \<lparr>t_step = step, t_source = s_source entry, t_data_source = s_data_source entry,
                t_output = output, t_ground_truth = gt, t_recorded = recorded, t_metrics = m,
                t_r4_pair = pair\<rparr>)))"

section \<open>The local R4 scores\<close>

fun new_pairs :: "(ustr \<times> ustr) list \<Rightarrow> trend_case list \<Rightarrow> (ustr \<times> ustr) list" where
  "new_pairs known [] = []"
| "new_pairs known (c # cs) =
     (case t_r4_pair c of
        Some p \<Rightarrow> if p \<in> set known then new_pairs known cs else p # new_pairs (p # known) cs
      | None \<Rightarrow> new_pairs known cs)"

definition unique_pairs :: "trend_case list \<Rightarrow> (ustr \<times> ustr) list" where
  "unique_pairs cases = new_pairs [] cases"

type_synonym pair_model = "(ustr \<times> ustr) list \<Rightarrow> pyfloat list py"

definition read_score :: "pyfloat \<Rightarrow> real py" where
  "read_score score = (if in_unit score then Inr (fval score) else Inl ValueError)"

fun score_batches ::
  "pair_model \<Rightarrow> (ustr \<times> ustr) list list \<Rightarrow> ((ustr \<times> ustr) \<rightharpoonup> real) \<Rightarrow> ((ustr \<times> ustr) \<rightharpoonup> real) py" where
  "score_batches model [] table = Inr table"
| "score_batches model (b # bs) table =
     bindE (model b) (\<lambda>scores.
       if length scores \<noteq> length b then Inl RuntimeError
       else bindE (mapE read_score scores) (\<lambda>xs.
              score_batches model bs (table(b [\<mapsto>] xs))))"

text \<open>The last loop: R4 from the table, then the reward. A pair the table lacks is \<open>None\<close> in the code, and
  the product with it raises.\<close>

definition combine_reward :: "ustr \<Rightarrow> details \<Rightarrow> real \<Rightarrow> details py" where
  "combine_reward ds m r4 =
     (if ds \<in> set SPATIAL_CONSISTENCY_BBOX_SOURCES
      then (case (d_C m, d_R2 m, d_R3 m) of
              (Some c, Some r2, Some r3) \<Rightarrow>
                Inr (m\<lparr>d_reward := Some (c * (1 / 10 + 1 / 4 * r2 + 1 / 4 * r3 + 2 / 5 * r4))\<rparr>)
            | _ \<Rightarrow> Inl KeyError)
      else if ds \<in> set SPATIAL_DETECTION_SOURCES
      then (case (d_R2 m, d_R3 m) of
              (Some r2, Some r3) \<Rightarrow> Inr (m\<lparr>d_reward := Some (1 / 4 * r2 + 1 / 4 * r3 + 1 / 2 * r4)\<rparr>)
            | _ \<Rightarrow> Inl KeyError)
      else Inr m)"

definition with_r4 :: "((ustr \<times> ustr) \<rightharpoonup> real) \<Rightarrow> trend_case \<Rightarrow> details py" where
  "with_r4 table c =
     (case (d_R4 (t_metrics c), t_r4_pair c) of
        (None, Some p) \<Rightarrow>
          (case table p of Some x \<Rightarrow> Inr ((t_metrics c)\<lparr>d_R4 := Some x\<rparr>) | None \<Rightarrow> Inl TypeError)
      | _ \<Rightarrow> Inr (t_metrics c))"

definition assign_r4 :: "((ustr \<times> ustr) \<rightharpoonup> real) \<Rightarrow> trend_case \<Rightarrow> trend_case py" where
  "assign_r4 table c =
     bindE (with_r4 table c) (\<lambda>m.
       case d_R4 m of
         None \<Rightarrow> Inr (c\<lparr>t_metrics := m\<rparr>)
       | Some r4 \<Rightarrow> bindE (combine_reward (t_data_source c) m r4) (\<lambda>m'. Inr (c\<lparr>t_metrics := m'\<rparr>)))"

definition score_r4_locally :: "pair_model \<Rightarrow> int \<Rightarrow> trend_case list \<Rightarrow> trend_case list py" where
  "score_r4_locally model batch_size cases =
     (if batch_size = 0 then Inl ValueError
      else bindE (score_batches model
                    (if batch_size < 0 then [] else batches (nat batch_size) (unique_pairs cases)) (\<lambda>_. None))
             (\<lambda>table. mapE (assign_r4 table) cases))"

section \<open>The report\<close>

fun read_records ::
  "(pyfloat \<Rightarrow> ustr) \<Rightarrow> (real list list \<Rightarrow> (nat \<times> nat) list) \<Rightarrow> int \<Rightarrow> dict list \<Rightarrow> source_index
     \<Rightarrow> (source_index \<times> trend_case list \<times> nat) py" where
  "read_records fr solve step [] ix = Inr (ix, [], 0)"
| "read_records fr solve step (r # rs) ix =
     (case match_record fr r ix of
        (ix', None) \<Rightarrow>
          bindE (read_records fr solve step rs ix') (\<lambda>(ix'', cs, n). Inr (ix'', cs, Suc n))
      | (ix', Some entry) \<Rightarrow>
          bindE (make_case fr solve step entry r) (\<lambda>c.
            bindE (read_records fr solve step rs ix') (\<lambda>(ix'', cs, n). Inr (ix'', c # cs, n))))"

text \<open>The cases of all files, the number of records, and \<open>unmatched\<close>, a dict by step.\<close>

fun read_steps ::
  "(pyfloat \<Rightarrow> ustr) \<Rightarrow> (real list list \<Rightarrow> (nat \<times> nat) list) \<Rightarrow> (int \<times> val_file) list \<Rightarrow> source_index
     \<Rightarrow> (int \<times> nat) list \<Rightarrow> (trend_case list \<times> nat \<times> (int \<times> nat) list) py" where
  "read_steps fr solve [] ix unmatched = Inr ([], 0, unmatched)"
| "read_steps fr solve ((step, f) # rest) ix unmatched =
     bindE (load_jsonl (v_lines f)) (\<lambda>records.
       bindE (read_records fr solve step records ix) (\<lambda>(ix', cs, n).
         bindE (read_steps fr solve rest ix' (AList.update step n unmatched)) (\<lambda>(cs', k, unmatched').
           Inr (cs @ cs', length records + k, unmatched'))))"

datatype metric = Reward | Recorded | MC | MR2 | MR3 | MR4

definition metric_values :: "trend_case \<Rightarrow> (metric \<times> real) list" where
  "metric_values c =
     (let m = t_metrics c
      in List.map_filter (\<lambda>(k, v). map_option (Pair k) v)
           [(MC, d_C m), (MR2, d_R2 m), (MR3, d_R3 m), (MR4, d_R4 m), (Reward, d_reward m),
            (Recorded, t_recorded c)])"

type_synonym point = "ustr \<times> metric \<times> int"

definition add_value :: "trend_case \<Rightarrow> metric \<times> real \<Rightarrow> (point \<rightharpoonup> real \<times> nat) \<Rightarrow> (point \<rightharpoonup> real \<times> nat)" where
  "add_value c kv acc =
     (let p = (t_source c, fst kv, t_step c)
      in acc(p \<mapsto> (case acc p of None \<Rightarrow> (snd kv, 1) | Some (x, n) \<Rightarrow> (x + snd kv, Suc n))))"

definition aggregate :: "trend_case list \<Rightarrow> (point \<rightharpoonup> real \<times> nat)" where
  "aggregate cases = fold (\<lambda>c. fold (add_value c) (metric_values c)) cases (\<lambda>_. None)"

definition case_counts :: "trend_case list \<Rightarrow> ustr \<times> int \<Rightarrow> nat" where
  "case_counts cases = fold (\<lambda>c ns. ns((t_source c, t_step c) := Suc (ns (t_source c, t_step c)))) cases (\<lambda>_. 0)"

definition categories :: "trend_case list \<Rightarrow> ustr \<rightharpoonup> ustr" where
  "categories cases =
     fold (\<lambda>c m. if m (t_source c) = None then m(t_source c \<mapsto> t_data_source c) else m) cases (\<lambda>_. None)"

record trend_report =
  p_steps :: "int list"
  p_series :: "point \<rightharpoonup> real"
  p_n :: "ustr \<times> int \<Rightarrow> nat"
  p_total :: nat
  p_unmatched :: "(int \<times> nat) list"
  p_category :: "ustr \<rightharpoonup> ustr"

definition summarise :: "int list \<Rightarrow> nat \<Rightarrow> (int \<times> nat) list \<Rightarrow> trend_case list \<Rightarrow> trend_report" where
  "summarise steps total_records unmatched cases =
     \<lparr>p_steps = steps, p_series = (\<lambda>p. map_option (\<lambda>(x, n). x / real n) (aggregate cases p)),
      p_n = case_counts cases, p_total = total_records, p_unmatched = unmatched,
      p_category = categories cases\<rparr>"

text \<open>\<open>collect\<close>, with the cases it has built beside the report; \<open>SystemExit\<close> is \<open>None\<close>.\<close>

definition collect ::
  "(pyfloat \<Rightarrow> ustr) \<Rightarrow> (real list list \<Rightarrow> (nat \<times> nat) list) \<Rightarrow> val_file list \<Rightarrow> source_index
     \<Rightarrow> pair_model \<Rightarrow> int \<Rightarrow> (trend_case list \<times> trend_report) option py" where
  "collect fr solve listing ix model batch_size =
     bindE (discover_steps listing) (\<lambda>step_files.
       if step_files = [] then Inr None
       else bindE (read_steps fr solve step_files ix []) (\<lambda>(cases, total_records, unmatched).
              if cases = [] then Inl RuntimeError
              else bindE (score_r4_locally model batch_size cases) (\<lambda>scored.
                     Inr (Some (scored, summarise (map fst step_files) total_records unmatched scored)))))"

text \<open>\<open>main\<close> after its argument checks.\<close>

definition trends ::
  "(pyfloat \<Rightarrow> ustr) \<Rightarrow> (real list list \<Rightarrow> (nat \<times> nat) list) \<Rightarrow> data_root \<Rightarrow> val_file list
     \<Rightarrow> pair_model \<Rightarrow> int \<Rightarrow> (trend_case list \<times> trend_report) option py" where
  "trends fr solve rt listing model batch_size =
     bindE (build_index fr rt) (\<lambda>entries. collect fr solve listing (make_index entries) model batch_size)"

section \<open>Facts about the cases\<close>

text \<open>What the details of a case are once its pair has a score.\<close>

definition finish_details :: "ustr \<Rightarrow> details \<Rightarrow> real option \<Rightarrow> details py" where
  "finish_details ds m r = (case r of None \<Rightarrow> Inr m | Some x \<Rightarrow> combine_reward ds m x)"

definition pair_score :: "summary_client \<Rightarrow> ustr \<times> ustr \<Rightarrow> real py" where
  "pair_score r4 p = bindE (r4 (fst p) (snd p)) read_score"

lemma score_r4_pair_or_zero:
  "score_r4 r4 pred_obj gt_obj =
     (case pair_or_zero pred_obj gt_obj m of (_, Some p) \<Rightarrow> pair_score r4 p | (_, None) \<Rightarrow> Inr 0)"
proof -
  have e: "py_strip [] = []" by (simp add: strip_fixed)
  have r: "(\<lambda>score. if in_unit score then Inr (fval score) else Inl ValueError) = read_score"
    by (rule ext) (simp add: read_score_def)
  show ?thesis
    by (auto simp: e r score_r4_def pair_or_zero_def pair_score_def dict_get_def dict_get_or_def
        split: option.splits json.splits)
qed

lemma pair_or_zero_details:
  "fst (pair_or_zero p g m) = (if snd (pair_or_zero p g m) = None then m\<lparr>d_R4 := Some 0\<rparr> else m)"
  by (auto simp: pair_or_zero_def split: option.splits json.splits)

lemma details_update [simp]: "m\<lparr>d_R4 := Some x, d_R4 := Some y\<rparr> = m\<lparr>d_R4 := Some y\<rparr>"
  by simp

text \<open>The detailed reward of a case, from what \<open>decompose_case\<close> leaves.\<close>

definition details_from ::
  "summary_client \<Rightarrow> ustr \<Rightarrow> details \<times> (ustr \<times> ustr) option \<Rightarrow> details py" where
  "details_from r4 ds mp =
     (case snd mp of
        Some p \<Rightarrow> bindE (pair_score r4 p) (\<lambda>x. combine_reward ds ((fst mp)\<lparr>d_R4 := Some x\<rparr>) x)
      | None \<Rightarrow> finish_details ds (fst mp) (d_R4 (fst mp)))"

lemma pair_or_zero_from:
  assumes "\<And>x. combine_reward ds (m\<lparr>d_R4 := Some x\<rparr>) x = Inr (f x)"
  shows "bindE (score_r4 r4 p g) (\<lambda>x. Inr (f x)) = details_from r4 ds (pair_or_zero p g m)"
proof (cases "pair_or_zero p g m")
  case (Pair m' pr)
  then show ?thesis
    using pair_or_zero_details [of p g m] assms
    by (auto simp: score_r4_pair_or_zero [of r4 p g m] details_from_def finish_details_def
        split: option.splits)
qed

lemma no_details_R4 [simp]: "d_R4 no_details = None"
  by (simp add: no_details_def)

lemma bbox_from:
  assumes b: "ds \<in> set SPATIAL_CONSISTENCY_BBOX_SOURCES"
  shows "bbox_details fr r4 gt_obj pred_obj ge pe ms = details_from r4 ds
    (let c = (if same_answer (answer_of fr gt_obj) (answer_of fr pred_obj) then 1 else 0)
     in if ge = [] then (no_details\<lparr>d_C := Some c, d_reward := Some (c * (if pe = [] then 1 else 1 / 5))\<rparr>, None)
        else pair_or_zero pred_obj gt_obj
          (no_details\<lparr>d_C := Some c, d_R2 := Some (score_r2 ge pe), d_R3 := Some (score_r3 ge pe ms)\<rparr>))"
proof -
  define c :: real where "c = (if same_answer (answer_of fr gt_obj) (answer_of fr pred_obj) then 1 else 0)"
  have f: "combine_reward ds (no_details\<lparr>d_C := Some c, d_R2 := Some r2, d_R3 := Some r3, d_R4 := Some x\<rparr>) x
    = Inr (no_details\<lparr>d_C := Some c, d_R2 := Some r2, d_R3 := Some r3, d_R4 := Some x,
        d_reward := Some (c * (1 / 10 + 1 / 4 * r2 + 1 / 4 * r3 + 2 / 5 * x))\<rparr>)" for r2 r3 x
    by (simp add: combine_reward_def b)
  show ?thesis
  proof (cases "ge = []")
    case True
    then show ?thesis
      by (simp add: bbox_details_def details_from_def finish_details_def)
  next
    case False
    then show ?thesis
      unfolding bbox_details_def Let_def c_def [symmetric]
      by (simp only: if_False pair_or_zero_from [OF f, symmetric])
  qed
qed

lemma detection_from:
  assumes d: "ds \<in> set SPATIAL_DETECTION_SOURCES"
  shows "detection_details r4 gt_obj pred_obj ge pe ms = details_from r4 ds
    (pair_or_zero pred_obj gt_obj (no_details\<lparr>d_R2 := Some (score_r2 ge pe), d_R3 := Some (score_r3 ge pe ms)\<rparr>))"
proof -
  have n: "ds \<notin> set SPATIAL_CONSISTENCY_BBOX_SOURCES" using d in_bbox_not_others by blast
  have f: "combine_reward ds (no_details\<lparr>d_R2 := Some r2, d_R3 := Some r3, d_R4 := Some x\<rparr>) x
    = Inr (no_details\<lparr>d_R2 := Some r2, d_R3 := Some r3, d_R4 := Some x,
        d_reward := Some (1 / 4 * r2 + 1 / 4 * r3 + 1 / 2 * x)\<rparr>)" for r2 r3 x
    by (simp add: combine_reward_def d n)
  show ?thesis
    unfolding detection_details_def Let_def by (simp only: pair_or_zero_from [OF f, symmetric])
qed

lemma details_from_single: "snd mp = None \<Longrightarrow> d_R4 (fst mp) = None \<Longrightarrow> details_from r4 ds mp = Inr (fst mp)"
  by (simp add: details_from_def finish_details_def)

lemma decompose_details:
  "compute_score_details fr solve r4 ds output (JStr gt)
   = bindE (decompose_case fr solve ds output gt) (details_from r4 ds)"
proof -
  let ?g = "parse_json_obj fr (JStr gt)" and ?p = "parse_json_obj fr (JStr output)"
  consider (j) "ds \<in> set JSON_ANSWER_SOURCES"
    | (h) "ds \<notin> set JSON_ANSWER_SOURCES" "ds \<in> set HUNGARIAN_IOU_SOURCES"
    | (o) "ds \<notin> set JSON_ANSWER_SOURCES" "ds \<notin> set HUNGARIAN_IOU_SOURCES" by blast
  then show ?thesis
  proof cases
    case j
    then show ?thesis
      by (simp add: compute_score_details_def decompose_case_def details_from_single Let_def)
  next
    case h
    then show ?thesis
      by (cases "score_hungarian_iou fr solve output (JStr gt)")
        (simp_all add: compute_score_details_def decompose_case_def details_from_single Let_def)
  next
    case o
    show ?thesis
    proof (cases "parse_bbox_entries fr (JStr gt)")
      case (Inr ge)
      show ?thesis
      proof (cases "parse_bbox_entries fr (JStr output)")
        case Inr': (Inr pe)
        let ?m = "hungarian_match solve ge pe"
        consider (b) "ds \<in> set SPATIAL_CONSISTENCY_BBOX_SOURCES"
          | (d) "ds \<notin> set SPATIAL_CONSISTENCY_BBOX_SOURCES" "ds \<in> set SPATIAL_DETECTION_SOURCES"
          | (u) "ds \<notin> set SPATIAL_CONSISTENCY_BBOX_SOURCES" "ds \<notin> set SPATIAL_DETECTION_SOURCES" by blast
        then show ?thesis
        proof cases
          case b
          have "compute_score_details fr solve r4 ds output (JStr gt) = bbox_details fr r4 ?g ?p ge pe ?m"
            using b o Inr Inr' by (simp add: compute_score_details_def Let_def)
          also have "\<dots> = bindE (decompose_case fr solve ds output gt) (details_from r4 ds)"
            unfolding bbox_from [OF b] using b o Inr Inr' by (simp add: decompose_case_def Let_def)
          finally show ?thesis .
        next
          case d
          have "compute_score_details fr solve r4 ds output (JStr gt) = detection_details r4 ?g ?p ge pe ?m"
            using d o Inr Inr' by (simp add: compute_score_details_def Let_def)
          also have "\<dots> = bindE (decompose_case fr solve ds output gt) (details_from r4 ds)"
            unfolding detection_from [OF d(2)] using d o Inr Inr' by (simp add: decompose_case_def Let_def)
          finally show ?thesis .
        next
          case u
          then show ?thesis using o Inr Inr' by (simp add: compute_score_details_def decompose_case_def Let_def)
        qed
      qed (use o Inr in \<open>simp add: compute_score_details_def decompose_case_def Let_def\<close>)
    qed (use o in \<open>simp add: compute_score_details_def decompose_case_def Let_def\<close>)
  qed
qed

lemma pair_or_zero_scored: "pair_or_zero p g m = (m', Some pr) \<Longrightarrow> d_R4 m' = d_R4 m"
  by (auto simp: pair_or_zero_def split: option.splits json.splits if_splits)

lemma decompose_pair:
  "decompose_case fr solve ds output gt = Inr (m, Some p) \<Longrightarrow> d_R4 m = None"
  by (auto simp: decompose_case_def Let_def split: if_splits) (drule pair_or_zero_scored, simp)+

section \<open>Facts about the scores\<close>

lemma new_pairs_set: "set (new_pairs known cs) = {p. \<exists>c \<in> set cs. t_r4_pair c = Some p} - set known"
  by (induction known cs rule: new_pairs.induct) (auto split: option.splits)

lemma unique_pairs_set: "set (unique_pairs cs) = {p. \<exists>c \<in> set cs. t_r4_pair c = Some p}"
  by (simp add: unique_pairs_def new_pairs_set)

lemma unique_pairs_distinct: "distinct (unique_pairs cs)"
proof -
  have "distinct (new_pairs known cs)" for known
    by (induction known cs rule: new_pairs.induct) (auto simp: new_pairs_set split: option.splits)
  then show ?thesis by (simp add: unique_pairs_def)
qed

text \<open>What a run got from its model: the calls it made, and the table of the scores they returned. No pair
  is asked twice, so the table holds, for every pair, the value returned for it.\<close>

definition calls_recorded :: "pair_model \<Rightarrow> (ustr \<times> ustr) list list \<Rightarrow> ((ustr \<times> ustr) \<rightharpoonup> real) \<Rightarrow> bool" where
  "calls_recorded model bs t \<longleftrightarrow> distinct (concat bs)
     \<and> (\<forall>b \<in> set bs. \<exists>zs. model b = Inr zs \<and> length zs = length b
         \<and> (\<forall>i < length b. \<exists>x. zs ! i = Fin x \<and> 0 \<le> x \<and> x \<le> 1 \<and> t (b ! i) = Some x))"

text \<open>The table asked as a judge.\<close>

definition table_client :: "((ustr \<times> ustr) \<rightharpoonup> real) \<Rightarrow> summary_client" where
  "table_client t p g = (case t (p, g) of Some x \<Rightarrow> Inr (Fin x) | None \<Rightarrow> Inl RuntimeError)"

lemma map_upds_nth:
  assumes "distinct ks" and "length vs = length ks" and "i < length ks"
  shows "(m(ks [\<mapsto>] vs)) (ks ! i) = Some (vs ! i)"
proof -
  have "(ks ! i, vs ! i) \<in> set (rev (zip ks vs))" using assms(2,3) by (auto simp: set_zip)
  moreover have "distinct (map fst (rev (zip ks vs)))" using assms(1,2) by (simp add: rev_map [symmetric])
  ultimately show ?thesis by (simp add: map_upds_def map_add_def)
qed

lemma read_score_Inr: "read_score z = Inr x \<Longrightarrow> z = Fin x \<and> 0 \<le> x \<and> x \<le> 1"
  by (cases z) (auto simp: read_score_def in_unit_def split: if_splits)

lemma batches_recorded:
  "score_batches model bs t = Inr t' \<Longrightarrow> distinct (concat bs) \<Longrightarrow>
     calls_recorded model bs t' \<and> dom t' = dom t \<union> set (concat bs)
     \<and> (\<forall>p. p \<notin> set (concat bs) \<longrightarrow> t' p = t p)"
proof (induction bs arbitrary: t)
  case Nil
  then show ?case by (simp add: calls_recorded_def)
next
  case (Cons b bs)
  from Cons.prems(1) obtain zs xs where b: "model b = Inr zs" "length zs = length b" "mapE read_score zs = Inr xs"
    "score_batches model bs (t(b [\<mapsto>] xs)) = Inr t'"
    by (auto simp: bindE_eq_Inr split: if_splits)
  have l: "length xs = length b" using mapE_length [OF b(3)] b(2) by simp
  have d: "distinct b" "set b \<inter> set (concat bs) = {}" using Cons.prems(2) by auto
  note ih = Cons.IH [OF b(4)]
  have rest: "calls_recorded model bs t'" "dom t' = dom (t(b [\<mapsto>] xs)) \<union> set (concat bs)"
    and other: "\<And>p. p \<notin> set (concat bs) \<Longrightarrow> t' p = (t(b [\<mapsto>] xs)) p"
    using ih Cons.prems(2) by auto
  have "\<exists>x. zs ! i = Fin x \<and> 0 \<le> x \<and> x \<le> 1 \<and> t' (b ! i) = Some x" if i: "i < length b" for i
  proof -
    have "b ! i \<notin> set (concat bs)" using d(2) i by (meson disjoint_iff nth_mem)
    then have "t' (b ! i) = Some (xs ! i)" using other map_upds_nth [OF d(1) l i] by simp
    moreover have "read_score (zs ! i) = Inr (xs ! i)" using mapE_nth [OF b(3), of i] i b(2) by simp
    ultimately show ?thesis using read_score_Inr by blast
  qed
  then have "calls_recorded model (b # bs) t'"
    using rest(1) Cons.prems(2) b(1,2) by (auto simp: calls_recorded_def)
  moreover have "dom t' = dom t \<union> set (concat (b # bs))" using rest(2) l by (auto simp: dom_map_upds)
  moreover have "t' p = t p" if "p \<notin> set (concat (b # bs))" for p
    using other [of p] that by simp
  ultimately show ?case by blast
qed

lemma table_scores:
  assumes "calls_recorded model bs t" and "dom t = set (concat bs)" and "t p = Some x"
  shows "pair_score (table_client t) p = Inr x"
proof -
  have "p \<in> dom t" using assms(3) by blast
  then have "p \<in> set (concat bs)" by (simp add: assms(2))
  then obtain b where "b \<in> set bs" "p \<in> set b" by auto
  then obtain i where b: "b \<in> set bs" "i < length b" "b ! i = p" by (auto simp: in_set_conv_nth)
  obtain zs where "\<forall>i < length b. \<exists>x. zs ! i = Fin x \<and> 0 \<le> x \<and> x \<le> 1 \<and> t (b ! i) = Some x"
    using assms(1) b(1) by (auto simp: calls_recorded_def)
  with b(2,3) assms(3) have "0 \<le> x \<and> x \<le> 1" by auto
  then show ?thesis using assms(3) by (simp add: pair_score_def table_client_def read_score_def in_unit_def)
qed

lemma assign_details:
  assumes c: "decompose_case fr solve (t_data_source c) (t_output c) (t_ground_truth c)
      = Inr (t_metrics c, t_r4_pair c)"
    and t: "\<And>p x. t p = Some x \<Longrightarrow> pair_score r4 p = Inr x" "\<And>p. t_r4_pair c = Some p \<Longrightarrow> p \<in> dom t"
    and a: "assign_r4 t c = Inr c'"
  shows "compute_score_details fr solve r4 (t_data_source c) (t_output c) (JStr (t_ground_truth c))
      = Inr (t_metrics c')"
proof (cases "t_r4_pair c")
  case None
  then show ?thesis using c a
    by (auto simp: decompose_details details_from_def finish_details_def assign_r4_def with_r4_def
        split: option.splits)
next
  case (Some p)
  then obtain x where x: "t p = Some x" using t(2) by blast
  then have s: "pair_score r4 p = Inr x" by (rule t(1))
  have "d_R4 (t_metrics c) = None" using decompose_pair c Some by metis
  then show ?thesis using c a Some x s
    by (auto simp: decompose_details details_from_def assign_r4_def with_r4_def)
qed

section \<open>Facts about the search\<close>

definition cache_sound :: "source_entry list \<Rightarrow> source_index \<Rightarrow> bool" where
  "cache_sound es ix \<longleftrightarrow>
     ix_by_key ix = group_by_key s_key es \<and> ix_keys ix = keys_by_length (group_by_key s_key es)
     \<and> (\<forall>ck r. ix_cache ix ck = Some r \<longrightarrow> r = search (make_index es) ck)"

lemma search_index: "cache_sound es ix \<Longrightarrow> search ix ck = search (make_index es) ck"
  by (cases ck) (simp add: search_def cache_sound_def make_index_def Let_def)

lemma make_index_sound: "cache_sound es (make_index es)"
  by (simp add: cache_sound_def make_index_def Let_def)

lemma match_sound:
  assumes "cache_sound es ix"
  shows "cache_sound es (fst (match_record fr r ix))"
    and "snd (match_record fr r ix) = search (make_index es) (record_key fr r)"
proof -
  have "cache_sound es (fst (match_record fr r ix)) \<and>
    snd (match_record fr r ix) = search (make_index es) (record_key fr r)"
  proof (cases "ix_cache ix (record_key fr r)")
    case None
    have "cache_sound es (ix\<lparr>ix_cache := (ix_cache ix)(record_key fr r \<mapsto> search ix (record_key fr r))\<rparr>)"
      using assms search_index [OF assms] by (simp add: cache_sound_def)
    then show ?thesis using None search_index [OF assms] by (simp add: match_record_def Let_def)
  next
    case (Some x)
    then have "x = search (make_index es) (record_key fr r)" using assms unfolding cache_sound_def by blast
    then show ?thesis using Some assms by (simp add: match_record_def Let_def)
  qed
  then show "cache_sound es (fst (match_record fr r ix))"
    and "snd (match_record fr r ix) = search (make_index es) (record_key fr r)" by blast+
qed

text \<open>The state of the index after a sequence of records.\<close>

definition after_records :: "(pyfloat \<Rightarrow> ustr) \<Rightarrow> dict list \<Rightarrow> source_entry list \<Rightarrow> source_index" where
  "after_records fr rs es = fold (\<lambda>r ix. fst (match_record fr r ix)) rs (make_index es)"

lemma after_records_sound: "cache_sound es (after_records fr rs es)"
proof -
  have "cache_sound es ix \<Longrightarrow> cache_sound es (fold (\<lambda>r ix. fst (match_record fr r ix)) rs ix)" for ix
    by (induction rs arbitrary: ix) (simp_all add: match_sound)
  then show ?thesis by (simp add: after_records_def make_index_sound)
qed

text \<open>The first row under a key, with the record's ground truth if one of them has it.\<close>

definition first_hit :: "source_entry list \<Rightarrow> ustr \<Rightarrow> ustr \<Rightarrow> source_entry \<Rightarrow> bool" where
  "first_hit es k gt e \<longleftrightarrow>
     (let same = filter (\<lambda>e. s_key e = k) es;
          exact = filter (\<lambda>e. gt \<noteq> [] \<and> s_ground_truth e = gt) same
      in same \<noteq> [] \<and> e = (if exact \<noteq> [] then hd exact else hd same))"

lemma narrow_first_hit:
  assumes "filter (\<lambda>e. s_key e = k) es \<noteq> []"
  shows "first_hit es k gt (hd (narrow s_ground_truth gt (filter (\<lambda>e. s_key e = k) es)))"
proof -
  have f: "find P xs = (case filter P xs of [] \<Rightarrow> None | x # _ \<Rightarrow> Some x)" for P :: "source_entry \<Rightarrow> bool" and xs
    by (induction xs) auto
  show ?thesis
    unfolding first_hit_def Let_def narrow_hd [OF assms] f using assms by (auto split: list.splits)
qed

lemma search_trace:
  "search (make_index es) (key, gt, explicit) = Some e' \<Longrightarrow>
     \<exists>k e. traces (s_key ` set es) key k \<and> first_hit es k gt e \<and> s_data_source e' \<noteq> []
       \<and> e' = e\<lparr>s_data_source := if explicit \<noteq> [] then explicit else s_data_source e\<rparr>"
proof -
  let ?cs = "find_candidates (group_by_key s_key es) (keys_by_length (group_by_key s_key es)) key"
  assume h: "search (make_index es) (key, gt, explicit) = Some e'"
  then obtain e rest where n: "narrow s_ground_truth gt ?cs = e # rest"
    and e': "e' = e\<lparr>s_data_source := if explicit \<noteq> [] then explicit else s_data_source e\<rparr>"
    and ds: "(if explicit \<noteq> [] then explicit else s_data_source e) \<noteq> []"
    by (auto simp: search_def make_index_def Let_def split: list.splits if_splits)
  have "?cs \<noteq> []" using n by (auto simp: narrow_def)
  then obtain k where k: "traces (s_key ` set es) key k" "?cs = filter (\<lambda>e. s_key e = k) es"
    by (rule candidates_trace)
  have "first_hit es k gt e"
    using narrow_first_hit [of k es gt] \<open>?cs \<noteq> []\<close> n k(2) by simp
  then show ?thesis using k(1) e' ds by auto
qed

lemma search_None:
  "search (make_index es) (key, gt, explicit) = None \<Longrightarrow> explicit \<noteq> [] \<Longrightarrow>
     key \<notin> s_key ` set es \<and> (key = [] \<or> (\<forall>k \<in> s_key ` set es. 24 \<le> length k \<longrightarrow> \<not> contains k key))"
  by (auto simp: search_def make_index_def Let_def narrow_nonempty no_candidates split: list.splits)

section \<open>Facts about the reading\<close>

definition well_made :: "(pyfloat \<Rightarrow> ustr) \<Rightarrow> (real list list \<Rightarrow> (nat \<times> nat) list) \<Rightarrow> trend_case \<Rightarrow> bool" where
  "well_made fr solve c \<longleftrightarrow>
     decompose_case fr solve (t_data_source c) (t_output c) (t_ground_truth c) = Inr (t_metrics c, t_r4_pair c)"

lemma make_case_fields:
  "make_case fr solve step entry r = Inr c \<Longrightarrow> well_made fr solve c \<and> t_step c = step"
  by (auto simp: make_case_def well_made_def Let_def)

lemma read_records_facts:
  "read_records fr solve step rs ix = Inr (ix', cs, n) \<Longrightarrow>
     length rs = length cs + n \<and> (\<forall>c \<in> set cs. well_made fr solve c \<and> t_step c = step)"
proof (induction rs arbitrary: ix ix' cs n)
  case (Cons r rs)
  show ?case
  proof (cases "snd (match_record fr r ix)")
    case None
    with Cons.prems obtain m where "read_records fr solve step rs (fst (match_record fr r ix)) = Inr (ix', cs, m)"
      "n = Suc m" by (cases "match_record fr r ix") (auto simp: bindE_eq_Inr)
    then show ?thesis using Cons.IH by force
  next
    case (Some e)
    with Cons.prems obtain c cs' where "make_case fr solve step e r = Inr c" "cs = c # cs'"
      "read_records fr solve step rs (fst (match_record fr r ix)) = Inr (ix', cs', n)"
      by (cases "match_record fr r ix") (auto simp: bindE_eq_Inr)
    then show ?thesis using Cons.IH make_case_fields by force
  qed
qed simp

lemma read_steps_made:
  "read_steps fr solve sf ix un = Inr (cs, k, un') \<Longrightarrow> \<forall>c \<in> set cs. well_made fr solve c"
proof (induction sf arbitrary: ix un cs k un')
  case (Cons s sf)
  obtain step f where s: "s = (step, f)" by (cases s)
  from Cons.prems obtain records ix' cs1 n cs2 k2 where
    "read_records fr solve step records ix = Inr (ix', cs1, n)"
    "read_steps fr solve sf ix' (AList.update step n un) = Inr (cs2, k2, un')" "cs = cs1 @ cs2"
    by (auto simp: s bindE_eq_Inr)
  then show ?case using Cons.IH read_records_facts by (metis Un_iff set_append)
qed simp

text \<open>With distinct step numbers no record is lost: it is a case or counted as unmatched.\<close>

lemma update_sum:
  "step \<notin> fst ` set un \<Longrightarrow> sum_list (map snd (AList.update step n un)) = sum_list (map snd un) + (n::nat)"
  by (induction un) auto

lemma read_steps_total:
  "read_steps fr solve sf ix un = Inr (cs, k, un') \<Longrightarrow> distinct (map fst sf) \<Longrightarrow>
     fst ` set un \<inter> fst ` set sf = {} \<Longrightarrow>
     sum_list (map snd un') + length cs = sum_list (map snd un) + k"
proof (induction sf arbitrary: ix un cs k un')
  case (Cons s sf)
  obtain step f where s: "s = (step, f)" by (cases s)
  from Cons.prems(1) obtain records ix' cs1 n cs2 k2 where r:
    "read_records fr solve step records ix = Inr (ix', cs1, n)"
    "read_steps fr solve sf ix' (AList.update step n un) = Inr (cs2, k2, un')" "cs = cs1 @ cs2"
    "k = length records + k2"
    by (auto simp: s bindE_eq_Inr)
  have fresh: "step \<notin> fst ` set un" using Cons.prems(3) by (auto simp: s)
  have "fst ` set (AList.update step n un) \<inter> fst ` set sf = {}"
    using Cons.prems(2,3) by (auto simp: s dom_update)
  then have "sum_list (map snd un') + length cs2 = sum_list (map snd (AList.update step n un)) + k2"
    using Cons.IH [OF r(2)] Cons.prems(2) by (simp add: s)
  then show ?case using read_records_facts [OF r(1)] r(3,4) update_sum [OF fresh] by simp
qed simp

section \<open>Facts about the aggregation\<close>

definition values_at :: "trend_case list \<Rightarrow> point \<Rightarrow> real list" where
  "values_at cases p =
     concat (map (\<lambda>c. map snd (filter (\<lambda>kv. (t_source c, fst kv, t_step c) = p) (metric_values c))) cases)"

definition mean_of :: "real list \<Rightarrow> real option" where
  "mean_of vs = (if vs = [] then None else Some (sum_list vs / real (length vs)))"

definition sums_to :: "(real \<times> nat) option \<Rightarrow> real list \<Rightarrow> bool" where
  "sums_to r vs \<longleftrightarrow> r = (if vs = [] then None else Some (sum_list vs, length vs))"

lemma add_value_sums:
  "sums_to (acc p) vs \<Longrightarrow>
     sums_to (add_value c kv acc p) (vs @ (if (t_source c, fst kv, t_step c) = p then [snd kv] else []))"
  by (auto simp: sums_to_def add_value_def Let_def split: if_splits)

lemma add_values_sums:
  "sums_to (acc p) vs \<Longrightarrow>
     sums_to (fold (add_value c) kvs acc p)
       (vs @ map snd (filter (\<lambda>kv. (t_source c, fst kv, t_step c) = p) kvs))"
proof (induction kvs arbitrary: acc vs)
  case (Cons kv kvs)
  show ?case using Cons.IH [of "add_value c kv acc", OF add_value_sums [of acc p vs c kv, OF Cons.prems]] by auto
qed simp

lemma aggregate_sums: "sums_to (aggregate cases p) (values_at cases p)"
proof -
  have "sums_to (acc p) vs \<Longrightarrow>
    sums_to (fold (\<lambda>c. fold (add_value c) (metric_values c)) cases acc p) (vs @ values_at cases p)" for acc vs
  proof (induction cases arbitrary: acc vs)
    case (Cons c cs)
    show ?case using Cons.IH [of "fold (add_value c) (metric_values c) acc", OF add_values_sums [of acc p vs c "metric_values c", OF Cons.prems]]
      by (simp add: values_at_def)
  qed (simp add: values_at_def)
  from this [of "\<lambda>_. None" "[]"] show ?thesis by (simp add: aggregate_def sums_to_def)
qed

lemma series_mean: "p_series (summarise steps k un cases) p = mean_of (values_at cases p)"
  using aggregate_sums [of cases p] by (simp add: summarise_def sums_to_def mean_of_def)

lemma case_counts_eq: "case_counts cases p = length (filter (\<lambda>c. (t_source c, t_step c) = p) cases)"
proof -
  have "fold (\<lambda>c ns. ns((t_source c, t_step c) := Suc (ns (t_source c, t_step c)))) cases ns p
    = ns p + length (filter (\<lambda>c. (t_source c, t_step c) = p) cases)" for ns :: "ustr \<times> int \<Rightarrow> nat"
    by (induction cases arbitrary: ns) auto
  then show ?thesis by (simp add: case_counts_def)
qed

end
