(* ===== verification/TrendRuns.thy ===== *)
theory TrendRuns
  imports Trends
begin

text \<open>
  Whole runs of \<^verbatim>\<open>plot_val_trends.py\<close>: given what the local model said of each pair in the batch it was scored
  in, the rewards a run averages are the rewards of training, except that it leaves out the reasoning gate.
\<close>

section \<open>The local vLLM model\<close>

definition local_model ::
  "model_config \<Rightarrow> tokenizer \<Rightarrow> unit py \<Rightarrow> (ustr list \<Rightarrow> (real list list \<times> real list) py) \<Rightarrow> pair_model" where
  "local_model c tk loaded infer pairs = bindE (score_summaries c tk loaded infer pairs) (\<lambda>xs. Inr (map Fin xs))"

lemma summaries_length:
  "score_summaries c tk loaded (vllm_summary_infer c tk gen ids) ps = Inr xs \<Longrightarrow> length xs = length ps"
  using vllm.spec_scores(1) [where letters = CHOICE_LETTERS, OF len_CHOICE]
  by (simp add: vllm_scores_spec) (simp add: vllm_summary_infer_def)

lemma batches_members: "0 < n \<Longrightarrow> set (concat (batches n xs)) = set xs"
  by (simp only: batches_concat)

lemma assign_keeps:
  "assign_r4 t c = Inr k \<Longrightarrow> t_data_source k = t_data_source c \<and> t_output k = t_output c
     \<and> t_ground_truth k = t_ground_truth c \<and> t_r4_pair k = t_r4_pair c"
  by (auto simp: assign_r4_def bindE_eq_Inr split: option.splits)

lemma local_scores:
  assumes run: "score_r4_locally model batch_size cases = Inr scored"
    and made: "\<forall>c \<in> set cases. well_made fr solve c"
  shows "\<exists>bs t. calls_recorded model bs t
    \<and> set (concat bs) = {p. \<exists>k \<in> set scored. t_r4_pair k = Some p} \<and> dom t = set (concat bs)
    \<and> (\<forall>k \<in> set scored. compute_score_details fr solve (table_client t) (t_data_source k) (t_output k)
          (JStr (t_ground_truth k)) = Inr (t_metrics k))"
proof -
  let ?bs = "if batch_size < 0 then [] else batches (nat batch_size) (unique_pairs cases)"
  from run obtain t where ne: "batch_size \<noteq> 0" and t: "score_batches model ?bs (\<lambda>_. None) = Inr t"
    and m: "mapE (assign_r4 t) cases = Inr scored"
    by (auto simp: score_r4_locally_def bindE_eq_Inr split: if_splits)
  have "distinct (concat ?bs)"
    using ne batches_concat [of "nat batch_size" "unique_pairs cases"] by (simp add: unique_pairs_distinct)
  from batches_recorded [OF t this] have rec: "calls_recorded model ?bs t" and dom: "dom t = set (concat ?bs)"
    by auto
  have from_case: "\<exists>c \<in> set cases. assign_r4 t c = Inr k" if "k \<in> set scored" for k
    using mapE_Inr_set [OF m that] by blast
  have to_case: "\<exists>k \<in> set scored. assign_r4 t c = Inr k" if "c \<in> set cases" for c
    using mapE_all [OF m that] by blast
  have d: "decompose_case fr solve (t_data_source c) (t_output c) (t_ground_truth c) = Inr (t_metrics c, t_r4_pair c)"
    if "c \<in> set cases" for c using made that by (simp add: well_made_def)
  have in_table: "p \<in> dom t" if c: "c \<in> set cases" and p: "t_r4_pair c = Some p" for c p
  proof -
    have "d_R4 (t_metrics c) = None" using decompose_pair d [OF c] p by metis
    with to_case [OF c] p have "t p \<noteq> None" by (auto simp: assign_r4_def with_r4_def split: option.splits)
    then show ?thesis by blast
  qed
  have asked: "set (concat ?bs) \<subseteq> set (unique_pairs cases)"
    using ne batches_members [of "nat batch_size" "unique_pairs cases"] by simp
  have pairs: "set (concat ?bs) = {p. \<exists>k \<in> set scored. t_r4_pair k = Some p}"
  proof (rule set_eqI, rule iffI)
    fix p assume "p \<in> set (concat ?bs)"
    then obtain c where "c \<in> set cases" "t_r4_pair c = Some p" using asked by (auto simp: unique_pairs_set)
    then show "p \<in> {p. \<exists>k \<in> set scored. t_r4_pair k = Some p}"
      using to_case assign_keeps by (metis (mono_tags, lifting) mem_Collect_eq)
  next
    fix p assume "p \<in> {p. \<exists>k \<in> set scored. t_r4_pair k = Some p}"
    then obtain k where k: "k \<in> set scored" "t_r4_pair k = Some p" by blast
    obtain c where "c \<in> set cases" "assign_r4 t c = Inr k" using from_case [OF k(1)] by blast
    with k(2) have "p \<in> dom t" using in_table [of c p] assign_keeps [of t c k] by simp
    then show "p \<in> set (concat ?bs)" by (simp add: dom)
  qed
  have "compute_score_details fr solve (table_client t) (t_data_source k) (t_output k) (JStr (t_ground_truth k))
      = Inr (t_metrics k)" if k: "k \<in> set scored" for k
  proof -
    obtain c where c: "c \<in> set cases" "assign_r4 t c = Inr k" using from_case [OF k] by blast
    show ?thesis
      using assign_details [OF d [OF c(1)] table_scores [OF rec dom] in_table [OF c(1)] c(2)] assign_keeps [OF c(2)]
      by simp
  qed
  with rec dom pairs show ?thesis by blast
qed

text \<open>Two files of one step, \<^verbatim>\<open>1.jsonl\<close> and \<^verbatim>\<open>01.jsonl\<close>: the second count replaces the first.\<close>

lemma same_step_overwrites:
  assumes "read_steps fr solve [(step, f), (step, f')] ix [] = Inr (cs, k, un)"
  shows "\<exists>n n'. k = length cs + n + n' \<and> un = [(step, n')]"
proof -
  from assms obtain r r' ix' ix'' cs1 cs2 n n' where
    "read_records fr solve step r ix = Inr (ix', cs1, n)" "read_records fr solve step r' ix' = Inr (ix'', cs2, n')"
    "cs = cs1 @ cs2" "k = length r + length r'" "un = [(step, n')]"
    by (auto simp: bindE_eq_Inr)
  then show ?thesis using read_records_facts by force
qed

section \<open>A run\<close>

definition demo_question :: ustr where "demo_question = u ''Where is the left chair in the image?''"

definition demo_root :: data_root where
  "demo_root = FileRoot \<lparr>f_parts = [], f_stem = u ''detect'', f_path = u ''d.parquet'',
     f_content = ParquetFile [JObj [(key_prompt, JArr [JObj [(key_content, JStr (demo_question @ u '' <image>''))]]),
       (key_data_source, JStr (u ''detection_qwen'')), (key_ground_truth, JObj [(key_summary, JStr (u ''y''))])]]\<rparr>"

definition demo_line :: ustr where
  "demo_line = dumps_json (\<lambda>_. []) (JObj [(key_input, JStr (chat_text (u ''S'') demo_question)),
     (u ''output'', JStr (u ''{\"summary\": \"x\"}'')), (u ''score'', JInt 1)])"

definition demo_listing :: "val_file list" where
  "demo_listing = [\<lparr>v_stem = u ''7'', v_path = u ''v/7.jsonl'', v_lines = [demo_line]\<rparr>,
     \<lparr>v_stem = u ''notes'', v_path = u ''v/notes.jsonl'', v_lines = []\<rparr>]"

definition demo_entry :: source_entry where
  "demo_entry = \<lparr>s_key = u ''whereistheleftchairintheimage?'',
   s_data_source = u ''detection_qwen'', s_source = u ''detect'', s_ground_truth = u ''{\"summary\":\"y\"}'',
   s_path = u ''d.parquet''\<rparr>"

lemma demo_index: "build_index (\<lambda>_. []) demo_root = Inr [demo_entry]"
  by code_simp

lemma demo_sf: "discover_steps demo_listing = Inr [(7, hd demo_listing)]"
  by code_simp

lemma demo_load: "load_jsonl (v_lines (hd demo_listing)) = Inr [[(key_input, JStr (chat_text (u ''S'') demo_question)),
     (u ''output'', JStr (u ''{\"summary\": \"x\"}'')), (u ''score'', JInt 1)]]"
  by code_simp


definition demo_case :: trend_case where
  "demo_case = \<lparr>t_step = 7, t_source = u ''detect'', t_data_source = u ''detection_qwen'',
     t_output = u ''{\"summary\": \"x\"}'', t_ground_truth = u ''{\"summary\":\"y\"}'', t_recorded = Some 1,
     t_metrics = \<lparr>d_C = None, d_R2 = Some 1, d_R3 = Some 0, d_R4 = None, d_reward = None\<rparr>,
     t_r4_pair = Some (u ''x'', u ''y'')\<rparr>"

definition demo_scored :: trend_case where
  "demo_scored = demo_case\<lparr>t_metrics :=
     \<lparr>d_C = None, d_R2 = Some 1, d_R3 = Some 0, d_R4 = Some (7 / 16), d_reward = Some (15 / 32)\<rparr>\<rparr>"

lemma demo_steps: "(case read_steps (\<lambda>_. []) brute_assignment [(7, hd demo_listing)] (make_index [demo_entry]) []
   of Inr (cs, k, un) \<Rightarrow> cs = [demo_case] \<and> k = 1 \<and> un = [(7, 0)] | Inl _ \<Rightarrow> False)"
  by code_simp

lemma demo_read: "read_steps (\<lambda>_. []) brute_assignment [(7, hd demo_listing)] (make_index [demo_entry]) []
   = Inr ([demo_case], 1, [(7, 0)])"
  using demo_steps by (auto split: sum.splits)

lemma demo_score:
  assumes "model [(u ''x'', u ''y'')] = Inr [Fin (7 / 16)]"
  shows "score_r4_locally model 32 [demo_case] = Inr [demo_scored]"
proof -
  have p: "unique_pairs [demo_case] = [(u ''x'', u ''y'')]"
    by (simp add: unique_pairs_def demo_case_def)
  have b: "batches 32 [(u ''x'', u ''y'')] = [[(u ''x'', u ''y'')]]"
    by (simp add: batches.simps)
  have s: "u ''detection_qwen'' \<in> set SPATIAL_DETECTION_SOURCES" by code_simp
  then have n: "u ''detection_qwen'' \<notin> set SPATIAL_CONSISTENCY_BBOX_SOURCES" using in_bbox_not_others by blast
  have f: "t_metrics demo_case = \<lparr>d_C = None, d_R2 = Some 1, d_R3 = Some 0, d_R4 = None, d_reward = None\<rparr>"
    "t_r4_pair demo_case = Some (u ''x'', u ''y'')" "t_data_source demo_case = u ''detection_qwen''"
    by (simp_all add: demo_case_def)
  show ?thesis
    using s n by (simp add: score_r4_locally_def p b assms read_score_def in_unit_def assign_r4_def with_r4_def
        combine_reward_def demo_scored_def f)
qed

lemma demo_trends:
  assumes "model [(u ''x'', u ''y'')] = Inr [Fin (7 / 16)]"
  shows "trends (\<lambda>_. []) brute_assignment demo_root demo_listing model 32
    = Inr (Some ([demo_scored], summarise [7] 1 [(7, 0)] [demo_scored]))"
  using demo_read by (simp add: trends_def demo_index collect_def demo_sf demo_score [of model, OF assms] del: read_steps.simps)

lemma demo_model:
  "local_model small_config code_tokenizer (Inr ())
     (vllm_summary_infer small_config code_tokenizer (per_prompt half_engine) code_ids) [(u ''x'', u ''y'')]
   = Inr [Fin (7 / 16)]"
proof -
  let ?inf = "vllm_summary_infer small_config code_tokenizer (per_prompt half_engine) code_ids"
  have "score_summary small_config code_tokenizer (Inr ()) ?inf (u ''x'') (u ''y'') = Inr (7 / 16)"
    using half_single by (simp add: score_summary_def)
  then obtain xs where xs: "score_summaries small_config code_tokenizer (Inr ()) ?inf [(u ''x'', u ''y'')] = Inr xs"
    "hd xs = 7 / 16" by (auto simp: score_summary_def bindE_eq_Inr)
  then have "xs = [7 / 16]" using summaries_length [OF xs(1)] by (cases xs) auto
  then show ?thesis using xs by (simp add: local_model_def)
qed

lemmas demo_report = demo_trends [of "local_model small_config code_tokenizer (Inr ())
     (vllm_summary_infer small_config code_tokenizer (per_prompt half_engine) code_ids)", OF demo_model]

lemma demo_matched: "case snd (match_record (\<lambda>_. []) (hd [[(key_input, JStr (chat_text (u ''S'') demo_question)),
     (u ''output'', JStr (u ''{\"summary\": \"x\"}'')), (u ''score'', JInt 1)]]) (make_index [demo_entry]))
   of None \<Rightarrow> False | Some e \<Rightarrow> e = demo_entry"
  by code_simp

section \<open>Properties\<close>

lemma trends_run:
  assumes "trends fr solve rt listing model batch_size = Inr (Some (scored, rep))"
  obtains sf ix cases k un where "discover_steps listing = Inr sf"
    "read_steps fr solve sf ix [] = Inr (cases, k, un)" "score_r4_locally model batch_size cases = Inr scored"
    "rep = summarise (map fst sf) k un scored" "\<forall>c \<in> set cases. well_made fr solve c"
  using assms read_steps_made
  by (auto simp: trends_def collect_def bindE_eq_Inr split: if_splits)

text \<open>C5: The rewards in the trend report are the rewards of training, whatever the local model is (either
  backend, or one whose answers depend on the batch): the run asks it about every summary pair of the report
  exactly once, in batches, each value it returns is a number of the unit interval kept for its own pair,
  and the metrics of every case, assembled with the script's own copy of the formula, are what
  \<open>compute_score_details\<close> gives with those values as the judge's scores.\<close>

theorem trend_scores_are_rewards:
  assumes "trends fr solve rt listing model batch_size = Inr (Some (scored, rep))"
  shows "\<exists>bs t. distinct (concat bs) \<and> set (concat bs) = {p. \<exists>k \<in> set scored. t_r4_pair k = Some p}
    \<and> (\<forall>b \<in> set bs. \<exists>zs. model b = Inr zs \<and> length zs = length b
         \<and> (\<forall>i < length b. \<exists>x. zs ! i = Fin x \<and> 0 \<le> x \<and> x \<le> 1 \<and> t (b ! i) = Some x))
    \<and> (\<forall>k \<in> set scored. compute_score_details fr solve (table_client t) (t_data_source k) (t_output k)
          (JStr (t_ground_truth k)) = Inr (t_metrics k))"
  using assms
proof (rule trends_run)
  fix sf ix cases n un
  assume "score_r4_locally model batch_size cases = Inr scored" and "\<forall>c \<in> set cases. well_made fr solve c"
  from local_scores [OF this] show ?thesis unfolding calls_recorded_def by blast
qed

theorem trend_scores_are_rewards_witness:
  "\<exists>t. t (u ''x'', u ''y'') = Some (7 / 16)
   \<and> compute_score_details (\<lambda>_. []) brute_assignment (table_client t)
       (u ''detection_qwen'') (u ''{\"summary\": \"x\"}'') (JStr (u ''{\"summary\":\"y\"}''))
     = Inr \<lparr>d_C = None, d_R2 = Some 1, d_R3 = Some 0, d_R4 = Some (7 / 16), d_reward = Some (15 / 32)\<rparr>"
proof -
  have pair: "{p. \<exists>k \<in> set [demo_scored]. t_r4_pair k = Some p} = {(u ''x'', u ''y'')}"
    by (auto simp: demo_scored_def demo_case_def)
  obtain bs t where bs: "distinct (concat bs)" "set (concat bs) = {(u ''x'', u ''y'')}"
    and asked: "\<forall>b \<in> set bs. \<exists>zs. local_model small_config code_tokenizer (Inr ())
        (vllm_summary_infer small_config code_tokenizer (per_prompt half_engine) code_ids) b = Inr zs
      \<and> length zs = length b \<and> (\<forall>i < length b. \<exists>x. zs ! i = Fin x \<and> 0 \<le> x \<and> x \<le> 1 \<and> t (b ! i) = Some x)"
    and all: "\<forall>k \<in> set [demo_scored]. compute_score_details (\<lambda>_. []) brute_assignment (table_client t)
        (t_data_source k) (t_output k) (JStr (t_ground_truth k)) = Inr (t_metrics k)"
    using trend_scores_are_rewards [OF demo_report] unfolding pair by blast
  have scored: "compute_score_details (\<lambda>_. []) brute_assignment (table_client t)
       (u ''detection_qwen'') (u ''{\"summary\": \"x\"}'') (JStr (u ''{\"summary\":\"y\"}''))
     = Inr \<lparr>d_C = None, d_R2 = Some 1, d_R3 = Some 0, d_R4 = Some (7 / 16), d_reward = Some (15 / 32)\<rparr>"
    using all by (simp add: demo_scored_def) (simp add: demo_case_def)
  obtain b where b: "b \<in> set bs" "(u ''x'', u ''y'') \<in> set b" using bs(2) by auto
  then have "set b \<subseteq> {(u ''x'', u ''y'')}" "distinct b"
    using bs by (auto simp: distinct_concat_iff)
  then have "b = [(u ''x'', u ''y'')]"
    using b(2) by (cases b) (auto simp: subset_singleton_iff)
  with asked b(1) have "t (u ''x'', u ''y'') = Some (7 / 16)" using demo_model by fastforce
  with scored show ?thesis by blast
qed

text \<open>C11: The index finds the right row whatever was looked up before: a record's entry is the first row
  under its own prompt key, or, when no row has that key, under the longest row key of at least 24
  characters inside it, preferring rows with the record's ground truth; the record's data source, when
  given, replaces the row's. A record with a data source is unmatched only if there is no such key.\<close>

theorem record_traced:
  fixes fr r rs es
  defines "res \<equiv> snd (match_record fr r (after_records fr rs es))"
    and "key \<equiv> fst (record_key fr r)" and "gt \<equiv> fst (snd (record_key fr r))"
  shows "(\<forall>e'. res = Some e' \<longrightarrow>
      (\<exists>k e. traces (s_key ` set es) key k \<and> first_hit es k gt e \<and> s_data_source e' \<noteq> []
        \<and> e' = e\<lparr>s_data_source := if explicit_source r \<noteq> [] then explicit_source r else s_data_source e\<rparr>))
    \<and> (res = None \<and> explicit_source r \<noteq> [] \<longrightarrow>
        key \<notin> s_key ` set es \<and> (key = [] \<or> (\<forall>k \<in> s_key ` set es. 24 \<le> length k \<longrightarrow> \<not> contains k key)))"
proof -
  have "record_key fr r = (key, gt, explicit_source r)"
    by (simp add: key_def gt_def record_key_def)
  then have "res = search (make_index es) (key, gt, explicit_source r)"
    by (simp add: res_def match_sound(2) [OF after_records_sound])
  then show ?thesis using search_trace search_None by metis
qed

theorem record_traced_witness:
  "\<exists>k e. traces {s_key demo_entry} (u ''swhereistheleftchairintheimage?'') k \<and> first_hit [demo_entry] k [] e"
proof -
  let ?r = "[(key_input, JStr (chat_text (u ''S'') demo_question)),
     (u ''output'', JStr (u ''{\"summary\": \"x\"}'')), (u ''score'', JInt 1)]"
  have m: "snd (match_record (\<lambda>_. []) ?r (after_records (\<lambda>_. []) [] [demo_entry])) = Some demo_entry"
    using demo_matched by (simp add: after_records_def split: option.splits)
  have k: "fst (record_key (\<lambda>_. []) ?r) = u ''swhereistheleftchairintheimage?''"
    "fst (snd (record_key (\<lambda>_. []) ?r)) = []" by code_simp+
  show ?thesis
    using record_traced [of "\<lambda>_. []" ?r "[]" "[demo_entry]"] unfolding m k by auto
qed

text \<open>C24: The report's points are means over its cases: a series has a point exactly where a case of the
  dataset and step has the metric, its value is their mean, the counts are the numbers of cases, and,
  when no two files have the same step number, every record read is a case or counted as unmatched.\<close>

theorem trend_report_accounts:
  assumes "trends fr solve rt listing model batch_size = Inr (Some (scored, rep))"
  shows "p_series rep p = mean_of (values_at scored p)
    \<and> p_n rep sp = length (filter (\<lambda>c. (t_source c, t_step c) = sp) scored)
    \<and> (distinct (p_steps rep) \<longrightarrow> p_total rep = length scored + sum_list (map snd (p_unmatched rep)))"
  using assms
proof (rule trends_run)
  fix sf ix cases k un
  assume r: "read_steps fr solve sf ix [] = Inr (cases, k, un)" "score_r4_locally model batch_size cases = Inr scored"
    and rep: "rep = summarise (map fst sf) k un scored"
  have l: "length scored = length cases"
    using r(2) mapE_length by (auto simp: score_r4_locally_def bindE_eq_Inr split: if_splits)
  have "distinct (map fst sf) \<Longrightarrow> sum_list (map snd un) + length cases = k"
    using read_steps_total [OF r(1)] by simp
  then have "distinct (map fst sf) \<longrightarrow> k = length cases + sum_list (map snd un)" by auto
  then show ?thesis
    using l unfolding rep series_mean by (simp add: case_counts_eq summarise_def)
qed

theorem trend_report_accounts_witness:
  "1 = length [demo_scored] + sum_list (map snd [(7 :: int, 0 :: nat)])"
  using trend_report_accounts [OF demo_report] by (simp add: summarise_def)

text \<open>The report's reward is not the training reward where the reasoning gate bites: on an answer
  source, a reply whose answer is right and whose last sentence supports the other option trains with
  reward 0 and is reported with reward 1.\<close>

theorem trend_reward_ignores_gate:
  assumes "compute_score_with_reasoning_gate fr solve r4 support ds output (JStr gt) ei = Inr r"
    and "ds \<in> set JSON_ANSWER_SOURCES" and "g_R1 r = 1" and "g_reasoning_gate r = 0"
  shows "g_score r = 0 \<and> decompose_case fr solve ds output gt
    = Inr (no_details\<lparr>d_C := Some 1, d_reward := Some 1\<rparr>, None)"
proof -
  have c: "answer_correctness fr ds output (JStr gt) = Some (score_json_answer fr output (JStr gt))"
    using assms(2) by (simp add: answer_correctness_def)
  from assms(1) have "g_score r = 0 \<and> answer_correctness fr ds output (JStr gt) = Some 1"
    by (cases rule: gate_cases) (use assms(3,4) in \<open>auto split: if_splits\<close>)
  then show ?thesis using assms(2) c by (simp add: decompose_case_def)
qed

theorem trend_reward_ignores_gate_witness:
  "decompose_case (\<lambda>_. []) brute_assignment (u ''spatial_consistency_pos'') gate_reply (u ''A'')
   = Inr (no_details\<lparr>d_C := Some 1, d_reward := Some 1\<rparr>, None)"
proof -
  let ?run = "compute_score_with_reasoning_gate (\<lambda>_. []) brute_assignment (\<lambda>_ _. Inr (Fin 0)) (judge_says (u ''B''))
     (u ''spatial_consistency_pos'') gate_reply (JStr (u ''A'')) gate_info"
  have "(case ?run of Inr r \<Rightarrow> g_R1 r = 1 \<and> g_reasoning_gate r = 0 | Inl _ \<Rightarrow> False)"
    by code_simp
  then obtain r where r: "?run = Inr r" "g_R1 r = 1" "g_reasoning_gate r = 0" by (auto split: sum.splits)
  have "u ''spatial_consistency_pos'' \<in> set JSON_ANSWER_SOURCES" by code_simp
  from trend_reward_ignores_gate [OF r(1) this r(2,3)] show ?thesis by blast
qed

end
