(* ===== verification/IdealabClient.thy ===== *)
theory IdealabClient
  imports PromptKey
begin

text \<open>
  \<open>call_idealab\<close> of \<^verbatim>\<open>run_gemini.py\<close>: one request to the remote service with its retries. The network
  is the parameter \<open>post payload attempt\<close>: the text of the exception it raises, or the reply. The waiting
  times are part of the result.
\<close>

section \<open>Transient errors\<close>

definition transient_words :: "ustr list" where
  "transient_words = map u [''mpe-001'', ''pl-002'', ''pl-001'',
     ''408'', ''425'', ''429'', ''500'', ''502'', ''503'', ''504'', ''522'', ''524'',
     ''timeout'', ''timed out'', ''connection reset'', ''connection aborted'', ''remote disconnected'',
     ''temporarily unavailable'', ''service unavailable'', ''bad gateway'', ''gateway timeout'',
     ''rate limit'', ''too many requests'']
   @ [[27169, 22411, 25552, 20379, 26041], [24179, 21488, 38480, 27969]]"

definition is_transient :: "ustr \<Rightarrow> bool" where
  "is_transient err_text = (let t = py_lower err_text in list_ex (\<lambda>w. contains w t) transient_words)"

section \<open>The reply\<close>

record http_reply =
  h_status :: int
  h_text :: ustr
  h_json :: "ustr + json"

text \<open>\<open>data["choices"][0]["message"]["content"]\<close>; \<open>None\<close> for the three exceptions the code catches.\<close>

definition key_choices :: ustr where "key_choices = u ''choices''"
definition key_message :: ustr where "key_message = u ''message''"

definition reply_content :: "json \<Rightarrow> json option" where
  "reply_content data =
     (case data of
        JObj d \<Rightarrow>
          (case map_of d key_choices of
             Some (JArr (JObj c # _)) \<Rightarrow>
               (case map_of c key_message of
                  Some (JObj m) \<Rightarrow> map_of m key_content
                | _ \<Rightarrow> None)
           | _ \<Rightarrow> None)
      | _ \<Rightarrow> None)"

text \<open>The parts of a list, joined; a part whose text is not a string makes \<open>join\<close> raise.\<close>

definition part_text :: "(pyfloat \<Rightarrow> ustr) \<Rightarrow> json \<Rightarrow> ustr py" where
  "part_text fr part =
     (case part of
        JObj d \<Rightarrow> (case dict_get_or d key_text (JStr []) of JStr s \<Rightarrow> Inr s | _ \<Rightarrow> Inl TypeError)
      | v \<Rightarrow> Inr (py_str fr v))"

definition output_string :: "(pyfloat \<Rightarrow> ustr) \<Rightarrow> json \<Rightarrow> ustr py" where
  "output_string fr output =
     bindE (case output of
              JArr parts \<Rightarrow> bindE (mapE (part_text fr) parts) (\<lambda>ts. Inr (JStr (concat ts)))
            | v \<Rightarrow> Inr v)
       (\<lambda>out. if \<not> truthy out then Inr []
              else (case out of JStr s \<Rightarrow> Inr (py_strip s) | _ \<Rightarrow> Inl AttributeError))"

definition key_ok :: ustr where "key_ok = u ''ok''"

definition failed :: "ustr \<Rightarrow> dict" where
  "failed err = [(key_ok, JBool False), (key_error, JStr err)]"

definition succeeded :: "ustr \<Rightarrow> dict" where
  "succeeded output = [(key_ok, JBool True), (key_text, JStr output)]"

text \<open>What one reply leads to: the result, or another try after a wait (in seconds).\<close>

datatype verdict = Finished dict | TryAgain int ustr | Raised py_exn

definition backoff :: "nat \<Rightarrow> int" where
  "backoff attempt = min 30 (3 * 2 ^ attempt)"

definition retry_or_fail :: "bool \<Rightarrow> nat \<Rightarrow> ustr \<Rightarrow> verdict" where
  "retry_or_fail again attempt err =
     (if is_transient err \<and> again then TryAgain (backoff attempt) err else Finished (failed err))"

definition judge_reply :: "(pyfloat \<Rightarrow> ustr) \<Rightarrow> bool \<Rightarrow> nat \<Rightarrow> ustr + http_reply \<Rightarrow> verdict" where
  "judge_reply fr again attempt outcome =
     (case outcome of
        Inl err \<Rightarrow> retry_or_fail again attempt err
      | Inr resp \<Rightarrow>
          if h_status resp \<noteq> 200
          then retry_or_fail again attempt
                 (u ''HTTP '' @ str_of_int (h_status resp) @ u '': '' @ take 500 (h_text resp))
          else (case h_json resp of
                  Inl e \<Rightarrow> Finished (failed (u ''response not JSON: '' @ e @ u ''; body='' @ take 300 (h_text resp)))
                | Inr data \<Rightarrow>
                    (case reply_content data of
                       None \<Rightarrow> Finished (failed (u ''unexpected response shape: '' @ take 300 (py_str fr data)))
                     | Some content \<Rightarrow>
                         (case output_string fr content of
                            Inl e \<Rightarrow> Raised e
                          | Inr output \<Rightarrow>
                              if output \<noteq> [] then Finished (succeeded output)
                              else (let err = u ''empty content; raw='' @ take 300 (py_str fr data)
                                    in if again then TryAgain 2 err else Finished (failed err))))))"

section \<open>The call\<close>

definition MAX_TOKENS :: int where "MAX_TOKENS = 8192"

definition idealab_payload :: "ustr \<Rightarrow> json list \<Rightarrow> ustr \<Rightarrow> ustr \<Rightarrow> json" where
  "idealab_payload system_prompt user_content thinking_level model =
     JObj [(u ''model'', JStr model), (u ''max_tokens'', JInt MAX_TOKENS),
       (key_messages, JArr [
          JObj [(u ''role'', JStr (u ''system'')), (key_content, JStr system_prompt)],
          JObj [(u ''role'', JStr (u ''user'')), (key_content, JArr user_content)]]),
       (u ''thinking_config'', JObj [(u ''thinking_level'', JStr thinking_level)])]"

text \<open>The loop over the attempts: the result and the waits made.\<close>

function attempts ::
  "(pyfloat \<Rightarrow> ustr) \<Rightarrow> (nat \<Rightarrow> ustr + http_reply) \<Rightarrow> int \<Rightarrow> nat \<Rightarrow> ustr \<Rightarrow> dict py \<times> int list" where
  "attempts fr reply max_retries attempt last_err =
     (if int attempt < max_retries
      then (case judge_reply fr (int attempt < max_retries - 1) attempt (reply attempt) of
              Finished d \<Rightarrow> (Inr d, [])
            | Raised e \<Rightarrow> (Inl e, [])
            | TryAgain w err \<Rightarrow>
                (case attempts fr reply max_retries (Suc attempt) err of (r, ws) \<Rightarrow> (r, w # ws)))
      else (Inr (failed last_err), []))"
  by pat_completeness auto
termination
  by (relation "measure (\<lambda>(fr, reply, m, n, err). nat (m - int n))") auto

declare attempts.simps [simp del]

definition call_idealab ::
  "(pyfloat \<Rightarrow> ustr) \<Rightarrow> (json \<Rightarrow> nat \<Rightarrow> ustr + http_reply) \<Rightarrow> ustr \<Rightarrow> json list \<Rightarrow> int \<Rightarrow> ustr \<Rightarrow> ustr
     \<Rightarrow> dict py \<times> int list" where
  "call_idealab fr post system_prompt user_content max_retries thinking_level model =
     attempts fr (post (idealab_payload system_prompt user_content thinking_level model)) max_retries 0 []"

section \<open>Facts\<close>

lemma judge_try: "judge_reply fr again n o' = TryAgain w err \<Longrightarrow> again \<and> 1 \<le> w \<and> w \<le> 30"
proof -
  have "(1::int) \<le> 2 ^ n" by simp
  then have "(1::int) \<le> 3 * 2 ^ n" by linarith
  then have "1 \<le> backoff n \<and> backoff n \<le> 30" by (simp add: backoff_def)
  moreover assume "judge_reply fr again n o' = TryAgain w err"
  ultimately show ?thesis
    by (auto simp: judge_reply_def retry_or_fail_def Let_def split: sum.splits if_splits option.splits)
qed

text \<open>A reply with content: status 200 and a text that is not blank.\<close>

definition reply_says :: "(pyfloat \<Rightarrow> ustr) \<Rightarrow> ustr + http_reply \<Rightarrow> ustr \<Rightarrow> bool" where
  "reply_says fr o' output \<longleftrightarrow>
     (\<exists>resp data content. o' = Inr resp \<and> h_status resp = 200 \<and> h_json resp = Inr data
        \<and> reply_content data = Some content \<and> output_string fr content = Inr output \<and> output \<noteq> [])"

lemma succeeded_not_failed: "succeeded s \<noteq> failed e"
  by (simp add: succeeded_def failed_def)

lemma judge_says: "judge_reply fr again n o' = Finished d \<Longrightarrow>
    (\<exists>output. d = succeeded output \<and> reply_says fr o' output) \<or> (\<exists>err. d = failed err \<and> (\<forall>s. \<not> reply_says fr o' s))"
  by (auto simp: judge_reply_def retry_or_fail_def reply_says_def Let_def
      split: sum.splits if_splits option.splits)

lemma judge_again: "judge_reply fr again n o' = TryAgain w err \<Longrightarrow> \<not> reply_says fr o' s"
  by (auto simp: judge_reply_def retry_or_fail_def reply_says_def Let_def
      split: sum.splits if_splits option.splits)

text \<open>The call from one attempt on, with the waits it makes.\<close>

lemma attempts_facts:
  assumes "attempts fr reply m n err = (r, ws)"
  shows "int (length ws) \<le> max 0 (m - 1 - int n) \<and> list_all (\<lambda>w. 1 \<le> w \<and> w \<le> 30) ws
    \<and> (\<forall>i < length ws. \<forall>s. \<not> reply_says fr (reply (n + i)) s)
    \<and> (case r of Inl e \<Rightarrow> int (n + length ws) < m
       | Inr d \<Rightarrow> (\<exists>output. d = succeeded output \<and> int (n + length ws) < m \<and> reply_says fr (reply (n + length ws)) output)
           \<or> (\<exists>e. d = failed e \<and> (int n < m \<longrightarrow> (\<forall>s. \<not> reply_says fr (reply (n + length ws)) s))))"
  using assms
proof (induction fr reply m n err arbitrary: ws rule: attempts.induct)
  case (1 fr reply m n err)
  show ?case
  proof (cases "int n < m")
    case False
    then have "r = Inr (failed err)" "ws = []" using 1(2) by (simp_all add: attempts.simps)
    then show ?thesis using False by auto
  next
    case True
    show ?thesis
    proof (cases "judge_reply fr (int n < m - 1) n (reply n)")
      case (Finished d)
      then have "r = Inr d" "ws = []" using 1(2) True by (simp_all add: attempts.simps)
      then show ?thesis using judge_says [OF Finished] True by auto
    next
      case (Raised e)
      then have "r = Inl e" "ws = []" using 1(2) True by (simp_all add: attempts.simps)
      then show ?thesis using True by simp
    next
      case (TryAgain w err')
      obtain ws' where ws: "ws = w # ws'" "attempts fr reply m (Suc n) err' = (r, ws')"
        using 1(2) True TryAgain by (cases "attempts fr reply m (Suc n) err'") (auto simp: attempts.simps)
      have again: "int n < m - 1" "1 \<le> w" "w \<le> 30" using judge_try [OF TryAgain] by simp_all
      note ih = 1(1) [OF True TryAgain ws(2)]
      have "\<not> reply_says fr (reply (n + i)) s" if "i < length ws" for i s
        using that ih judge_again [OF TryAgain] ws(1) by (cases i) auto
      then show ?thesis using ih again ws(1) by (auto split: sum.splits)
    qed
  qed
qed

lemma judge_raise: "judge_reply fr again n o' = Raised e \<Longrightarrow> \<not> reply_says fr o' s"
  by (auto simp: judge_reply_def retry_or_fail_def reply_says_def Let_def
      split: sum.splits if_splits option.splits)

lemma attempts_raise:
  "attempts fr reply m n err = (Inl e, ws) \<Longrightarrow> \<not> reply_says fr (reply (n + length ws)) s"
proof (induction fr reply m n err arbitrary: ws rule: attempts.induct)
  case (1 fr reply m n err)
  from 1(2) have lt: "int n < m" by (simp add: attempts.simps split: if_splits)
  show ?case
  proof (cases "judge_reply fr (int n < m - 1) n (reply n)")
    case (Finished d)
    then show ?thesis using 1(2) lt by (simp add: attempts.simps)
  next
    case (Raised e')
    then show ?thesis using 1(2) lt judge_raise by (simp add: attempts.simps)
  next
    case (TryAgain w err')
    then obtain ws' where "ws = w # ws'" "attempts fr reply m (Suc n) err' = (Inl e, ws')"
      using 1(2) lt by (cases "attempts fr reply m (Suc n) err'") (auto simp: attempts.simps)
    then show ?thesis using 1(1) [OF lt TryAgain] by simp
  qed
qed

section \<open>Properties\<close>

text \<open>C23: A call ends after at most \<open>max_retries\<close> requests, with at most 30 seconds between two, and says
  that it succeeded exactly with the stripped text of its last reply, which had status 200; no earlier
  reply had a text. It raises only on such a reply whose content is of another type.\<close>

theorem idealab_call_ends:
  assumes "call_idealab fr post sys content max_retries level model = (r, ws)" and "0 < max_retries"
  defines "reply \<equiv> post (idealab_payload sys content level model)"
  shows "int (Suc (length ws)) \<le> max_retries \<and> list_all (\<lambda>w. 1 \<le> w \<and> w \<le> 30) ws
    \<and> (\<forall>i < length ws. \<forall>s. \<not> reply_says fr (reply i) s)
    \<and> (r = Inr (succeeded output) \<longleftrightarrow> reply_says fr (reply (length ws)) output)
    \<and> (\<forall>d. r = Inr d \<longrightarrow> (\<exists>s. d = succeeded s) \<or> (\<exists>e. d = failed e))"
proof -
  have a: "attempts fr reply max_retries 0 [] = (r, ws)"
    using assms(1) by (simp add: call_idealab_def reply_def)
  note facts = attempts_facts [OF a]
  have same: "s = s'" if "reply_says fr o' s" "reply_says fr o' s'" for o' s s'
    using that by (auto simp: reply_says_def)
  have "int (Suc (length ws)) \<le> max_retries" using facts assms(2) by (auto split: sum.splits)
  moreover have "r = Inr (succeeded output) \<longleftrightarrow> reply_says fr (reply (length ws)) output"
  proof (cases r)
    case (Inl e)
    then show ?thesis using attempts_raise [where n = 0 and s = "output"] a by fastforce
  next
    case (Inr d)
    then consider (s) out where "d = succeeded out" "reply_says fr (reply (length ws)) out"
      | (f) e where "d = failed e" "\<forall>s. \<not> reply_says fr (reply (length ws)) s"
      using facts assms(2) by auto
    then show ?thesis
    proof cases
      case s
      then show ?thesis using Inr same by (auto simp: succeeded_def)
    next
      case f
      then show ?thesis using Inr by (simp add: succeeded_def failed_def)
    qed
  qed
  moreover have "\<forall>d. r = Inr d \<longrightarrow> (\<exists>s. d = succeeded s) \<or> (\<exists>e. d = failed e)"
    using facts by auto
  ultimately show ?thesis using facts by simp
qed

definition demo_reply :: "nat \<Rightarrow> ustr + http_reply" where
  "demo_reply n = (if n = 0 then Inl (u ''ReadTimeout: timed out'')
     else Inr \<lparr>h_status = 200, h_text = [], h_json = Inr (JObj [(key_choices, JArr [JObj [(key_message,
       JObj [(key_content, JArr [JObj [(key_text, JStr (u '' {\"answer\":''))], JStr (u ''1} '')])])]])])\<rparr>)"

lemma demo_call: "call_idealab (\<lambda>_. []) (\<lambda>_. demo_reply) [] [] 3 (u ''high'') (u ''gemini'')
    = (Inr (succeeded (u ''{\"answer\":1}'')), [3])"
  unfolding call_idealab_def by (subst attempts.simps, code_simp)

theorem idealab_call_ends_witness:
  "int (Suc (length [3 :: int])) \<le> 3 \<and> reply_says (\<lambda>_. []) (demo_reply 1) (u ''{\"answer\":1}'')"
  using idealab_call_ends [OF demo_call, of "u ''{\"answer\":1}''"] by simp

end
