(* ===== verification/GeminiBatch.thy ===== *)
theory GeminiBatch
  imports IdealabClient
begin

text \<open>
  \<^verbatim>\<open>run_gemini.py\<close>: the remote service writes a chain of thought, an answer, a summary and box
  descriptions for every item of a dataset file. Replies are parsed and validated; accepted ones are
  appended to the output file, the others to a failure file, and a later run skips what the output file
  has. Parameters: the long system prompt, the network, the order in which the pool's calls complete,
  and the texts of the code's messages.
\<close>

section \<open>Comparing JSON values\<close>

text \<open>Python's \<open>==\<close>: numbers by value, dicts without order.\<close>

lemma array_member_size: "v \<in> set vs \<Longrightarrow> size v < size (JArr vs)"
  by (induction vs) auto

lemma object_member_size: "(k, v) \<in> set d \<Longrightarrow> size v < size (JObj d)"
  by (induction d) auto

function json_eq :: "json \<Rightarrow> json \<Rightarrow> bool" where
  "json_eq a b =
     (case (a, b) of
        (JArr xs, JArr ys) \<Rightarrow> length xs = length ys \<and> list_all (\<lambda>(x, y). json_eq x y) (zip xs ys)
      | (JObj xs, JObj ys) \<Rightarrow>
          length xs = length ys
          \<and> list_all (\<lambda>(k, v). case map_of ys k of None \<Rightarrow> False | Some w \<Rightarrow> json_eq v w) xs
      | (JArr xs, _) \<Rightarrow> False
      | (JObj xs, _) \<Rightarrow> False
      | _ \<Rightarrow> scalar_eq a b)"
  by pat_completeness auto
termination
  by (relation "measure (size \<circ> fst)")
     (auto simp del: json.size intro: array_member_size [OF set_zip_leftD] object_member_size)

declare json_eq.simps [simp del]


section \<open>The request\<close>

text \<open>\<open>json.dumps(objects, ensure_ascii=False, indent=2)\<close>.\<close>

definition new_line :: "nat \<Rightarrow> ustr" where
  "new_line level = 10 # replicate (2 * level) 32"

fun dumps_indent :: "(pyfloat \<Rightarrow> ustr) \<Rightarrow> nat \<Rightarrow> json \<Rightarrow> ustr" where
  "dumps_indent fr level (JArr vs) =
     (if vs = [] then [91, 93]
      else [91] @ new_line (Suc level)
        @ py_join (44 # new_line (Suc level)) (map (dumps_indent fr (Suc level)) vs) @ new_line level @ [93])"
| "dumps_indent fr level (JObj kvs) =
     (if kvs = [] then [123, 125]
      else [123] @ new_line (Suc level)
        @ py_join (44 # new_line (Suc level))
            (map (\<lambda>(k, v). dumps_str k @ [58, 32] @ dumps_indent fr (Suc level) v) kvs) @ new_line level @ [125])"
| "dumps_indent fr level v = dumps_json fr v"

definition key_objects :: ustr where "key_objects = u ''objects''"
definition key_bg_ambiguous :: ustr where "key_bg_ambiguous = u ''bg_ambiguous''"
definition key_bg_global :: ustr where "key_bg_global = u ''bg_global''"
definition key_note :: ustr where "key_note = u ''note''"
definition key_cot :: ustr where "key_cot = u ''cot''"
definition key_line :: ustr where "key_line = u ''line''"
definition key_record_id :: ustr where "key_record_id = u ''record_id''"
definition key_box :: ustr where "key_box = u ''box''"
definition key_description :: ustr where "key_description = u ''description''"

definition url_keys :: "ustr list" where
  "url_keys = map u [''image_a_url'', ''image_b_url'', ''annotated_b_url'']"

definition objects_of :: "dict \<Rightarrow> json" where
  "objects_of item = dict_get_or item key_objects (JArr [])"

definition request_text :: "(pyfloat \<Rightarrow> ustr) \<Rightarrow> dict \<Rightarrow> ustr" where
  "request_text fr item =
     u ''[note]'' @ [10] @ py_str fr (dict_get_or item key_note (JStr []))
     @ [10, 10] @ u ''[bg_global]'' @ [10] @ py_str fr (dict_get_or item key_bg_global (JBool False))
     @ [10, 10] @ u ''[bg_ambiguous]'' @ [10] @ py_str fr (dict_get_or item key_bg_ambiguous (JBool False))
     @ [10, 10] @ u ''[objects]'' @ [10] @ dumps_indent fr 0 (objects_of item)
     @ [10, 10] @ u ''[3D direction convention reminder]'' @ [10]
     @ u ''For move3d objects, dir3d = [x, y, z] means: x+ = RIGHT, y+ = UP, z+ = INTO the screen (away from viewer). Negative values mean the opposite: x- = LEFT, y- = DOWN, z- = OUT of the screen (toward viewer). Check each sign carefully before describing the direction.''
     @ [10, 10]
     @ u ''Generate the CoT, answer, summary, and bbox descriptions for this sample. Output strictly in the JSON format specified in the system prompt.''"

definition key_type :: ustr where "key_type = u ''type''"

definition text_part :: "ustr \<Rightarrow> json" where
  "text_part t = JObj [(key_type, JStr (u ''text'')), (key_text, JStr t)]"

definition image_part :: "json \<Rightarrow> json" where
  "image_part url = JObj [(key_type, JStr (u ''image_url'')), (u ''image_url'', JObj [(u ''url'', url)])]"

definition user_content :: "(pyfloat \<Rightarrow> ustr) \<Rightarrow> dict \<Rightarrow> json list" where
  "user_content fr item =
     text_part (request_text fr item)
     # map image_part (filter truthy (map (\<lambda>k. dict_get_or item k (JStr [])) url_keys))"

section \<open>Reading the reply\<close>

definition fence :: ustr where "fence = [96, 96, 96]"

text \<open>The group of the fenced expression: up to the last brace that blanks and a fence follow.\<close>

fun last_fence :: "ustr \<Rightarrow> ustr option" where
  "last_fence [] = None"
| "last_fence (c # cs) =
     (case last_fence cs of
        Some p \<Rightarrow> Some (c # p)
      | None \<Rightarrow> if c = 125 \<and> starts_with fence (dropWhile is_space cs) then Some [c] else None)"

definition fence_body :: "ustr \<Rightarrow> ustr option" where
  "fence_body s =
     (let r = dropWhile is_space (if starts_with (u ''json'') s then drop 4 s else s)
      in case r of c # cs \<Rightarrow> if c = 123 then map_option (Cons c) (last_fence cs) else None | [] \<Rightarrow> None)"

fun fenced :: "ustr \<Rightarrow> ustr option" where
  "fenced [] = None"
| "fenced (c # cs) =
     (if starts_with fence (c # cs)
      then (case fence_body (drop 3 (c # cs)) of Some g \<Rightarrow> Some g | None \<Rightarrow> fenced cs)
      else fenced cs)"

definition json_span :: "ustr \<Rightarrow> ustr" where
  "json_span text =
     (let t = py_strip text
      in case fenced t of
           Some g \<Rightarrow> g
         | None \<Rightarrow>
             (case (py_find [123] t, py_rfind [125] t) of
                (Some a, Some b) \<Rightarrow> if a < b then take (Suc b - a) (drop a t) else t
              | _ \<Rightarrow> t))"

definition extract_json :: "ustr \<Rightarrow> json py" where
  "extract_json text = json_loads (json_span text)"

section \<open>Validation\<close>

text \<open>The maximal runs of word characters, each with the text up to the next.\<close>

function word_runs :: "ustr \<Rightarrow> (ustr \<times> ustr) list" where
  "word_runs s =
     (case dropWhile (\<lambda>c. \<not> is_word c) s of
        [] \<Rightarrow> []
      | c # cs \<Rightarrow>
          (let rest = dropWhile is_word cs
           in (c # takeWhile is_word cs, takeWhile (\<lambda>c. \<not> is_word c) rest) # word_runs rest))"
  by pat_completeness auto
termination
proof (relation "measure length", simp, goal_cases)
  case (1 s c cs rest)
  have "length (dropWhile is_word cs) \<le> length cs" by (rule length_dropWhile_le)
  moreover have "length (c # cs) \<le> length s" using 1(1) length_dropWhile_le by metis
  ultimately show ?case using 1(2) by simp
qed

declare word_runs.simps [simp del]

definition blank_gap :: "ustr \<Rightarrow> bool" where
  "blank_gap g \<longleftrightarrow> g \<noteq> [] \<and> list_all is_space g"

definition verb_words :: "ustr list" where
  "verb_words = map u [''deleting'', ''adding'', ''replacing'', ''moving'', ''rotating'',
     ''deleted'', ''added'', ''replaced'', ''moved'', ''rotated'']"

definition be_words :: "ustr list" where
  "be_words = map u [''is'', ''are'', ''was'', ''were'', ''be'', ''been'', ''being'']"

definition need_words :: "ustr list" where
  "need_words = map u [''need'', ''needs'', ''should'', ''must'']"

definition ed_word :: "ustr \<Rightarrow> bool" where "ed_word w \<longleftrightarrow> 3 \<le> length w \<and> ends_with (u ''ed'') w"
definition ing_word :: "ustr \<Rightarrow> bool" where "ing_word w \<longleftrightarrow> 4 \<le> length w \<and> ends_with (u ''ing'') w"

text \<open>The four expressions of \<open>BAD_VERB_PATTERNS\<close> at a word and those after it.\<close>

fun bad_verb_at :: "(ustr \<times> ustr) list \<Rightarrow> bool" where
  "bad_verb_at [] = False"
| "bad_verb_at ((w, g) # rest) =
     (w \<in> set verb_words
      \<or> (w \<in> set be_words \<and> blank_gap g \<and> (case rest of (x, _) # _ \<Rightarrow> ed_word x | [] \<Rightarrow> False))
      \<or> (w \<in> set need_words \<and> blank_gap g
         \<and> (case rest of
              (x, h) # later \<Rightarrow>
                ing_word x
                \<or> (x = u ''be'' \<and> blank_gap h \<and> (case later of (y, _) # _ \<Rightarrow> ing_word y | [] \<Rightarrow> False))
            | [] \<Rightarrow> False))
      \<or> bad_verb_at rest)"

definition conjugated :: "ustr \<Rightarrow> bool" where
  "conjugated description = bad_verb_at (word_runs description)"

definition FORBIDDEN_TERMS :: "ustr list" where
  "FORBIDDEN_TERMS = map u [''annotat'', ''third image'', ''labeled image'', ''marked image'', ''bounding box image'']"

definition DEFAULT_SUMMARY_CONSISTENT :: ustr where
  "DEFAULT_SUMMARY_CONSISTENT = u ''The relative positions, orientations, and backgrounds of the characters in Figure A and Figure B are basically consistent''"

datatype problem =
    NotDict | MissingField ustr | BadAnswer | WrongAnswer | EmptyCot | UndecidedCot | EmptySummary
  | CountMismatch | BoxMismatch nat ustr | NoDescription nat | BadVerb nat | Forbidden ustr ustr

text \<open>\<open>v.strip()\<close>, \<open>v.get(k)\<close> and \<open>len(v)\<close> on values of any type.\<close>

definition as_string :: "json \<Rightarrow> ustr py" where
  "as_string v = (case v of JStr s \<Rightarrow> Inr s | _ \<Rightarrow> Inl AttributeError)"

definition as_dict :: "json \<Rightarrow> dict py" where
  "as_dict v = (case v of JObj d \<Rightarrow> Inr d | _ \<Rightarrow> Inl AttributeError)"

definition as_items :: "json \<Rightarrow> json list py" where
  "as_items v =
     (case v of
        JArr vs \<Rightarrow> Inr vs
      | JStr s \<Rightarrow> Inr (map (\<lambda>c. JStr [c]) s)
      | JObj d \<Rightarrow> Inr (map (\<lambda>(k, _). JStr k) d)
      | _ \<Rightarrow> Inl TypeError)"

definition box_keys :: "ustr list" where "box_keys = [[120], [121], [119], [104]]"

definition check_object :: "nat \<Rightarrow> json \<Rightarrow> json \<Rightarrow> problem option py" where
  "check_object i inp out =
     bindE (as_dict inp) (\<lambda>di. bindE (as_dict (dict_get_or di key_box (JObj []))) (\<lambda>ib.
     bindE (as_dict out) (\<lambda>do'. bindE (as_dict (dict_get_or do' key_box (JObj []))) (\<lambda>ob.
       case find (\<lambda>k. \<not> json_eq (dict_get ib k) (dict_get ob k)) box_keys of
         Some k \<Rightarrow> Inr (Some (BoxMismatch i k))
       | None \<Rightarrow>
           bindE (as_string (dict_get_or do' key_description (JStr []))) (\<lambda>desc.
             if py_strip desc = [] then Inr (Some (NoDescription i))
             else if conjugated (py_lower (py_strip desc)) then Inr (Some (BadVerb i))
             else Inr None)))))"

fun check_pairs :: "nat \<Rightarrow> (json \<times> json) list \<Rightarrow> problem option py" where
  "check_pairs i [] = Inr None"
| "check_pairs i ((inp, out) # rest) =
     bindE (check_object i inp out) (\<lambda>p. case p of Some e \<Rightarrow> Inr (Some e) | None \<Rightarrow> check_pairs (Suc i) rest)"

definition forbidden_in :: "ustr \<Rightarrow> ustr \<Rightarrow> problem option" where
  "forbidden_in field text =
     map_option (Forbidden field) (find (\<lambda>t. contains t (py_lower text)) FORBIDDEN_TERMS)"

text \<open>\<open>validate\<close>: the problem, if any, and the object, whose empty summary may have been filled in.\<close>

definition validate ::
  "(pyfloat \<Rightarrow> ustr) \<Rightarrow> json \<Rightarrow> json \<Rightarrow> bool \<Rightarrow> json \<Rightarrow> (problem option \<times> json) py" where
  "validate fr obj input_objects bg_ambiguous note =
     (case obj of
        JObj d \<Rightarrow>
          (case find (\<lambda>k. \<not> has_key d k) [key_answer, key_cot, key_summary, key_objects] of
             Some k \<Rightarrow> Inr (Some (MissingField k), obj)
           | None \<Rightarrow>
             (let ans = py_lower (py_strip (py_str fr (dict_get d key_answer)));
                  expected = (if bg_ambiguous then u ''consistent'' else u ''inconsistent'')
              in if ans \<notin> {u ''consistent'', u ''inconsistent''} then Inr (Some BadAnswer, obj)
                 else if ans \<noteq> expected then Inr (Some WrongAnswer, obj)
                 else bindE (as_string (dict_get d key_cot)) (\<lambda>cot.
                   if py_strip cot = [] then Inr (Some EmptyCot, obj)
                   else if bg_ambiguous \<and> \<not> contains (u ''cannot be determined'') (py_lower cot)
                   then Inr (Some UndecidedCot, obj)
                   else bindE (as_string (dict_get d key_summary)) (\<lambda>given.
                     if py_strip given = [] \<and> \<not> (bg_ambiguous \<and> py_strip (py_str fr note) = [])
                     then Inr (Some EmptySummary, obj)
                     else
                       (let summary = (if py_strip given = [] then DEFAULT_SUMMARY_CONSISTENT else given);
                            d' = (if py_strip given = [] then AList.update key_summary (JStr summary) d else d)
                        in bindE (as_items (dict_get d key_objects)) (\<lambda>outs.
                           bindE (as_items input_objects) (\<lambda>inps.
                             if length outs \<noteq> length inps then Inr (Some CountMismatch, JObj d')
                             else bindE (check_pairs 0 (zip inps outs)) (\<lambda>p.
                               case p of
                                 Some e \<Rightarrow> Inr (Some e, JObj d')
                               | None \<Rightarrow>
                                   (case forbidden_in key_cot cot of
                                      Some e \<Rightarrow> Inr (Some e, JObj d')
                                    | None \<Rightarrow> Inr (forbidden_in key_summary summary, JObj d'))))))))))
      | _ \<Rightarrow> Inr (Some NotDict, obj))"

section \<open>One item\<close>

definition MODEL :: ustr where "MODEL = u ''gemini-3.5-flash''"

datatype fail_reason = RemoteFailure json | Invalid problem | Unparsable py_exn
datatype item_outcome = Accepted dict ustr | Rejected fail_reason ustr

record gemini_env =
  m_fr :: "pyfloat \<Rightarrow> ustr"
  m_system :: ustr
  m_post :: "json \<Rightarrow> nat \<Rightarrow> ustr + http_reply"
  m_level :: ustr
  m_order :: "dict list \<Rightarrow> dict list"
  m_text :: "fail_reason \<Rightarrow> ustr"

text \<open>\<open>obj["line"] = ...\<close>, which a list or a scalar refuses with a \<open>TypeError\<close>.\<close>

definition set_line :: "dict \<Rightarrow> json \<Rightarrow> json py" where
  "set_line item obj =
     (case obj of
        JObj d \<Rightarrow> Inr (JObj (AList.update key_line (dict_get_or item key_line (JInt 0)) d))
      | _ \<Rightarrow> Inl TypeError)"

definition read_object :: "(pyfloat \<Rightarrow> ustr) \<Rightarrow> dict \<Rightarrow> ustr \<Rightarrow> (problem option \<times> json) py" where
  "read_object fr item raw =
     bindE (extract_json raw) (\<lambda>obj. bindE (set_line item obj) (\<lambda>obj'.
       validate fr obj' (objects_of item) (truthy (dict_get_or item key_bg_ambiguous (JBool False)))
         (dict_get_or item key_note (JStr []))))"

definition process_one :: "gemini_env \<Rightarrow> dict \<Rightarrow> item_outcome py" where
  "process_one env item =
     bindE (fst (call_idealab (m_fr env) (m_post env) (m_system env) (user_content (m_fr env) item) 3
              (m_level env) MODEL)) (\<lambda>result.
       if \<not> truthy (dict_get result key_ok)
       then Inr (Rejected (RemoteFailure (dict_get result key_error)) [])
       else
         (let raw = (case dict_get result key_text of JStr s \<Rightarrow> s | _ \<Rightarrow> [])
          in case read_object (m_fr env) item raw of
               Inl e \<Rightarrow> if is_ValueError e \<or> e = KeyError then Inr (Rejected (Unparsable e) raw) else Inl e
             | Inr (Some p, _) \<Rightarrow> Inr (Rejected (Invalid p) raw)
             | Inr (None, obj) \<Rightarrow> Inr (Accepted (case obj of JObj d \<Rightarrow> d | _ \<Rightarrow> []) raw)))"

section \<open>The run\<close>

definition out_record :: "dict \<Rightarrow> dict \<Rightarrow> dict" where
  "out_record item d =
     [(key_record_id, dict_get_or item key_record_id (JInt 0)), (key_line, dict_get_or item key_line (JInt 0)),
      (u ''dataset_id'', dict_get_or item (u ''dataset_id'') (JStr []))]
     @ map (\<lambda>k. (k, dict_get_or item k (JStr []))) url_keys
     @ [(key_note, dict_get_or item key_note (JStr [])),
        (key_bg_global, dict_get_or item key_bg_global (JBool False)),
        (key_bg_ambiguous, dict_get_or item key_bg_ambiguous (JBool False)),
        (u ''input_objects'', objects_of item), (key_answer, dict_get d key_answer),
        (key_cot, dict_get d key_cot), (key_summary, dict_get d key_summary),
        (key_objects, dict_get d key_objects)]"

definition reason_value :: "gemini_env \<Rightarrow> fail_reason \<Rightarrow> json" where
  "reason_value env r = (case r of RemoteFailure v \<Rightarrow> v | _ \<Rightarrow> JStr (m_text env r))"

definition fail_record :: "gemini_env \<Rightarrow> dict \<Rightarrow> fail_reason \<Rightarrow> ustr \<Rightarrow> dict" where
  "fail_record env item r raw =
     [(key_record_id, dict_get_or item key_record_id (JInt 0)), (key_line, dict_get_or item key_line (JInt 0)),
      (key_error, reason_value env r), (u ''raw'', JStr (take 500 raw))]"

definition json_line :: "(pyfloat \<Rightarrow> ustr) \<Rightarrow> dict \<Rightarrow> ustr" where
  "json_line fr d = dumps_json fr (JObj d) @ [10]"

text \<open>Writing encodes the text first; a surrogate raises and leaves the file as it was.\<close>

definition add_line :: "(pyfloat \<Rightarrow> ustr) \<Rightarrow> dict \<Rightarrow> ustr list \<Rightarrow> ustr list \<times> unit py" where
  "add_line fr d lines =
     (case utf8_encode (json_line fr d) of Inl e \<Rightarrow> (lines, Inl e) | Inr _ \<Rightarrow> (lines @ [json_line fr d], Inr ()))"

definition hashable :: "json \<Rightarrow> bool" where
  "hashable v = (case v of JArr _ \<Rightarrow> False | JObj _ \<Rightarrow> False | _ \<Rightarrow> True)"

text \<open>The counting of object types, before the record is written.\<close>

definition count_types :: "dict \<Rightarrow> unit py" where
  "count_types item =
     bindE (as_items (objects_of item)) (\<lambda>objs.
       bindE (mapE (\<lambda>o'. bindE (as_dict o') (\<lambda>d.
                 if hashable (dict_get_or d key_type (JStr (u ''unknown''))) then Inr () else Inl TypeError)) objs)
         (\<lambda>_. Inr ()))"

type_synonym gemini_files = "ustr list \<times> ustr list"

definition handle :: "gemini_env \<Rightarrow> dict \<Rightarrow> gemini_files \<Rightarrow> gemini_files \<times> unit py" where
  "handle env item fs =
     (case process_one env item of
        Inl e \<Rightarrow> (fs, Inl e)
      | Inr (Accepted d raw) \<Rightarrow>
          (case count_types item of
             Inl e \<Rightarrow> (fs, Inl e)
           | Inr _ \<Rightarrow> (case add_line (m_fr env) (out_record item d) (fst fs) of (out, r) \<Rightarrow> ((out, snd fs), r)))
      | Inr (Rejected reason raw) \<Rightarrow>
          (case add_line (m_fr env) (fail_record env item reason raw) (snd fs) of (fl, r) \<Rightarrow> ((fst fs, fl), r)))"

text \<open>The pool: every item is handled, also after one has raised; the first exception leaves at the end.\<close>

fun run_items :: "gemini_env \<Rightarrow> dict list \<Rightarrow> gemini_files \<Rightarrow> gemini_files \<times> unit py" where
  "run_items env [] fs = (fs, Inr ())"
| "run_items env (item # rest) fs =
     (case handle env item fs of
        (fs', r) \<Rightarrow> (case run_items env rest fs' of
                      (fs'', r') \<Rightarrow> (fs'', case r of Inl e \<Rightarrow> Inl e | Inr _ \<Rightarrow> r')))"

fun read_items :: "nat \<Rightarrow> ustr list \<Rightarrow> dict list py" where
  "read_items idx [] = Inr []"
| "read_items idx (line # rest) =
     (let t = py_strip line
      in if t = [] then read_items (Suc idx) rest
         else bindE (json_loads t) (\<lambda>v.
                case v of
                  JObj d \<Rightarrow> bindE (read_items (Suc idx) rest)
                              (\<lambda>ds. Inr (AList.update key_record_id (JInt (int idx)) d # ds))
                | _ \<Rightarrow> Inl TypeError))"

definition load_done_records :: "ustr list \<Rightarrow> json list" where
  "load_done_records lines =
     List.map_filter (\<lambda>line.
       case json_loads line of
         Inr (JObj d) \<Rightarrow>
           (case map_of d key_record_id of
              Some v \<Rightarrow> if hashable v then Some v else None
            | None \<Rightarrow> None)
       | _ \<Rightarrow> None) lines"

definition todo_items :: "dict list \<Rightarrow> int \<Rightarrow> ustr list \<Rightarrow> dict list" where
  "todo_items items limit out =
     (let done_ids = load_done_records out;
          todo = filter (\<lambda>it. \<not> list_ex (\<lambda>v. json_eq v (dict_get it key_record_id)) done_ids) items
      in if 0 < limit then take (nat limit) todo else todo)"

text \<open>\<open>main\<close> with an API key: the output and the failure file, as lists of lines.\<close>

definition gemini_main :: "gemini_env \<Rightarrow> ustr list \<Rightarrow> int \<Rightarrow> gemini_files \<Rightarrow> gemini_files \<times> unit py" where
  "gemini_main env input limit fs =
     (case read_items 0 input of
        Inl e \<Rightarrow> (fs, Inl e)
      | Inr items \<Rightarrow>
          (let todo = todo_items items limit (fst fs)
           in if todo = [] then (fs, Inr ()) else run_items env (m_order env todo) fs))"

section \<open>What validation guarantees\<close>

definition object_ok :: "json \<Rightarrow> json \<Rightarrow> bool" where
  "object_ok inp out \<longleftrightarrow>
     (\<exists>di do' ib ob desc. inp = JObj di \<and> out = JObj do'
        \<and> dict_get_or di key_box (JObj []) = JObj ib \<and> dict_get_or do' key_box (JObj []) = JObj ob
        \<and> (\<forall>k \<in> set box_keys. json_eq (dict_get ib k) (dict_get ob k))
        \<and> dict_get_or do' key_description (JStr []) = JStr desc \<and> py_strip desc \<noteq> []
        \<and> \<not> conjugated (py_lower (py_strip desc)))"

definition clean_text :: "ustr \<Rightarrow> bool" where
  "clean_text t \<longleftrightarrow> py_strip t \<noteq> [] \<and> (\<forall>w \<in> set FORBIDDEN_TERMS. \<not> contains w (py_lower t))"

definition ambiguous :: "dict \<Rightarrow> bool" where
  "ambiguous item = truthy (dict_get_or item key_bg_ambiguous (JBool False))"

text \<open>The rules a record of the output file meets: \<open>d\<close> has its answer, texts and objects.\<close>

definition meets_rules :: "(pyfloat \<Rightarrow> ustr) \<Rightarrow> dict \<Rightarrow> dict \<Rightarrow> bool" where
  "meets_rules fr item d \<longleftrightarrow>
     py_lower (py_strip (py_str fr (dict_get d key_answer)))
       = (if ambiguous item then u ''consistent'' else u ''inconsistent'')
     \<and> (\<exists>cot summary. dict_get d key_cot = JStr cot \<and> dict_get d key_summary = JStr summary
          \<and> clean_text cot \<and> clean_text summary
          \<and> (ambiguous item \<longrightarrow> contains (u ''cannot be determined'') (py_lower cot)))
     \<and> (\<exists>inps outs. as_items (objects_of item) = Inr inps \<and> as_items (dict_get d key_objects) = Inr outs
          \<and> list_all2 object_ok inps outs)"

lemma get_string: "as_string v = Inr s \<longleftrightarrow> v = JStr s"
  by (auto simp: as_string_def split: json.splits)

lemma get_dict: "as_dict v = Inr d \<longleftrightarrow> v = JObj d"
  by (auto simp: as_dict_def split: json.splits)

lemma check_object_None: "check_object i inp out = Inr None \<Longrightarrow> object_ok inp out"
  by (auto simp: check_object_def object_ok_def bindE_eq_Inr get_string get_dict find_None_iff
      split: option.splits if_splits)

lemma check_pairs_None: "check_pairs i ps = Inr None \<Longrightarrow> (a, b) \<in> set ps \<Longrightarrow> object_ok a b"
proof (induction i ps rule: check_pairs.induct)
  case (2 i inp out rest)
  from 2(2) have "check_object i inp out = Inr None" "check_pairs (Suc i) rest = Inr None"
    by (auto simp: bindE_eq_Inr split: option.splits)
  then show ?case using 2(1,3) check_object_None by auto
qed simp

lemma forbidden_None: "forbidden_in f t = None \<longleftrightarrow> (\<forall>w \<in> set FORBIDDEN_TERMS. \<not> contains w (py_lower t))"
  by (auto simp: forbidden_in_def find_None_iff)

lemma default_summary: "py_strip DEFAULT_SUMMARY_CONSISTENT \<noteq> []"
  by code_simp

lemma keys_apart: "distinct [key_answer, key_cot, key_summary, key_objects, key_line, key_record_id]"
  by code_simp

lemma validate_sound:
  assumes "validate fr obj (objects_of item) (ambiguous item) note = Inr (None, obj')"
  shows "\<exists>d. obj' = JObj d \<and> meets_rules fr item d"
proof -
  from assms obtain d where d: "obj = JObj d" by (auto simp: validate_def split: json.splits)
  obtain cot given outs inps where
    ans: "py_lower (py_strip (py_str fr (dict_get d key_answer)))
      = (if ambiguous item then u ''consistent'' else u ''inconsistent'')"
    and cot: "dict_get d key_cot = JStr cot" "py_strip cot \<noteq> []"
      "ambiguous item \<longrightarrow> contains (u ''cannot be determined'') (py_lower cot)"
    and given: "dict_get d key_summary = JStr given"
    and objs: "as_items (dict_get d key_objects) = Inr outs" "as_items (objects_of item) = Inr inps"
      "length outs = length inps" "check_pairs 0 (zip inps outs) = Inr None"
    and clean: "forbidden_in key_cot cot = None"
      "forbidden_in key_summary (if py_strip given = [] then DEFAULT_SUMMARY_CONSISTENT else given) = None"
    and obj': "obj' = JObj (if py_strip given = []
      then AList.update key_summary (JStr DEFAULT_SUMMARY_CONSISTENT) d else d)"
    using assms unfolding d validate_def
    by (auto simp: bindE_eq_Inr get_string Let_def split: option.splits if_splits)
  let ?sum = "if py_strip given = [] then DEFAULT_SUMMARY_CONSISTENT else given"
  let ?d = "if py_strip given = [] then AList.update key_summary (JStr DEFAULT_SUMMARY_CONSISTENT) d else d"
  have get: "dict_get ?d k = (if k = key_summary then JStr ?sum else dict_get d k)" for k
    using given by (auto simp: dict_get_def AList.update_conv')
  have "list_all2 object_ok inps outs"
    using objs(3) check_pairs_None [OF objs(4)] by (auto simp: list_all2_iff)
  then have "meets_rules fr item ?d"
    using ans cot clean objs(1,2) default_summary keys_apart
    by (auto simp: meets_rules_def get clean_text_def forbidden_None)
  then show ?thesis using obj' by blast
qed

lemma process_accepted:
  assumes "process_one env item = Inr (Accepted d raw)"
  shows "meets_rules (m_fr env) item d"
proof -
  from assms have r: "read_object (m_fr env) item raw = Inr (None, JObj d) \<or>
      (\<exists>obj. read_object (m_fr env) item raw = Inr (None, obj) \<and> (\<forall>d'. obj \<noteq> JObj d'))"
    unfolding process_one_def
    by (auto simp: bindE_eq_Inr Let_def split: if_splits sum.splits option.splits json.splits prod.splits)
  have sound: "\<exists>d'. obj = JObj d' \<and> meets_rules (m_fr env) item d'"
    if "read_object (m_fr env) item raw = Inr (None, obj)" for obj
    using that validate_sound unfolding read_object_def ambiguous_def by (auto simp: bindE_eq_Inr)
  show ?thesis using r sound by blast
qed

section \<open>What a run writes\<close>

definition item_id :: "dict \<Rightarrow> json" where
  "item_id item = dict_get item key_record_id"

text \<open>The items of an input file have different integers as their ids.\<close>

definition numbered :: "dict list \<Rightarrow> bool" where
  "numbered items \<longleftrightarrow>
     (\<exists>ids. map (\<lambda>it. map_of it key_record_id) items = map (\<lambda>i. Some (JInt i)) ids \<and> distinct ids)"

lemma read_items_ids:
  "read_items idx lines = Inr items \<Longrightarrow>
     \<exists>ids. map (\<lambda>it. map_of it key_record_id) items = map (\<lambda>i. Some (JInt i)) ids \<and> distinct ids
       \<and> (\<forall>i \<in> set ids. int idx \<le> i)"
proof (induction idx lines arbitrary: items rule: read_items.induct)
  case (1 idx)
  then show ?case by simp
next
  case (2 idx line rest)
  show ?case
  proof (cases "py_strip line = []")
    case True
    then obtain ids where "map (\<lambda>it. map_of it key_record_id) items = map (\<lambda>i. Some (JInt i)) ids"
      "distinct ids" "\<forall>i \<in> set ids. int (Suc idx) \<le> i"
      using 2 by fastforce
    then show ?thesis by (metis Suc_n_not_le_n nle_le of_nat_le_iff order_trans)
  next
    case False
    with 2(3) obtain v where v: "json_loads (py_strip line) = Inr v"
      "(case v of JObj d \<Rightarrow> bindE (read_items (Suc idx) rest)
           (\<lambda>ds. Inr (AList.update key_record_id (JInt (int idx)) d # ds)) | _ \<Rightarrow> Inl TypeError) = Inr items"
      by (simp add: bindE_eq_Inr Let_def) blast
    then obtain d ds where d: "json_loads (py_strip line) = Inr (JObj d)"
      "read_items (Suc idx) rest = Inr ds" "items = AList.update key_record_id (JInt (int idx)) d # ds"
      by (cases v) (auto simp: bindE_eq_Inr)
    from 2(2) [OF refl False d(1) refl d(2)] obtain ids where
      "map (\<lambda>it. map_of it key_record_id) ds = map (\<lambda>i. Some (JInt i)) ids"
      "distinct ids" "\<forall>i \<in> set ids. int (Suc idx) \<le> i" by blast
    then show ?thesis using d(3)
      by (intro exI [of _ "int idx # ids"]) (auto simp: AList.update_conv')
  qed
qed

lemma read_items_numbered: "read_items 0 lines = Inr items \<Longrightarrow> numbered items"
  using read_items_ids unfolding numbered_def by blast

end
