(* ===== verification/JsonType.thy ===== *)
theory JsonType
  imports JsonDump
begin

text \<open>
  The object of a reply, found wherever it stands, and the type of what \<open>json.loads\<close> returns: strings and keys are code points, the keys of every object are
  distinct, integers have at most 4300 digits. So what was read can be written with \<open>json.dumps\<close> and read
  again, wherever \<open>repr\<close> reads back the floats in it.
\<close>

definition short_int :: "int \<Rightarrow> bool" where
  "short_int i \<longleftrightarrow> \<bar>i\<bar> < 10 ^ nat max_int_digits"

fun json_typed :: "json \<Rightarrow> bool" where
  "json_typed (JInt i) = short_int i"
| "json_typed (JStr s) = nonneg s"
| "json_typed (JArr vs) = list_all json_typed vs"
| "json_typed (JObj kvs) = (list_all (\<lambda>(k, v). nonneg k \<and> json_typed v) kvs \<and> distinct (map fst kvs))"
| "json_typed v = True"

fun floats_in :: "json \<Rightarrow> real list" where
  "floats_in (JFloat (Fin x)) = [x]"
| "floats_in (JArr vs) = concat (map floats_in vs)"
| "floats_in (JObj kvs) = concat (map (\<lambda>(k, v). floats_in v) kvs)"
| "floats_in v = []"

section \<open>Texts and numbers\<close>

lemma nonneg_simps [simp]: "nonneg []" "nonneg (c # s) \<longleftrightarrow> 0 \<le> c \<and> nonneg s" "nonneg (s @ t) \<longleftrightarrow> nonneg s \<and> nonneg t"
  by (auto simp: nonneg_def)

lemma nonneg_sub: "nonneg s \<Longrightarrow> set t \<subseteq> set s \<Longrightarrow> nonneg t"
  by (auto simp: nonneg_def list_all_iff)

lemma nonneg_drop [intro]: "nonneg s \<Longrightarrow> nonneg (drop n s)"
  by (rule nonneg_sub) (auto dest: in_set_dropD)

lemma nonneg_dropWhile [intro]: "nonneg s \<Longrightarrow> nonneg (dropWhile f s)"
  by (rule nonneg_sub) (auto dest: set_dropWhileD)

lemma nonneg_skip [intro]: "nonneg s \<Longrightarrow> nonneg (skip_ws s)"
  by (auto simp: skip_ws_def)

lemma nonneg_skip_Cons: "nonneg s \<Longrightarrow> skip_ws s = c # r \<Longrightarrow> nonneg r"
  using nonneg_skip [of s] by simp

lemma hex4_nonneg: "hex4 a b c d = Some v \<Longrightarrow> 0 \<le> v"
  by (auto simp: hex4_def hex_val_def split: option.splits if_splits)

lemma low_escape_nonneg: "low_escape r = Some (l, t) \<Longrightarrow> nonneg r \<Longrightarrow> is_low l \<and> nonneg t"
  by (cases r rule: low_escape.cases) (auto split: if_splits option.splits)

lemma scan_escape_nonneg: "scan_escape s = Some (d, r) \<Longrightarrow> nonneg s \<Longrightarrow> 0 \<le> d \<and> nonneg r"
  unfolding scan_escape_def
  by (auto simp: json_escape_def is_high_def is_low_def join_surrogates_def hex4_nonneg
      split: list.splits if_splits option.splits dest: hex4_nonneg low_escape_nonneg)

lemma scan_unit_nonneg: "scan_unit s = Some (c, r) \<Longrightarrow> nonneg s \<Longrightarrow> (\<forall>d. c = Some d \<longrightarrow> 0 \<le> d) \<and> nonneg r"
  unfolding scan_unit_def by (auto split: list.splits if_splits dest: scan_escape_nonneg)

lemma scan_string_nonneg: "scan_string s = Some (t, r) \<Longrightarrow> nonneg s \<Longrightarrow> nonneg t \<and> nonneg r"
proof (induction s arbitrary: t r rule: scan_string.induct)
  case (1 s)
  show ?case
  proof (cases "scan_unit s")
    case None
    then show ?thesis using 1(2) by (simp add: scan_string.simps)
  next
    case (Some p)
    obtain c r1 where p: "p = (c, r1)" by (cases p)
    have n: "(\<forall>d. c = Some d \<longrightarrow> 0 \<le> d) \<and> nonneg r1" using scan_unit_nonneg 1(3) Some p by blast
    show ?thesis
    proof (cases c)
      case None
      then show ?thesis using 1(2) n Some p by (simp add: scan_string.simps)
    next
      case (Some d)
      then obtain cs where "scan_string r1 = Some (cs, r)" "t = d # cs"
        using 1(2) \<open>scan_unit s = Some p\<close> p by (subst (asm) scan_string.simps) auto
      then show ?thesis using 1(1) [OF \<open>scan_unit s = Some p\<close> p [symmetric] Some] n Some by simp
    qed
  qed
qed

lemma digits_val_bound:
  "list_all is_digit ds \<Longrightarrow> 0 \<le> acc \<Longrightarrow> 0 \<le> digits_val acc ds \<and> digits_val acc ds < (acc + 1) * 10 ^ length ds"
proof (induction ds arbitrary: acc)
  case (Cons c ds)
  have c: "0 \<le> c - 48" "c - 48 \<le> 9" using Cons.prems(1) by (simp_all add: is_digit_def)
  then have ih: "0 \<le> digits_val (acc * 10 + (c - 48)) ds"
    "digits_val (acc * 10 + (c - 48)) ds < (acc * 10 + (c - 48) + 1) * 10 ^ length ds"
    using Cons.IH [of "acc * 10 + (c - 48)"] Cons.prems by simp_all
  have "(acc * 10 + (c - 48) + 1) * 10 ^ length ds \<le> ((acc + 1) * 10) * 10 ^ length ds"
    using c by (intro mult_right_mono) simp_all
  then have "digits_val (acc * 10 + (c - 48)) ds < ((acc + 1) * 10) * 10 ^ length ds"
    using ih(2) by (rule order_less_le_trans [rotated])
  then show ?case using ih(1) by (simp only: digits_val.simps length_Cons power_Suc mult.assoc simp_thms)
qed simp

lemma takeWhile_digits: "list_all is_digit (takeWhile is_digit s)"
  by (auto simp: list_all_iff dest: set_takeWhileD)

lemma scan_int_part_digits:
  "scan_int_part s = Some (ip, r) \<Longrightarrow> list_all is_digit ip \<and> (nonneg s \<longrightarrow> nonneg r)"
  unfolding scan_int_part_def
  by (auto simp: takeWhile_digits is_digit_def [of 48] split: list.splits if_splits)

lemma scan_frac_nonneg: "scan_frac s = (fp, r) \<Longrightarrow> nonneg s \<Longrightarrow> nonneg r"
  by (auto simp: scan_frac_def split: list.splits if_splits)

lemma scan_exp_nonneg: "scan_exp s = (ex, r) \<Longrightarrow> nonneg s \<Longrightarrow> nonneg r"
  by (auto simp: scan_exp_def Let_def split: list.splits if_splits)

lemma int_literal:
  assumes "list_all is_digit ip" and "\<not> max_int_digits < int (length ip)"
  shows "short_int (digits_val 0 ip) \<and> short_int (- digits_val 0 ip)"
proof -
  have "digits_val 0 ip < 10 ^ length ip" "0 \<le> digits_val 0 ip"
    using digits_val_bound [OF assms(1), of 0] by simp_all
  moreover have "length ip \<le> nat max_int_digits" using assms(2) by linarith
  then have "(10 :: int) ^ length ip \<le> 10 ^ nat max_int_digits" by (rule power_increasing) simp
  ultimately have "\<bar>digits_val 0 ip\<bar> < 10 ^ nat max_int_digits" by linarith
  then show ?thesis by (simp only: short_int_def abs_minus_cancel)
qed

lemma scan_number_typed: "scan_number s = Inr (v, r) \<Longrightarrow> nonneg s \<Longrightarrow> json_typed v \<and> nonneg r"
proof -
  assume h: "scan_number s = Inr (v, r)" and s: "nonneg s"
  obtain neg s0 where s0: "(case s of c # r \<Rightarrow> if c = 45 then (True, r) else (False, s)
      | [] \<Rightarrow> (False, s)) = (neg, s0)" by fastforce
  have n0: "nonneg s0" using s0 s by (auto split: list.splits if_splits)
  from h s0 obtain ip r1 where ip: "scan_int_part s0 = Some (ip, r1)"
    by (auto simp: scan_number_def split: option.splits)
  obtain fp r2 where fp: "scan_frac r1 = (fp, r2)" by fastforce
  obtain ex r3 where ex: "scan_exp r2 = (ex, r3)" by fastforce
  have d: "list_all is_digit ip" "nonneg r1" using scan_int_part_digits [OF ip] n0 by simp_all
  have n3: "nonneg r3" using scan_exp_nonneg [OF ex scan_frac_nonneg [OF fp d(2)]] .
  show ?thesis
  proof (cases "fp = [] \<and> ex = None")
    case True
    then have "r = r3" "\<not> max_int_digits < int (length ip)"
      "v = JInt (if neg then - digits_val 0 ip else digits_val 0 ip)"
      using h s0 ip fp ex by (auto simp: scan_number_def split: if_splits)
    then show ?thesis using int_literal [OF d(1)] n3 by simp
  next
    case False
    then have "r = r3" "v = JFloat (to_float (decimal neg ip fp ex))"
      using h s0 ip fp ex by (auto simp: scan_number_def split: if_splits)
    then show ?thesis using n3 by simp
  qed
qed

section \<open>Values\<close>

definition items_typed :: "dict \<Rightarrow> bool" where
  "items_typed kvs \<longleftrightarrow> json_typed (JObj kvs)"

lemma items_typed_Nil: "items_typed []"
  by (simp add: items_typed_def)

lemma items_typed_update:
  "items_typed kvs \<Longrightarrow> nonneg k \<Longrightarrow> json_typed v \<Longrightarrow> items_typed (AList.update k v kvs)"
proof -
  assume a: "items_typed kvs" "nonneg k" "json_typed v"
  have "set (AList.update k v kvs) \<subseteq> insert (k, v) (set kvs)"
    by (induction kvs) auto
  then show ?thesis using a by (auto simp: items_typed_def list_all_iff distinct_update)
qed

lemma scan_typed:
  "scan_once n s = Inr (v, r) \<Longrightarrow> nonneg s \<Longrightarrow> json_typed v \<and> nonneg r"
  "scan_members n acc s = Inr (v, r) \<Longrightarrow> nonneg s \<Longrightarrow> items_typed acc \<Longrightarrow> json_typed v \<and> nonneg r"
  "scan_elems n vs s = Inr (v, r) \<Longrightarrow> nonneg s \<Longrightarrow> list_all json_typed vs \<Longrightarrow> json_typed v \<and> nonneg r"
proof (induction n s and n acc s and n vs s arbitrary: v r and v r and v r
    rule: scan_once_scan_members_scan_elems.induct)
  case (2 n s)
  show ?case
  proof (cases s)
    case (Cons c t)
    have t: "nonneg t" using 2(4) Cons by simp
    consider (str) "c = 34" | (obj) "c = 123" | (arr) "c = 91"
      | (other) "c \<noteq> 34" "c \<noteq> 123" "c \<noteq> 91" by blast
    then show ?thesis
    proof cases
      case str
      then show ?thesis using 2(3) Cons t by (auto split: option.splits dest: scan_string_nonneg)
    next
      case obj
      then obtain d r1 where r1: "skip_ws t = d # r1"
        using 2(3) Cons by (auto split: list.splits)
      have n1: "nonneg (d # r1)" using nonneg_skip [OF t] r1 by simp
      show ?thesis
      proof (cases "d = 125")
        case True
        then show ?thesis using 2(3) Cons obj r1 n1 by auto
      next
        case False
        then have "scan_members n [] (d # r1) = Inr (v, r)" using 2(3) Cons obj r1 by simp
        then show ?thesis using 2(1) [OF Cons _ _ r1] obj False n1 items_typed_Nil by simp
      qed
    next
      case arr
      then obtain d r1 where r1: "skip_ws t = d # r1"
        using 2(3) Cons by (auto split: list.splits)
      have n1: "nonneg (d # r1)" using nonneg_skip [OF t] r1 by simp
      show ?thesis
      proof (cases "d = 93")
        case True
        then show ?thesis using 2(3) Cons arr r1 n1 by auto
      next
        case False
        then have "scan_elems n [] (d # r1) = Inr (v, r)" using 2(3) Cons arr r1 by simp
        then show ?thesis using 2(2) [OF Cons _ _ _ r1] arr False n1 by simp
      qed
    next
      case other
      have num: "scan_number (c # t) = Inr (v, r) \<Longrightarrow> json_typed v \<and> nonneg r"
        using scan_number_typed 2(4) Cons by blast
      have d: "nonneg (drop m t)" for m using t by auto
      show ?thesis
        using 2(3) Cons other num d 2(4) by (auto split: if_splits)
    qed
  qed (use 2 in simp)
next
  case (4 n acc s)
  show ?case
  proof (cases s)
    case (Cons q t)
    with "4.prems" obtain k r1 where k: "scan_string t = Some (k, r1)" and q: "q = 34"
      by (auto split: if_splits option.splits)
    have n1: "nonneg k" "nonneg r1" using scan_string_nonneg [OF k] "4.prems"(2) Cons by simp_all
    with "4.prems" Cons k q obtain r2 where r2: "skip_ws r1 = 58 # r2"
      by (auto split: if_splits option.splits list.splits)
    have n2: "nonneg (skip_ws r2)" using nonneg_skip_Cons [OF n1(2) r2] by auto
    with "4.prems" Cons k q r2 obtain w r3 where w: "scan_once n (skip_ws r2) = Inr (w, r3)"
      by (auto split: if_splits option.splits list.splits)
    have n3: "json_typed w" "nonneg r3" using "4.IH"(1) [OF Cons _ k _ r2 _ w n2] q by simp_all
    from "4.prems" Cons k q r2 w obtain d r4 where r4: "skip_ws r3 = d # r4"
      by (auto split: list.splits)
    have n4: "nonneg r4" using nonneg_skip_Cons [OF n3(2) r4] .
    have acc: "items_typed (AList.update k w acc)"
      using items_typed_update "4.prems"(3) n1(1) n3(1) by blast
    show ?thesis
    proof (cases "d = 125")
      case True
      then have "v = JObj (AList.update k w acc)" "r = r4" using "4.prems" Cons k q r2 w r4 by simp_all
      then show ?thesis using acc n4 by (simp only: items_typed_def)
    next
      case False
      with "4.prems" Cons k q r2 w r4 have
        "d = 44" "scan_members n (AList.update k w acc) (skip_ws r4) = Inr (v, r)"
        by (auto split: if_splits)
      then show ?thesis
        using "4.IH"(2) [OF Cons _ k refl r2 _ w refl r4] q False nonneg_skip [OF n4] acc by simp
    qed
  qed (use 4 in simp)
next
  case (6 n vs s)
  then obtain w r1 where w: "scan_once n s = Inr (w, r1)" by auto
  have n1: "json_typed w" "nonneg r1" using "6.IH"(1) [OF w "6.prems"(2)] by simp_all
  with "6.prems" w obtain d r2 where r2: "skip_ws r1 = d # r2"
    by (auto split: list.splits)
  have n2: "nonneg r2" using nonneg_skip_Cons [OF n1(2) r2] .
  show ?case
  proof (cases "d = 93")
    case True
    then show ?thesis using "6.prems" w r2 n1 n2 by auto
  next
    case False
    with "6.prems" w r2 have "d = 44" "scan_elems n (vs @ [w]) (skip_ws r2) = Inr (v, r)"
      by (auto split: if_splits)
    then show ?thesis using "6.IH"(2) [OF w refl r2] False n1 nonneg_skip [OF n2] "6.prems"(3) by simp
  qed
qed auto

lemma loads_typed: "json_loads s = Inr v \<Longrightarrow> nonneg s \<Longrightarrow> json_typed v"
  by (auto simp: json_loads_def bindE_eq_Inr simp del: scan_once.simps split: if_splits
      dest: scan_typed(1) [OF _ nonneg_skip])

section \<open>Writing what was read\<close>

lemma nat_digits_count: "n < 10 ^ k \<Longrightarrow> length (nat_digits n) \<le> max 1 k"
proof (induction n arbitrary: k rule: nat_digits.induct)
  case (1 n)
  show ?case
  proof (cases "n < 10")
    case True
    then show ?thesis by (simp add: nat_digits.simps [of n])
  next
    case False
    then obtain j where k: "k = Suc j" using 1(2) by (cases k) auto
    have "n div 10 < 10 ^ j" using 1(2) k by (simp add: less_mult_imp_div_less mult.commute)
    then have "length (nat_digits (n div 10)) \<le> max 1 j" using 1(1) False by blast
    moreover have "0 < j" using False 1(2) k by (cases j) auto
    ultimately show ?thesis using False k by (simp add: nat_digits.simps [of n])
  qed
qed

lemma small_int_digits: "short_int i \<Longrightarrow> length (nat_digits (nat \<bar>i\<bar>)) \<le> 4300"
proof -
  assume "short_int i"
  then have "nat \<bar>i\<bar> < 10 ^ nat max_int_digits"
    by (simp only: short_int_def nat_less_iff [OF abs_ge_zero] of_nat_power of_nat_numeral)
  then have "length (nat_digits (nat \<bar>i\<bar>)) \<le> max 1 (nat max_int_digits)" by (rule nat_digits_count)
  then show ?thesis by (simp add: max_int_digits_def)
qed

lemma typed_dumpable:
  "json_typed v \<Longrightarrow> \<forall>x \<in> set (floats_in v). float_reads fr x \<Longrightarrow> dumpable fr v"
proof (induction v)
  case (JInt i)
  then show ?case using small_int_digits by simp
next
  case (JFloat f)
  then show ?case by (cases f) simp_all
next
  case (JArr vs)
  then show ?case by (auto simp: list_all_iff)
next
  case (JObj kvs)
  then show ?case by (fastforce simp: list_all_iff)
qed simp_all

lemma set_py_strip: "set (py_strip s) \<subseteq> set s"
  by (metis py_strip_def rstrip_def lstrip_def set_dropWhileD set_rev subsetI)

text \<open>The object the reward finds in a reply, wherever in the text it is.\<close>

lemma scan_balanced_typed: "scan_balanced_json s i = (Some d, e) \<Longrightarrow> nonneg s \<Longrightarrow> items_typed d"
proof -
  assume a: "scan_balanced_json s i = (Some d, e)" and s: "nonneg s"
  obtain k where "json_loads (slice s i (k + 1)) = Inr (JObj d)"
    using a by (auto simp: scan_balanced_json_def split: option.splits sum.splits json.splits)
  moreover have "nonneg (slice s i (k + 1))"
    using s by (rule nonneg_sub) (auto simp: slice_def dest: in_set_takeD in_set_dropD)
  ultimately show ?thesis using loads_typed unfolding items_typed_def by blast
qed

lemma extract_loop_typed:
  "extract_loop s i best e = Some d \<Longrightarrow> nonneg s \<Longrightarrow> \<forall>b. best = Some b \<longrightarrow> items_typed b \<Longrightarrow> items_typed d"
proof (induction s i best e rule: extract_loop.induct)
  case (1 s i best e)
  show ?case
  proof (cases "i < length s \<and> s ! i = 123")
    case False
    then show ?thesis using 1 by (subst (asm) (5) extract_loop.simps) (auto split: if_splits)
  next
    case True
    obtain r k where r: "scan_balanced_json s i = (r, k)" by fastforce
    show ?thesis
    proof (cases r)
      case None
      then have "extract_loop s (i + 1) best e = Some d"
        using 1(5) True r by (subst (asm) extract_loop.simps) simp
      then show ?thesis using 1(2) [OF _ _ r [symmetric] None] 1(6,7) True by simp
    next
      case (Some obj)
      have t: "items_typed obj" using scan_balanced_typed r Some 1(6) by blast
      show ?thesis
      proof (cases "int k > e")
        case True
        then have "extract_loop s (k + 1) (Some obj) (int k) = Some d"
          using 1(5) \<open>i < length s \<and> s ! i = 123\<close> r Some by (subst (asm) extract_loop.simps) simp
        then show ?thesis
          using 1(3) [OF _ _ r [symmetric] Some] 1(6) t True \<open>i < length s \<and> s ! i = 123\<close> by simp
      next
        case False
        then have "extract_loop s (k + 1) best e = Some d"
          using 1(5) \<open>i < length s \<and> s ! i = 123\<close> r Some by (subst (asm) extract_loop.simps) simp
        then show ?thesis
          using 1(4) [OF _ _ r [symmetric] Some] 1(6,7) False \<open>i < length s \<and> s ! i = 123\<close> by simp
      qed
    qed
  qed
qed

lemma parse_json_obj_typed:
  assumes "parse_json_obj fr (JStr s) = Some d" and "nonneg s"
  shows "items_typed d"
proof -
  let ?t = "py_strip s"
  have n: "nonneg ?t" using assms(2) by (rule nonneg_sub) (rule set_py_strip)
  have "json_loads ?t = Inr (JObj d) \<or> extract_last_json_obj ?t = Some d"
    using assms(1) by (auto simp: parse_json_obj_def Let_def split: if_splits sum.splits json.splits)
  then show ?thesis
    using loads_typed [OF _ n] extract_loop_typed [OF _ n, of 0 None "-1" d]
    by (auto simp: extract_last_json_obj_def items_typed_def split: if_splits)
qed

lemma dumps_object_stripped: "py_strip (dumps_json fr (JObj d)) = dumps_json fr (JObj d)"
  by (rule strip_fixed) (simp add: is_space_def)

lemma dumps_object_parsed:
  assumes "dumpable fr (JObj d)"
  shows "parse_json_obj fr' (JStr (dumps_json fr (JObj d))) = Some d"
proof -
  have "json_loads (dumps_json fr (JObj d)) = Inr (JObj d)"
    using loads_dumps [OF assms, of "[]"] by simp
  moreover have "dumps_json fr (JObj d) \<noteq> []" by simp
  ultimately show ?thesis unfolding parse_json_obj_def Let_def
    by (simp add: dumps_object_stripped del: dumps_json.simps)
qed

lemma strip_json_start:
  assumes "json_loads (py_strip s) = Inr (JObj d)"
  shows "hd (py_strip s) = 123"
proof -
  let ?t = "py_strip s"
  have ne: "?t \<noteq> []" using assms by (auto simp: json_loads_def skip_ws_def starts_with_def)
  have w: "\<not> json_ws (hd ?t)" using py_strip_hd [OF ne] by (auto simp: json_ws_def is_space_def)
  have "skip_ws ?t = ?t" using ne w by (cases ?t) (simp_all add: skip_ws_def)
  with assms obtain r where "scan_once (2 * length ?t + 2) ?t = Inr (JObj d, r)"
    by (auto simp: json_loads_def split: if_splits)
  then show ?thesis using scan_once_obj_brace by blast
qed

text \<open>
  A document inside a text that is itself a JSON object is the whole text, unless an object that
  starts before it runs over it.
\<close>

lemma whole_object_is_document:
  assumes whole: "json_loads (py_strip s) = Inr (JObj d')" and s: "py_strip s = pre @ j @ post"
    and parses: "json_loads j = Inr (JObj d)" and first: "hd j = 123" and final: "last j = 125"
    and before: "objects_end_before (pre @ j @ post) (length pre)"
  shows "d' = d"
proof -
  have ne: "j \<noteq> []" using parses by (auto simp: json_loads_def skip_ws_def starts_with_def)
  have h: "hd (py_strip s) = 123" using strip_json_start [OF whole] .
  have "\<not> json_ws (last (py_strip s))"
    using py_strip_last [of s] ne s by (auto simp: json_ws_def is_space_def)
  from scan_balanced_document [OF whole h this, of "[]" "[]"]
  have all: "scan_balanced_json (pre @ j @ post) 0 = (Some d', length (pre @ j @ post) - 1)"
    using s by simp
  have "pre = []"
  proof (rule ccontr)
    assume p: "pre \<noteq> []"
    then have "(pre @ j @ post) ! 0 = 123" using h s by (cases pre) simp_all
    then have "length (pre @ j @ post) - 1 < length pre"
      using before p all by (auto simp: objects_end_before_def)
    then show False using ne by (cases j) simp_all
  qed
  moreover have "scan_balanced_json (pre @ j @ post) (length pre) = (Some d, length pre + length j - 1)"
    by (rule scan_balanced_document [OF parses first]) (simp add: final json_ws_def)
  ultimately show ?thesis using all by simp
qed

lemma parse_document:
  assumes s: "py_strip s = pre @ j @ post"
    and parses: "json_loads j = Inr (JObj d)" and first: "hd j = 123" and final: "last j = 125"
    and before: "objects_end_before (pre @ j @ post) (length pre)" and after: "123 \<notin> set post"
  shows "parse_json_obj fr (JStr s) = Some d"
proof -
  have e: "extract_last_json_obj (py_strip s) = Some d"
    unfolding s by (rule extract_trailing_object [OF parses first final before after])
  then have ne: "py_strip s \<noteq> []" by (auto simp: extract_last_json_obj_def)
  show ?thesis
    using e ne whole_object_is_document [OF _ s parses first final before]
    by (auto simp: parse_json_obj_def Let_def split: sum.splits json.splits)
qed

text \<open>C22: The object of a reply is found wherever it stands in the text. Let the reply, without the blanks
  around it, be some text, then a JSON document that starts with an opening and ends with a closing brace and
  parses to an object, then more text without an opening brace. If no JSON object that starts in the text before
  the document runs into it, the reward reads the document's object from the reply, whatever else the text before
  holds (braces, unfinished JSON, objects of its own). That object has the type of a JSON object: its strings and
  keys are code points, the keys of every object in it are distinct and its integers have at most 4300
  digits. Written back with \<open>json.dumps\<close> it is a reply from which the reward reads the same object, under
  the condition that \<open>repr\<close> gives every float in it a literal that reads back.\<close>

theorem reply_object_found:
  assumes "py_strip s = pre @ j @ post"
    and "json_loads j = Inr (JObj d)" and "hd j = 123" and "last j = 125"
    and "objects_end_before (pre @ j @ post) (length pre)" and "123 \<notin> set post" and "nonneg s"
  shows "parse_json_obj fr (JStr s) = Some d \<and> json_typed (JObj d)
    \<and> ((\<forall>x \<in> set (floats_in (JObj d)). float_reads fr x)
       \<longrightarrow> parse_json_obj fr (JStr (dumps_json fr (JObj d))) = Some d)"
proof -
  have p: "parse_json_obj fr (JStr s) = Some d" by (rule parse_document [OF assms(1-6)])
  have t: "json_typed (JObj d)" using parse_json_obj_typed [OF p assms(7)] by (simp only: items_typed_def)
  then show ?thesis using p dumps_object_parsed [OF typed_dumpable [OF t]] by blast
qed

definition sample_reply :: ustr where
  "sample_reply = u ''{a} or {}: '' @ u ''{\"a\": [1], \"b\": 0.01, \"a\": null}'' @ u '' done''"

lemma sample_reply_objects: "objects_end_before sample_reply 11"
proof -
  have "list_all (\<lambda>i. sample_reply ! i = 123 \<longrightarrow>
      (case scan_balanced_json sample_reply i of (Some _, e) \<Rightarrow> e < 11 | (None, _) \<Rightarrow> True)) [0..<11]"
    by code_simp
  then show ?thesis by (auto simp: objects_end_before_def list_all_iff)
qed

theorem reply_object_found_witness:
  "parse_json_obj sample_fr (JStr sample_reply) = Some [(u ''a'', JNull), (u ''b'', JFloat (Fin (1 / 100)))]
    \<and> json_typed (JObj [(u ''a'', JNull), (u ''b'', JFloat (Fin (1 / 100)))])
    \<and> parse_json_obj sample_fr (JStr (dumps_json sample_fr (JObj [(u ''a'', JNull), (u ''b'', JFloat (Fin (1 / 100)))])))
      = Some [(u ''a'', JNull), (u ''b'', JFloat (Fin (1 / 100)))]"
proof -
  let ?d = "[(u ''a'', JNull), (u ''b'', JFloat (Fin (1 / 100)))]"
  have "py_strip sample_reply = u ''{a} or {}: '' @ u ''{\"a\": [1], \"b\": 0.01, \"a\": null}'' @ u '' done''"
    "json_loads (u ''{\"a\": [1], \"b\": 0.01, \"a\": null}'') = Inr (JObj ?d)"
    "hd (u ''{\"a\": [1], \"b\": 0.01, \"a\": null}'') = 123" "last (u ''{\"a\": [1], \"b\": 0.01, \"a\": null}'') = 125"
    "123 \<notin> set (u '' done'')" "length (u ''{a} or {}: '') = 11" "nonneg sample_reply"
    by code_simp+
  from reply_object_found [OF this(1-4) _ this(5) this(7), of sample_fr] sample_reply_objects this(6)
  show ?thesis by (simp add: sample_fr_reads sample_reply_def)
qed

end
