(* ===== verification/GeminiRuns.thy ===== *)
theory GeminiRuns
  imports GeminiBatch JsonType
begin

text \<open>
  Whole runs of \<^verbatim>\<open>run_gemini.py\<close>, one after another on the same output and failure file: what the
  output file holds, which items a run leaves out, and what a second run does.
\<close>

section \<open>What is written can be read\<close>

lemma last_fence_sub: "last_fence s = Some p \<Longrightarrow> set p \<subseteq> set s"
  by (induction s arbitrary: p) (auto split: option.splits if_splits)

lemma fence_body_sub: "fence_body s = Some p \<Longrightarrow> set p \<subseteq> set s"
  unfolding fence_body_def Let_def
  by (auto split: list.splits if_splits dest!: last_fence_sub)
    (metis in_set_dropD list.set_intros set_dropWhileD subsetD)+

lemma fenced_sub: "fenced s = Some p \<Longrightarrow> set p \<subseteq> set s"
proof (induction s)
  case (Cons c cs)
  then show ?case
    by (fastforce split: if_splits option.splits dest!: fence_body_sub in_set_dropD)
qed simp

lemma json_span_sub: "set (json_span t) \<subseteq> set t"
proof -
  have "set (json_span t) \<subseteq> set (py_strip t)"
    unfolding json_span_def Let_def
    by (auto split: option.splits if_splits dest!: fenced_sub dest: in_set_takeD in_set_dropD)
  then show ?thesis using set_py_strip by blast
qed

lemma extract_json_typed: "extract_json raw = Inr v \<Longrightarrow> nonneg raw \<Longrightarrow> json_typed v"
  unfolding extract_json_def using loads_typed nonneg_sub json_span_sub by blast

lemma dict_get_typed: "items_typed d \<Longrightarrow> json_typed (dict_get d k)"
  by (auto simp: dict_get_def items_typed_def list_all_iff split: option.splits dest!: map_of_SomeD)

lemma dict_get_or_typed: "items_typed d \<Longrightarrow> json_typed v \<Longrightarrow> json_typed (dict_get_or d k v)"
  by (auto simp: dict_get_or_def items_typed_def list_all_iff split: option.splits dest!: map_of_SomeD)

lemma read_items_typed:
  "read_items idx lines = Inr items \<Longrightarrow> \<forall>l \<in> set lines. nonneg l \<Longrightarrow> int (idx + length lines) < 10 ^ 18
     \<Longrightarrow> it \<in> set items \<Longrightarrow> items_typed it"
proof (induction idx lines arbitrary: items rule: read_items.induct)
  case (2 idx line rest)
  show ?case
  proof (cases "py_strip line = []")
    case True
    then show ?thesis using 2(1,3-6) by (simp add: Let_def)
  next
    case False
    with 2(3) obtain v where v: "json_loads (py_strip line) = Inr v"
      "(case v of JObj d \<Rightarrow> bindE (read_items (Suc idx) rest)
           (\<lambda>ds. Inr (AList.update key_record_id (JInt (int idx)) d # ds)) | _ \<Rightarrow> Inl TypeError) = Inr items"
      by (simp add: bindE_eq_Inr Let_def) blast
    then obtain d ds where d: "json_loads (py_strip line) = Inr (JObj d)"
      "read_items (Suc idx) rest = Inr ds" "items = AList.update key_record_id (JInt (int idx)) d # ds"
      by (cases v) (auto simp: bindE_eq_Inr)
    have "nonneg (py_strip line)" using nonneg_sub set_py_strip 2(4) by auto
    then have t: "items_typed d" using loads_typed [OF d(1)] by (simp only: items_typed_def)
    have "(10 :: int) ^ 18 \<le> 10 ^ nat max_int_digits"
      by (rule power_increasing) (simp_all add: max_int_digits_def)
    then have "short_int (int idx)" using 2(5) unfolding short_int_def by linarith
    moreover have "nonneg key_record_id" by (simp add: key_record_id_def u_def)
    ultimately have "items_typed (AList.update key_record_id (JInt (int idx)) d)"
      using items_typed_update [OF t] by simp
    moreover have "it \<in> set ds \<Longrightarrow> items_typed it"
      using 2(2) [OF refl False d(1) refl d(2)] 2(4,5) by simp
    ultimately show ?thesis using 2(6) d(3) by auto
  qed
qed simp

lemma accepted_object:
  assumes "process_one env item = Inr (Accepted d raw)"
  shows "\<exists>v w p. extract_json raw = Inr v \<and> set_line item v = Inr w
    \<and> validate (m_fr env) w (objects_of item) (ambiguous item) (dict_get_or item key_note (JStr [])) = Inr (p, JObj d)"
proof -
  obtain obj where r: "read_object (m_fr env) item raw = Inr (None, obj)"
    and d: "d = (case obj of JObj d \<Rightarrow> d | _ \<Rightarrow> [])"
    using assms unfolding process_one_def
    by (auto simp: bindE_eq_Inr Let_def split: if_splits sum.splits option.splits prod.splits)
  have "\<exists>d'. obj = JObj d'"
    using r unfolding read_object_def ambiguous_def [symmetric] by (auto simp: bindE_eq_Inr dest!: validate_sound)
  then obtain d' where d': "obj = JObj d'" by blast
  show ?thesis
    using r unfolding read_object_def ambiguous_def d d' by (auto simp: bindE_eq_Inr)
qed

lemma validate_typed:
  assumes "validate fr (JObj d0) objs amb note = Inr (p, JObj d)" and "items_typed d0"
  shows "items_typed d"
proof -
  have "d = d0 \<or> d = AList.update key_summary (JStr DEFAULT_SUMMARY_CONSISTENT) d0"
    using assms(1) unfolding validate_def
    by (auto simp: bindE_eq_Inr Let_def split: option.splits if_splits)
  moreover have "nonneg key_summary" "nonneg DEFAULT_SUMMARY_CONSISTENT" by code_simp+
  ultimately show ?thesis using items_typed_update [OF assms(2)] assms(2) by auto
qed

lemma accepted_typed:
  assumes "process_one env item = Inr (Accepted d raw)" and "nonneg raw" and "items_typed item"
  shows "items_typed d"
proof -
  obtain v w p where v: "extract_json raw = Inr v" "set_line item v = Inr w"
    "validate (m_fr env) w (objects_of item) (ambiguous item) (dict_get_or item key_note (JStr [])) = Inr (p, JObj d)"
    using accepted_object [OF assms(1)] by blast
  obtain d0 where d0: "v = JObj d0" "w = JObj (AList.update key_line (dict_get_or item key_line (JInt 0)) d0)"
    using v(2) by (auto simp: set_line_def split: json.splits)
  have "items_typed d0" using extract_json_typed [OF v(1) assms(2)] d0(1) by (simp only: items_typed_def)
  moreover have "nonneg key_line" by code_simp
  moreover have "short_int 0" by (simp add: short_int_def)
  ultimately have "items_typed (AList.update key_line (dict_get_or item key_line (JInt 0)) d0)"
    using dict_get_or_typed [OF assms(3)] items_typed_update by simp
  then show ?thesis using validate_typed v(3) d0(2) by blast
qed

lemma record_keys: "map fst (out_record item d) = map fst (out_record [] [])"
  by (simp add: out_record_def)

lemma record_keys_ok: "distinct (map fst (out_record [] [])) \<and> list_all nonneg (map fst (out_record [] []))"
  by code_simp

lemma out_record_typed:
  assumes "items_typed item" and "items_typed d"
  shows "json_typed (JObj (out_record item d))"
proof -
  have "short_int 0" by (simp add: short_int_def)
  then have "list_all (\<lambda>p. json_typed (snd p)) (out_record item d)"
    using dict_get_typed [OF assms(2)] dict_get_or_typed [OF assms(1)]
    by (simp add: out_record_def objects_of_def list_all_iff)
  moreover have "list_all nonneg (map fst (out_record item d))" "distinct (map fst (out_record item d))"
    using record_keys_ok by (simp_all only: record_keys [of item d])
  ultimately show ?thesis by (auto simp: list_all_iff)
qed

definition line_of :: "(pyfloat \<Rightarrow> ustr) \<Rightarrow> dict \<times> dict \<Rightarrow> ustr" where
  "line_of fr p = json_line fr (out_record (fst p) (snd p))"

definition own_output :: "(pyfloat \<Rightarrow> ustr) \<Rightarrow> dict list \<Rightarrow> (dict \<times> dict) list \<Rightarrow> ustr list \<Rightarrow> bool" where
  "own_output fr items ps out \<longleftrightarrow>
     out = map (line_of fr) ps \<and> distinct (map (\<lambda>p. item_id (fst p)) ps)
     \<and> (\<forall>p \<in> set ps. fst p \<in> set items \<and> meets_rules fr (fst p) (snd p)
          \<and> dumpable fr (JObj (out_record (fst p) (snd p))))"

text \<open>What the run of a list of items adds to the two files.\<close>

lemma run_items_adds:
  assumes "run_items env its (out, fl) = ((out', fl'), r)"
  shows "\<exists>ps bs. out' = out @ map (line_of (m_fr env)) ps \<and> fl' = fl @ bs \<and> fst ` set ps \<subseteq> set its
    \<and> (distinct (map item_id its) \<longrightarrow> distinct (map (\<lambda>p. item_id (fst p)) ps))
    \<and> (\<forall>p \<in> set ps. \<exists>raw. process_one env (fst p) = Inr (Accepted (snd p) raw))
    \<and> (r = Inr () \<longrightarrow> (\<forall>it \<in> set its. it \<in> fst ` set ps
         \<or> (\<exists>reason raw. process_one env it = Inr (Rejected reason raw)
              \<and> json_line (m_fr env) (fail_record env it reason raw) \<in> set bs)))"
  using assms
proof (induction its arbitrary: out fl out' fl' r)
  case Nil
  then show ?case by (intro exI [of _ "[]"]) simp
next
  case (Cons it its)
  obtain out1 fl1 r1 where h: "handle env it (out, fl) = ((out1, fl1), r1)"
    by (cases "handle env it (out, fl)") auto
  obtain r2 where rest: "run_items env its (out1, fl1) = ((out', fl'), r2)"
    and r: "r = (case r1 of Inl e \<Rightarrow> Inl e | Inr _ \<Rightarrow> r2)"
    using Cons.prems h by (auto split: prod.splits)
  obtain ps bs where ih: "out' = out1 @ map (line_of (m_fr env)) ps" "fl' = fl1 @ bs" "fst ` set ps \<subseteq> set its"
    "distinct (map item_id its) \<Longrightarrow> distinct (map (\<lambda>p. item_id (fst p)) ps)"
    "\<forall>p \<in> set ps. \<exists>raw. process_one env (fst p) = Inr (Accepted (snd p) raw)"
    "r2 = Inr () \<Longrightarrow> \<forall>it \<in> set its. it \<in> fst ` set ps
         \<or> (\<exists>reason raw. process_one env it = Inr (Rejected reason raw)
              \<and> json_line (m_fr env) (fail_record env it reason raw) \<in> set bs)"
    using Cons.IH [OF rest] by blast
  have r': "r = Inr () \<Longrightarrow> r1 = Inr () \<and> r2 = Inr ()" using r by (auto split: sum.splits)
  consider (none) "out1 = out" "fl1 = fl" "r1 \<noteq> Inr ()"
    | (good) d raw where "process_one env it = Inr (Accepted d raw)" "out1 = out @ [line_of (m_fr env) (it, d)]" "fl1 = fl"
    | (bad) reason raw where "process_one env it = Inr (Rejected reason raw)" "out1 = out"
        "fl1 = fl @ [json_line (m_fr env) (fail_record env it reason raw)]"
  proof (cases "process_one env it")
    case (Inl e)
    then show ?thesis using h that(1) by (auto simp: handle_def)
  next
    case (Inr res)
    show ?thesis
    proof (cases res)
      case (Accepted d raw)
      have r1: "r1 = Inl e" "out1 = out" "fl1 = fl" if "count_types it = Inl e" for e
        using h Inr Accepted that by (auto simp: handle_def)
      have "out1 = out \<and> fl1 = fl \<and> r1 \<noteq> Inr () \<or> out1 = out @ [line_of (m_fr env) (it, d)] \<and> fl1 = fl"
        if "count_types it = Inr ()"
        using h Inr Accepted that by (auto simp: handle_def add_line_def line_of_def split: sum.splits)
      then show ?thesis
        using that(1,2) Inr Accepted r1 by (cases "count_types it") auto
    next
      case (Rejected reason raw)
      then show ?thesis
        using h Inr that(1,3) by (auto simp: handle_def add_line_def split: sum.splits)
    qed
  qed
  then show ?case
  proof cases
    case none
    show ?thesis
      using ih none r' by (intro exI [of _ ps] exI [of _ bs]) auto
  next
    case good
    show ?thesis
      using ih good r' by (intro exI [of _ "(it, d) # ps"] exI [of _ bs]) auto
  next
    case bad
    show ?thesis
      using ih bad r' by (intro exI [of _ ps] exI [of _ "json_line (m_fr env) (fail_record env it reason raw) # bs"]) fastforce
  qed
qed

lemma record_item_id: "map_of (out_record it d) key_record_id = Some (dict_get_or it key_record_id (JInt 0))"
  by (simp add: out_record_def)

lemma numbered_id:
  assumes "numbered items" and "it \<in> set items"
  shows "\<exists>i. item_id it = JInt i \<and> dict_get_or it key_record_id (JInt 0) = JInt i"
proof -
  from assms obtain ids i where "map_of it key_record_id = Some (JInt i)"
    unfolding numbered_def by (metis (mono_tags, lifting) image_iff list.set_map)
  then show ?thesis by (simp add: item_id_def dict_get_def dict_get_or_def)
qed

lemma numbered_distinct: "numbered items \<Longrightarrow> distinct (map item_id items)"
proof -
  assume "numbered items"
  then obtain ids where ids: "map (\<lambda>it. map_of it key_record_id) items = map (\<lambda>i. Some (JInt i)) ids" "distinct ids"
    unfolding numbered_def by blast
  have "map item_id items = map (\<lambda>v. case v of Some x \<Rightarrow> x | None \<Rightarrow> JNull) (map (\<lambda>it. map_of it key_record_id) items)"
    by (auto simp: item_id_def dict_get_def split: option.splits)
  also have "\<dots> = map JInt ids" unfolding ids(1) by simp
  finally show ?thesis using ids(2) by (simp add: distinct_map inj_on_def)
qed

lemma own_line_reads:
  "dumpable fr (JObj (out_record it d)) \<Longrightarrow> json_loads (line_of fr (it, d)) = Inr (JObj (out_record it d))"
  using loads_dumps [of fr "JObj (out_record it d)" "[10]"] by (simp add: line_of_def json_line_def)

lemma done_own:
  assumes "numbered items" and "own_output fr items ps out"
  shows "load_done_records out = map (\<lambda>p. item_id (fst p)) ps"
proof -
  have "load_done_records (map (line_of fr) qs) = map (\<lambda>p. item_id (fst p)) qs"
    if q: "\<forall>p \<in> set qs. fst p \<in> set items \<and> dumpable fr (JObj (out_record (fst p) (snd p)))" for qs
    using q
  proof (induction qs)
    case Nil
    then show ?case by (simp add: load_done_records_def List.map_filter_def)
  next
    case (Cons q qs)
    obtain it d where it: "q = (it, d)" by (cases q)
    obtain i where i: "item_id it = JInt i" "dict_get_or it key_record_id (JInt 0) = JInt i"
      using numbered_id [OF assms(1)] Cons.prems it by auto
    have "json_loads (line_of fr (it, d)) = Inr (JObj (out_record it d))"
      using Cons.prems it by (intro own_line_reads) auto
    then show ?case
      using Cons i it by (simp add: load_done_records_def List.map_filter_simps record_item_id hashable_def)
  qed
  then show ?thesis using assms(2) by (auto simp: own_output_def)
qed

lemma json_eq_int [simp]: "json_eq (JInt a) (JInt b) \<longleftrightarrow> a = b"
  by (subst json_eq.simps) (simp add: scalar_eq_def)

lemma todo_own:
  assumes "numbered items" and "own_output fr items ps out"
  shows "todo_items items limit out =
    (let todo = filter (\<lambda>it. item_id it \<notin> set (map (\<lambda>p. item_id (fst p)) ps)) items
     in if 0 < limit then take (nat limit) todo else todo)"
proof -
  have "list_ex (\<lambda>v. json_eq v (dict_get it key_record_id)) (map (\<lambda>p. item_id (fst p)) ps)
      \<longleftrightarrow> item_id it \<in> set (map (\<lambda>p. item_id (fst p)) ps)" if it: "it \<in> set items" for it
  proof -
    obtain i where i: "item_id it = JInt i" using numbered_id [OF assms(1) it] by blast
    have "json_eq (item_id (fst p)) (JInt i) \<longleftrightarrow> item_id (fst p) = JInt i" if "p \<in> set ps" for p
    proof -
      have "fst p \<in> set items" using that assms(2) by (auto simp: own_output_def)
      then obtain j where "item_id (fst p) = JInt j" using numbered_id [OF assms(1)] by blast
      then show ?thesis by simp
    qed
    then have "list_ex (\<lambda>v. json_eq v (JInt i)) (map (\<lambda>p. item_id (fst p)) ps) \<longleftrightarrow> (\<exists>p \<in> set ps. item_id (fst p) = JInt i)"
      by (simp add: list_ex_iff)
    also have "\<dots> \<longleftrightarrow> item_id it \<in> set (map (\<lambda>p. item_id (fst p)) ps)" using i by force
    finally show ?thesis using i by (simp add: item_id_def)
  qed
  then have "filter (\<lambda>it. \<not> list_ex (\<lambda>v. json_eq v (dict_get it key_record_id)) (map (\<lambda>p. item_id (fst p)) ps)) items
      = filter (\<lambda>it. item_id it \<notin> set (map (\<lambda>p. item_id (fst p)) ps)) items"
    by (intro filter_cong) auto
  then show ?thesis by (simp add: todo_items_def done_own [OF assms])
qed

text \<open>What the environment of a run has to be: a permutation as the order of completion, texts of code
  points, and a \<open>repr\<close> that reads back the floats of the accepted records.\<close>

definition sane_env :: "gemini_env \<Rightarrow> ustr list \<Rightarrow> bool" where
  "sane_env env input \<longleftrightarrow>
     (\<forall>xs. mset (m_order env xs) = mset xs)
     \<and> (\<forall>l \<in> set input. nonneg l) \<and> int (length input) < 10 ^ 18
     \<and> (\<forall>items it d raw. read_items 0 input = Inr items \<longrightarrow> it \<in> set items
          \<longrightarrow> process_one env it = Inr (Accepted d raw)
          \<longrightarrow> nonneg raw \<and> (\<forall>x \<in> set (floats_in (JObj (out_record it d))). float_reads (m_fr env) x))"

lemma accepted_dumpable:
  assumes "sane_env env input" and "read_items 0 input = Inr items" and "it \<in> set items"
    and "process_one env it = Inr (Accepted d raw)"
  shows "dumpable (m_fr env) (JObj (out_record it d))"
proof -
  have s: "\<forall>l \<in> set input. nonneg l" "int (0 + length input) < 10 ^ 18"
    "nonneg raw \<and> (\<forall>x \<in> set (floats_in (JObj (out_record it d))). float_reads (m_fr env) x)"
    using assms unfolding sane_env_def by simp_all
  have "items_typed it" using read_items_typed [OF assms(2) s(1,2) assms(3)] .
  then have "json_typed (JObj (out_record it d))"
    using accepted_typed [OF assms(4)] s(3) out_record_typed by blast
  then show ?thesis using typed_dumpable s(3) by blast
qed

lemma main_own:
  assumes items: "read_items 0 input = Inr items" and own: "own_output (m_fr env) items ps out"
    and sane: "sane_env env input" and run: "gemini_main env input limit (out, fl) = ((out', fl'), r)"
  shows "\<exists>ps' bs. own_output (m_fr env) items (ps @ ps') out' \<and> fl' = fl @ bs
    \<and> (r = Inr () \<longrightarrow> (\<forall>it \<in> set (todo_items items limit out). it \<in> fst ` set ps'
         \<or> (\<exists>reason raw. process_one env it = Inr (Rejected reason raw)
              \<and> json_line (m_fr env) (fail_record env it reason raw) \<in> set bs)))"
proof -
  let ?todo = "todo_items items limit out"
  have num: "numbered items" using items by (rule read_items_numbered)
  have order: "mset (m_order env xs) = mset xs" for xs using sane unfolding sane_env_def by blast
  have "m_order env [] = []" using order [of "[]"] by simp
  then have "run_items env (m_order env ?todo) (out, fl) = ((out', fl'), r)"
    using run items by (auto simp: gemini_main_def Let_def split: if_splits)
  then obtain ps' bs where a: "out' = out @ map (line_of (m_fr env)) ps'" "fl' = fl @ bs"
    "fst ` set ps' \<subseteq> set (m_order env ?todo)"
    "distinct (map item_id (m_order env ?todo)) \<longrightarrow> distinct (map (\<lambda>p. item_id (fst p)) ps')"
    "\<forall>p \<in> set ps'. \<exists>raw. process_one env (fst p) = Inr (Accepted (snd p) raw)"
    "r = Inr () \<longrightarrow> (\<forall>it \<in> set (m_order env ?todo). it \<in> fst ` set ps'
         \<or> (\<exists>reason raw. process_one env it = Inr (Rejected reason raw)
              \<and> json_line (m_fr env) (fail_record env it reason raw) \<in> set bs))"
    using run_items_adds [of env "m_order env ?todo" out fl out' fl' r] by blast
  have perm: "set (m_order env ?todo) = set ?todo" "mset (map item_id (m_order env ?todo)) = mset (map item_id ?todo)"
  proof -
    have m: "mset (m_order env ?todo) = mset ?todo" by (rule order)
    then show "set (m_order env ?todo) = set ?todo" by (rule mset_eq_setD)
    show "mset (map item_id (m_order env ?todo)) = mset (map item_id ?todo)" using m by (metis mset_map)
  qed
  let ?new = "filter (\<lambda>it. item_id it \<notin> set (map (\<lambda>p. item_id (fst p)) ps)) items"
  have t: "?todo = ?new \<or> ?todo = take (nat limit) ?new"
    by (simp add: todo_own [OF num own] Let_def)
  have "set ?todo \<subseteq> set ?new" 
    by (rule disjE [OF t]) (simp only: order_refl, simp only: set_take_subset)
  then have todo: "set ?todo \<subseteq> {it \<in> set items. item_id it \<notin> set (map (\<lambda>p. item_id (fst p)) ps)}" by auto
  have nd: "distinct (map item_id ?new)" using numbered_distinct [OF num] by (rule distinct_map_filter)
  have "distinct (map item_id ?todo)"
    by (rule disjE [OF t]) (simp only: nd, simp only: take_map [symmetric] distinct_take [OF nd])
  then have "distinct (map item_id (m_order env ?todo))" using perm(2) mset_eq_imp_distinct_iff by blast
  then have dist: "distinct (map (\<lambda>p. item_id (fst p)) ps')"
    using a(4) by blast
  have mem: "fst p \<in> set ?todo" if "p \<in> set ps'" for p
    using a(3) that perm(1) by blast
  have new: "fst p \<in> set items \<and> meets_rules (m_fr env) (fst p) (snd p)
      \<and> dumpable (m_fr env) (JObj (out_record (fst p) (snd p)))" if p: "p \<in> set ps'" for p
  proof -
    have "fst p \<in> set items" using mem [OF p] todo by blast
    moreover obtain raw where "process_one env (fst p) = Inr (Accepted (snd p) raw)" using a(5) p by blast
    ultimately show ?thesis using process_accepted accepted_dumpable [OF sane items] by blast
  qed
  have "own_output (m_fr env) items (ps @ ps') out'"
    unfolding own_output_def
  proof (intro conjI ballI)
    show "out' = map (line_of (m_fr env)) (ps @ ps')" using own a(1) by (simp add: own_output_def)
    have "item_id (fst p) \<notin> set (map (\<lambda>p. item_id (fst p)) ps)" if "p \<in> set ps'" for p
      using mem [OF that] todo by blast
    then have "set (map (\<lambda>p. item_id (fst p)) ps) \<inter> set (map (\<lambda>p. item_id (fst p)) ps') = {}"
      unfolding set_map [of _ ps'] by blast
    then show "distinct (map (\<lambda>p. item_id (fst p)) (ps @ ps'))"
      using own dist by (simp add: own_output_def)
  next
    fix p assume "p \<in> set (ps @ ps')"
    then have "p \<in> set ps \<or> p \<in> set ps'" by (simp only: set_append Un_iff)
    then have p: "fst p \<in> set items \<and> meets_rules (m_fr env) (fst p) (snd p)
      \<and> dumpable (m_fr env) (JObj (out_record (fst p) (snd p)))"
      using own new unfolding own_output_def by blast
    show "fst p \<in> set items" using p by (rule conjunct1)
    show "meets_rules (m_fr env) (fst p) (snd p)" using p by blast
    show "dumpable (m_fr env) (JObj (out_record (fst p) (snd p)))" using p by blast
  qed
  then show ?thesis using a(2,6) perm(1) by auto
qed

section \<open>Properties\<close>

text \<open>The files after any number of runs on one input, with any limits, networks and orders.\<close>

inductive gemini_left :: "(pyfloat \<Rightarrow> ustr) \<Rightarrow> ustr list \<Rightarrow> gemini_files \<Rightarrow> bool"
  for fr :: "pyfloat \<Rightarrow> ustr" and input :: "ustr list" where
  start: "gemini_left fr input ([], [])"
| after_run: "gemini_left fr input fs \<Longrightarrow> m_fr env = fr \<Longrightarrow> sane_env env input \<Longrightarrow>
    gemini_left fr input (fst (gemini_main env input limit fs))"

inductive_cases gemini_leftE: "gemini_left fr input fs"

lemma left_own_output:
  assumes "gemini_left fr input fs" and items: "read_items 0 input = Inr items"
  shows "\<exists>ps. own_output fr items ps (fst fs)"
  using assms(1)
proof induction
  case start
  show ?case by (intro exI [of _ "[]"]) (simp add: own_output_def)
next
  case (after_run fs env limit)
  then obtain ps where ps: "own_output (m_fr env) items ps (fst fs)" by blast
  obtain out' fl' r where run: "gemini_main env input limit (fst fs, snd fs) = ((out', fl'), r)"
    by (metis surj_pair)
  show ?case using main_own [OF items ps after_run(3) run] run after_run(2) by auto
qed

text \<open>C6: The output file only holds accepted records: after any history of runs each of its lines reads
  back as the record of one item of the input, no item has two records, and every record meets the
  rules: the answer the item's flag demands, clean texts, and the item's boxes with described changes.\<close>

theorem gemini_output_sound:
  assumes "gemini_left fr input fs" and "read_items 0 input = Inr items"
  shows "\<exists>ps. map json_loads (fst fs) = map (\<lambda>(it, d). Inr (JObj (out_record it d))) ps
    \<and> distinct (map (\<lambda>(it, d). item_id it) ps)
    \<and> (\<forall>(it, d) \<in> set ps. it \<in> set items \<and> meets_rules fr it d)"
proof -
  obtain ps where ps: "own_output fr items ps (fst fs)" using left_own_output [OF assms] by blast
  have "json_loads (line_of fr p) = (case p of (it, d) \<Rightarrow> Inr (JObj (out_record it d)))" if "p \<in> set ps" for p
    using that ps own_line_reads [of fr "fst p" "snd p"] by (auto simp: own_output_def split: prod.splits)
  then have "map json_loads (fst fs) = map (\<lambda>(it, d). Inr (JObj (out_record it d))) ps"
    using ps by (simp add: own_output_def)
  then show ?thesis
    using ps by (intro exI [of _ ps]) (auto simp: own_output_def case_prod_unfold)
qed

text \<open>C7: A run without a limit that returns has dealt with every item: its record is in the output file
  or its failure is among the lines this run has added to the failure file. If it added none, every
  later run finds nothing to do and leaves both files as they are, without a request.\<close>

theorem gemini_run_complete:
  assumes "gemini_left (m_fr env) input (out, fl)" and "read_items 0 input = Inr items"
    and "sane_env env input" and "gemini_main env input 0 (out, fl) = ((out', fl'), Inr ())"
  shows "\<exists>bs. fl' = fl @ bs
    \<and> (\<forall>it \<in> set items. (\<exists>d. json_line (m_fr env) (out_record it d) \<in> set out')
         \<or> (\<exists>reason raw. json_line (m_fr env) (fail_record env it reason raw) \<in> set bs))
    \<and> (bs = [] \<longrightarrow> gemini_main env' input limit (out', fl') = ((out', fl'), Inr ()))"
proof -
  obtain ps where own: "own_output (m_fr env) items ps out"
    using left_own_output [OF assms(1,2)] by auto
  have num: "numbered items" using assms(2) by (rule read_items_numbered)
  obtain ps' bs where a: "own_output (m_fr env) items (ps @ ps') out'" "fl' = fl @ bs"
    "\<forall>it \<in> set (todo_items items 0 out). it \<in> fst ` set ps'
         \<or> (\<exists>reason raw. json_line (m_fr env) (fail_record env it reason raw) \<in> set bs)"
    using main_own [OF assms(2) own assms(3,4)] by (elim exE conjE) (use that in \<open>force\<close>)
  have inj: "it = it'" if "it \<in> set items" "it' \<in> set items" "item_id it = item_id it'" for it it'
    using numbered_distinct [OF num] that by (auto simp: distinct_map inj_on_def)
  have done': "it \<in> fst ` set (ps @ ps') \<or> (\<exists>reason raw. json_line (m_fr env) (fail_record env it reason raw) \<in> set bs)"
    if it: "it \<in> set items" for it
  proof (cases "it \<in> set (todo_items items 0 out)")
    case True
    then show ?thesis using a(3) by auto
  next
    case False
    then have "item_id it \<in> set (map (\<lambda>p. item_id (fst p)) ps)"
      using it by (simp add: todo_own [OF num own])
    then obtain p where p: "p \<in> set ps" "item_id it = item_id (fst p)" by auto
    then have "it = fst p" using inj it own unfolding own_output_def by blast
    then show ?thesis using p(1) by auto
  qed
  have written: "\<exists>d. json_line (m_fr env) (out_record it d) \<in> set out'" if "it \<in> fst ` set (ps @ ps')" for it
    using that a(1) by (force simp: own_output_def line_of_def)
  have "gemini_main env' input limit (out', fl') = ((out', fl'), Inr ())"
    if "bs = []"
  proof -
    have "filter (\<lambda>it. item_id it \<notin> set (map (\<lambda>p. item_id (fst p)) (ps @ ps'))) items = []"
      using done' that by (auto simp: filter_empty_conv)
    then have "todo_items items limit out' = []" using todo_own [OF num a(1)] by (simp add: Let_def)
    then show ?thesis using assms(2) by (simp add: gemini_main_def)
  qed
  then show ?thesis
    using done' written by (intro exI [of _ bs] conjI ballI impI a(2)) metis+
qed

text \<open>A reply whose JSON is not an object ends the run: setting its line number raises outside the
  handled exceptions, so the item is written to neither file and the run raises after the others.\<close>

theorem array_reply_escapes:
  assumes "fst (call_idealab (m_fr env) (m_post env) (m_system env) (user_content (m_fr env) item) 3
      (m_level env) MODEL) = Inr (succeeded raw)"
    and "extract_json raw = Inr (JArr vs)"
  shows "process_one env item = Inl TypeError
    \<and> run_items env (item # rest) fs = (fst (run_items env rest fs), Inl TypeError)"
proof -
  have "process_one env item = Inl TypeError"
    using assms by (simp add: process_one_def succeeded_def dict_get_def read_object_def set_line_def
        is_ValueError_def key_ok_def key_text_def u_def)
  then show ?thesis by (cases "run_items env rest fs") (simp add: handle_def)
qed

section \<open>A run\<close>

definition batch_input :: "ustr list" where
  "batch_input = [dumps_json (\<lambda>_. []) (JObj [(key_note, JStr (u ''n'')),
     (key_objects, JArr [JObj [(key_box, JObj [([120], JInt 1), ([121], JInt 2), ([119], JInt 3), ([104], JInt 4)])]])])]"

definition batch_reply :: json where
  "batch_reply = JObj [(key_answer, JStr (u ''Inconsistent'')), (key_cot, JStr (u ''the man is gone'')),
     (key_summary, JStr (u ''a man is missing'')),
     (key_objects, JArr [JObj [(key_box, JObj [([104], JInt 4), ([120], JInt 1), ([121], JInt 2), ([119], JInt 3)]),
        (key_description, JStr (u ''add the man''))]])]"

definition reply_env :: "ustr \<Rightarrow> gemini_env" where
  "reply_env text = \<lparr>m_fr = \<lambda>_. [], m_system = [],
     m_post = (\<lambda>_ _. Inr \<lparr>h_status = 200, h_text = [], h_json = Inr (JObj [(key_choices, JArr [JObj [(key_message,
       JObj [(key_content, JStr text)])]])])\<rparr>),
     m_level = u ''high'', m_order = (\<lambda>xs. xs), m_text = (\<lambda>_. [])\<rparr>"

definition batch_env :: gemini_env where
  "batch_env = reply_env (u ''Sure: '' @ dumps_json (\<lambda>_. []) batch_reply @ u '' done.'')"


definition batch_item :: dict where
  "batch_item = AList.update key_record_id (JInt 0) [(key_note, JStr (u ''n'')),
     (key_objects, JArr [JObj [(key_box, JObj [([120], JInt 1), ([121], JInt 2), ([119], JInt 3), ([104], JInt 4)])]])]"

lemma batch_items: "read_items 0 batch_input = Inr [batch_item]"
  by code_simp

lemma batch_accepted:
  "process_one batch_env batch_item = Inr (Accepted
     (AList.update key_line (JInt 0) (case batch_reply of JObj d \<Rightarrow> d | _ \<Rightarrow> []))
     (u ''Sure: '' @ dumps_json (\<lambda>_. []) batch_reply @ u '' done.''))"
  by code_simp

definition batch_record :: dict where
  "batch_record = AList.update key_line (JInt 0) (case batch_reply of JObj d \<Rightarrow> d | _ \<Rightarrow> [])"

definition batch_line :: ustr where
  "batch_line = json_line (\<lambda>_. []) (out_record batch_item batch_record)"

lemma batch_run: "gemini_main batch_env batch_input 0 ([], []) = (([batch_line], []), Inr ())"
  by code_simp

lemma batch_sane: "sane_env batch_env batch_input"
proof -
  have "\<forall>l \<in> set batch_input. nonneg l" "int (length batch_input) < 10 ^ 18" by code_simp+
  moreover have "m_order batch_env = (\<lambda>xs. xs)" by (simp add: batch_env_def reply_env_def)
  moreover have "nonneg (u ''Sure: '' @ dumps_json (\<lambda>_. []) batch_reply @ u '' done.'')" by code_simp
  moreover have "floats_in (JObj (out_record batch_item
      (AList.update key_line (JInt 0) (case batch_reply of JObj d \<Rightarrow> d | _ \<Rightarrow> [])))) = []" by code_simp
  ultimately show ?thesis using batch_items batch_accepted by (simp add: sane_env_def del: floats_in.simps)
qed

lemma batch_left: "gemini_left (\<lambda>_. []) batch_input ([batch_line], [])"
  using after_run [OF start [of "\<lambda>_. []" batch_input] _ batch_sane, of 0] batch_run
  by (simp add: batch_env_def reply_env_def)

theorem gemini_output_sound_witness:
  "\<exists>d. json_loads batch_line = Inr (JObj (out_record batch_item d)) \<and> meets_rules (\<lambda>_. []) batch_item d"
proof -
  obtain ps where ps: "map json_loads [batch_line] = map (\<lambda>(it, d). Inr (JObj (out_record it d))) ps"
    "\<forall>(it, d) \<in> set ps. it \<in> set [batch_item] \<and> meets_rules (\<lambda>_. []) it d"
    using gemini_output_sound [OF batch_left batch_items] unfolding fst_conv by blast
  from ps(1) obtain it d where "ps = [(it, d)]" by (cases ps) auto
  then show ?thesis using ps by auto
qed

theorem gemini_run_complete_witness:
  "(\<exists>d. json_line (\<lambda>_. []) (out_record batch_item d) \<in> set [batch_line])
    \<and> gemini_main batch_env batch_input 5 ([batch_line], []) = (([batch_line], []), Inr ())"
proof -
  have e: "m_fr batch_env = (\<lambda>_. [])" by (simp_all add: batch_env_def reply_env_def)
  obtain bs where bs: "[] = [] @ bs"
    "\<forall>it \<in> set [batch_item]. (\<exists>d. json_line (m_fr batch_env) (out_record it d) \<in> set [batch_line])
         \<or> (\<exists>reason raw. json_line (m_fr batch_env) (fail_record batch_env it reason raw) \<in> set bs)"
    "bs = [] \<longrightarrow> gemini_main batch_env batch_input 5 ([batch_line], []) = (([batch_line], []), Inr ())"
    using gemini_run_complete [OF _ batch_items batch_sane batch_run, of batch_env 5] start [of "m_fr batch_env" batch_input]
    by blast
  then show ?thesis using e by simp
qed

definition array_env :: gemini_env where
  "array_env = reply_env (u ''[1]'')"

theorem array_reply_escapes_witness:
  "process_one array_env batch_item = Inl TypeError
    \<and> run_items array_env [batch_item] ([], []) = (([], []), Inl TypeError)"
proof -
  have "fst (call_idealab (m_fr array_env) (m_post array_env) (m_system array_env)
      (user_content (m_fr array_env) batch_item) 3 (m_level array_env) MODEL) = Inr (succeeded (u ''[1]''))"
    by code_simp
  moreover have "extract_json (u ''[1]'') = Inr (JArr [JInt 1])" by code_simp
  ultimately show ?thesis using array_reply_escapes [of array_env batch_item "u ''[1]''" "[JInt 1]" "[]" "([], [])"] by simp
qed

end
