(* ===== verification/PromptBuild.thy ===== *)
theory PromptBuild
  imports GeminiBatch
begin

text \<open>
  The input of a rollout, from \<^verbatim>\<open>rollout_parquet_to_html.py\<close>: \<open>build_messages_and_images\<close> puts the decoded
  images of a row at the placeholders of its prompt, \<open>build_gemini_user_content\<close> turns the messages into
  the content of a remote request. Decoding an image (Pillow) is a parameter; a
  \<open>bytes\<close> value of a row is the string of its bytes. What a prompt says is read off the row by a specification of
  its own (\<open>prompt_says\<close>), and the messages of both models are compared with it.
\<close>

section \<open>Messages with images\<close>

text \<open>An item of a message's content: a JSON value, or a dict with an image under \<open>"image"\<close> and the other
  keys as given. \<open>msg_fields\<close> are the keys of a message beside \<open>"content"\<close>.\<close>

datatype 'i item = Plain json | ImageItem dict 'i
datatype 'i content = TextContent ustr | Items "'i item list"

record 'i message =
  msg_fields :: dict
  msg_content :: "'i content option"

definition key_images :: ustr where "key_images = u ''images''"
definition key_image :: ustr where "key_image = u ''image''"
definition key_role :: ustr where "key_role = u ''role''"
definition image_tag :: ustr where "image_tag = u ''<image>''"

definition image_values :: "dict \<Rightarrow> json list" where
  "image_values row =
     (case dict_get_or row key_images (dict_get row key_image) of
        JNull \<Rightarrow> []
      | JArr vs \<Rightarrow> vs
      | v \<Rightarrow> [v])"

definition content_image :: "'i \<Rightarrow> dict \<Rightarrow> 'i item" where
  "content_image img original =
     ImageItem (AList.update key_type (JStr key_image)
       (filter (\<lambda>(k, _). k \<notin> {u ''path'', u ''bytes'', key_image}) original)) img"

text \<open>The parts of a content before the images are put in: \<open>Fill\<close> is a place for one.\<close>

datatype part = Keep json | Fill dict

function text_parts_of :: "ustr \<Rightarrow> part list" where
  "text_parts_of s =
     (case py_find image_tag s of
        None \<Rightarrow> if s = [] then [] else [Keep (text_part s)]
      | Some k \<Rightarrow>
          (if k = 0 then [] else [Keep (text_part (take k s))])
          @ Fill [] # text_parts_of (drop (k + length image_tag) s))"
  by pat_completeness auto
termination
proof (relation "measure length", simp, goal_cases)
  case (1 s k)
  then have "s \<noteq> []" by (cases s) (auto simp: image_tag_def u_def)
  then show ?case by (simp add: image_tag_def u_def)
qed

declare text_parts_of.simps [simp del]

definition is_image_item :: "json \<Rightarrow> bool" where
  "is_image_item v = (case v of JObj d \<Rightarrow> dict_get d key_type = JStr key_image | _ \<Rightarrow> False)"

definition item_part :: "json \<Rightarrow> part" where
  "item_part v = (if is_image_item v then Fill (case v of JObj d \<Rightarrow> d | _ \<Rightarrow> []) else Keep v)"

text \<open>Putting images in, from number \<open>off\<close> on; the result has the number of the next image.\<close>

fun place :: "'i list \<Rightarrow> nat \<Rightarrow> part list \<Rightarrow> ('i item list \<times> nat) py" where
  "place images off [] = Inr ([], off)"
| "place images off (Keep v # ps) = bindE (place images off ps) (\<lambda>(xs, n). Inr (Plain v # xs, n))"
| "place images off (Fill d # ps) =
     (if length images \<le> off then Inl ValueError
      else bindE (place images (Suc off) ps) (\<lambda>(xs, n). Inr (content_image (images ! off) d # xs, n)))"

definition other_keys :: "dict \<Rightarrow> dict" where
  "other_keys d = filter (\<lambda>(k, _). k \<noteq> key_content) d"

definition convert_message :: "'i list \<Rightarrow> nat \<Rightarrow> json \<Rightarrow> ('i message \<times> nat) py" where
  "convert_message images off v =
     (case v of
        JObj d \<Rightarrow>
          (case dict_get_or d key_content (JStr []) of
             JStr s \<Rightarrow>
               if images = []
               then Inr (\<lparr>msg_fields = other_keys d,
                          msg_content = (if has_key d key_content then Some (TextContent s) else None)\<rparr>, off)
               else bindE (place images off (text_parts_of s)) (\<lambda>(xs, n).
                      Inr (\<lparr>msg_fields = other_keys d, msg_content = Some (Items xs)\<rparr>, n))
           | JArr vs \<Rightarrow>
               bindE (place images off (map item_part vs)) (\<lambda>(xs, n).
                 Inr (\<lparr>msg_fields = other_keys d, msg_content = Some (Items xs)\<rparr>, n))
           | _ \<Rightarrow> Inl TypeError)
      | _ \<Rightarrow> Inl TypeError)"

fun convert_messages :: "'i list \<Rightarrow> nat \<Rightarrow> json list \<Rightarrow> ('i message list \<times> nat) py" where
  "convert_messages images off [] = Inr ([], off)"
| "convert_messages images off (v # vs) =
     bindE (convert_message images off v) (\<lambda>(m, n).
       bindE (convert_messages images n vs) (\<lambda>(ms, n'). Inr (m # ms, n')))"

text \<open>The answer of the ground truth, for \<open>--reveal_gt_answer\<close>.\<close>

definition revealed_answer :: "(pyfloat \<Rightarrow> ustr) \<Rightarrow> dict \<Rightarrow> ustr py" where
  "revealed_answer fr row =
     bindE (case ground_truth_value row of
              JStr s \<Rightarrow> (case json_loads s of
                          Inl e \<Rightarrow> Inl (if e = JSONDecodeError then ValueError else e)
                        | Inr v \<Rightarrow> Inr v)
            | v \<Rightarrow> Inr v) (\<lambda>gt.
       case gt of
         JObj d \<Rightarrow>
           if \<not> has_key d key_answer \<or> dict_get d key_answer = JNull then Inl ValueError
           else Inr (json_text fr (dict_get d key_answer))
       | _ \<Rightarrow> Inl ValueError)"

definition reveal_text :: "ustr \<Rightarrow> ustr" where
  "reveal_text answer_text =
     u ''The correct answer is '' @ answer_text
     @ u ''. Please complete the requested output based on this answer.''"

definition reveal_message :: "ustr \<Rightarrow> 'i message" where
  "reveal_message answer_text =
     \<lparr>msg_fields = [(key_role, JStr (u ''user''))], msg_content = Some (TextContent (reveal_text answer_text))\<rparr>"

definition build_messages_and_images ::
  "(pyfloat \<Rightarrow> ustr) \<Rightarrow> (json \<Rightarrow> 'i py) \<Rightarrow> dict \<Rightarrow> bool \<Rightarrow> ('i message list \<times> 'i list) py" where
  "build_messages_and_images fr decode row reveal =
     (case dict_get row key_prompt of
        JArr vs \<Rightarrow>
          if vs = [] then Inl TypeError
          else bindE (mapE decode (image_values row)) (\<lambda>images.
                 bindE (convert_messages images 0 vs) (\<lambda>(messages, off).
                   if off \<noteq> length images then Inl ValueError
                   else if reveal
                   then bindE (revealed_answer fr row) (\<lambda>answer. Inr (messages @ [reveal_message answer], images))
                   else Inr (messages, images)))
      | _ \<Rightarrow> Inl TypeError)"

section \<open>The content of a remote request\<close>

definition message_items :: "'i message \<Rightarrow> 'i item list" where
  "message_items m =
     (case msg_content m of
        Some (Items xs) \<Rightarrow> xs
      | Some (TextContent s) \<Rightarrow> [Plain (text_part s)]
      | None \<Rightarrow> [Plain (text_part [])])"

definition role_part :: "(pyfloat \<Rightarrow> ustr) \<Rightarrow> 'i message \<Rightarrow> json" where
  "role_part fr m =
     text_part ([10, 91] @ py_upper (py_str fr (dict_get_or (msg_fields m) key_role (JStr (u ''user'')))) @ [93, 10])"

text \<open>The text part of an item that is no image.\<close>

definition plain_part :: "(pyfloat \<Rightarrow> ustr) \<Rightarrow> json \<Rightarrow> json" where
  "plain_part fr v =
     text_part (case v of
        JStr s \<Rightarrow> s
      | JObj d \<Rightarrow> (case dict_get d key_text of JStr s \<Rightarrow> s | _ \<Rightarrow> dumps_json fr v)
      | _ \<Rightarrow> dumps_json fr v)"

definition shows_image :: "'i item \<Rightarrow> bool" where
  "shows_image x = (case x of Plain v \<Rightarrow> is_image_item v | ImageItem _ _ \<Rightarrow> True)"

fun place_urls :: "(pyfloat \<Rightarrow> ustr) \<Rightarrow> ustr list \<Rightarrow> nat \<Rightarrow> 'i item list \<Rightarrow> (json list \<times> nat) py" where
  "place_urls fr urls off [] = Inr ([], off)"
| "place_urls fr urls off (x # xs) =
     (if shows_image x
      then if length urls \<le> off then Inl ValueError
           else bindE (place_urls fr urls (Suc off) xs) (\<lambda>(ps, n). Inr (image_part (JStr (urls ! off)) # ps, n))
      else bindE (place_urls fr urls off xs) (\<lambda>(ps, n).
             Inr (plain_part fr (case x of Plain v \<Rightarrow> v | ImageItem d _ \<Rightarrow> JObj d) # ps, n)))"

fun gemini_messages :: "(pyfloat \<Rightarrow> ustr) \<Rightarrow> ustr list \<Rightarrow> nat \<Rightarrow> 'i message list \<Rightarrow> (json list \<times> nat) py" where
  "gemini_messages fr urls off [] = Inr ([], off)"
| "gemini_messages fr urls off (m # ms) =
     bindE (place_urls fr urls off (message_items m)) (\<lambda>(ps, n).
       bindE (gemini_messages fr urls n ms) (\<lambda>(qs, n'). Inr (role_part fr m # ps @ qs, n')))"

definition closing_part :: json where
  "closing_part = text_part ([10] @ u ''Return only {\"answer\": ..., \"summary\": \"...\"}.'')"

definition build_gemini_user_content ::
  "(pyfloat \<Rightarrow> ustr) \<Rightarrow> 'i message list \<Rightarrow> ustr list \<Rightarrow> json list py" where
  "build_gemini_user_content fr messages image_urls =
     bindE (gemini_messages fr image_urls 0 messages) (\<lambda>(content, off).
       if off \<noteq> length image_urls then Inl ValueError else Inr (content @ [closing_part]))"

section \<open>Images and places\<close>

fun fills :: "part list \<Rightarrow> nat" where
  "fills [] = 0"
| "fills (Keep _ # ps) = fills ps"
| "fills (Fill _ # ps) = Suc (fills ps)"

text \<open>The places for images in a message of the prompt; \<open>None\<close> where the message is malformed. In a text they
  are looked for only if the row has images.\<close>

definition places :: "bool \<Rightarrow> json \<Rightarrow> nat option" where
  "places with_images v =
     (case v of
        JObj d \<Rightarrow>
          (case dict_get_or d key_content (JStr []) of
             JStr s \<Rightarrow> Some (if with_images then fills (text_parts_of s) else 0)
           | JArr vs \<Rightarrow> Some (length (filter is_image_item vs))
           | _ \<Rightarrow> None)
      | _ \<Rightarrow> None)"

text \<open>What a message or a request shows, in order: texts and images.\<close>

datatype 'x shown = Says ustr | Shows 'x

definition part_text_of :: "json \<Rightarrow> ustr" where
  "part_text_of p = (case p of JObj d \<Rightarrow> (case dict_get d key_text of JStr s \<Rightarrow> s | _ \<Rightarrow> []) | _ \<Rightarrow> [])"

definition read_part :: "json \<Rightarrow> ustr shown" where
  "read_part p =
     (case p of
        JObj d \<Rightarrow>
          (case dict_get d (u ''image_url'') of
             JObj e \<Rightarrow> Shows (case dict_get e (u ''url'') of JStr s \<Rightarrow> s | _ \<Rightarrow> [])
           | _ \<Rightarrow> Says (part_text_of p))
      | _ \<Rightarrow> Says [])"

text \<open>The words of the prompt: the tag of a message's role, and what an item of a content list says.\<close>

definition role_words :: "(pyfloat \<Rightarrow> ustr) \<Rightarrow> dict \<Rightarrow> ustr" where
  "role_words fr d =
     [10] @ u ''['' @ py_upper (py_str fr (dict_get_or d key_role (JStr (u ''user'')))) @ u '']'' @ [10]"

definition item_words :: "(pyfloat \<Rightarrow> ustr) \<Rightarrow> json \<Rightarrow> ustr" where
  "item_words fr v =
     (case v of
        JStr s \<Rightarrow> s
      | JObj d \<Rightarrow> (case map_of d key_text of Some (JStr s) \<Rightarrow> s | _ \<Rightarrow> dumps_json fr v)
      | _ \<Rightarrow> dumps_json fr v)"

text \<open>What a message of the local input shows: its content read as it stands.\<close>

definition read_item :: "(pyfloat \<Rightarrow> ustr) \<Rightarrow> 'i item \<Rightarrow> 'i shown" where
  "read_item fr x = (case x of Plain v \<Rightarrow> Says (item_words fr v) | ImageItem _ i \<Rightarrow> Shows i)"

definition read_content :: "(pyfloat \<Rightarrow> ustr) \<Rightarrow> 'i content option \<Rightarrow> 'i shown list" where
  "read_content fr c =
     (case c of None \<Rightarrow> [Says []] | Some (TextContent s) \<Rightarrow> [Says s] | Some (Items xs) \<Rightarrow> map (read_item fr) xs)"

definition read_message :: "(pyfloat \<Rightarrow> ustr) \<Rightarrow> 'i message \<Rightarrow> 'i shown list" where
  "read_message fr m = Says (role_words fr (msg_fields m)) # read_content fr (msg_content m)"

definition images_shown :: "'x shown list \<Rightarrow> 'x list" where
  "images_shown xs = concat (map (\<lambda>x. case x of Says _ \<Rightarrow> [] | Shows i \<Rightarrow> [i]) xs)"

definition outline :: "'x shown list \<Rightarrow> unit shown list" where
  "outline xs = map (map_shown (\<lambda>_. ())) xs"

lemma shown_simps [simp]:
  "images_shown [] = []" "images_shown (Says s # xs) = images_shown xs" "images_shown (Shows i # xs) = i # images_shown xs"
  "images_shown (xs @ ys) = images_shown xs @ images_shown ys"
  "outline [] = []" "outline (x # xs) = map_shown (\<lambda>_. ()) x # outline xs" "outline (xs @ ys) = outline xs @ outline ys"
  by (simp_all add: images_shown_def outline_def)

lemma keys_differ: "key_type \<noteq> key_text" "key_text \<noteq> u ''image_url''" "key_type \<noteq> u ''image_url''"
  "key_image \<noteq> u ''text''"
  by code_simp+

lemma read_text_part [simp]: "read_part (text_part s) = Says s" "part_text_of (text_part s) = s"
  using keys_differ by (simp_all add: read_part_def part_text_of_def text_part_def dict_get_def)

lemma read_image_part [simp]: "read_part (image_part (JStr url)) = Shows url"
  using keys_differ by (simp add: read_part_def image_part_def dict_get_def)

text \<open>What the prompt of a row asks to be shown, read off its JSON. A text is to be said as it is; in a row with
  images every \<open><image>\<close> in it stands for one and none is said. Of a content list, the image items are shown
  and the others said.\<close>

definition spelled :: "unit shown list \<Rightarrow> ustr" where
  "spelled ps = concat (map (\<lambda>p. case p of Says t \<Rightarrow> t | Shows _ \<Rightarrow> image_tag) ps)"

definition content_says :: "(pyfloat \<Rightarrow> ustr) \<Rightarrow> bool \<Rightarrow> json \<Rightarrow> unit shown list \<Rightarrow> bool" where
  "content_says fr with_images c ps \<longleftrightarrow>
     (case c of
        JStr s \<Rightarrow> spelled ps = s
          \<and> list_all (\<lambda>p. case p of Says t \<Rightarrow> with_images \<longrightarrow> \<not> contains image_tag t | Shows _ \<Rightarrow> with_images) ps
      | JArr vs \<Rightarrow> ps = map (\<lambda>v. if is_image_item v then Shows () else Says (item_words fr v)) vs
      | _ \<Rightarrow> False)"

definition prompt_says :: "(pyfloat \<Rightarrow> ustr) \<Rightarrow> bool \<Rightarrow> json \<Rightarrow> unit shown list \<Rightarrow> bool" where
  "prompt_says fr with_images v ps \<longleftrightarrow>
     (case v of
        JObj d \<Rightarrow> \<exists>qs. ps = Says (role_words fr d) # qs
          \<and> content_says fr with_images (dict_get_or d key_content (JStr [])) qs
      | _ \<Rightarrow> False)"

text \<open>The whole input: every message of the prompt, then the revealed answer, with the images in order.\<close>

definition shows_prompt ::
  "(pyfloat \<Rightarrow> ustr) \<Rightarrow> dict \<Rightarrow> bool \<Rightarrow> 'x list \<Rightarrow> 'x shown list list \<Rightarrow> bool" where
  "shows_prompt fr row reveal images pss \<longleftrightarrow>
     (\<exists>vs qss extra. dict_get row key_prompt = JArr vs \<and> map outline pss = qss @ extra
        \<and> list_all2 (prompt_says fr (images \<noteq> [])) vs qss
        \<and> (if reveal
           then \<exists>a. revealed_answer fr row = Inr a \<and> extra = [[Says ([10] @ u ''[USER]'' @ [10]), Says (reveal_text a)]]
           else extra = [])
        \<and> images_shown (concat pss) = images)"

lemma dict_get_map_of: "dict_get d k = (case map_of d k of Some v \<Rightarrow> v | None \<Rightarrow> JNull)"
  by (simp add: dict_get_def)

lemma plain_part_words: "plain_part fr v = text_part (item_words fr v)"
  by (auto simp: plain_part_def item_words_def dict_get_map_of split: json.splits option.splits)

lemma role_part_words: "role_part fr m = text_part (role_words fr (msg_fields m))"
  by (simp add: role_part_def role_words_def u_def)

lemma words_of_text_part [simp]: "item_words fr (text_part s) = s"
  using plain_part_words [of fr "text_part s"] keys_differ
  by (simp add: plain_part_def text_part_def dict_get_def)

lemma read_message_items:
  "read_message fr m = Says (role_words fr (msg_fields m)) # map (read_item fr) (message_items m)"
  by (auto simp: read_message_def read_content_def message_items_def read_item_def split: option.splits content.splits)

lemma other_keys_role: "role_words fr (other_keys d) = role_words fr d"
proof -
  have "key_role \<noteq> key_content" by code_simp
  then have "map_of (other_keys d) key_role = map_of d key_role"
    by (induction d) (auto simp: other_keys_def)
  then show ?thesis by (simp add: role_words_def dict_get_or_def)
qed

text \<open>The parts of a text are that text, and no part between the places holds the tag.\<close>

lemma py_find_first: "py_find p s = Some k \<Longrightarrow> s = take k s @ p @ drop (k + length p) s \<and> (p \<noteq> [] \<longrightarrow> \<not> contains p (take k s))"
proof (induction p s arbitrary: k rule: py_find.induct)
  case (1 p)
  then show ?case by (auto split: if_splits)
next
  case (2 p c cs)
  show ?case
  proof (cases "starts_with p (c # cs)")
    case True
    then have "k = 0" using 2(2) by simp
    moreover have "c # cs = p @ drop (length p) (c # cs)"
      using True append_take_drop_id [of "length p" "c # cs"] by (simp only: starts_with_def)
    ultimately show ?thesis by (auto simp: contains_iff)
  next
    case False
    then obtain j where j: "py_find p cs = Some j" "k = Suc j" using 2(2) by auto
    note ih = 2(1) [OF False j(1)]
    have "\<not> contains p (c # take j cs)" if p: "p \<noteq> []"
    proof
      assume "contains p (c # take j cs)"
      then obtain a b where ab: "c # take j cs = a @ p @ b" by (auto simp: contains_iff)
      show False
      proof (cases a)
        case Nil
        then have "c # cs = p @ b @ drop j cs" using ab append_take_drop_id [of j cs] by (metis append.assoc append_Cons append_Nil)
        then show ?thesis using False by (simp add: starts_with_def)
      next
        case (Cons x a')
        then have "take j cs = a' @ p @ b" using ab by simp
        then show ?thesis using ih p by (auto simp: contains_iff)
      qed
    qed
    then show ?thesis using ih j(2) by simp
  qed
qed

definition part_shown :: "(pyfloat \<Rightarrow> ustr) \<Rightarrow> part \<Rightarrow> unit shown" where
  "part_shown fr p = (case p of Keep v \<Rightarrow> Says (item_words fr v) | Fill _ \<Rightarrow> Shows ())"

lemma text_parts_say:
  "spelled (map (part_shown fr) (text_parts_of s)) = s
   \<and> list_all (\<lambda>p. case p of Says t \<Rightarrow> \<not> contains image_tag t | Shows _ \<Rightarrow> True) (map (part_shown fr) (text_parts_of s))"
proof (induction s rule: text_parts_of.induct)
  case (1 s)
  have tag: "image_tag \<noteq> []" by (simp add: image_tag_def u_def)
  show ?case
  proof (cases "py_find image_tag s")
    case None
    then show ?thesis
      by (subst (1 2) text_parts_of.simps) (auto simp: spelled_def part_shown_def contains_def)
  next
    case (Some k)
    let ?r = "drop (k + length image_tag) s"
    have s: "s = take k s @ image_tag @ ?r" "\<not> contains image_tag (take k s)"
      using py_find_first [OF Some] tag by auto
    have parts: "map (part_shown fr) (text_parts_of s)
        = (if k = 0 then [] else [Says (take k s)]) @ Shows () # map (part_shown fr) (text_parts_of ?r)"
      by (subst text_parts_of.simps) (simp add: Some part_shown_def)
    have "spelled (map (part_shown fr) (text_parts_of s)) = take k s @ image_tag @ ?r"
      using 1 [OF Some] unfolding parts by (auto simp: spelled_def)
    then show ?thesis
      using 1 [OF Some] s unfolding parts by auto
  qed
qed

lemma place_shown:
  "place images off ps = Inr (xs, n) \<Longrightarrow> outline (map (read_item fr) xs) = map (part_shown fr) ps"
  by (induction images off ps arbitrary: xs n rule: place.induct)
     (auto simp: bindE_eq_Inr read_item_def part_shown_def content_image_def split: if_splits)

lemma convert_message_says:
  assumes "convert_message images off v = Inr (m, n)"
  shows "prompt_says fr (images \<noteq> []) v (outline (read_message fr m))"
proof -
  obtain d where d: "v = JObj d" using assms by (auto simp: convert_message_def split: json.splits)
  consider (bare) s where "dict_get_or d key_content (JStr []) = JStr s" "images = []"
    | (words) s where "dict_get_or d key_content (JStr []) = JStr s" "images \<noteq> []"
    | (items) vs where "dict_get_or d key_content (JStr []) = JArr vs"
    using assms d by (auto simp: convert_message_def split: json.splits)
  then show ?thesis
  proof cases
    case bare
    have "s = []" if "\<not> has_key d key_content"
    proof -
      have "map_of d key_content = None" using that by (simp add: has_key_def)
      then show ?thesis using bare(1) by (simp add: dict_get_or_def)
    qed
    then show ?thesis
      using assms d bare
      by (auto simp: convert_message_def prompt_says_def read_message_def read_content_def other_keys_role
          content_says_def spelled_def)
  next
    case words
    then obtain xs where xs: "place images off (text_parts_of s) = Inr (xs, n)"
      "m = \<lparr>msg_fields = other_keys d, msg_content = Some (Items xs)\<rparr>"
      using assms d by (auto simp: convert_message_def bindE_eq_Inr)
    have "list_all (\<lambda>p. case p of Says t \<Rightarrow> images \<noteq> [] \<longrightarrow> \<not> contains image_tag t | Shows _ \<Rightarrow> images \<noteq> [])
        (map (part_shown fr) (text_parts_of s))"
      using text_parts_say [of fr s] words(2) by (auto simp: list_all_iff split: shown.splits)
    then show ?thesis
      using text_parts_say [of fr s] words d xs(2) place_shown [OF xs(1), of fr]
      by (simp add: prompt_says_def read_message_def read_content_def other_keys_role content_says_def)
  next
    case items
    then obtain xs where xs: "place images off (map item_part vs) = Inr (xs, n)"
      "m = \<lparr>msg_fields = other_keys d, msg_content = Some (Items xs)\<rparr>"
      using assms d by (auto simp: convert_message_def bindE_eq_Inr)
    have "map (part_shown fr) (map item_part vs)
        = map (\<lambda>v. if is_image_item v then Shows () else Says (item_words fr v)) vs"
      by (simp add: part_shown_def item_part_def)
    then show ?thesis
      using items d xs(2) place_shown [OF xs(1), of fr]
      by (simp add: prompt_says_def read_message_def read_content_def other_keys_role content_says_def)
  qed
qed

lemma convert_messages_say:
  "convert_messages images off vs = Inr (ms, n) \<Longrightarrow>
     list_all2 (prompt_says fr (images \<noteq> [])) vs (map outline (map (read_message fr) ms))"
  by (induction images off vs arbitrary: ms n rule: convert_messages.induct)
     (auto simp: bindE_eq_Inr dest: convert_message_says [where fr = fr])

text \<open>Items as \<open>build_messages_and_images\<close> makes them: an image is never left as a plain dict.\<close>

definition built_item :: "'i item \<Rightarrow> bool" where
  "built_item x \<longleftrightarrow> (case x of Plain v \<Rightarrow> \<not> is_image_item v | ImageItem _ _ \<Rightarrow> True)"

lemma text_part_not_image: "\<not> is_image_item (text_part s)"
  using keys_differ by (simp add: is_image_item_def text_part_def dict_get_def key_image_def u_def)

lemma text_parts_built: "Keep v \<in> set (text_parts_of s) \<Longrightarrow> \<not> is_image_item v"
  by (induction s rule: text_parts_of.induct)
     (subst (asm) text_parts_of.simps, auto simp: text_part_not_image split: option.splits if_splits)

lemma place_spec:
  assumes "place images off ps = Inr (xs, n)" and "off \<le> length images"
  shows "n = off + fills ps \<and> n \<le> length images
    \<and> take off images @ images_shown (map (read_item fr) xs) = take n images
    \<and> ((\<forall>v. Keep v \<in> set ps \<longrightarrow> \<not> is_image_item v) \<longrightarrow> list_all built_item xs)"
  using assms
proof (induction images off ps arbitrary: xs n rule: place.induct)
  case (3 images off d ps)
  then obtain ys where ys: "place images (Suc off) ps = Inr (ys, n)" "xs = content_image (images ! off) d # ys"
    and lt: "off < length images"
    by (auto split: if_splits)
  note ih = 3(1) [OF _ ys(1)]
  show ?case
    using ih lt ys(2) by (auto simp: content_image_def read_item_def built_item_def take_Suc_conv_app_nth)
qed (auto simp: read_item_def built_item_def)

lemma place_fails: "place images off ps = Inl e \<Longrightarrow> off \<le> length images \<Longrightarrow> e = ValueError \<and> length images < off + fills ps"
  by (induction images off ps rule: place.induct) (auto simp: bindE_eq_Inl split: if_splits)

lemma fills_items: "fills (map item_part vs) = length (filter is_image_item vs)"
  by (induction vs) (auto simp: item_part_def)

lemma items_kept: "Keep v \<in> set (map item_part vs) \<Longrightarrow> \<not> is_image_item v"
  by (auto simp: item_part_def split: if_splits)

lemma convert_message_spec:
  assumes "convert_message images off v = Inr (m, n)" and "off \<le> length images"
  shows "\<exists>k. places (images \<noteq> []) v = Some k \<and> n = off + k \<and> n \<le> length images
    \<and> take off images @ images_shown (read_message fr m) = take n images
    \<and> list_all built_item (message_items m)"
proof -
  obtain d where d: "v = JObj d" using assms(1) by (auto simp: convert_message_def split: json.splits)
  consider (bare) s where "dict_get_or d key_content (JStr []) = JStr s" "images = []"
    | (words) s where "dict_get_or d key_content (JStr []) = JStr s" "images \<noteq> []"
    | (items) vs where "dict_get_or d key_content (JStr []) = JArr vs"
    using assms(1) d by (auto simp: convert_message_def split: json.splits)
  then show ?thesis
  proof cases
    case bare
    then have "n = off" "message_items m = [Plain (text_part s)] \<or> message_items m = [Plain (text_part [])]"
      using assms(1) d by (auto simp: convert_message_def message_items_def)
    then show ?thesis
      using bare d assms(2) text_part_not_image
      by (auto simp: places_def read_message_items read_item_def built_item_def)
  next
    case words
    then obtain xs where xs: "place images off (text_parts_of s) = Inr (xs, n)" "message_items m = xs"
      using assms(1) d by (auto simp: convert_message_def bindE_eq_Inr message_items_def)
    show ?thesis
      using place_spec [OF xs(1) assms(2), of fr] text_parts_built words d xs(2)
      by (auto simp: places_def read_message_items)
  next
    case items
    then obtain xs where xs: "place images off (map item_part vs) = Inr (xs, n)" "message_items m = xs"
      using assms(1) d by (auto simp: convert_message_def bindE_eq_Inr message_items_def)
    have "\<forall>v. Keep v \<in> set (map item_part vs) \<longrightarrow> \<not> is_image_item v" using items_kept by blast
    then show ?thesis
      using place_spec [OF xs(1) assms(2), of fr] items d xs(2) fills_items [of vs]
      by (auto simp: places_def read_message_items simp del: set_map)
  qed
qed

lemma convert_message_fails:
  assumes "convert_message images off v = Inl e" and "off \<le> length images"
  shows "(\<exists>k. places (images \<noteq> []) v = Some k \<and> length images < off + k \<and> e = ValueError)
    \<or> (places (images \<noteq> []) v = None \<and> e = TypeError)"
proof (cases v)
  case (JObj d)
  show ?thesis
  proof (cases "dict_get_or d key_content (JStr [])")
    case (JStr s)
    then show ?thesis
      using assms place_fails [of images off "text_parts_of s" e] JObj
      by (cases "images = []") (auto simp: convert_message_def places_def bindE_eq_Inl split: prod.splits)
  next
    case (JArr vs)
    then show ?thesis
      using assms place_fails [of images off "map item_part vs" e] JObj fills_items [of vs]
      by (auto simp: convert_message_def places_def bindE_eq_Inl split: prod.splits)
  qed (use assms JObj in \<open>auto simp: convert_message_def places_def\<close>)
qed (use assms in \<open>auto simp: convert_message_def places_def\<close>)

lemma convert_messages_spec:
  assumes "convert_messages images off vs = Inr (ms, n)" and "off \<le> length images"
  shows "list_all (\<lambda>v. places (images \<noteq> []) v \<noteq> None) vs
    \<and> n = off + sum_list (map (\<lambda>v. the (places (images \<noteq> []) v)) vs) \<and> n \<le> length images
    \<and> take off images @ images_shown (concat (map (read_message fr) ms)) = take n images
    \<and> list_all (\<lambda>m. list_all built_item (message_items m)) ms"
  using assms
proof (induction images off vs arbitrary: ms n rule: convert_messages.induct)
  case (2 images off v vs)
  then obtain m k ms' where m: "convert_message images off v = Inr (m, k)"
    "convert_messages images k vs = Inr (ms', n)" "ms = m # ms'"
    by (auto simp: bindE_eq_Inr)
  note spec = convert_message_spec [OF m(1) "2.prems"(2), of fr]
  then have "k \<le> length images" by auto
  note ih = "2.IH" [OF m(1) refl m(2) this]
  show ?case using spec ih m(3) by (auto simp: append_assoc [symmetric] simp del: append_assoc)
qed simp

lemma convert_messages_fails:
  assumes "convert_messages images off vs = Inl e" and "off \<le> length images"
    and "list_all (\<lambda>v. places (images \<noteq> []) v \<noteq> None) vs"
  shows "length images < off + sum_list (map (\<lambda>v. the (places (images \<noteq> []) v)) vs) \<and> e = ValueError"
  using assms
proof (induction images off vs rule: convert_messages.induct)
  case (2 images off v vs)
  show ?case
  proof (cases "convert_message images off v")
    case (Inl e')
    then show ?thesis using convert_message_fails [OF Inl "2.prems"(2)] "2.prems"(1,3) by auto
  next
    case (Inr r)
    obtain m k where r: "r = (m, k)" by (cases r)
    have k: "k = off + the (places (images \<noteq> []) v) \<and> k \<le> length images"
      using convert_message_spec [OF _ "2.prems"(2), of v m k "\<lambda>_. []"] Inr r by auto
    have "convert_messages images k vs = Inl e" using "2.prems"(1) Inr r by (auto simp: bindE_eq_Inl)
    then show ?thesis using "2.IH" [OF Inr r [symmetric]] k "2.prems"(3) by auto
  qed
qed simp

section \<open>The remote content\<close>

lemma place_urls_spec:
  assumes "list_all built_item xs" and "off + length (images_shown (map (read_item fr) xs)) \<le> length urls"
  shows "\<exists>ps. place_urls fr urls off xs = Inr (ps, off + length (images_shown (map (read_item fr) xs)))
    \<and> outline (map read_part ps) = outline (map (read_item fr) xs)
    \<and> images_shown (map read_part ps) = take (length (images_shown (map (read_item fr) xs))) (drop off urls)"
  using assms
proof (induction fr urls off xs rule: place_urls.induct)
  case (2 fr urls off x xs)
  show ?case
  proof (cases x)
    case (Plain v)
    then have s: "\<not> shows_image x" using 2(3) by (simp add: built_item_def shows_image_def)
    show ?thesis using 2(2) [OF s] 2(3,4) Plain s by (auto simp: read_item_def plain_part_words)
  next
    case (ImageItem d i)
    then have s: "shows_image x" by (simp add: shows_image_def)
    have lt: "\<not> length urls \<le> off" using 2(4) ImageItem by (simp add: read_item_def)
    have "drop off urls = urls ! off # drop (Suc off) urls" using lt by (simp add: Cons_nth_drop_Suc)
    then show ?thesis using 2(1) [OF s lt] 2(3,4) ImageItem s lt by (auto simp: read_item_def)
  qed
qed simp

lemma place_urls_fails:
  "list_all built_item xs \<Longrightarrow> off \<le> length urls \<Longrightarrow> length urls < off + length (images_shown (map (read_item fr) xs))
     \<Longrightarrow> place_urls fr urls off xs = Inl ValueError"
proof (induction fr urls off xs rule: place_urls.induct)
  case (2 fr urls off x xs)
  then show ?case by (cases x) (auto simp: built_item_def shows_image_def read_item_def)
qed simp

lemma read_role [simp]: "read_part (role_part fr m) = Says (part_text_of (role_part fr m))"
  by (simp add: role_part_def)

lemma gemini_messages_spec:
  assumes "n = length (images_shown (concat (map (read_message fr) ms)))"
    and "list_all (\<lambda>m. list_all built_item (message_items m)) ms" and "off \<le> length urls"
  shows "if off + n \<le> length urls
    then \<exists>ps. gemini_messages fr urls off ms = Inr (ps, off + n)
      \<and> outline (map read_part ps) = outline (concat (map (read_message fr) ms))
      \<and> images_shown (map read_part ps) = take n (drop off urls)
    else gemini_messages fr urls off ms = Inl ValueError"
  using assms
proof (induction fr urls off ms arbitrary: n rule: gemini_messages.induct)
  case (2 fr urls off m ms)
  let ?k = "length (images_shown (map (read_item fr) (message_items m)))"
  let ?j = "length (images_shown (concat (map (read_message fr) ms)))"
  have n: "n = ?k + ?j" using 2(2) read_message_items [of fr m] by simp
  have b: "list_all built_item (message_items m)" "list_all (\<lambda>m. list_all built_item (message_items m)) ms"
    using 2(3) by simp_all
  show ?case
  proof (cases "off + ?k \<le> length urls")
    case False
    then have "place_urls fr urls off (message_items m) = Inl ValueError"
      using place_urls_fails [OF b(1) 2(4)] by simp
    then show ?thesis using False n by simp
  next
    case True
    obtain ps where ps: "place_urls fr urls off (message_items m) = Inr (ps, off + ?k)"
      "outline (map read_part ps) = outline (map (read_item fr) (message_items m))"
      "images_shown (map read_part ps) = take ?k (drop off urls)"
      using place_urls_spec [OF b(1) True] by blast
    note ih = 2(1) [OF ps(1) refl refl b(2) True]
    have split: "take n (drop off urls) = take ?k (drop off urls) @ take ?j (drop (off + ?k) urls)"
      unfolding n by (simp add: take_add add.commute [of off])
    show ?thesis
    proof (cases "off + n \<le> length urls")
      case False
      then show ?thesis using ih ps n by simp
    next
      case True
      then obtain qs where qs: "gemini_messages fr urls (off + ?k) ms = Inr (qs, off + n)"
        "outline (map read_part qs) = outline (concat (map (read_message fr) ms))"
        "images_shown (map read_part qs) = take ?j (drop (off + ?k) urls)"
        using ih n by (auto simp: add.assoc)
      show ?thesis using True ps qs split by (simp add: read_message_items role_part_words)
    qed
  qed
qed simp

lemma reveal_built: "list_all built_item (message_items (reveal_message a))"
  "images_shown (read_message fr (reveal_message a)) = []"
  using text_part_not_image
  by (simp_all add: reveal_message_def message_items_def built_item_def read_message_items read_item_def)

text \<open>A build that returns: every message of the prompt was well-formed, and its images are those of the row.\<close>

lemma build_spec:
  assumes "build_messages_and_images fr decode row reveal = Inr (ms, images)"
  shows "mapE decode (image_values row) = Inr images
    \<and> images_shown (concat (map (read_message fr') ms)) = images
    \<and> list_all (\<lambda>m. list_all built_item (message_items m)) ms"
proof -
  obtain vs where vs: "dict_get row key_prompt = JArr vs" "vs \<noteq> []"
    using assms by (auto simp: build_messages_and_images_def split: json.splits if_splits)
  then obtain ms' extra where c: "mapE decode (image_values row) = Inr images"
    "convert_messages images 0 vs = Inr (ms', length images)" "ms = ms' @ extra"
    "extra = [] \<or> (\<exists>a. extra = [reveal_message a])"
    using assms by (auto simp: build_messages_and_images_def bindE_eq_Inr split: if_splits)
  show ?thesis
    using convert_messages_spec [OF c(2), of fr'] c(1,3,4) reveal_built(1) reveal_built(2) [of fr'] by auto
qed

lemma user_content_spec:
  assumes "list_all (\<lambda>m. list_all built_item (message_items m)) messages"
    and "images_shown (concat (map (read_message fr) messages)) = images"
  shows "if length urls = length images
       then \<exists>content. build_gemini_user_content fr messages urls = Inr content
         \<and> outline (map read_part content)
             = outline (concat (map (read_message fr) messages) @ [Says (part_text_of closing_part)])
         \<and> images_shown (map read_part content) = urls
       else build_gemini_user_content fr messages urls = Inl ValueError"
  using gemini_messages_spec [OF refl assms(1), of 0 urls fr] assms(2)
  by (cases "length images \<le> length urls") (auto simp: build_gemini_user_content_def closing_part_def)

lemma build_shows:
  assumes "build_messages_and_images fr decode row reveal = Inr (ms, images)"
  shows "shows_prompt fr row reveal images (map (read_message fr) ms)"
proof -
  obtain vs where vs: "dict_get row key_prompt = JArr vs"
    using assms by (auto simp: build_messages_and_images_def split: json.splits if_splits)
  obtain ms' extra where c: "convert_messages images 0 vs = Inr (ms', length images)" "ms = ms' @ extra"
    "if reveal then \<exists>a. revealed_answer fr row = Inr a \<and> extra = [reveal_message a] else extra = []"
    using assms vs by (auto simp: build_messages_and_images_def bindE_eq_Inr split: if_splits)
  have user: "outline (read_message fr (reveal_message a)) = [Says ([10] @ u ''[USER]'' @ [10]), Says (reveal_text a)]"
    for a :: ustr
  proof -
    have "py_upper (u ''user'') = u ''USER''" by code_simp
    then show ?thesis
      by (simp add: read_message_def reveal_message_def read_content_def role_words_def dict_get_or_def u_def)
  qed
  show ?thesis
    unfolding shows_prompt_def
  proof (intro exI conjI)
    show "dict_get row key_prompt = JArr vs" by (rule vs)
    show "map outline (map (read_message fr) ms)
        = map outline (map (read_message fr) ms') @ map outline (map (read_message fr) extra)" by (simp add: c(2))
    show "list_all2 (prompt_says fr (images \<noteq> [])) vs (map outline (map (read_message fr) ms'))"
      by (rule convert_messages_say [OF c(1)])
    show "if reveal then \<exists>a. revealed_answer fr row = Inr a
          \<and> map outline (map (read_message fr) extra) = [[Says ([10] @ u ''[USER]'' @ [10]), Says (reveal_text a)]]
        else map outline (map (read_message fr) extra) = []"
      using c(3) user by (auto split: if_splits)
    show "images_shown (concat (map (read_message fr) ms)) = images" using build_spec [OF assms] by blast
  qed
qed

text \<open>Pieces with the outline of a whole input can be cut into those of its messages.\<close>

lemma outline_concat:
  "outline xs = outline (concat yss) \<Longrightarrow> \<exists>xss. xs = concat xss \<and> map outline xss = map outline yss"
proof (induction yss arbitrary: xs)
  case Nil
  then have "xs = []" by (simp add: outline_def)
  then show ?case by (intro exI [of _ "[]"]) simp
next
  case (Cons ys yss)
  have "outline (take (length ys) xs) = outline ys" "outline (drop (length ys) xs) = outline (concat yss)"
    using arg_cong [OF Cons.prems, of "take (length ys)"] arg_cong [OF Cons.prems, of "drop (length ys)"]
    by (simp_all add: outline_def take_map drop_map)
  moreover from Cons.IH [OF this(2)] obtain xss where "drop (length ys) xs = concat xss" "map outline xss = map outline yss"
    by blast
  ultimately have "xs = concat (take (length ys) xs # xss)
      \<and> map outline (take (length ys) xs # xss) = map outline (ys # yss)"
    using append_take_drop_id [of "length ys" xs] by simp
  then show ?case by blast
qed

definition closing_words :: ustr where
  "closing_words = [10] @ u ''Return only {\"answer\": ..., \"summary\": \"...\"}.''"

lemma outline_snoc:
  assumes "outline xs = outline (ys @ [Says t])"
  obtains xs' where "xs = xs' @ [Says t]" "outline xs' = outline ys"
proof -
  have "xs \<noteq> []" using assms by (auto simp: outline_def)
  then obtain xs' x where xs: "xs = xs' @ [x]" by (metis rev_exhaust)
  with assms have "outline xs' = outline ys" "map_shown (\<lambda>_. ()) x = Says t" by (simp_all add: outline_def)
  then show thesis using that xs by (cases x) auto
qed

text \<open>What the remote model is shown for a row.\<close>

lemma content_shows:
  assumes b: "build_messages_and_images fr decode row reveal = Inr (messages, images)"
    and l: "length urls = length images"
  shows "\<exists>content pss. build_gemini_user_content fr messages urls = Inr content
     \<and> map read_part content = concat pss @ [Says closing_words] \<and> shows_prompt fr row reveal urls pss
     \<and> map outline pss = map outline (map (read_message fr) messages)"
proof -
  note spec = build_spec [OF b, of fr] and seen = build_shows [OF b]
  have ok: "list_all (\<lambda>m. list_all built_item (message_items m)) messages"
    "images_shown (concat (map (read_message fr) messages)) = images" using spec by blast+
  have "part_text_of closing_part = closing_words" by (simp add: closing_part_def closing_words_def)
  then obtain content where content: "build_gemini_user_content fr messages urls = Inr content"
    "outline (map read_part content) = outline (concat (map (read_message fr) messages) @ [Says closing_words])"
    "images_shown (map read_part content) = urls"
    using user_content_spec [OF ok, of urls] l by auto
  obtain xs where xs: "map read_part content = xs @ [Says closing_words]"
    "outline xs = outline (concat (map (read_message fr) messages))"
    by (rule outline_snoc [OF content(2)])
  obtain pss where pss: "xs = concat pss" "map outline pss = map outline (map (read_message fr) messages)"
    using outline_concat [OF xs(2)] by blast
  have "(urls \<noteq> []) = (images \<noteq> [])" using l by auto
  moreover have "images_shown (concat pss) = urls" using content(3) xs(1) pss(1) by simp
  moreover obtain vs qss extra where "dict_get row key_prompt = JArr vs"
    "map outline (map (read_message fr) messages) = qss @ extra" "list_all2 (prompt_says fr (images \<noteq> [])) vs qss"
    "if reveal then \<exists>a. revealed_answer fr row = Inr a \<and> extra = [[Says ([10] @ u ''[USER]'' @ [10]), Says (reveal_text a)]]
     else extra = []"
    using seen unfolding shows_prompt_def by (elim exE conjE)
  ultimately have "shows_prompt fr row reveal urls pss"
    unfolding shows_prompt_def pss(2) by - (rule exI [of _ vs], rule exI [of _ qss], rule exI [of _ extra], simp only: simp_thms)
  moreover have "map read_part content = concat pss @ [Says closing_words]" by (simp only: xs(1) pss(1))
  ultimately show ?thesis using content(1) pss(2) by blast
qed

text \<open>C10: Both models are shown what the prompt of the row says, and in the same order. The prompt is read off
  the row's JSON: the text of every message, cut at \<open><image>\<close> only if the row has images, or its list of
  items, then the revealed answer. The local messages show exactly this, with the decoded images of the row
  in their order; for as many URLs as images the request shows it with the URLs in their order, each message
  under its role tag, and the closing line; any other number of URLs is refused.\<close>

theorem request_images_aligned:
  assumes "build_messages_and_images fr decode row reveal = Inr (messages, images)"
  shows "mapE decode (image_values row) = Inr images
    \<and> shows_prompt fr row reveal images (map (read_message fr) messages)
    \<and> (if length urls = length images
       then \<exists>content pss. build_gemini_user_content fr messages urls = Inr content
         \<and> map read_part content = concat pss @ [Says closing_words] \<and> shows_prompt fr row reveal urls pss
         \<and> map outline pss = map outline (map (read_message fr) messages)
       else build_gemini_user_content fr messages urls = Inl ValueError)"
proof -
  note spec = build_spec [OF assms, of fr]
  then have "build_gemini_user_content fr messages urls = Inl ValueError" if "length urls \<noteq> length images"
    using user_content_spec [of messages fr images urls] that by simp
  with spec build_shows [OF assms] content_shows [OF assms, of urls] show ?thesis by auto
qed

text \<open>A prompt of well-formed messages is built exactly when it has one place for every image of the row,
  otherwise it is refused with a \<open>ValueError\<close>; a row without images keeps its texts as they are.\<close>

theorem build_counts_places:
  assumes "dict_get row key_prompt = JArr prompt_messages" and "prompt_messages \<noteq> []"
    and "mapE decode (image_values row) = Inr images"
    and "list_all (\<lambda>v. places (images \<noteq> []) v \<noteq> None) prompt_messages"
  defines "k \<equiv> sum_list (map (\<lambda>v. the (places (images \<noteq> []) v)) prompt_messages)"
  shows "if k = length images
    then \<exists>messages. build_messages_and_images fr decode row False = Inr (messages, images)
    else build_messages_and_images fr decode row False = Inl ValueError"
proof (cases "convert_messages images 0 prompt_messages")
  case (Inl e)
  then have "length images < k \<and> e = ValueError"
    using convert_messages_fails [OF Inl _ assms(4)] by (simp add: k_def)
  then show ?thesis using assms(1-3) Inl by (auto simp: build_messages_and_images_def)
next
  case (Inr r)
  obtain ms n where r: "r = (ms, n)" by (cases r)
  have "n = k" using convert_messages_spec [of images 0 prompt_messages ms n] Inr r by (simp add: k_def)
  then show ?thesis using assms(1-3) Inr r by (auto simp: build_messages_and_images_def)
qed

text \<open>Only the answer is revealed: with \<open>--reveal_gt_answer\<close>, rows with the same prompt and images whose
  ground truths are JSON objects with the same answer give the same messages, whatever else the ground
  truths hold. Without the flag the ground truth does
  not matter at all.\<close>

theorem reveal_only_answer:
  assumes "dict_get row key_prompt = dict_get row' key_prompt" and "image_values row = image_values row'"
    and "reveal \<longrightarrow> ground_truth_value row = JStr s \<and> json_loads s = Inr (JObj d)
      \<and> ground_truth_value row' = JStr s' \<and> json_loads s' = Inr (JObj d')
      \<and> map_of d key_answer = map_of d' key_answer"
  shows "build_messages_and_images fr decode row reveal = build_messages_and_images fr decode row' reveal"
proof -
  have a: "reveal \<Longrightarrow> revealed_answer fr row = revealed_answer fr row'"
    using assms(3) by (simp add: revealed_answer_def has_key_def dict_get_def)
  show ?thesis
  proof (cases reveal)
    case True
    show ?thesis unfolding build_messages_and_images_def assms(1,2) a [OF True] ..
  next
    case False
    then show ?thesis unfolding build_messages_and_images_def assms(1,2) by (simp only: if_False)
  qed
qed

section \<open>A row\<close>

definition two_images_row :: eval_row where
  "two_images_row = \<lparr>r_order = 0, r_source = 7,
     r_row = [(key_prompt, JArr [JObj [(key_role, JStr (u ''user'')), (key_content, JStr (u ''A <image> B <image>?''))]]),
       (key_images, JArr [JStr (u ''a''), JStr (u ''b'')]),
       (key_ground_truth, JStr (u ''{\"answer\": \"B\", \"summary\": \"secret\"}''))],
     r_ground_truth = u ''{\"answer\": \"B\", \"summary\": \"secret\"}''\<rparr>"

definition sample_decode :: "json \<Rightarrow> ustr py" where
  "sample_decode v = (case v of JStr s \<Rightarrow> Inr s | _ \<Rightarrow> Inl TypeError)"

definition request_messages :: "ustr message list" where
  "request_messages =
     [\<lparr>msg_fields = [(key_role, JStr (u ''user''))], msg_content = Some (Items
         [Plain (text_part (u ''A '')), content_image (u ''a'') [], Plain (text_part (u '' B '')),
          content_image (u ''b'') [], Plain (text_part (u ''?''))])\<rparr>,
      reveal_message (u ''B'')]"

lemma request_built:
  "build_messages_and_images (\<lambda>_. []) sample_decode (r_row two_images_row) True
    = Inr (request_messages, [u ''a'', u ''b''])"
  by code_simp

theorem request_images_aligned_witness:
  "shows_prompt (\<lambda>_. []) (r_row two_images_row) True [u ''a'', u ''b''] (map (read_message (\<lambda>_. [])) request_messages)
    \<and> (\<exists>content pss. build_gemini_user_content (\<lambda>_. []) request_messages [u ''x'', u ''y''] = Inr content
         \<and> map read_part content = concat pss @ [Says closing_words]
         \<and> shows_prompt (\<lambda>_. []) (r_row two_images_row) True [u ''x'', u ''y''] pss)
    \<and> build_gemini_user_content (\<lambda>_. []) request_messages [u ''x''] = Inl ValueError"
  using request_images_aligned [OF request_built, of "[u ''x'', u ''y'']"]
    request_images_aligned [OF request_built, of "[u ''x'']"] by auto

theorem build_counts_places_witness:
  "build_messages_and_images (\<lambda>_. []) sample_decode
     [(key_prompt, JArr [JObj [(key_content, JStr (u ''<image>''))], JObj [(key_content, JArr [JStr (u ''t'')])]]),
      (key_images, JArr [JStr (u ''a''), JStr (u ''b'')])] False = Inl ValueError"
proof -
  let ?ms = "[JObj [(key_content, JStr (u ''<image>''))], JObj [(key_content, JArr [JStr (u ''t'')])]]"
  let ?row = "[(key_prompt, JArr ?ms), (key_images, JArr [JStr (u ''a''), JStr (u ''b'')])]"
  have "dict_get ?row key_prompt = JArr ?ms" by code_simp
  moreover have "mapE sample_decode (image_values ?row) = Inr [u ''a'', u ''b'']" by code_simp
  moreover have "list_all (\<lambda>v. places ([u ''a'', u ''b''] \<noteq> []) v \<noteq> None) ?ms" by code_simp
  moreover have "sum_list (map (\<lambda>v. the (places ([u ''a'', u ''b''] \<noteq> []) v)) ?ms) = 1" by code_simp
  ultimately show ?thesis
    using build_counts_places [of ?row ?ms sample_decode "[u ''a'', u ''b'']" "\<lambda>_. []"] by simp
qed

theorem reveal_only_answer_witness:
  "build_messages_and_images (\<lambda>_. []) sample_decode (r_row two_images_row) True
   = build_messages_and_images (\<lambda>_. []) sample_decode
       (AList.update key_ground_truth (JStr (u ''{\"boxes\": [1], \"answer\": \"B\"}'')) (r_row two_images_row)) True"
proof (rule reveal_only_answer)
  show "True \<longrightarrow> ground_truth_value (r_row two_images_row) = JStr (u ''{\"answer\": \"B\", \"summary\": \"secret\"}'')
     \<and> json_loads (u ''{\"answer\": \"B\", \"summary\": \"secret\"}'')
       = Inr (JObj [(key_answer, JStr (u ''B'')), (key_summary, JStr (u ''secret''))])
     \<and> ground_truth_value (AList.update key_ground_truth (JStr (u ''{\"boxes\": [1], \"answer\": \"B\"}'')) (r_row two_images_row))
       = JStr (u ''{\"boxes\": [1], \"answer\": \"B\"}'')
     \<and> json_loads (u ''{\"boxes\": [1], \"answer\": \"B\"}'')
       = Inr (JObj [(u ''boxes'', JArr [JInt 1]), (key_answer, JStr (u ''B''))])
     \<and> map_of [(key_answer, JStr (u ''B'')), (key_summary, JStr (u ''secret''))] key_answer
       = map_of [(u ''boxes'', JArr [JInt 1]), (key_answer, JStr (u ''B''))] key_answer"
    by code_simp
qed code_simp+

end
