(* ===== verification/RemoteRequest.thy ===== *)
theory RemoteRequest
  imports PromptBuild
begin

text \<open>
  From a row to the remote reply: \<open>_prepare_gemini_request\<close> of \<^verbatim>\<open>rollout_parquet_to_html.py\<close> with the
  object store of \<^verbatim>\<open>run_gemini.py\<close> (\<open>OuterOSSHandle\<close>), and the call \<open>run_remote\<close> of
  \<^verbatim>\<open>rollout_checkpoint.py\<close> makes for every row. A bucket maps keys to files; which of its operations raise,
  the signing of a URL, Pillow's operations and the hash of the dataset's file are parameters.
\<close>

section \<open>The object store\<close>

type_synonym 'f bucket = "ustr \<rightharpoonup> 'f"

datatype oss_call = ExistCall ustr | PutCall ustr | UrlCall ustr

record ('i, 'f) request_env =
  q_fr :: "pyfloat \<Rightarrow> ustr"
  q_decode :: "json \<Rightarrow> 'i py"
  q_jpeg :: "int \<Rightarrow> int \<Rightarrow> 'i \<Rightarrow> 'f py"
  q_fault :: "oss_call \<Rightarrow> py_exn option"
  q_sign :: "ustr \<Rightarrow> ustr"
  q_prefix :: ustr
  q_dataset_key :: ustr
  q_system :: ustr
  q_post :: "json \<Rightarrow> nat \<Rightarrow> ustr + http_reply"

definition guarded :: "('i, 'f) request_env \<Rightarrow> oss_call \<Rightarrow> 'a \<Rightarrow> 'a py" where
  "guarded env c x = (case q_fault env c of Some e \<Rightarrow> Inl e | None \<Rightarrow> Inr x)"

definition is_file_exist :: "('i, 'f) request_env \<Rightarrow> 'f bucket \<Rightarrow> ustr \<Rightarrow> bool py" where
  "is_file_exist env b key = guarded env (ExistCall key) (b key \<noteq> None)"

definition upload_file :: "('i, 'f) request_env \<Rightarrow> 'f bucket \<Rightarrow> ustr \<Rightarrow> 'f \<Rightarrow> 'f bucket py" where
  "upload_file env b key f = guarded env (PutCall key) (b(key \<mapsto> f))"

definition get_oss_url :: "('i, 'f) request_env \<Rightarrow> ustr \<Rightarrow> ustr py" where
  "get_oss_url env key = guarded env (UrlCall key) (q_sign env key)"

section \<open>The request of a row\<close>

text \<open>\<open>f"{i:08d}"\<close>.\<close>

definition pad8 :: "int \<Rightarrow> ustr" where
  "pad8 i =
     (let ds = nat_digits (nat \<bar>i\<bar>)
      in if i < 0 then 45 # replicate (7 - length ds) 48 @ ds else replicate (8 - length ds) 48 @ ds)"

definition strip_slashes :: "ustr \<Rightarrow> ustr" where
  "strip_slashes s = rev (dropWhile (\<lambda>c. c = 47) (rev (dropWhile (\<lambda>c. c = 47) s)))"

definition image_key_of :: "('i, 'f) request_env \<Rightarrow> eval_row \<Rightarrow> nat \<Rightarrow> ustr" where
  "image_key_of env row index =
     strip_slashes (q_prefix env) @ [47] @ q_dataset_key env @ u ''/row_'' @ pad8 (r_source row)
     @ u ''/image_'' @ str_of_int (int index) @ u ''.jpg''"

text \<open>The loop over the images, from number \<open>index\<close> on. Each is resized and saved (\<open>q_jpeg\<close> with the longest
  edge and the quality), uploaded unless its key is in the bucket, and gives its URL.\<close>

fun upload_images ::
  "('i, 'f) request_env \<Rightarrow> rollout_args \<Rightarrow> eval_row \<Rightarrow> nat \<Rightarrow> 'i list \<Rightarrow> 'f bucket \<Rightarrow> 'f bucket \<times> ustr list py" where
  "upload_images env a row index [] b = (b, Inr [])"
| "upload_images env a row index (img # rest) b =
     (let key = image_key_of env row index;
          step = bindE (q_jpeg env (a_gemini_max_image_edge a) (a_jpeg_quality a) img) (\<lambda>f.
                   bindE (is_file_exist env b key) (\<lambda>there. if there then Inr b else upload_file env b key f))
      in case step of
           Inl e \<Rightarrow> (b, Inl e)
         | Inr b' \<Rightarrow>
             (case get_oss_url env key of
                Inl e \<Rightarrow> (b', Inl e)
              | Inr url \<Rightarrow>
                  (case upload_images env a row (Suc index) rest b' of
                     (b'', r) \<Rightarrow> (b'', bindE r (\<lambda>urls. Inr (url # urls))))))"

definition prepare_gemini_request ::
  "('i, 'f) request_env \<Rightarrow> rollout_args \<Rightarrow> eval_row \<Rightarrow> 'f bucket \<Rightarrow> 'f bucket \<times> json list py" where
  "prepare_gemini_request env a row b =
     (case build_messages_and_images (q_fr env) (q_decode env) (r_row row) (a_reveal_gt_answer a) of
        Inl e \<Rightarrow> (b, Inl e)
      | Inr (messages, images) \<Rightarrow>
          (case upload_images env a row 1 images b of
             (b', r) \<Rightarrow> (b', bindE r (\<lambda>urls. build_gemini_user_content (q_fr env) messages urls))))"

text \<open>The request and the call for one row; \<open>generate_one\<close> reads the result.\<close>

definition remote_call ::
  "('i, 'f) request_env \<Rightarrow> rollout_args \<Rightarrow> ustr \<Rightarrow> 'f bucket \<Rightarrow> eval_row \<Rightarrow> 'f bucket \<times> dict py" where
  "remote_call env a level b row =
     (case prepare_gemini_request env a row b of
        (b', r) \<Rightarrow> (b', bindE r (\<lambda>content.
          fst (call_idealab (q_fr env) (q_post env) (q_system env) content (a_gemini_max_retries a) level
                 (a_remote_model a)))))"

section \<open>Keys\<close>

lemma digits_val_zeros: "digits_val 0 (replicate n 48 @ ds) = digits_val 0 ds"
  by (induction n) simp_all

lemma pad8_digits: "0 \<le> i \<Longrightarrow> list_all is_digit (pad8 i) \<and> digits_val 0 (pad8 i) = i"
  using nat_digits_digits [of "nat \<bar>i\<bar>"]
  by (simp add: pad8_def Let_def digits_val_zeros digits_val_nat list_all_iff is_digit_def ball_Un)

lemma digits_until:
  "list_all is_digit p \<Longrightarrow> list_all is_digit q \<Longrightarrow> \<not> is_digit c \<Longrightarrow> p @ c # r = q @ c # t \<Longrightarrow> p = q"
proof -
  assume a: "list_all is_digit p" "list_all is_digit q" "\<not> is_digit c" "p @ c # r = q @ c # t"
  have "takeWhile is_digit (p @ c # r) = p" "takeWhile is_digit (q @ c # t) = q"
    using a(1-3) by (auto simp: takeWhile_append list_all_iff)
  then show ?thesis using a(4) by simp
qed

lemma index_digits: "str_of_int (int n) = nat_digits n" "list_all is_digit (nat_digits n)"
  "digits_val 0 (nat_digits n) = int n"
  by (simp_all add: str_of_int_def nat_digits_digits digits_val_nat)

text \<open>Keys of different rows, and of different images of one row, are different.\<close>

lemma image_key_inj:
  assumes "image_key_of env row i = image_key_of env row' j" and "0 \<le> r_source row" and "0 \<le> r_source row'"
  shows "r_source row = r_source row' \<and> i = j"
proof -
  have e: "pad8 (r_source row) @ u ''/image_'' @ nat_digits i @ u ''.jpg''
      = pad8 (r_source row') @ u ''/image_'' @ nat_digits j @ u ''.jpg''"
    using assms(1) by (simp add: image_key_of_def index_digits)
  have slash: "u ''/image_'' = 47 # u ''image_''" by (simp add: u_def)
  have d: "list_all is_digit (pad8 (r_source row))" "list_all is_digit (pad8 (r_source row'))"
    using pad8_digits assms(2,3) by simp_all
  have r: "pad8 (r_source row) = pad8 (r_source row')"
    using digits_until [OF d, of 47] e unfolding slash by (simp add: is_digit_def)
  then have "nat_digits i @ u ''.jpg'' = nat_digits j @ u ''.jpg''" using e by simp
  then have "nat_digits i = nat_digits j" by simp
  moreover have "r_source row = digits_val 0 (pad8 (r_source row))" "r_source row' = digits_val 0 (pad8 (r_source row'))"
    using pad8_digits assms(2,3) by simp_all
  ultimately show ?thesis using r index_digits(3) by (metis of_nat_eq_iff)
qed

section \<open>Uploads\<close>

definition row_keys :: "('i, 'f) request_env \<Rightarrow> eval_row \<Rightarrow> ustr set" where
  "row_keys env row = range (image_key_of env row)"

lemma upload_step:
  assumes "bindE (q_jpeg env w q img) (\<lambda>f.
      bindE (is_file_exist env b key) (\<lambda>there. if there then Inr b else upload_file env b key f)) = Inr b'"
  shows "\<exists>f. q_jpeg env w q img = Inr f \<and> b' = b(key \<mapsto> (case b key of None \<Rightarrow> f | Some old \<Rightarrow> old))"
  using assms by (auto simp: bindE_eq_Inr is_file_exist_def upload_file_def guarded_def fun_upd_idem
      split: option.splits if_splits)

lemma upload_images_spec:
  assumes "upload_images env a row index images b = (b', r)" and "0 \<le> r_source row"
  shows "(\<forall>k. k \<notin> image_key_of env row ` {index..} \<longrightarrow> b' k = b k)
    \<and> (\<forall>k old. b k = Some old \<longrightarrow> b' k = Some old)
    \<and> (\<forall>urls. r = Inr urls \<longrightarrow> urls = map (\<lambda>i. q_sign env (image_key_of env row i)) [index..<index + length images]
      \<and> (\<forall>i < length images. \<exists>f. q_jpeg env (a_gemini_max_image_edge a) (a_jpeg_quality a) (images ! i) = Inr f
          \<and> b' (image_key_of env row (index + i))
             = Some (case b (image_key_of env row (index + i)) of None \<Rightarrow> f | Some old \<Rightarrow> old)))"
  using assms
proof (induction env a row index images b arbitrary: b' r rule: upload_images.induct)
  case (2 env a row index img rest b)
  let ?key = "image_key_of env row index"
  let ?step = "bindE (q_jpeg env (a_gemini_max_image_edge a) (a_jpeg_quality a) img) (\<lambda>f.
      bindE (is_file_exist env b ?key) (\<lambda>there. if there then Inr b else upload_file env b ?key f))"
  show ?case
  proof (cases ?step)
    case (Inl e)
    then have "b' = b" "r = Inl e" using 2(2) by (simp_all add: Let_def)
    then show ?thesis by simp
  next
    case (Inr b1)
    obtain f where f: "q_jpeg env (a_gemini_max_image_edge a) (a_jpeg_quality a) img = Inr f"
      "b1 = b(?key \<mapsto> (case b ?key of None \<Rightarrow> f | Some old \<Rightarrow> old))"
      using upload_step [OF Inr] by blast
    have b1: "b1 k = b k" if "k \<noteq> ?key \<or> b k \<noteq> None" for k using that f(2) by (auto split: option.splits)
    have old: "b1 k = Some x" if "b k = Some x" for k x using b1 [of k] that by simp
    show ?thesis
    proof (cases "get_oss_url env ?key")
      case (Inl e)
      then have "b' = b1" "r = Inl e" using 2(2) Inr by (simp_all add: Let_def)
      moreover have "b1 k = b k" if "k \<notin> image_key_of env row ` {index..}" for k using b1 that by auto
      ultimately show ?thesis using old by blast
    next
      case url: (Inr url)
      obtain r1 where rest: "upload_images env a row (Suc index) rest b1 = (b', r1)"
        and r: "r = bindE r1 (\<lambda>urls. Inr (url # urls))"
        using 2(2) Inr url by (auto simp: Let_def split: prod.splits)
      note ih = 2(1) [OF refl refl Inr url rest 2(3)]
      have later: "?key \<noteq> image_key_of env row (Suc index + i)" for i
        using image_key_inj [of env row index row "Suc index + i"] 2(3) by auto
      have key: "b' ?key = Some (case b ?key of None \<Rightarrow> f | Some old \<Rightarrow> old)"
        using ih f(2) later by auto
      have sign: "url = q_sign env ?key" using url by (auto simp: get_oss_url_def guarded_def split: option.splits)
      have others: "b' k = b k" if "k \<notin> image_key_of env row ` {index..}" for k
      proof -
        have "k \<notin> image_key_of env row ` {Suc index..}" "k \<noteq> ?key" using that by auto
        then show ?thesis using ih b1 by auto
      qed
      moreover have "b' k = Some old" if "b k = Some old" for k old using ih b1 [of k] that by auto
      moreover have "urls = map (\<lambda>i. q_sign env (image_key_of env row i)) [index..<index + length (img # rest)]
          \<and> (\<forall>i < length (img # rest). \<exists>f. q_jpeg env (a_gemini_max_image_edge a) (a_jpeg_quality a) ((img # rest) ! i) = Inr f
              \<and> b' (image_key_of env row (index + i))
                 = Some (case b (image_key_of env row (index + i)) of None \<Rightarrow> f | Some old \<Rightarrow> old))"
        if urls: "r = Inr urls" for urls
      proof -
        obtain us where us: "r1 = Inr us" "urls = url # us" using r urls by (cases r1) auto
        have "urls = map (\<lambda>i. q_sign env (image_key_of env row i)) [index..<index + length (img # rest)]"
        proof -
          have "[index..<index + length (img # rest)] = index # [Suc index..<Suc index + length rest]"
            by (simp add: upt_conv_Cons del: upt_Suc)
          moreover have "us = map (\<lambda>i. q_sign env (image_key_of env row i)) [Suc index..<Suc index + length rest]"
            using ih us(1) by blast
          ultimately show ?thesis by (simp only: us(2) sign list.map)
        qed
        moreover have "\<exists>f. q_jpeg env (a_gemini_max_image_edge a) (a_jpeg_quality a) ((img # rest) ! i) = Inr f
              \<and> b' (image_key_of env row (index + i))
                 = Some (case b (image_key_of env row (index + i)) of None \<Rightarrow> f | Some old \<Rightarrow> old)"
          if i: "i < length (img # rest)" for i
        proof (cases i)
          case 0
          then show ?thesis using key f(1) by simp
        next
          case (Suc j)
          then have "b1 (image_key_of env row (Suc index + j)) = b (image_key_of env row (Suc index + j))"
            using b1 later [of j] by auto
          then show ?thesis using ih us(1) i Suc by auto
        qed
        ultimately show ?thesis by blast
      qed
      ultimately show ?thesis by blast
    qed
  qed
qed simp

section \<open>Properties\<close>

lemma prepare_parts:
  assumes "prepare_gemini_request env a row b = (b', Inr content)"
  shows "\<exists>messages images urls. build_messages_and_images (q_fr env) (q_decode env) (r_row row) (a_reveal_gt_answer a)
        = Inr (messages, images)
    \<and> upload_images env a row 1 images b = (b', Inr urls)
    \<and> build_gemini_user_content (q_fr env) messages urls = Inr content"
  using assms by (auto simp: prepare_gemini_request_def bindE_eq_Inr split: sum.splits prod.splits)

text \<open>C9: A request that is made has every image of its row in the bucket: under the key of the n-th image
  stands the JPEG of that image, or, if the key was there before, the old object, whatever edge and
  quality are asked for now. The URLs are those of the keys in order. No object is ever overwritten and no
  key of another row is touched, so requests of different rows do not interfere.\<close>

theorem request_uploads:
  assumes "prepare_gemini_request env a row b = (b', Inr content)" and "0 \<le> r_source row"
  shows "\<exists>messages images. build_messages_and_images (q_fr env) (q_decode env) (r_row row) (a_reveal_gt_answer a)
        = Inr (messages, images)
    \<and> images_shown (map read_part content)
        = map (\<lambda>i. q_sign env (image_key_of env row i)) [1..<Suc (length images)]
    \<and> (\<forall>i < length images. \<exists>f. q_jpeg env (a_gemini_max_image_edge a) (a_jpeg_quality a) (images ! i) = Inr f
         \<and> b' (image_key_of env row (Suc i))
           = Some (case b (image_key_of env row (Suc i)) of None \<Rightarrow> f | Some old \<Rightarrow> old))
    \<and> (\<forall>k old. b k = Some old \<longrightarrow> b' k = Some old)
    \<and> (\<forall>row' i. 0 \<le> r_source row' \<longrightarrow> r_source row' \<noteq> r_source row
         \<longrightarrow> b' (image_key_of env row' i) = b (image_key_of env row' i))"
proof -
  obtain messages images urls where m:
    "build_messages_and_images (q_fr env) (q_decode env) (r_row row) (a_reveal_gt_answer a) = Inr (messages, images)"
    "upload_images env a row 1 images b = (b', Inr urls)"
    "build_gemini_user_content (q_fr env) messages urls = Inr content"
    using prepare_parts [OF assms(1)] by blast
  note up = upload_images_spec [OF m(2) assms(2)]
  then have urls: "urls = map (\<lambda>i. q_sign env (image_key_of env row i)) [1..<Suc (length images)]" by simp
  have shown: "images_shown (map read_part content) = urls"
    using build_spec [OF m(1), of "q_fr env"] user_content_spec [of messages "q_fr env" images urls] m(3)
    by (auto split: if_splits)
  have "b' (image_key_of env row' i) = b (image_key_of env row' i)"
    if "0 \<le> r_source row'" "r_source row' \<noteq> r_source row" for row' i
  proof -
    have "image_key_of env row' i \<notin> image_key_of env row ` {1..}"
      using image_key_inj [of env row' i row] that assms(2) by auto
    then show ?thesis using up by blast
  qed
  then show ?thesis using m(1) shown urls up by auto
qed

lemma output_stripped: "output_string fr v = Inr s \<Longrightarrow> py_strip s = s"
proof -
  assume "output_string fr v = Inr s"
  then obtain out where "(if \<not> truthy out then Inr []
      else case out of JStr t \<Rightarrow> Inr (py_strip t) | _ \<Rightarrow> Inl AttributeError) = Inr s"
    unfolding output_string_def bindE_eq_Inr by blast
  then have "s = [] \<or> (\<exists>t. s = py_strip t)" by (cases out) (auto split: if_splits)
  then show ?thesis using py_strip_idem strip_fixed [of "[]"] by auto
qed

text \<open>C8: A remote prediction can be traced: when \<open>generate_one\<close> gives a row a non-empty prediction without an
  error, the service was shown what the prompt of that row says, texts and images, with the URLs of the row's
  images in order; the call made at most the allowed number of requests; the prediction is the text of the
  last reply, no earlier reply had a text; and it holds a JSON object with an answer and a summary text.\<close>

theorem remote_prediction_traced:
  assumes "generate_one (q_fr env) exn_text (\<lambda>r. snd (remote_call env a level b r)) row = (p, [])" and "p \<noteq> []"
    and "0 < a_gemini_max_retries a" and "0 \<le> r_source row"
  shows "\<exists>images content pss ws.
    mapE (q_decode env) (image_values (r_row row)) = Inr images
    \<and> map read_part content = concat pss @ [Says closing_words]
    \<and> shows_prompt (q_fr env) (r_row row) (a_reveal_gt_answer a)
        (map (\<lambda>i. q_sign env (image_key_of env row i)) [1..<Suc (length images)]) pss
    \<and> call_idealab (q_fr env) (q_post env) (q_system env) content (a_gemini_max_retries a) level (a_remote_model a)
        = (Inr (succeeded p), ws)
    \<and> int (length ws) < a_gemini_max_retries a
    \<and> reply_says (q_fr env) (q_post env (idealab_payload (q_system env) content level (a_remote_model a)) (length ws)) p
    \<and> (\<forall>i < length ws. \<forall>s. \<not> reply_says (q_fr env)
        (q_post env (idealab_payload (q_system env) content level (a_remote_model a)) i) s)
    \<and> (\<exists>obj. parse_json_obj (q_fr env) (JStr p) = Some obj \<and> has_key obj key_answer
         \<and> (\<exists>s. dict_get obj key_summary = JStr s))"
proof -
  obtain result where result: "snd (remote_call env a level b row) = Inr result"
    "read_reply (q_fr env) result = (p, [])"
    using assms(1,2) by (auto simp: generate_one_def split: sum.splits)
  obtain b' content where c: "prepare_gemini_request env a row b = (b', Inr content)"
    and call: "fst (call_idealab (q_fr env) (q_post env) (q_system env) content (a_gemini_max_retries a) level
                 (a_remote_model a)) = Inr result"
    using result(1) by (auto simp: remote_call_def bindE_eq_Inr split: prod.splits)
  obtain ws where ws: "call_idealab (q_fr env) (q_post env) (q_system env) content (a_gemini_max_retries a) level
                 (a_remote_model a) = (Inr result, ws)"
    using call by (metis prod.collapse)
  note ends = attempts_facts [OF ws [unfolded call_idealab_def]]
  have ok: "truthy (dict_get result (u ''ok''))"
    using result(2) assms(2) by (auto simp: read_reply_def split: if_splits)
  then obtain s where s: "result = succeeded s"
    using ends by (auto simp: failed_def dict_get_def key_ok_def)
  from ends ok have says: "reply_says (q_fr env) (q_post env (idealab_payload (q_system env) content level (a_remote_model a))
      (length ws)) s"
    and n: "int (length ws) < a_gemini_max_retries a"
    by (auto simp: s failed_def succeeded_def dict_get_def key_ok_def)
  from ends have earlier: "\<forall>i < length ws. \<forall>s. \<not> reply_says (q_fr env)
      (q_post env (idealab_payload (q_system env) content level (a_remote_model a)) i) s" by simp
  have strip: "py_strip s = s" using says output_stripped by (auto simp: reply_says_def)
  have "u ''text'' = key_text" "key_ok \<noteq> key_text" "u ''ok'' = key_ok" by code_simp+
  then have p: "p = s" and obj: "\<exists>obj. parse_json_obj (q_fr env) (JStr p) = Some obj \<and> has_key obj key_answer
         \<and> (\<exists>s. dict_get obj key_summary = JStr s)"
    using result(2) ok strip unfolding s
    by (auto simp: read_reply_def succeeded_def dict_get_or_def no_object_text_def bad_object_text_def
        split: option.splits if_splits json.splits)
  obtain messages images urls where m:
    "build_messages_and_images (q_fr env) (q_decode env) (r_row row) (a_reveal_gt_answer a) = Inr (messages, images)"
    "upload_images env a row 1 images b = (b', Inr urls)"
    "build_gemini_user_content (q_fr env) messages urls = Inr content"
    using prepare_parts [OF c] by blast
  have urls: "urls = map (\<lambda>i. q_sign env (image_key_of env row i)) [1..<Suc (length images)]"
    using upload_images_spec [OF m(2) assms(4)] by simp
  then have "length urls = length images" by (simp del: upt_Suc)
  from content_shows [OF m(1) this] m(3) obtain pss where
    "map read_part content = concat pss @ [Says closing_words]"
    "shows_prompt (q_fr env) (r_row row) (a_reveal_gt_answer a) urls pss" by auto
  moreover have "mapE (q_decode env) (image_values (r_row row)) = Inr images"
    using build_spec [OF m(1), of "q_fr env"] by blast
  ultimately show ?thesis
    using ws says n earlier obj unfolding s p [symmetric] urls by blast
qed

section \<open>A bucket with an old image\<close>

definition request_args :: rollout_args where
  "request_args = \<lparr>a_mode = mode_remote, a_name = u ''r'', a_data_path = u ''d'', a_model_path = None,
     a_remote_model = u ''gemini'', a_internvl = False, a_num_samples = 1, a_selection = u ''first'', a_seed = 0,
     a_start_row = 0, a_generation_seed = 0, a_dtype = u ''auto'', a_batch_size = 1, a_max_prompt_length = 9,
     a_max_new_tokens = 9, a_temperature = Fin 0, a_top_p = Fin 1, a_top_k = 0, a_repetition_penalty = Fin 1,
     a_reveal_gt_answer = True, a_retry_errors = False, a_overwrite = False, a_remote_workers = 1,
     a_gemini_max_retries = 3, a_gemini_max_image_edge = 512, a_jpeg_quality = 88\<rparr>"

definition bucket_env :: "(ustr, ustr \<times> int) request_env" where
  "bucket_env = \<lparr>q_fr = \<lambda>_. [], q_decode = sample_decode,
     q_jpeg = (\<lambda>w q i. Inr (i, w)), q_fault = (\<lambda>_. None), q_sign = (\<lambda>k. u ''u:'' @ k), q_prefix = u ''/p/'',
     q_dataset_key = u ''d0'', q_system = u ''sys'',
     q_post = (\<lambda>_ _. Inr \<lparr>h_status = 200, h_text = [], h_json = Inr (JObj [(key_choices, JArr [JObj [(key_message,
       JObj [(key_content, JStr (u '' {\"answer\": \"B\", \"summary\": \"moved\"}''))])]])])\<rparr>)\<rparr>"

definition old_bucket :: "(ustr \<times> int) bucket" where
  "old_bucket = (\<lambda>k. if k = image_key_of bucket_env two_images_row 2 then Some (u ''b'', 128) else None)"

definition new_bucket :: "(ustr \<times> int) bucket" where
  "new_bucket = fst (prepare_gemini_request bucket_env request_args two_images_row old_bucket)"

lemma demo_request: "\<exists>content. prepare_gemini_request bucket_env request_args two_images_row old_bucket
    = (new_bucket, Inr content)"
proof -
  have "snd (prepare_gemini_request bucket_env request_args two_images_row old_bucket)
      = Inr (case snd (prepare_gemini_request bucket_env request_args two_images_row old_bucket) of Inr c \<Rightarrow> c | Inl _ \<Rightarrow> [])"
    by code_simp
  then show ?thesis unfolding new_bucket_def by (metis prod.collapse)
qed

theorem request_uploads_witness:
  "new_bucket (image_key_of bucket_env two_images_row 1) = Some (u ''a'', 512)
    \<and> new_bucket (image_key_of bucket_env two_images_row 2) = Some (u ''b'', 128)"
proof -
  obtain content where c: "prepare_gemini_request bucket_env request_args two_images_row old_bucket
      = (new_bucket, Inr content)" using demo_request by blast
  have s: "0 \<le> r_source two_images_row" "r_row two_images_row = r_row two_images_row"
    by (simp_all add: two_images_row_def)
  have e: "q_fr bucket_env = (\<lambda>_. [])" "q_decode bucket_env = sample_decode" "a_reveal_gt_answer request_args = True"
    "a_gemini_max_image_edge request_args = 512" "a_jpeg_quality request_args = 88"
    "q_jpeg bucket_env = (\<lambda>w q i. Inr (i, w))"
    by (simp_all add: bucket_env_def request_args_def)
  have old: "old_bucket (image_key_of bucket_env two_images_row 1) = None"
    "old_bucket (image_key_of bucket_env two_images_row 2) = Some (u ''b'', 128)"
    using image_key_inj [of bucket_env two_images_row 1 two_images_row 2] s(1) by (auto simp: old_bucket_def)
  have "\<forall>i < length [u ''a'', u ''b'']. \<exists>f. q_jpeg bucket_env 512 88 ([u ''a'', u ''b''] ! i) = Inr f
       \<and> new_bucket (image_key_of bucket_env two_images_row (Suc i))
         = Some (case old_bucket (image_key_of bucket_env two_images_row (Suc i)) of None \<Rightarrow> f | Some old \<Rightarrow> old)"
    using request_uploads [OF c s(1)] request_built unfolding e by auto
  from this [rule_format, of 0] this [rule_format, of 1] show ?thesis
    using old by (auto simp: e(6) numeral_2_eq_2)
qed

theorem remote_prediction_traced_witness:
  "\<exists>content pss (ws :: int list).
    map read_part content = concat pss @ [Says closing_words]
    \<and> shows_prompt (\<lambda>_. []) (r_row two_images_row) True
        (map (\<lambda>i. q_sign bucket_env (image_key_of bucket_env two_images_row i)) [1..<3]) pss
    \<and> int (length ws) < 3
    \<and> reply_says (\<lambda>_. []) (q_post bucket_env (idealab_payload (u ''sys'') content (u ''high'') (u ''gemini'')) (length ws))
        (u ''{\"answer\": \"B\", \"summary\": \"moved\"}'')"
proof -
  have g: "generate_one (q_fr bucket_env) (\<lambda>_. []) (\<lambda>r. snd (remote_call bucket_env request_args (u ''high'') (\<lambda>_. None) r))
      two_images_row = (u ''{\"answer\": \"B\", \"summary\": \"moved\"}'', [])"
    by code_simp
  have e: "q_fr bucket_env = (\<lambda>_. [])" "q_decode bucket_env = sample_decode" "a_reveal_gt_answer request_args = True" "q_system bucket_env = u ''sys''"
    "a_gemini_max_retries request_args = 3" "a_remote_model request_args = u ''gemini''"
    "0 \<le> r_source two_images_row" "u ''{\"answer\": \"B\", \"summary\": \"moved\"}'' \<noteq> []"
    by (simp_all add: bucket_env_def request_args_def two_images_row_def u_def)
  have "mapE sample_decode (image_values (r_row two_images_row)) = Inr [u ''a'', u ''b'']" by code_simp
  then have images: "images = [u ''a'', u ''b'']"
    if "mapE sample_decode (image_values (r_row two_images_row)) = Inr images" for images using that by simp
  have "0 < a_gemini_max_retries request_args" by (simp add: e)
  from remote_prediction_traced [OF g e(8) this e(7)] show ?thesis
  proof (elim exE conjE)
    fix images content pss and ws :: "int list"
    assume r: "mapE (q_decode bucket_env) (image_values (r_row two_images_row)) = Inr images"
      "map read_part content = concat pss @ [Says closing_words]"
      "shows_prompt (q_fr bucket_env) (r_row two_images_row) (a_reveal_gt_answer request_args)
         (map (\<lambda>i. q_sign bucket_env (image_key_of bucket_env two_images_row i)) [1..<Suc (length images)]) pss"
      "int (length ws) < a_gemini_max_retries request_args"
      "reply_says (q_fr bucket_env) (q_post bucket_env (idealab_payload (q_system bucket_env) content (u ''high'')
         (a_remote_model request_args)) (length ws)) (u ''{\"answer\": \"B\", \"summary\": \"moved\"}'')"
    have len: "Suc (length images) = 3" using images r(1) unfolding e by simp
    show ?thesis
      using r(2-5) unfolding e len by - (rule exI [of _ content], rule exI [of _ pss], rule exI [of _ ws], (rule conjI | assumption)+)
  qed
qed

end
