(* ===== verification/Diagnostics.thy ===== *)
theory Diagnostics
  imports RewardModel Checkpoint
begin

text \<open>
  The judge's self-test: \<^verbatim>\<open>reward_model_diagnostic_cases.py\<close> makes 128 cases, eight of every class in each batch of
  32, from a table of 32 scenarios, and the main block of \<^verbatim>\<open>reward_model.py\<close> has the model score them and counts
  its answers. The seven pairs printed before, the memory monitor and printing are not modelled.
\<close>

section \<open>The cases\<close>

definition EXPECTED_CLASSES :: "ustr list" where "EXPECTED_CLASSES = [[65], [66], [67], [68]]"
definition DIAGNOSTIC_BATCH_SIZE :: nat where "DIAGNOSTIC_BATCH_SIZE = 32"

record diagnostic_case =
  g_pred :: ustr
  g_gt :: ustr
  g_class :: ustr
  g_description :: ustr

definition SCENARIOS_1 :: "ustr list list" where
  "SCENARIOS_1 =
     [[[36827, 38376, 24182, 36716, 21521],
       u ''The man moved from outside the doorway to inside the room, and turned from facing away ''
        @ u ''from the door to facing it.'',
       u ''The man entered the room through the doorway and turned around so that he now faces the ''
        @ u ''door instead of away from it.'',
       u ''The man went from outside the doorway to inside the room.'',
       u ''The man entered the room, but he continued facing away from the door.'',
       u ''The man left the room through the doorway and turned his back toward the door.''],
      [[27801, 21457, 36317, 31163, 19982, 25151, 38388, 32972, 26223],
       u ''The woman became closer to the sofa, and the background changed from a living room to a study.'',
       u ''The woman moved nearer the sofa while the setting switched from the living room to a study.'',
       u ''The woman moved nearer to the sofa.'',
       u ''The woman moved closer to the sofa, and the living room changed into a cafe.'',
       u ''The woman moved farther from the sofa, while the scene remained the same living room.''],
      [[20154, 29289, 26032, 22686, 19982, 20799, 31461, 28040, 22833],
       u ''An extra woman appeared on the left side of the man, and the child between the couple ''
        @ u ''disappeared.'',
       u ''A new woman showed up to the man''
        @ [39]
        @ u ''s left, while the child who had stood between the two adults was gone.'',
       u ''A new woman appeared to the left of the man.'',
       u ''A woman appeared on the man''
        @ [39]
        @ u ''s left, and a second child appeared between the couple.'',
       u ''The woman on the man''
        @ [39]
        @ u ''s right disappeared, and the child remained between the couple.''],
      [[19977, 20154, 38431, 24418, 19982, 27773, 36710, 36317, 31163],
       u ''The three people changed from a triangular arrangement to standing side-by-side, and all ''
        @ u ''three moved farther away from the car.'',
       u ''All three people moved away from the car and rearranged from a triangle into a ''
        @ u ''side-by-side line.'',
       u ''The three people now stand side-by-side instead of in a triangle.'',
       u ''The group changed from a triangle to a side-by-side line, but all three moved closer to ''
        @ u ''the car.'',
       u ''The three people formed a triangle after standing side-by-side and moved closer to the car.''],
      [[20004, 21517, 22899, 24615, 26041, 20301, 19982, 26397, 21521],
       u ''The two women changed from facing each other to standing side-by-side, and the woman in ''
        @ u ''white moved from the left of the woman in pink to her right.'',
       u ''The women no longer face one another and instead stand next to each other; the ''
        @ u ''white-clothed woman also switched from the pink-clothed woman''
        @ [39]
        @ u ''s left side to her right.'',
       u ''The two women changed from face-to-face to side-by-side.'',
       u ''The women became side-by-side, but the woman in white stayed to the left of the woman in pink.'',
       u ''The women went from side-by-side to face-to-face, and the woman in white moved from right ''
        @ u ''to left of the woman in pink.''],
      [[24202, 30340, 36317, 31163, 19982, 20154, 29289, 39640, 24230],
       u ''The man and the woman became farther from the bed, and the woman''
        @ [39]
        @ u ''s relative height became lower as she changed from standing to sitting.'',
       u ''Both people moved away from the bed, and the woman went from standing to sitting, making ''
        @ u ''her lower.'',
       u ''The man and woman moved farther away from the bed.'',
       u ''They moved farther from the bed, while the woman rose from sitting to standing and became ''
        @ u ''taller.'',
       u ''They moved closer to the bed, and the woman stood up from her seat and became higher.''],
      [[20154, 29289, 26367, 25442, 19982, 26609, 23376, 26041, 20301],
       u ''The woman in the trench coat was replaced by a man in black, who stood to the right of ''
        @ u ''the red pillar.'',
       u ''A black-clothed man took the place of the trench-coat woman and was positioned on the red ''
        @ u ''pillar''
        @ [39]
        @ u ''s right side.'',
       u ''The trench-coat woman was replaced by a man dressed in black.'',
       u ''A man in black replaced the trench-coat woman, but he stood to the left of the red pillar.'',
       u ''The woman in the trench coat remained and stood on the left side of the red pillar.''],
      [[26500, 22270, 19968, 33268, 20165, 35270, 35282, 21464, 21270],
       u ''The character positions and the scene are consistent; only the shot scale and camera ''
        @ u ''perspective are different.'',
       u ''The people and setting match spatially, with the apparent difference caused solely by ''
        @ u ''framing and viewpoint.'',
       u ''The arrangement of the characters is spatially consistent.'',
       u ''The character layout is consistent, but the background is a completely different location ''
        @ u ''rather than a perspective change.'',
       u ''The characters occupy different positions and the scene itself has changed substantially.'']]"

definition SCENARIOS_2 :: "ustr list list" where
  "SCENARIOS_2 =
     [[[21160, 29289, 22686, 20943, 19982, 36317, 31163],
       u ''A pink animal appeared to the left of the blue animal, the blue animal moved closer to ''
        @ u ''the green animal, and the red animal disappeared.'',
       u ''A new pink animal showed up on the blue animal''
        @ [39]
        @ u ''s left; the blue and green animals became nearer, while the red animal vanished.'',
       u ''A pink animal appeared on the left side of the blue animal.'',
       u ''The pink animal appeared left of the blue one, but the red animal remained and moved ''
        @ u ''closer to them.'',
       u ''The pink animal disappeared from the right of the blue animal, the blue moved away from ''
        @ u ''the green, and the red animal stayed.''],
      [[38376, 22806, 20301, 32622, 19982, 20154, 29289, 27425, 24207],
       u ''The woman in green and the two maids moved from inside the door to outside it, with the ''
        @ u ''woman in green standing in front of both maids.'',
       u ''The green-clothed woman and both maids went out through the door, and she ended up ahead ''
        @ u ''of the two maids.'',
       u ''The woman in green and both maids moved from inside the doorway to outside.'',
       u ''All three moved outside the door, but the green-clothed woman stood behind the maids.'',
       u ''All three entered through the door, with the woman in green following behind the two maids.''],
      [[30007, 22899, 25442, 20301, 24182, 36828, 31163],
       u ''The man and woman swapped their left-right positions, and the distance between them ''
        @ u ''became farther.'',
       u ''The two people exchanged sides and moved farther apart from each other.'',
       u ''The man and woman switched which side each person stood on.'',
       u ''They swapped left-right positions, but the distance between them became closer.'',
       u ''They stayed on their original sides and moved closer together.''],
      [[22899, 24615, 36716, 36523, 24182, 21464, 39640],
       u ''The woman changed from facing the man to having her back to him, and her relative height ''
        @ u ''became taller as she stood up.'',
       u ''The woman stood up and became higher while turning from face-to-face with the man to ''
        @ u ''facing away from him.'',
       u ''The woman turned from facing the man to having her back toward him.'',
       u ''She turned her back to the man, but became lower by sitting down.'',
       u ''She remained facing the man and sat down, making her lower.''],
      [[23460, 20869, 22806, 32972, 26223, 19982, 20154, 29289, 32570, 22833],
       u ''The background changed from an indoor office to an outdoor road, and the woman in yellow ''
        @ u ''disappeared.'',
       u ''The setting moved outdoors onto a road instead of inside the office, and the ''
        @ u ''yellow-clothed woman was no longer present.'',
       u ''The office background changed to an outdoor road.'',
       u ''The scene changed from the office to an outdoor road, but an extra woman in yellow appeared.'',
       u ''The setting stayed inside the office, and the yellow-clothed woman remained visible.''],
      [[26700, 26049, 22352, 31435, 19982, 36828, 36817],
       u ''The man changed from sitting beside the table to standing farther away from it, making ''
        @ u ''his relative height higher.'',
       u ''The man stood up from his seat by the table, became taller, and moved farther from the table.'',
       u ''The seated man stood up and therefore became relatively higher.'',
       u ''The man stood up and became taller, but moved closer to the table.'',
       u ''The man sat down closer to the table and became lower.''],
      [[31085, 22363, 36317, 31163, 19982, 26032, 22686, 20154, 29289],
       u ''The old man moved closer to the memorial altar, and an extra man in brown appeared behind ''
        @ u ''him on the right.'',
       u ''The elderly man approached the altar, while a new brown-clothed man appeared at his rear ''
        @ u ''right.'',
       u ''The old man became nearer to the memorial altar.'',
       u ''The old man moved closer to the altar, but the man in brown appeared in front of him on ''
        @ u ''the left.'',
       u ''The old man moved away from the altar, and the brown-clothed man disappeared from his ''
        @ u ''front left.''],
      [[36974, 25377, 23548, 33268, 23384, 22312, 19981, 30830, 23450],
       u ''The visible character positions are consistent, but Image A does not show whether a brown ''
        @ u ''bear stands opposite the woman, so the bear''
        @ [39]
        @ u ''s presence is uncertain.'',
       u ''The people that can be seen are positioned consistently; because the relevant area is ''
        @ u ''hidden in Image A, it is impossible to tell if the brown bear is opposite the woman.'',
       u ''The positions of all visible characters are consistent.'',
       u ''The visible people are positioned consistently, and the brown bear is definitely absent ''
        @ u ''from opposite the woman.'',
       u ''The visible characters are arranged differently, and Image A clearly proves that the bear ''
        @ u ''is absent.'']]"

definition SCENARIOS_3 :: "ustr list list" where
  "SCENARIOS_3 =
     [[[20154, 32676, 28040, 22833, 19982, 23616, 37096, 32972, 26223],
       u ''The crowd behind the woman disappeared, and the wall on the left changed into a doorway ''
        @ u ''with curtains.'',
       u ''The people behind the woman were gone, while the left-side wall was replaced by a ''
        @ u ''curtained doorway.'',
       u ''The crowd that had been behind the woman disappeared.'',
       u ''The rear crowd disappeared, but the left wall remained unchanged without a doorway.'',
       u ''More people appeared behind the woman, and the curtained doorway changed back into a ''
        @ u ''plain wall.''],
      [[38754, 23545, 38754, 21464, 21069, 21518, 31449, 20301],
       u ''The man and woman changed from facing each other to standing one behind the other, with ''
        @ u ''the man behind the woman.'',
       u ''The pair no longer face one another; they are aligned front-to-back with the woman ahead ''
        @ u ''of the man.'',
       u ''The man and woman changed from face-to-face to a front-and-back arrangement.'',
       u ''They became aligned front-to-back, but the woman stood behind the man.'',
       u ''They changed from a front-and-back arrangement to facing each other, with the man in front.''],
      [[22810, 30446, 26631, 30456, 23545, 36317, 31163],
       u ''The woman in purple and the man in yellow both moved farther from the daybed, while ''
        @ u ''becoming closer to each other.'',
       u ''Both people increased their distance from the daybed, even as the purple-clothed woman ''
        @ u ''and yellow-clothed man moved nearer one another.'',
       u ''The woman in purple and the man in yellow moved farther away from the daybed.'',
       u ''They moved farther from the daybed, and also moved farther apart from each other.'',
       u ''They moved closer to the daybed while increasing the distance between themselves.''],
      [[20004, 20154, 25442, 20301, 19982, 31532, 19977, 20154, 36716, 21521],
       u ''The woman in blue and the man in green swapped positions, and the woman in pink changed ''
        @ u ''from facing forward to facing backward.'',
       u ''The blue-clothed woman exchanged places with the green-clothed man, while the ''
        @ u ''pink-clothed woman turned from front-facing to back-facing.'',
       u ''The woman in blue and the man in green exchanged their positions.'',
       u ''The two swapped positions, but the woman in pink continued facing forward.'',
       u ''The blue-clothed woman and green-clothed man stayed in place, while the woman in pink ''
        @ u ''turned from backward to forward.''],
      [[23567, 29399, 26397, 21521, 19982, 38376, 30340, 36317, 31163],
       u ''The puppy changed from facing the door to facing away from it, and moved farther from the ''
        @ u ''doorway.'',
       u ''The dog turned its back on the door and increased its distance from the doorway.'',
       u ''The puppy turned from facing the door to facing away from it.'',
       u ''The puppy faced away from the door but moved closer to the doorway.'',
       u ''The puppy turned toward the door and approached the doorway.''],
      [[29289, 20307, 26032, 22686, 19982, 32769, 20154, 28040, 22833],
       u ''An opened umbrella and a trident appeared beside the woman, and the old man opposite her ''
        @ u ''disappeared.'',
       u ''A new open umbrella and trident showed up next to the woman, while the elderly man facing ''
        @ u ''her vanished.'',
       u ''An open umbrella and a trident appeared beside the woman.'',
       u ''The umbrella and trident appeared, but the old man remained opposite the woman.'',
       u ''The umbrella and trident disappeared, and an old man newly appeared behind the woman.''],
      [[36710, 36742, 31227, 21160, 19982, 23616, 37096, 32972, 26223, 26367, 25442],
       u ''The two vehicles moved toward the camera, and the yellow car in the background was ''
        @ u ''replaced by a tent.'',
       u ''Both vehicles came closer to the viewpoint, while a tent took the place of the background''
        @ [39]
        @ u ''s yellow car.'',
       u ''The two vehicles moved toward the camera.'',
       u ''Both vehicles approached the camera, but the tent was replaced by a yellow car.'',
       u ''The vehicles moved away from the camera, and the yellow car remained in the background.''],
      [[20154, 29289, 26367, 25442, 19982, 22330, 26223, 20999, 25442],
       u ''The white-haired man was replaced by a bear, and the background changed from a wheat ''
        @ u ''field to a bamboo forest.'',
       u ''A bear took the white-haired man''
        @ [39]
        @ u ''s place as the setting switched from a wheat field to a bamboo forest.'',
       u ''The white-haired man was replaced by a bear.'',
       u ''A bear replaced the white-haired man, but the background changed from a wheat field to a ''
        @ u ''city street.'',
       u ''The white-haired man remained, and the bamboo forest changed into a wheat field.'']]"

definition SCENARIOS_4 :: "ustr list list" where
  "SCENARIOS_4 =
     [[[32676, 20307, 25104, 21592, 22686, 20943],
       u ''Four masked people in black appeared, while the spellcaster and the person in red disappeared.'',
       u ''Four new black-clothed masked figures arrived, and both the spellcaster and red-clothed ''
        @ u ''person vanished.'',
       u ''Four masked people dressed in black appeared.'',
       u ''The four masked people appeared, but the spellcaster and person in red both remained.'',
       u ''The masked group disappeared, while the spellcaster and person in red newly appeared.''],
      [[23478, 20855, 26367, 25442, 19982, 20154, 29289, 20301, 32622],
       u ''The computer desk in front of the woman became a bed, and the woman moved from beside the ''
        @ u ''door to beside the window.'',
       u ''A bed replaced the computer desk ahead of the woman, who relocated from the doorway to ''
        @ u ''the window.'',
       u ''The computer desk in front of the woman was replaced by a bed.'',
       u ''The desk became a bed, but the woman stayed beside the door rather than moving to the window.'',
       u ''The bed changed into a computer desk, and the woman moved from the window back to the door.''],
      [[19977, 39033, 20851, 31995, 32452, 21512],
       u ''The man and woman moved closer and changed from side-by-side to face-to-face, while the ''
        @ u ''child between them disappeared.'',
       u ''The pair became nearer and turned from standing shoulder-to-shoulder to facing each ''
        @ u ''other; the child in the middle was gone.'',
       u ''The man and woman moved closer and became face-to-face instead of side-by-side.'',
       u ''The pair moved closer and became face-to-face, but a second child appeared between them.'',
       u ''The pair moved farther apart and changed from face-to-face to side-by-side, while the ''
        @ u ''child remained between them.''],
      [[20154, 29289, 39569, 39532, 19982, 22330, 26223, 21464, 21270],
       u ''The background changed from indoors to outdoors, and the man and woman changed from ''
        @ u ''standing to riding horses.'',
       u ''The scene moved outside from an interior, with both people now mounted on horses instead ''
        @ u ''of standing.'',
       u ''The indoor background changed to an outdoor setting.'',
       u ''The setting became outdoors, but the man and woman remained standing beside the horses.'',
       u ''The scene moved from outdoors to indoors, and both people dismounted to stand on the ground.''],
      [[38376, 30340, 20301, 32622, 19982, 22899, 24615, 26397, 21521],
       u ''The woman moved from inside the room to outside the door and changed from facing the door ''
        @ u ''to having her back to it.'',
       u ''The woman exited through the doorway and turned around so her back, rather than her face, ''
        @ u ''was toward the door.'',
       u ''The woman moved from inside the room to outside the doorway.'',
       u ''The woman moved outside, but she continued facing the door.'',
       u ''The woman entered the room and turned to face the door.''],
      [[19968, 33268, 22330, 26223, 19982, 21462, 26223, 36951, 28431],
       u ''The standing positions and scene are consistent; Image A is simply a close-up that does ''
        @ u ''not capture the woman farther behind.'',
       u ''The spatial arrangement and setting match, but the woman in the rear falls outside Image A''
        @ [39]
        @ u ''s tighter crop.'',
       u ''The visible character positions and the setting are consistent.'',
       u ''The visible arrangement is consistent, but the rear woman was deleted rather than merely ''
        @ u ''outside the close-up.'',
       u ''The character positions and setting conflict, and both images clearly include the rear woman.''],
      [[22810, 20154, 31449, 20301, 19982, 26032, 22686, 35282, 33394],
       u ''The man in grey moved to the left of the man with glasses, and an extra woman in white ''
        @ u ''appeared behind them.'',
       u ''The grey-clothed man shifted to the glasses-wearing man''
        @ [39]
        @ u ''s left, with a new white-clothed woman showing up behind the pair.'',
       u ''The man in grey moved to the left side of the man with glasses.'',
       u ''The grey-clothed man moved left of the man with glasses, but the woman in white appeared ''
        @ u ''in front of them.'',
       u ''The man in grey moved to the right of the man with glasses, and the white-clothed woman ''
        @ u ''disappeared from behind them.''],
      [[20154, 29289, 23039, 24577, 19982, 36208, 24266, 32972, 26223],
       u ''The man in black changed both position and orientation, and the background changed from ''
        @ u ''beside the door to an outdoor hallway.'',
       u ''The black-clothed man relocated and turned to a different facing direction, while the ''
        @ u ''doorway setting became an exterior corridor.'',
       u ''The man in black changed his position and facing direction.'',
       u ''The man in black changed position and orientation, but the background remained beside the ''
        @ u ''same indoor door.'',
       u ''The man kept the same position and orientation, and the outdoor hallway changed back to ''
        @ u ''the indoor doorway.'']]"

definition SCENARIOS :: "ustr list list" where
  "SCENARIOS = SCENARIOS_1 @ SCENARIOS_2 @ SCENARIOS_3 @ SCENARIOS_4"

definition CLASS_ORDERS :: "ustr list list" where
  "CLASS_ORDERS =
     [[[65], [66], [67], [68]],
      [[66], [68], [65], [67]],
      [[67], [65], [68], [66]],
      [[68], [67], [66], [65]]]"

definition labelled_case :: "ustr \<Rightarrow> ustr \<Rightarrow> ustr list \<Rightarrow> ustr \<Rightarrow> diagnostic_case" where
  "labelled_case description gt_summary candidates expected_class =
     \<lparr>g_pred = the (map_of (zip EXPECTED_CLASSES candidates) expected_class), g_gt = gt_summary,
      g_class = expected_class, g_description = description\<rparr>"

definition scenario_cases :: "nat \<Rightarrow> ustr list \<Rightarrow> diagnostic_case list py" where
  "scenario_cases index scenario =
     (if length scenario \<noteq> 6 then Inl RuntimeError
      else mapE (\<lambda>expected_class.
             (let c = labelled_case (scenario ! 0) (scenario ! 1) (drop 2 scenario) expected_class
              in if normalize_summary (g_pred c) = normalize_summary (g_gt c) then Inl RuntimeError else Inr c))
             (CLASS_ORDERS ! (index mod length CLASS_ORDERS)))"

fun all_scenario_cases :: "nat \<Rightarrow> ustr list list \<Rightarrow> diagnostic_case list py" where
  "all_scenario_cases index [] = Inr []"
| "all_scenario_cases index (scenario # rest) =
     bindE (scenario_cases index scenario) (\<lambda>cs.
       bindE (all_scenario_cases (Suc index) rest) (\<lambda>ds. Inr (cs @ ds)))"

definition balanced :: "diagnostic_case list \<Rightarrow> bool" where
  "balanced batch \<longleftrightarrow> length batch = DIAGNOSTIC_BATCH_SIZE
     \<and> list_all (\<lambda>letter. length (filter (\<lambda>c. g_class c = letter) batch)
                          = DIAGNOSTIC_BATCH_SIZE div length EXPECTED_CLASSES) EXPECTED_CLASSES"

text \<open>The table is an argument; the code calls it with \<open>SCENARIOS\<close>.\<close>

definition build_realistic_diagnostic_cases :: "ustr list list \<Rightarrow> diagnostic_case list py" where
  "build_realistic_diagnostic_cases scenarios =
     (if length scenarios \<noteq> 32 then Inl RuntimeError
      else bindE (all_scenario_cases 0 scenarios) (\<lambda>cases.
        if length cases \<noteq> 128 then Inl RuntimeError
        else if list_ex (\<lambda>batch. \<not> balanced batch) (batches DIAGNOSTIC_BATCH_SIZE cases) then Inl RuntimeError
        else Inr cases))"

section \<open>The run\<close>

definition predicted_class :: "summary_score \<Rightarrow> ustr" where
  "predicted_class r = CHOICE_LETTERS ! argmax (s_probabilities r)"

definition batch_hits :: "(diagnostic_case \<times> summary_score) list \<Rightarrow> nat" where
  "batch_hits judged = length (filter (\<lambda>(c, r). predicted_class r = g_class c) judged)"

fun diagnose_batches ::
  "((ustr \<times> ustr) list \<Rightarrow> summary_score list py) \<Rightarrow> diagnostic_case list list
     \<Rightarrow> ((diagnostic_case \<times> summary_score) list \<times> nat list) py" where
  "diagnose_batches score_detailed [] = Inr ([], [])"
| "diagnose_batches score_detailed (batch # rest) =
     (if length batch \<noteq> DIAGNOSTIC_BATCH_SIZE then Inl RuntimeError
      else bindE (score_detailed (map (\<lambda>c. (g_pred c, g_gt c)) batch)) (\<lambda>results.
        bindE (diagnose_batches score_detailed rest) (\<lambda>(judged, hits).
          Inr (zip batch results @ judged, batch_hits (zip batch results) # hits))))"

record diagnostic_report =
  y_hits :: "nat list"
  y_confusion :: "nat list list"
  y_scores :: "real list list"
  y_mismatches :: "(nat \<times> diagnostic_case \<times> ustr) list"
  y_errors :: "real list"

definition target_score :: "ustr \<Rightarrow> real" where
  "target_score letter = the (map_of (zip CHOICE_LETTERS CHOICE_WEIGHTS) letter)"

definition report_of :: "(diagnostic_case \<times> summary_score) list \<Rightarrow> nat list \<Rightarrow> diagnostic_report" where
  "report_of judged hits =
     \<lparr>y_hits = hits,
      y_confusion = map (\<lambda>expected. map (\<lambda>predicted.
          length (filter (\<lambda>(c, r). g_class c = expected \<and> predicted_class r = predicted) judged)) CHOICE_LETTERS)
        EXPECTED_CLASSES,
      y_scores = map (\<lambda>expected. map (\<lambda>(c, r). s_score r) (filter (\<lambda>(c, r). g_class c = expected) judged))
        EXPECTED_CLASSES,
      y_mismatches = List.map_filter (\<lambda>(i, c, r).
          if predicted_class r \<noteq> g_class c then Some (i, c, predicted_class r) else None) (enumerate 1 judged),
      y_errors = map (\<lambda>(c, r). \<bar>s_score r - target_score (g_class c)\<bar>) judged\<rparr>"

definition diagnose ::
  "ustr list list \<Rightarrow> ((ustr \<times> ustr) list \<Rightarrow> summary_score list py) \<Rightarrow> diagnostic_report py" where
  "diagnose scenarios score_detailed =
     bindE (build_realistic_diagnostic_cases scenarios) (\<lambda>cases.
       bindE (diagnose_batches score_detailed (batches DIAGNOSTIC_BATCH_SIZE cases)) (\<lambda>(judged, hits).
         if length judged \<noteq> length cases then Inl RuntimeError else Inr (report_of judged hits)))"

section \<open>What is built\<close>

text \<open>The cases a scenario stands for, whatever the order they are listed in.\<close>

definition cases_of :: "ustr list \<Rightarrow> diagnostic_case list" where
  "cases_of scenario = map (labelled_case (scenario ! 0) (scenario ! 1) (drop 2 scenario)) EXPECTED_CLASSES"

definition usable :: "ustr list \<Rightarrow> bool" where
  "usable scenario \<longleftrightarrow> length scenario = 6
     \<and> list_all (\<lambda>p. normalize_summary p \<noteq> normalize_summary (scenario ! 1)) (drop 2 scenario)"

lemma length6: "length s = 6 \<Longrightarrow> \<exists>t g a b c d. s = [t, g, a, b, c, d]"
  by (simp add: numeral_eq_Suc length_Suc_conv) blast

lemma class_order_cases:
  "CLASS_ORDERS ! (i mod length CLASS_ORDERS) \<in> set CLASS_ORDERS"
  by (rule nth_mem) (simp add: CLASS_ORDERS_def)

lemma scenario_cases_spec:
  "(if usable s then \<exists>cs. scenario_cases i s = Inr cs \<and> mset cs = mset (cases_of s)
      \<and> map g_class cs = CLASS_ORDERS ! (i mod length CLASS_ORDERS)
    else scenario_cases i s = Inl RuntimeError)"
proof (cases "length s = 6")
  case True
  then obtain t g a b c d where s: "s = [t, g, a, b, c, d]" using length6 by blast
  have "CLASS_ORDERS ! (i mod length CLASS_ORDERS)
     \<in> {[[65], [66], [67], [68]], [[66], [68], [65], [67]], [[67], [65], [68], [66]], [[68], [67], [66], [65]]}"
    using class_order_cases [of i] by (simp add: CLASS_ORDERS_def)
  then show ?thesis
    by (elim insertE emptyE)
       (simp_all add: s usable_def scenario_cases_def cases_of_def labelled_case_def EXPECTED_CLASSES_def Let_def)
qed (simp add: usable_def scenario_cases_def)

lemma all_scenario_cases_spec:
  "(if list_all usable ss then \<exists>cs. all_scenario_cases i ss = Inr cs \<and> mset cs = mset (concat (map cases_of ss))
      \<and> map g_class cs = concat (map (\<lambda>j. CLASS_ORDERS ! (j mod length CLASS_ORDERS)) [i..<i + length ss])
    else all_scenario_cases i ss = Inl RuntimeError)"
proof (induction ss arbitrary: i)
  case (Cons s ss)
  have l: "[i..<i + length (s # ss)] = i # [Suc i..<Suc i + length ss]"
    by (simp add: upt_conv_Cons del: upt_Suc)
  show ?case
    using scenario_cases_spec [of s i] Cons [of "Suc i"] unfolding l
    by (auto split: if_splits)
qed simp

lemma batches_map: "map (map f) (batches n xs) = batches n (map f xs)"
  by (induction n xs rule: batches.induct)
     (simp add: batches.simps [of _ xs for xs] take_map drop_map)

definition balanced_classes :: "ustr list \<Rightarrow> bool" where
  "balanced_classes ls \<longleftrightarrow> length ls = 32 \<and> list_all (\<lambda>l. length (filter (\<lambda>x. x = l) ls) = 8) EXPECTED_CLASSES"

lemma balanced_map: "balanced batch \<longleftrightarrow> balanced_classes (map g_class batch)"
  by (simp add: balanced_def balanced_classes_def DIAGNOSTIC_BATCH_SIZE_def EXPECTED_CLASSES_def filter_map comp_def)

lemma orders_balanced:
  "list_all balanced_classes (batches 32 (concat (map (\<lambda>j. CLASS_ORDERS ! (j mod length CLASS_ORDERS)) [0..<32])))"
  by code_simp

lemma cases_build_spec:
  assumes "length scenarios = 32"
  shows "if list_all usable scenarios
    then \<exists>cases. build_realistic_diagnostic_cases scenarios = Inr cases
      \<and> mset cases = mset (concat (map cases_of scenarios)) \<and> length cases = 128
      \<and> list_all balanced (batches 32 cases)
    else build_realistic_diagnostic_cases scenarios = Inl RuntimeError"
proof (cases "list_all usable scenarios")
  case True
  then obtain cs where cs: "all_scenario_cases 0 scenarios = Inr cs" "mset cs = mset (concat (map cases_of scenarios))"
    "map g_class cs = concat (map (\<lambda>j. CLASS_ORDERS ! (j mod length CLASS_ORDERS)) [0..<32])"
    using all_scenario_cases_spec [of scenarios 0] assms by auto
  have "length cs = length (concat (map (\<lambda>j. CLASS_ORDERS ! (j mod length CLASS_ORDERS)) [0..<32]))"
    using cs(3) by (metis length_map)
  moreover have "length (concat (map (\<lambda>j. CLASS_ORDERS ! (j mod length CLASS_ORDERS)) [0..<32])) = 128"
    by code_simp
  ultimately have l: "length cs = 128" by simp
  have "list_all balanced_classes (map (map g_class) (batches 32 cs))"
    unfolding batches_map cs(3) by (rule orders_balanced)
  then have b: "list_all balanced (batches 32 cs)"
    by (simp add: list_all_iff balanced_map)
  show ?thesis
    using True assms cs(1,2) l b
    by (simp add: build_realistic_diagnostic_cases_def DIAGNOSTIC_BATCH_SIZE_def list_ex_iff list_all_iff)
next
  case False
  then show ?thesis
    using all_scenario_cases_spec [of scenarios 0] assms by (simp add: build_realistic_diagnostic_cases_def)
qed

section \<open>What the model answers\<close>

lemma in_store_results: "x \<in> set (store_results results js vs) \<Longrightarrow> x \<in> set results \<or> x \<in> set vs"
  by (induction results js vs rule: store_results.induct) (auto dest!: subsetD [OF set_update_subset_insert])

lemma length_store_results: "length (store_results results js vs) = length results"
  by (induction results js vs rule: store_results.induct) auto

definition four_classes :: "summary_score \<Rightarrow> bool" where
  "four_classes r \<longleftrightarrow> length (s_probabilities r) = 4"

lemma detailed_four:
  assumes "score_summaries_detailed c tk loaded infer pairs = Inr rs"
  shows "length rs = length pairs \<and> list_all four_classes rs"
proof -
  obtain results pending where fp: "first_pass exact_match 0 pairs (map (\<lambda>_. no_match) pairs) [] = (results, pending)"
    by fastforce
  have r: "results = map (\<lambda>p. if quick_verdict p = ExactMatch then exact_match else no_match) pairs"
    using fp first_pass_asks [of exact_match "[]" pairs no_match "[]"] by simp
  have base: "length results = length pairs" "list_all four_classes results"
    unfolding r by (auto simp: list_all_iff four_classes_def no_match_def exact_match_def)
  have four: "four_classes s" if "summary_result x = Inr s" for x s
    using that by (auto simp: summary_result_def validate_choice_probabilities_def four_classes_def Let_def
        CHOICE_LETTERS_def split: prod.splits if_splits)
  show ?thesis
  proof (cases "pairs = [] \<or> pending = []")
    case True
    then show ?thesis
      using assms base unfolding score_summaries_detailed_def fp Let_def prod.case by (auto split: if_splits)
  next
    case False
    then obtain js pms scores where s: "mapE summary_result pms = Inr scores" "rs = store_results results js scores"
      using assms fp by (auto simp: score_summaries_detailed_def bindE_eq_Inr Let_def split: if_splits)
    have "four_classes x" if "x \<in> set rs" for x
      using that base(2) in_store_results [of x results js scores] mapE_Inr_set [OF s(1)] four
      unfolding s(2) list_all_iff by blast
    then show ?thesis using base(1) s(2) by (simp add: length_store_results list_all_iff)
  qed
qed

lemma predicted_class_letter:
  assumes "four_classes r"
  shows "predicted_class r \<in> set EXPECTED_CLASSES"
proof -
  have "s_probabilities r \<noteq> []" using assms by (auto simp: four_classes_def)
  then have "argmax (s_probabilities r) < 4" using argmax_spec assms by (fastforce simp: four_classes_def)
  then have "argmax (s_probabilities r) \<in> {0, 1, 2, 3}" by auto
  then show ?thesis by (auto simp: predicted_class_def CHOICE_LETTERS_def EXPECTED_CLASSES_def)
qed

lemma diagnose_batches_spec:
  assumes "diagnose_batches score bs = Inr (judged, hits)"
    and "\<And>pairs rs. score pairs = Inr rs \<Longrightarrow> length rs = length pairs \<and> list_all four_classes rs"
  shows "map fst judged = concat bs \<and> list_all (\<lambda>(c, r). four_classes r) judged
    \<and> sum_list hits = batch_hits judged \<and> length hits = length bs \<and> list_all (\<lambda>h. h \<le> DIAGNOSTIC_BATCH_SIZE) hits"
  using assms(1)
proof (induction bs arbitrary: judged hits)
  case (Cons b bs)
  then obtain rs judged' hits' where p: "score (map (\<lambda>c. (g_pred c, g_gt c)) b) = Inr rs" "length b = DIAGNOSTIC_BATCH_SIZE"
    "diagnose_batches score bs = Inr (judged', hits')"
    "judged = zip b rs @ judged'" "hits = batch_hits (zip b rs) # hits'"
    by (auto simp: bindE_eq_Inr split: if_splits)
  have rs: "length rs = length b" "list_all four_classes rs" using assms(2) [OF p(1)] by simp_all
  have "list_all (\<lambda>(c, r). four_classes r) (zip b rs)" using rs(2) by (auto simp: list_all_iff dest: set_zip_rightD)
  moreover have "batch_hits (zip b rs) \<le> DIAGNOSTIC_BATCH_SIZE"
    using length_filter_le [of "\<lambda>(c, r). predicted_class r = g_class c" "zip b rs"] rs(1) p(2) by (simp add: batch_hits_def)
  ultimately show ?case using Cons(1) [OF p(3)] p rs(1) by (simp add: batch_hits_def)
qed (simp add: batch_hits_def)

text \<open>Counting by classes.\<close>

lemma filter_classes_sum:
  assumes "\<And>x. x \<in> set xs \<Longrightarrow> f x \<in> set EXPECTED_CLASSES"
  shows "sum_list (map (\<lambda>l. length (filter (\<lambda>x. p x \<and> f x = l) xs)) EXPECTED_CLASSES) = length (filter p xs)"
  using assms by (induction xs) (auto simp: EXPECTED_CLASSES_def)

lemma filter_diagonal:
  assumes "\<And>x. x \<in> set xs \<Longrightarrow> f x \<in> set EXPECTED_CLASSES"
  shows "sum_list (map (\<lambda>l. length (filter (\<lambda>x. g x = l \<and> f x = l) xs)) EXPECTED_CLASSES)
    = length (filter (\<lambda>x. f x = g x) xs)"
  using assms
proof (induction xs)
  case (Cons a xs)
  have "f a \<in> {[65], [66], [67], [68]}" using Cons(2) [of a] by (simp add: EXPECTED_CLASSES_def)
  moreover have "sum_list (map (\<lambda>l. length (filter (\<lambda>x. g x = l \<and> f x = l) xs)) EXPECTED_CLASSES)
    = length (filter (\<lambda>x. f x = g x) xs)" using Cons by simp
  ultimately show ?case
    by (elim insertE emptyE) (auto simp: EXPECTED_CLASSES_def)
qed (simp add: EXPECTED_CLASSES_def)

lemma mismatches_count:
  "length (List.map_filter (\<lambda>(i, c, r). if predicted_class r \<noteq> g_class c then Some (i, c, predicted_class r) else None) (enumerate n judged))
    + batch_hits judged = length judged"
  by (induction judged arbitrary: n) (auto simp: List.map_filter_simps batch_hits_def)

lemma balanced_total:
  assumes "list_all balanced bs" and "length bs = 4" and "l \<in> set EXPECTED_CLASSES"
  shows "length (filter (\<lambda>c. g_class c = l) (concat bs)) = 32"
proof -
  have "length (filter (\<lambda>c. g_class c = l) b) = 8" if "b \<in> set bs" for b
    using assms(1,3) that
    by (auto simp: balanced_def list_all_iff DIAGNOSTIC_BATCH_SIZE_def EXPECTED_CLASSES_def)
  then have "length (filter (\<lambda>c. g_class c = l) (concat bs)) = sum_list (map (\<lambda>_. 8) bs)"
    unfolding filter_concat length_concat by (simp add: comp_def cong: map_cong)
  then show ?thesis using assms(2) by (simp add: sum_list_triv)
qed

definition diagonal :: "nat list list \<Rightarrow> nat" where
  "diagonal rows = sum_list (map (\<lambda>i. rows ! i ! i) [0..<length rows])"

section \<open>Properties\<close>

text \<open>A text without words is blank after normalising.\<close>

definition is_blank :: "ustr \<Rightarrow> bool" where
  "is_blank t \<longleftrightarrow> normalize_summary t = []"

lemma case_texts:
  assumes "usable s" and "c \<in> set (cases_of s)"
  shows "normalize_summary (g_pred c) \<noteq> normalize_summary (g_gt c)"
proof -
  obtain t g a b d e where "s = [t, g, a, b, d, e]" using assms(1) length6 [of s] by (auto simp: usable_def)
  then show ?thesis
    using assms by (auto simp: cases_of_def labelled_case_def EXPECTED_CLASSES_def usable_def)
qed

text \<open>C35: The table gives its cases exactly when it has 32 scenarios, every scenario has six texts and none of
  its candidates equals the reference up to blanks and case; otherwise building them raises. Of such a table
  every candidate becomes one case with its class, and each batch of 32 has eight of every class, so that neither
  the size check nor the balance check can fail. No case is settled by the exact match: the judge is asked about
  every case whose two texts are not blank, and a case with a blank text (which the build lets through)
  is settled as no match without it.\<close>

theorem diagnostic_cases_built:
  "if length scenarios = 32 \<and> list_all usable scenarios
    then \<exists>cases. build_realistic_diagnostic_cases scenarios = Inr cases
      \<and> mset cases = mset (concat (map cases_of scenarios)) \<and> length cases = 128
      \<and> list_all balanced (batches 32 cases)
      \<and> list_all (\<lambda>c. quick_verdict (g_pred c, g_gt c)
          = (if is_blank (g_pred c) \<or> is_blank (g_gt c) then NoMatch else AskModel)) cases
    else build_realistic_diagnostic_cases scenarios = Inl RuntimeError"
proof (cases "length scenarios = 32 \<and> list_all usable scenarios")
  case True
  then obtain cases where c: "build_realistic_diagnostic_cases scenarios = Inr cases"
    "mset cases = mset (concat (map cases_of scenarios))" "length cases = 128" "list_all balanced (batches 32 cases)"
    using cases_build_spec [of scenarios] by auto
  have "set cases = set (concat (map cases_of scenarios))" using c(2) by (rule mset_eq_setD)
  then have "normalize_summary (g_pred x) \<noteq> normalize_summary (g_gt x)" if "x \<in> set cases" for x
    using that True case_texts by (auto simp: list_all_iff)
  then show ?thesis using True c by (auto simp: list_all_iff quick_verdict_def is_blank_def Let_def)
next
  case False
  then show ?thesis
    using cases_build_spec [of scenarios] by (auto simp: build_realistic_diagnostic_cases_def)
qed

text \<open>The numbers of a diagnosis fit together: every row of the confusion matrix adds up to the 32 cases of
  its class, its diagonal is the number of right answers of the batches, the other cases are the mismatches,
  and the score lists the means are taken of have 32 entries.\<close>

theorem diagnosis_accounts:
  assumes "diagnose scenarios (score_summaries_detailed c tk loaded infer) = Inr report"
  shows "list_all (\<lambda>row. sum_list row = 32) (y_confusion report)
    \<and> diagonal (y_confusion report) = sum_list (y_hits report)
    \<and> sum_list (y_hits report) + length (y_mismatches report) = 128
    \<and> list_all (\<lambda>scores. length scores = 32) (y_scores report) \<and> length (y_errors report) = 128"
proof -
  obtain cases judged hits where cases: "build_realistic_diagnostic_cases scenarios = Inr cases"
    and run: "diagnose_batches (score_summaries_detailed c tk loaded infer) (batches 32 cases) = Inr (judged, hits)"
    and report: "report = report_of judged hits"
    using assms by (auto simp: diagnose_def bindE_eq_Inr DIAGNOSTIC_BATCH_SIZE_def split: if_splits)
  have n: "length scenarios = 32" "length cases = 128" "list_all balanced (batches 32 cases)"
    using cases by (auto simp: build_realistic_diagnostic_cases_def bindE_eq_Inr DIAGNOSTIC_BATCH_SIZE_def list_ex_iff
        list_all_iff split: if_splits)
  have spec: "map fst judged = concat (batches 32 cases) \<and> list_all (\<lambda>(c, r). four_classes r) judged
      \<and> sum_list hits = batch_hits judged \<and> length hits = length (batches 32 cases) \<and> list_all (\<lambda>h. h \<le> DIAGNOSTIC_BATCH_SIZE) hits"
    by (rule diagnose_batches_spec [OF run]) (rule detailed_four)
  have concat: "concat (batches 32 cases) = cases" by (rule batches_concat) simp
  then have fst: "map fst judged = cases" using spec by simp
  then have len: "length judged = 128" using n(2) by (metis length_map)
  have "length cases = sum_list (map length (batches 32 cases))"
    using concat by (metis length_concat)
  also have "\<dots> = sum_list (map (\<lambda>_. 32) (batches 32 cases))"
    using n(3) by (intro arg_cong [of _ _ sum_list] map_cong)
      (auto simp: list_all_iff balanced_def DIAGNOSTIC_BATCH_SIZE_def)
  finally have "length (batches 32 cases) = 4" using n(2) by (simp add: sum_list_triv)
  then have cls: "length (filter (\<lambda>c. g_class c = l) cases) = 32" if "l \<in> set EXPECTED_CLASSES" for l
    using balanced_total [OF n(3) _ that] concat by simp
  have by_class: "length (filter (\<lambda>(c, r). g_class c = l) judged) = 32" if "l \<in> set EXPECTED_CLASSES" for l
    using cls [OF that] unfolding fst [symmetric] by (simp add: filter_map comp_def case_prod_unfold)
  have top: "predicted_class (snd x) \<in> set EXPECTED_CLASSES" if "x \<in> set judged" for x
    using spec that predicted_class_letter by (auto simp: list_all_iff)
  have letters: "CHOICE_LETTERS = EXPECTED_CLASSES" by (simp add: CHOICE_LETTERS_def EXPECTED_CLASSES_def)
  have rows: "sum_list (map (\<lambda>p. length (filter (\<lambda>(c, r). g_class c = l \<and> predicted_class r = p) judged)) EXPECTED_CLASSES) = 32"
    if "l \<in> set EXPECTED_CLASSES" for l
    using filter_classes_sum [of judged "\<lambda>x. predicted_class (snd x)" "\<lambda>x. g_class (fst x) = l"] top by_class [OF that]
    by (simp add: case_prod_unfold)
  have diag: "sum_list (map (\<lambda>l. length (filter (\<lambda>(c, r). g_class c = l \<and> predicted_class r = l) judged)) EXPECTED_CLASSES)
      = batch_hits judged"
    using filter_diagonal [of judged "\<lambda>x. predicted_class (snd x)" "\<lambda>x. g_class (fst x)"] top
    by (simp add: batch_hits_def case_prod_unfold)
  have "diagonal (y_confusion report) = batch_hits judged"
    unfolding diag [symmetric] by (simp add: report report_of_def letters diagonal_def EXPECTED_CLASSES_def)
  moreover have "list_all (\<lambda>row. sum_list row = 32) (y_confusion report)"
    using rows by (simp add: report report_of_def letters list_all_iff comp_def)
  moreover have "list_all (\<lambda>scores. length scores = 32) (y_scores report)"
    using by_class by (simp add: report report_of_def list_all_iff)
  moreover have "sum_list hits + length (y_mismatches report) = 128"
    using mismatches_count [of 1 judged] spec len by (simp add: report report_of_def)
  ultimately show ?thesis using spec len by (simp add: report report_of_def)
qed

section \<open>The table of the code\<close>

lemma first_scenarios_usable: "list_all usable SCENARIOS_1"
  by code_simp

lemma second_scenarios_usable: "list_all usable SCENARIOS_2"
  by code_simp

lemma third_scenarios_usable: "list_all usable SCENARIOS_3"
  by code_simp

lemma fourth_scenarios_usable: "list_all usable SCENARIOS_4"
  by code_simp

lemma scenarios_usable: "length SCENARIOS = 32" "list_all usable SCENARIOS"
proof -
  show "length SCENARIOS = 32"
    by (simp add: SCENARIOS_def SCENARIOS_1_def SCENARIOS_2_def SCENARIOS_3_def SCENARIOS_4_def)
  show "list_all usable SCENARIOS"
    using first_scenarios_usable second_scenarios_usable third_scenarios_usable fourth_scenarios_usable
    by (simp add: SCENARIOS_def)
qed

text \<open>A judge that says A of everything.\<close>

definition always_a :: "ustr list \<Rightarrow> (real list list \<times> real list) py" where
  "always_a prompts = Inr (map (\<lambda>_. [1, 0, 0, 0]) prompts, map (\<lambda>_. 1) prompts)"

lemma always_a_result: "summary_result ([1, 0, 0, 0], m) = Inr \<lparr>s_score = 1, s_probabilities = [1, 0, 0, 0], s_choice_mass = m\<rparr>"
  by (subst summary_result_prob) (simp_all add: prob_vector_def weighted_score_eq)

lemma always_a_results: "\<exists>rs. mapE summary_result (zip (map (\<lambda>_. [1, 0, 0, 0]) ys) ms) = Inr rs" for ys :: "'a list"
proof (induction ys arbitrary: ms)
  case (Cons y ys)
  then show ?case by (cases ms) (auto simp: always_a_result, metis bindE_Inr)
qed simp

lemma always_a_scores: "\<exists>rs. score_summaries_detailed c tk (Inr ()) always_a pairs = Inr rs"
proof -
  obtain results pending where fp: "first_pass exact_match 0 pairs (map (\<lambda>_. no_match) pairs) [] = (results, pending)"
    by fastforce
  let ?prompts = "map (\<lambda>(i, p, g). build_prompt tk p g) (map (\<lambda>(i, p, g). (i, truncate_summary c tk p, truncate_summary c tk g)) pending)"
  obtain rs where "mapE summary_result (zip (map (\<lambda>_. [1, 0, 0, 0]) ?prompts) (map (\<lambda>_. 1) ?prompts)) = Inr rs"
    using always_a_results by blast
  then show ?thesis
    unfolding score_summaries_detailed_def fp Let_def prod.case always_a_def bindE_Inr by simp
qed

lemma diagnose_batches_total:
  assumes "\<And>pairs. \<exists>rs. score pairs = Inr rs" and "list_all balanced bs"
  shows "\<exists>r. diagnose_batches score bs = Inr r"
  using assms(2)
proof (induction bs)
  case (Cons b bs)
  then obtain judged hits where "diagnose_batches score bs = Inr (judged, hits)" by (metis list.pred_inject(2) prod.collapse)
  moreover have "length b = DIAGNOSTIC_BATCH_SIZE" using Cons(2) by (simp add: balanced_def)
  moreover obtain rs where "score (map (\<lambda>c. (g_pred c, g_gt c)) b) = Inr rs" using assms(1) by blast
  ultimately show ?case by simp
qed simp

theorem diagnosis_accounts_witness:
  "\<exists>report. diagnose SCENARIOS (score_summaries_detailed small_config code_tokenizer (Inr ()) always_a) = Inr report
    \<and> diagonal (y_confusion report) = sum_list (y_hits report)
    \<and> sum_list (y_hits report) + length (y_mismatches report) = 128"
proof -
  let ?score = "score_summaries_detailed small_config code_tokenizer (Inr ()) always_a"
  obtain cases where c: "build_realistic_diagnostic_cases SCENARIOS = Inr cases" "list_all balanced (batches 32 cases)"
    using cases_build_spec [OF scenarios_usable(1)] scenarios_usable(2) by auto
  have "\<exists>r. diagnose_batches ?score (batches 32 cases) = Inr r"
    by (rule diagnose_batches_total [OF _ c(2)]) (rule always_a_scores)
  then obtain judged hits where run: "diagnose_batches ?score (batches 32 cases) = Inr (judged, hits)" by fastforce
  have "map fst judged = concat (batches 32 cases) \<and> list_all (\<lambda>(c, r). four_classes r) judged
      \<and> sum_list hits = batch_hits judged \<and> length hits = length (batches 32 cases) \<and> list_all (\<lambda>h. h \<le> DIAGNOSTIC_BATCH_SIZE) hits"
    by (rule diagnose_batches_spec [OF run]) (rule detailed_four)
  then have "map fst judged = cases" using batches_concat [of 32 cases] by simp
  then have "length judged = length cases" by (metis length_map)
  then have "diagnose SCENARIOS ?score = Inr (report_of judged hits)"
    using c(1) run by (simp add: diagnose_def DIAGNOSTIC_BATCH_SIZE_def)
  then show ?thesis using diagnosis_accounts by blast
qed

end
