(* ===== verification/CaseIndex.thy ===== *)
theory CaseIndex
  imports Checkpoint PromptKey "HOL-Library.List_Lexorder"
begin

text \<open>
  \<^verbatim>\<open>annotate_val_cases.py\<close>: the validation records of a step are traced to the rows of two source datasets and
  become cases for human annotation; the values of the page are written into a script element. The
  directory listings, pyarrow, drawing and the page's text are not modelled.
\<close>

section \<open>Ground truths\<close>

text \<open>\<open>json.dumps(..., sort_keys=True)\<close> writes the dict with its keys sorted, inside too.\<close>

fun sort_json :: "json \<Rightarrow> json" where
  "sort_json (JArr vs) = JArr (map sort_json vs)"
| "sort_json (JObj kvs) = JObj (sort_key fst (map (\<lambda>(k, v). (k, sort_json v)) kvs))"
| "sort_json v = v"

text \<open>\<open>re.sub(r"\s+", " ", text)\<close>.\<close>

function collapse_space :: "ustr \<Rightarrow> ustr" where
  "collapse_space [] = []"
| "collapse_space (c # s) =
     (if is_space c then 32 # collapse_space (dropWhile is_space s) else c # collapse_space s)"
  by pat_completeness auto
termination
  by (relation "measure length") (auto simp: le_imp_less_Suc length_dropWhile_le)

definition canonical_gt :: "(pyfloat \<Rightarrow> ustr) \<Rightarrow> json \<Rightarrow> ustr py" where
  "canonical_gt fr value =
     (let text = py_strip (json_text fr value)
      in if text = [] then Inr []
         else (case json_loads text of
                 Inl e \<Rightarrow> if e \<in> {JSONDecodeError, TypeError, ValueError} then Inr (collapse_space text) else Inl e
               | Inr parsed \<Rightarrow> Inr (dumps_compact fr (sort_json parsed))))"

section \<open>The records of a step\<close>

definition key_jsonl_line :: ustr where "key_jsonl_line = u ''__jsonl_line__''"

fun read_jsonl :: "nat \<Rightarrow> ustr list \<Rightarrow> dict list py" where
  "read_jsonl line_no [] = Inr []"
| "read_jsonl line_no (line # rest) =
     (if py_strip line = [] then read_jsonl (Suc line_no) rest
      else (case json_loads (py_strip line) of
              Inl e \<Rightarrow> Inl (if e = JSONDecodeError then ValueError else e)
            | Inr (JObj d) \<Rightarrow>
                bindE (read_jsonl (Suc line_no) rest) (\<lambda>ds.
                  Inr (AList.update key_jsonl_line (JInt (int line_no)) d # ds))
            | Inr _ \<Rightarrow> Inl ValueError))"

section \<open>The index of the sources\<close>

record index_entry =
  e_key :: ustr
  e_canonical_gt :: ustr
  e_ground_truth :: ustr
  e_source :: ustr
  e_path :: ustr
  e_row_index :: nat

text \<open>A source file: the lines of a JSONL file, or the columns and rows of a Parquet file.\<close>

datatype index_file = JsonlFile "ustr list" | ParquetTable "ustr list" "json list"

fun jsonl_index_rows :: "nat \<Rightarrow> ustr list \<Rightarrow> (nat \<times> dict) list py" where
  "jsonl_index_rows row_index [] = Inr []"
| "jsonl_index_rows row_index (line # rest) =
     (if py_strip line = [] then jsonl_index_rows (Suc row_index) rest
      else (case json_loads (py_strip line) of
              Inl e \<Rightarrow> Inl (if e = JSONDecodeError then ValueError else e)
            | Inr row \<Rightarrow>
                bindE (jsonl_index_rows (Suc row_index) rest) (\<lambda>rows.
                  Inr (case row of JObj d \<Rightarrow> (row_index, d) # rows | _ \<Rightarrow> rows))))"

definition wanted_columns :: "ustr list" where
  "wanted_columns = [key_prompt, key_input, key_messages, key_reward_model, key_gts, key_ground_truth, key_gt]"

definition parquet_index_rows :: "ustr list \<Rightarrow> json list \<Rightarrow> (nat \<times> dict) list" where
  "parquet_index_rows names rows =
     (let wanted = filter (\<lambda>name. name \<in> set names) wanted_columns
      in if wanted = [] then []
         else List.map_filter (\<lambda>(i, row). case row of
                JObj d \<Rightarrow> Some (i, filter (\<lambda>(k, _). k \<in> set wanted) d) | _ \<Rightarrow> None) (enumerate 0 rows))"

definition index_rows :: "index_file \<Rightarrow> (nat \<times> dict) list py" where
  "index_rows f =
     (case f of JsonlFile lines \<Rightarrow> jsonl_index_rows 0 lines
      | ParquetTable names rows \<Rightarrow> Inr (parquet_index_rows names rows))"

definition row_entry ::
  "(pyfloat \<Rightarrow> ustr) \<Rightarrow> ustr \<Rightarrow> ustr \<Rightarrow> nat \<times> dict \<Rightarrow> index_entry option py" where
  "row_entry fr source path r =
     (case r of (row_index, row) \<Rightarrow>
        (let key = prompt_key (dict_get_or row key_prompt
                     (dict_get_or row key_input (dict_get_or row key_messages (JStr []))));
             gt = json_text fr (ground_truth_value row)
         in if key = [] then Inr None
            else bindE (canonical_gt fr (JStr gt)) (\<lambda>canonical.
              Inr (Some \<lparr>e_key = key, e_canonical_gt = canonical, e_ground_truth = gt, e_source = source,
                e_path = path, e_row_index = row_index\<rparr>))))"

definition file_entries ::
  "(pyfloat \<Rightarrow> ustr) \<Rightarrow> ustr \<Rightarrow> ustr \<times> index_file \<Rightarrow> index_entry list py" where
  "file_entries fr source f =
     bindE (index_rows (snd f)) (\<lambda>rows.
       bindE (mapE (row_entry fr source (fst f)) rows) (\<lambda>es. Inr (List.map_filter id es)))"

text \<open>\<open>build_source_index\<close> on the files of the two target directories, in sorted order.\<close>

definition build_source_index ::
  "(pyfloat \<Rightarrow> ustr) \<Rightarrow> (ustr \<times> (ustr \<times> index_file) list) list \<Rightarrow> index_entry list py" where
  "build_source_index fr targets =
     bindE (mapE (\<lambda>(source, files).
              if files = [] then Inl FileNotFoundError
              else bindE (mapE (file_entries fr source) files) (\<lambda>ess. Inr (concat ess))) targets) (\<lambda>ess.
       if concat ess = [] then Inl RuntimeError else Inr (concat ess))"

definition match_source :: "(pyfloat \<Rightarrow> ustr) \<Rightarrow> index_entry list \<Rightarrow> dict \<Rightarrow> index_entry option py" where
  "match_source fr entries rec =
     (let by_key = group_by_key e_key entries;
          key = prompt_key (dict_get_or rec key_input (dict_get_or rec key_prompt (JStr [])));
          candidates = find_candidates by_key (keys_by_length by_key) key
      in if candidates = [] then Inr None
         else bindE (canonical_gt fr (ground_truth_value rec)) (\<lambda>gt.
           Inr (Some (hd (narrow e_canonical_gt gt candidates)))))"

section \<open>Cases\<close>

record val_case =
  n_order :: nat
  n_jsonl_line :: int
  n_source :: ustr
  n_source_path :: ustr
  n_source_row :: nat
  n_ground_truth :: ustr
  n_prediction :: ustr

definition record_output :: "dict \<Rightarrow> json" where
  "record_output rec =
     dict_get_or rec (u ''output'') (dict_get_or rec (u ''response'') (dict_get_or rec (u ''prediction'') (JStr [])))"

definition case_of_record ::
  "(pyfloat \<Rightarrow> ustr) \<Rightarrow> nat \<Rightarrow> dict \<Rightarrow> index_entry \<Rightarrow> val_case py" where
  "case_of_record fr order rec entry =
     (case dict_get rec key_jsonl_line of
        JInt line \<Rightarrow>
          (let gt = json_text fr (ground_truth_value rec)
           in Inr \<lparr>n_order = order, n_jsonl_line = line, n_source = e_source entry, n_source_path = e_path entry,
             n_source_row = e_row_index entry, n_ground_truth = (if gt \<noteq> [] then gt else e_ground_truth entry),
             n_prediction = json_text fr (record_output rec)\<rparr>)
      | _ \<Rightarrow> Inl KeyError)"

fun collect_from ::
  "(pyfloat \<Rightarrow> ustr) \<Rightarrow> index_entry list \<Rightarrow> val_case list \<Rightarrow> nat \<Rightarrow> dict list \<Rightarrow> (val_case list \<times> nat) py" where
  "collect_from fr entries cases unmatched [] = Inr (cases, unmatched)"
| "collect_from fr entries cases unmatched (rec # rest) =
     bindE (match_source fr entries rec) (\<lambda>m.
       case m of
         None \<Rightarrow> collect_from fr entries cases (Suc unmatched) rest
       | Some entry \<Rightarrow>
           bindE (case_of_record fr (length cases) rec entry) (\<lambda>c.
             collect_from fr entries (cases @ [c]) unmatched rest))"

definition collect_cases ::
  "(pyfloat \<Rightarrow> ustr) \<Rightarrow> index_entry list \<Rightarrow> dict list \<Rightarrow> (val_case list \<times> nat) py" where
  "collect_cases fr entries records = collect_from fr entries [] 0 records"

section \<open>Values in a script element\<close>

text \<open>\<open>text.replace("</", "<\\/")\<close>.\<close>

fun escape_close :: "ustr \<Rightarrow> ustr" where
  "escape_close [] = []"
| "escape_close [c] = [c]"
| "escape_close (c # d # s) = (if c = 60 \<and> d = 47 then 60 # 92 # 47 # escape_close s else c # escape_close (d # s))"

definition safe_script_json :: "(pyfloat \<Rightarrow> ustr) \<Rightarrow> json \<Rightarrow> ustr" where
  "safe_script_json fr value = escape_close (dumps_compact fr value)"

section \<open>The compact writer\<close>

lemma dumps_compact_write: "dumps_compact fr v = write_json [44] [58] dumps_str fr v"
proof (induction v)
  case (JArr vs)
  then show ?case by (simp cong: map_cong)
next
  case (JObj kvs)
  then have "map (\<lambda>(k, v). dumps_str k @ [58] @ dumps_compact fr v) kvs
      = map (\<lambda>(k, v). dumps_str k @ [58] @ write_json [44] [58] dumps_str fr v) kvs"
    by (intro map_cong) auto
  then show ?case by (simp only: dumps_compact.simps write_json.simps)
qed simp_all

interpretation compact: json_writer "[44]" "[58]" dumps_str
  using dumps_str_reads by unfold_locales auto

section \<open>The script writer\<close>

lemma escape_close_Cons: "c \<noteq> 60 \<or> s = [] \<or> hd s \<noteq> 47 \<Longrightarrow> escape_close (c # s) = c # escape_close s"
  by (cases s) auto

lemma escape_close_id: "60 \<notin> set s \<Longrightarrow> escape_close s = s"
  by (induction s) (auto simp: escape_close_Cons)

lemma escape_close_append:
  "a = [] \<or> last a \<noteq> 60 \<Longrightarrow> escape_close (a @ b) = escape_close a @ escape_close b"
  by (induction a rule: escape_close.induct) (auto simp: escape_close_Cons split: if_splits)

lemma escape_close_hd: "\<exists>t. escape_close (d # s) = d # t"
  by (cases s) auto

lemma escape_close_closes_nothing: "escape_close s \<noteq> a @ 60 # 47 # b"
proof (induction s arbitrary: a rule: escape_close.induct)
  case (3 c d s)
  show ?case
  proof (cases "c = 60 \<and> d = 47")
    case True
    then have ih: "escape_close s \<noteq> a' @ 60 # 47 # b" for a' using 3(1) by blast
    show ?thesis using True ih by (auto simp: Cons_eq_append_conv)
  next
    case False
    obtain t where t: "escape_close (d # s) = d # t" using escape_close_hd by blast
    have ih: "escape_close (d # s) \<noteq> a' @ 60 # 47 # b" for a' using 3(2) False by blast
    have e: "escape_close (c # d # s) = c # escape_close (d # s)" using False by auto
    show ?thesis
    proof
      assume h: "escape_close (c # d # s) = a @ 60 # 47 # b"
      show False
      proof (cases a)
        case Nil
        then show False using h False t unfolding e by simp
      next
        case (Cons x a')
        then show False using h ih unfolding e by simp
      qed
    qed
  qed
qed (auto simp: Cons_eq_append_conv)

definition script_str :: "ustr \<Rightarrow> ustr" where
  "script_str s = escape_close (dumps_str s)"

lemma dumps_char_60: "dumps_char 60 = [60]" "dumps_char 47 = [47]"
  by (simp_all add: dumps_char_def)

lemma dumps_char_other: "c \<noteq> 60 \<Longrightarrow> 60 \<notin> set (dumps_char c)" "d \<noteq> 47 \<Longrightarrow> dumps_char d \<noteq> [] \<and> hd (dumps_char d) \<noteq> 47"
  by (auto simp: dumps_char_def hex_digit_def split: if_splits)

lemma escape_char:
  assumes "c \<noteq> 60 \<or> hd t \<noteq> 47"
  shows "escape_close (dumps_char c @ t) = dumps_char c @ escape_close t"
proof (cases "c = 60")
  case True
  then show ?thesis using assms by (simp add: dumps_char_60 escape_close_Cons)
next
  case False
  then have n: "60 \<notin> set (dumps_char c)" by (rule dumps_char_other)
  then have "dumps_char c = [] \<or> last (dumps_char c) \<noteq> 60" using last_in_set by metis
  then show ?thesis using n by (simp add: escape_close_append escape_close_id)
qed

lemma scan_string_char: "0 \<le> c \<Longrightarrow> scan_string t = Some (cs, r) \<Longrightarrow> scan_string (dumps_char c @ t) = Some (c # cs, r)"
  by (simp add: scan_string.simps [of "dumps_char c @ t"] scan_unit_dumps)

lemma scan_script_string:
  "list_all (\<lambda>c. 0 \<le> c) s \<Longrightarrow> scan_string (escape_close (concat (map dumps_char s) @ [34]) @ r) = Some (s, r)"
proof (induction s rule: escape_close.induct)
  case 1
  then show ?case by (simp add: scan_string.simps [of "34 # r"] scan_unit_def)
next
  case (2 c)
  have "scan_string (34 # r) = Some ([], r)" by (simp add: scan_string.simps [of "34 # r"] scan_unit_def)
  then show ?case using 2 scan_string_char [of c "34 # r" "[]" r] by (simp add: escape_char)
next
  case (3 c d s)
  let ?t = "concat (map dumps_char (d # s)) @ [34]" and ?u = "concat (map dumps_char s) @ [34]"
  show ?case
  proof (cases "c = 60 \<and> d = 47")
    case True
    have u: "scan_string (escape_close ?u @ r) = Some (s, r)" using 3 True by simp
    have "scan_string (47 # escape_close ?u @ r) = Some (47 # s, r)"
      using scan_string_char [OF _ u, of 47] by (simp add: dumps_char_60)
    moreover have "scan_string (92 # 47 # escape_close ?u @ r) = Some (47 # s, r)"
      using u by (simp add: scan_string.simps [of "92 # t" for t] scan_unit_def scan_escape_def json_escape_def)
    ultimately have "scan_string (60 # 92 # 47 # escape_close ?u @ r) = Some (60 # 47 # s, r)"
      using scan_string_char [of 60 "92 # 47 # escape_close ?u @ r"] by (simp add: dumps_char_60)
    then show ?thesis using True by (simp add: dumps_char_60)
  next
    case False
    have "c \<noteq> 60 \<or> hd ?t \<noteq> 47" using False dumps_char_other(2) [of d] by auto
    then have "escape_close (dumps_char c @ ?t) = dumps_char c @ escape_close ?t" by (rule escape_char)
    moreover have "scan_string (escape_close ?t @ r) = Some (d # s, r)" using 3 False by auto
    ultimately show ?thesis using scan_string_char [of c "escape_close ?t @ r" "d # s" r] 3(3) by simp
  qed
qed

lemma script_str_reads: "nonneg s \<Longrightarrow> \<exists>body. script_str s = 34 # body \<and> (\<forall>r. scan_string (body @ r) = Some (s, r))"
  using scan_script_string [of s] by (auto simp: script_str_def dumps_str_def nonneg_def escape_close_Cons)

interpretation script: json_writer "[44]" "[58]" script_str
  using script_str_reads by unfold_locales auto

text \<open>A value's text never begins with a slash or ends with \<open><\<close>, so that nothing is replaced across its ends.\<close>

definition tidy :: "ustr \<Rightarrow> bool" where
  "tidy t \<longleftrightarrow> t \<noteq> [] \<and> hd t \<noteq> 47 \<and> last t \<noteq> 60"

lemma escape_tidy: "tidy t \<Longrightarrow> escape_close (t @ r) = escape_close t @ escape_close r"
  by (simp add: tidy_def escape_close_append)

lemma tidy_str: "tidy (dumps_str s)"
  by (simp add: tidy_def dumps_str_def)

lemma escape_join:
  "list_all tidy ts \<Longrightarrow> escape_close (py_join [44] ts @ r) = py_join [44] (map escape_close ts) @ escape_close r"
proof (induction ts)
  case (Cons t ts)
  then show ?case by (simp add: py_join_Cons escape_tidy escape_close_Cons)
qed simp

definition plain_floats :: "(pyfloat \<Rightarrow> ustr) \<Rightarrow> bool" where
  "plain_floats fr \<longleftrightarrow> (\<forall>x. 60 \<notin> set (fr (Fin x)))"

lemma digits_no_60: "60 \<notin> set (str_of_int i)"
proof -
  have "list_all is_digit (nat_digits n)" for n by (simp add: nat_digits_digits)
  then have "60 \<notin> set (nat_digits n)" for n by (fastforce simp: list_all_iff is_digit_def)
  then show ?thesis by (simp add: str_of_int_def)
qed

lemma simple_text:
  assumes "dumpable fr v" and "plain_floats fr" and "\<nexists>s. v = JStr s" and "\<nexists>vs. v = JArr vs" and "\<nexists>d. v = JObj d"
  shows "60 \<notin> set (dumps_json fr v) \<and> tidy (dumps_json fr v)"
proof -
  have t: "60 \<notin> set t \<Longrightarrow> starts_number t \<Longrightarrow> 60 \<notin> set t \<and> tidy t" for t
    by (auto simp: tidy_def starts_number_def is_digit_def split: list.splits dest: last_in_set)
  show ?thesis
  proof (cases v)
    case (JInt i)
    then show ?thesis using t [OF digits_no_60 starts_number_int] by simp
  next
    case (JFloat f)
    then show ?thesis using assms(1,2) t
      by (cases f) (auto simp: float_reads_def plain_floats_def tidy_def lit_NaN_def lit_Infinity_def)
  qed (use assms in \<open>auto simp: lit_null_def lit_true_def lit_false_def tidy_def\<close>)
qed

lemma escape_compact:
  assumes "plain_floats fr"
  shows "dumpable fr v \<Longrightarrow> tidy (dumps_compact fr v)
    \<and> escape_close (dumps_compact fr v) = write_json [44] [58] script_str fr v"
proof (induction v)
  case (JStr s)
  then show ?case by (simp add: tidy_str script_str_def)
next
  case (JArr vs)
  then have v: "list_all tidy (map (dumps_compact fr) vs)"
    "map escape_close (map (dumps_compact fr) vs) = map (write_json [44] [58] script_str fr) vs"
    by (auto simp: list_all_iff)
  then show ?case
    using escape_join [OF v(1), of "[93]"] by (simp add: tidy_def escape_close_Cons del: map_map map_eq_conv)
next
  case (JObj kvs)
  let ?m = "\<lambda>(k, v). dumps_str k @ [58] @ dumps_compact fr v"
  have ih: "tidy (dumps_compact fr v) \<and> escape_close (dumps_compact fr v) = write_json [44] [58] script_str fr v"
    if "(k, v) \<in> set kvs" for k v
    using JObj that by (fastforce simp: list_all_iff)
  have "tidy (?m kv) \<and> escape_close (?m kv) = (\<lambda>(k, v). script_str k @ [58] @ write_json [44] [58] script_str fr v) kv"
    if "kv \<in> set kvs" for kv
  proof -
    obtain k v where kv: "kv = (k, v)" by fastforce
    have "tidy (dumps_str k @ [58] @ dumps_compact fr v)"
      using ih [of k v] that kv tidy_str [of k] by (auto simp: tidy_def)
    moreover have "escape_close (dumps_str k @ [58] @ dumps_compact fr v)
        = script_str k @ [58] @ escape_close (dumps_compact fr v)"
      using escape_tidy [OF tidy_str, of k "[58] @ dumps_compact fr v"] by (simp add: script_str_def escape_close_Cons)
    ultimately show ?thesis using ih [of k v] that kv by simp
  qed
  then have v: "list_all tidy (map ?m kvs)"
    "map escape_close (map ?m kvs) = map (\<lambda>(k, v). script_str k @ [58] @ write_json [44] [58] script_str fr v) kvs"
    by (auto simp: list_all_iff)
  show ?case
    using escape_join [OF v(1), of "[125]"] unfolding v(2) by (simp add: tidy_def escape_close_Cons)
qed (use simple_text assms escape_close_id in \<open>auto simp: simp del: dumps_json.simps\<close>)

section \<open>Canonical texts\<close>

lemma sort_key_fst_iff:
  assumes "distinct (map fst xs)" and "distinct (map fst ys)"
  shows "sort_key fst xs = sort_key fst ys \<longleftrightarrow> map_of xs = map_of ys"
proof
  assume "sort_key fst xs = sort_key fst ys"
  then have "set xs = set ys" by (metis set_sort)
  then show "map_of xs = map_of ys" using assms by (simp add: map_of_inject_set)
next
  assume "map_of xs = map_of ys"
  then have s: "set xs = set ys" using assms by (simp add: map_of_inject_set)
  have "distinct (map fst (sort_key fst zs))" if "distinct (map fst zs)" for zs :: "('a \<times> 'b) list"
    using that by (simp add: distinct_map)
  then show "sort_key fst xs = sort_key fst ys"
    using assms s by (intro map_sorted_distinct_set_unique [of fst])
      (auto simp: distinct_map inj_on_def dest: map_of_is_SomeI [OF assms(1)] map_of_is_SomeI [OF assms(2)])
qed

lemma map_of_sorted_values: "map_of (map (\<lambda>(k, v). (k, f v)) xs) k = map_option f (map_of xs k)"
  by (induction xs) auto

text \<open>Two dicts have one sorted form if they agree, key by key, up to the order inside.\<close>

lemma sort_json_objects:
  assumes "distinct (map fst d)" and "distinct (map fst d')"
  shows "sort_json (JObj d) = sort_json (JObj d')
    \<longleftrightarrow> (\<forall>k. map_option sort_json (map_of d k) = map_option sort_json (map_of d' k))"
proof -
  have "distinct (map fst (map (\<lambda>(k, v). (k, sort_json v)) e))" if "distinct (map fst e)" for e :: dict
    using that by (simp add: comp_def case_prod_unfold)
  then show ?thesis
    using sort_key_fst_iff [of "map (\<lambda>(k, v). (k, sort_json v)) d" "map (\<lambda>(k, v). (k, sort_json v)) d'"] assms
    by (simp add: fun_eq_iff map_of_sorted_values)
qed

lemma distinct_sort_fst: "distinct (map fst (sort_key fst xs)) \<longleftrightarrow> distinct (map fst xs)"
  by (rule mset_eq_imp_distinct_iff) simp

lemma sort_json_dumpable: "dumpable fr v \<Longrightarrow> dumpable fr (sort_json v)"
proof (induction v)
  case (JObj kvs)
  have "distinct (map fst (sort_key fst (map (\<lambda>(k, v). (k, sort_json v)) kvs)))"
    using JObj(2) unfolding distinct_sort_fst by (simp add: comp_def case_prod_unfold)
  then show ?case using JObj by (fastforce simp: list_all_iff)
qed (auto simp: list_all_iff)

lemma canonical_gt_text:
  assumes "py_strip a \<noteq> []" and "json_loads (py_strip a) = Inr v"
  shows "canonical_gt fr (JStr a) = Inr (dumps_compact fr (sort_json v))"
  using assms by (simp add: canonical_gt_def json_text_def)

section \<open>Properties\<close>

text \<open>C17: A value written into the page's script element cannot close the element: its text never contains
  \<open></\<close>. Nothing is changed by that: as JSON the text is still the value.\<close>

theorem safe_script_round_trip:
  assumes "dumpable fr v" and "plain_floats fr"
  shows "json_loads (safe_script_json fr v) = Inr v \<and> \<not> contains (u ''</'') (safe_script_json fr v)"
proof -
  have "json_loads (write_json [44] [58] script_str fr v @ []) = Inr v"
    using script.loads_write [OF assms(1)] by blast
  then have "json_loads (safe_script_json fr v) = Inr v"
    using escape_compact [OF assms(2,1)] by (simp add: safe_script_json_def)
  moreover have "\<not> contains (u ''</'') (escape_close t)" for t
    using escape_close_closes_nothing by (auto simp: contains_iff u_def)
  ultimately show ?thesis by (simp add: safe_script_json_def)
qed

text \<open>C31: Two ground truths that are JSON objects have the same canonical text exactly when they have the same
  keys with values that agree up to the order of keys inside; blanks and the order in which the keys are
  written do not matter.\<close>

theorem canonical_gt_ignores_order:
  assumes "py_strip a \<noteq> []" and "json_loads (py_strip a) = Inr (JObj d)" and "dumpable fr (JObj d)"
    and "py_strip b \<noteq> []" and "json_loads (py_strip b) = Inr (JObj d')" and "dumpable fr (JObj d')"
  shows "canonical_gt fr (JStr a) = canonical_gt fr (JStr b)
    \<longleftrightarrow> (\<forall>k. map_option sort_json (map_of d k) = map_option sort_json (map_of d' k))"
proof -
  have "dumps_compact fr (sort_json (JObj d)) = dumps_compact fr (sort_json (JObj d'))
      \<longleftrightarrow> sort_json (JObj d) = sort_json (JObj d')"
    using compact.write_inj sort_json_dumpable [OF assms(3)] sort_json_dumpable [OF assms(6)]
    unfolding dumps_compact_write by metis
  moreover have "distinct (map fst d)" "distinct (map fst d')" using assms(3,6) by simp_all
  ultimately show ?thesis
    using canonical_gt_text [OF assms(1,2)] canonical_gt_text [OF assms(4,5)] sort_json_objects by simp
qed

section \<open>Cases and their rows\<close>

lemma read_jsonl_facts:
  "read_jsonl n lines = Inr recs \<Longrightarrow> rec \<in> set recs \<Longrightarrow> \<exists>i d. i < length lines
     \<and> json_loads (py_strip (lines ! i)) = Inr (JObj d) \<and> rec = AList.update key_jsonl_line (JInt (int (n + i))) d"
proof (induction n lines arbitrary: recs rule: read_jsonl.induct)
  case (2 n line rest)
  show ?case
  proof (cases "py_strip line = []")
    case True
    then obtain i d where "i < length rest" "json_loads (py_strip (rest ! i)) = Inr (JObj d)"
      "rec = AList.update key_jsonl_line (JInt (int (Suc n + i))) d"
      using 2 by fastforce
    then show ?thesis by (intro exI [of _ "Suc i"]) auto
  next
    case False
    then obtain d ds where d: "json_loads (py_strip line) = Inr (JObj d)" "read_jsonl (Suc n) rest = Inr ds"
      "recs = AList.update key_jsonl_line (JInt (int n)) d # ds"
      using 2(3) by (auto simp: bindE_eq_Inr split: sum.splits json.splits)
    show ?thesis
    proof (cases "rec \<in> set ds")
      case True
      then obtain i d where "i < length rest" "json_loads (py_strip (rest ! i)) = Inr (JObj d)"
        "rec = AList.update key_jsonl_line (JInt (int (Suc n + i))) d"
        using 2(2) [OF False d(1) refl d(2)] by fastforce
      then show ?thesis by (intro exI [of _ "Suc i"]) auto
    next
      case False
      then show ?thesis using 2(4) d by (intro exI [of _ 0]) auto
    qed
  qed
qed simp

definition first_source :: "index_entry list \<Rightarrow> ustr \<Rightarrow> ustr \<Rightarrow> index_entry" where
  "first_source entries k gt =
     (case find (\<lambda>e. e_key e = k \<and> gt \<noteq> [] \<and> e_canonical_gt e = gt) entries of
        Some e \<Rightarrow> e
      | None \<Rightarrow> hd (filter (\<lambda>e. e_key e = k) entries))"

lemma find_filter: "find p (filter q xs) = find (\<lambda>x. q x \<and> p x) xs"
  by (induction xs) auto

definition record_prompt_key :: "dict \<Rightarrow> ustr" where
  "record_prompt_key rec = prompt_key (dict_get_or rec key_input (dict_get_or rec key_prompt (JStr [])))"

lemma match_source_spec:
  "match_source fr entries rec = Inr m \<Longrightarrow>
     (case m of
        None \<Rightarrow> record_prompt_key rec \<notin> e_key ` set entries
      | Some e \<Rightarrow> \<exists>k gt. traces (e_key ` set entries) (record_prompt_key rec) k
          \<and> canonical_gt fr (ground_truth_value rec) = Inr gt \<and> e = first_source entries k gt)"
proof -
  assume a: "match_source fr entries rec = Inr m"
  let ?g = "group_by_key e_key entries"
  let ?c = "find_candidates ?g (keys_by_length ?g) (record_prompt_key rec)"
  show ?thesis
  proof (cases "?c = []")
    case True
    then have "m = None" using a by (simp add: match_source_def record_prompt_key_def)
    then show ?thesis
      using True no_candidates [of e_key entries "record_prompt_key rec"] by auto
  next
    case False
    then obtain gt where gt: "canonical_gt fr (ground_truth_value rec) = Inr gt" "m = Some (hd (narrow e_canonical_gt gt ?c))"
      using a by (auto simp: match_source_def record_prompt_key_def Let_def bindE_eq_Inr)
    obtain k where k: "traces (e_key ` set entries) (record_prompt_key rec) k" "?c = filter (\<lambda>e. e_key e = k) entries"
      using candidates_trace [OF False] by blast
    have "hd (narrow e_canonical_gt gt ?c) = first_source entries k gt"
      using narrow_hd [OF False, of e_canonical_gt gt] unfolding k(2) find_filter first_source_def
      by (simp add: conj_left_commute)
    then show ?thesis using gt k(1) by auto
  qed
qed

lemma case_order: "case_of_record fr i rec e = Inr c \<Longrightarrow> n_order c = i"
  by (auto simp: case_of_record_def Let_def split: json.splits)

lemma collect_from_spec:
  "collect_from fr entries cases unmatched recs = Inr (cases', unmatched') \<Longrightarrow>
     \<exists>new. cases' = cases @ new \<and> length new + (unmatched' - unmatched) = length recs \<and> unmatched \<le> unmatched'
       \<and> (\<forall>i < length new. \<exists>rec \<in> set recs. \<exists>e. match_source fr entries rec = Inr (Some e)
            \<and> case_of_record fr (length cases + i) rec e = Inr (new ! i))"
proof (induction fr entries cases unmatched recs rule: collect_from.induct)
  case (2 fr entries cases unmatched rec rest)
  obtain m where m: "match_source fr entries rec = Inr m" using 2(3) by (auto simp: bindE_eq_Inr)
  show ?case
  proof (cases m)
    case None
    then have "collect_from fr entries cases (Suc unmatched) rest = Inr (cases', unmatched')" using 2(3) m by simp
    then show ?thesis using 2(1) [OF m None] by fastforce
  next
    case (Some e)
    then obtain c where c: "case_of_record fr (length cases) rec e = Inr c"
      "collect_from fr entries (cases @ [c]) unmatched rest = Inr (cases', unmatched')"
      using 2(3) m by (auto simp: bindE_eq_Inr)
    obtain new where new: "cases' = (cases @ [c]) @ new" "length new + (unmatched' - unmatched) = length rest"
      "unmatched \<le> unmatched'"
      "\<forall>i < length new. \<exists>rec \<in> set rest. \<exists>e. match_source fr entries rec = Inr (Some e)
            \<and> case_of_record fr (length (cases @ [c]) + i) rec e = Inr (new ! i)"
      using 2(2) [OF m Some c(1) c(2)] by blast
    have "\<exists>rec' \<in> set (rec # rest). \<exists>e. match_source fr entries rec' = Inr (Some e)
        \<and> case_of_record fr (length cases + i) rec' e = Inr ((c # new) ! i)" if "i < length (c # new)" for i
      using that new(4) m Some c(1) by (cases i) fastforce+
    then show ?thesis using new by (intro exI [of _ "c # new"]) auto
  qed
qed simp

text \<open>C16: Every record of a step becomes a case or is counted as unmatched, and the cases are numbered. A case
  names its line in the file; its row is the first one under the prompt key of the record on that line (or
  under the longest key of 24 characters inside it) whose ground truth agrees with the record's up to the
  order of keys, or else the first under the key; its ground truth is the record's, or the row's if the
  record has none.\<close>

theorem cases_traced:
  assumes "read_jsonl 1 lines = Inr records" and "collect_cases fr entries records = Inr (cases, unmatched)"
  shows "length cases + unmatched = length records \<and> map n_order cases = [0..<length cases]
    \<and> (\<forall>c \<in> set cases. \<exists>i d rec k gt.
         i < length lines \<and> n_jsonl_line c = int (Suc i) \<and> json_loads (py_strip (lines ! i)) = Inr (JObj d)
         \<and> rec = AList.update key_jsonl_line (JInt (int (Suc i))) d
         \<and> traces (e_key ` set entries) (record_prompt_key rec) k
         \<and> canonical_gt fr (ground_truth_value rec) = Inr gt
         \<and> (n_source c, n_source_path c, n_source_row c)
           = (e_source (first_source entries k gt), e_path (first_source entries k gt), e_row_index (first_source entries k gt))
         \<and> n_ground_truth c = (if json_text fr (ground_truth_value rec) \<noteq> [] then json_text fr (ground_truth_value rec)
                               else e_ground_truth (first_source entries k gt))
         \<and> n_prediction c = json_text fr (record_output rec))"
proof -
  have new: "length cases + unmatched = length records"
    "\<forall>i < length cases. \<exists>rec \<in> set records. \<exists>e. match_source fr entries rec = Inr (Some e)
       \<and> case_of_record fr i rec e = Inr (cases ! i)"
    using collect_from_spec [OF assms(2) [unfolded collect_cases_def]] by auto
  have "n_order (cases ! i) = i" if i: "i < length cases" for i
  proof -
    obtain rec e where "case_of_record fr i rec e = Inr (cases ! i)" using new(2) i by blast
    then show ?thesis by (rule case_order)
  qed
  then have "map n_order cases = [0..<length cases]" by (intro nth_equalityI) auto
  moreover have "\<exists>i d rec k gt.
         i < length lines \<and> n_jsonl_line c = int (Suc i) \<and> json_loads (py_strip (lines ! i)) = Inr (JObj d)
         \<and> rec = AList.update key_jsonl_line (JInt (int (Suc i))) d
         \<and> traces (e_key ` set entries) (record_prompt_key rec) k
         \<and> canonical_gt fr (ground_truth_value rec) = Inr gt
         \<and> (n_source c, n_source_path c, n_source_row c)
           = (e_source (first_source entries k gt), e_path (first_source entries k gt), e_row_index (first_source entries k gt))
         \<and> n_ground_truth c = (if json_text fr (ground_truth_value rec) \<noteq> [] then json_text fr (ground_truth_value rec)
                               else e_ground_truth (first_source entries k gt))
         \<and> n_prediction c = json_text fr (record_output rec)" if c: "c \<in> set cases" for c
  proof -
    obtain j where j: "j < length cases" "c = cases ! j" using c by (auto simp: in_set_conv_nth)
    obtain rec e where r: "rec \<in> set records" "match_source fr entries rec = Inr (Some e)"
      "case_of_record fr j rec e = Inr c"
      using new(2) j by blast
    obtain i d where i: "i < length lines" "json_loads (py_strip (lines ! i)) = Inr (JObj d)"
      "rec = AList.update key_jsonl_line (JInt (int (Suc i))) d"
      using read_jsonl_facts [OF assms(1) r(1)] by auto
    obtain k gt where k: "traces (e_key ` set entries) (record_prompt_key rec) k"
      "canonical_gt fr (ground_truth_value rec) = Inr gt" "e = first_source entries k gt"
      using match_source_spec [OF r(2)] by auto
    have "dict_get rec key_jsonl_line = JInt (int (Suc i))"
      unfolding i(3) by (simp add: dict_get_def AList.update_conv)
    then show ?thesis
      using r(3) i k by (intro exI [of _ i] exI [of _ d] exI [of _ rec] exI [of _ k] exI [of _ gt])
        (auto simp: case_of_record_def Let_def)
  qed
  ultimately show ?thesis using new(1) by blast
qed

section \<open>A small step\<close>

theorem safe_script_round_trip_witness:
  "json_loads (safe_script_json (\<lambda>_. []) (JObj [(u ''prediction'', JStr (u ''</script><b>'')), (u ''n'', JInt 2)]))
    = Inr (JObj [(u ''prediction'', JStr (u ''</script><b>'')), (u ''n'', JInt 2)])"
  by (rule safe_script_round_trip [THEN conjunct1])
     (simp_all add: plain_floats_def nonneg_def u_def nat_digits.simps)

theorem canonical_gt_ignores_order_witness:
  "canonical_gt (\<lambda>_. []) (JStr (u ''{\"x\": 1, \"y\": [true]}'')) = canonical_gt (\<lambda>_. []) (JStr (u '' {\"y\":[true],\"x\":1}''))"
proof -
  let ?d = "[(u ''x'', JInt 1), (u ''y'', JArr [JBool True])]" and ?d' = "[(u ''y'', JArr [JBool True]), (u ''x'', JInt 1)]"
  have l: "py_strip (u ''{\"x\": 1, \"y\": [true]}'') \<noteq> []" "json_loads (py_strip (u ''{\"x\": 1, \"y\": [true]}'')) = Inr (JObj ?d)"
    "py_strip (u '' {\"y\":[true],\"x\":1}'') \<noteq> []" "json_loads (py_strip (u '' {\"y\":[true],\"x\":1}'')) = Inr (JObj ?d')"
    by code_simp+
  have d: "dumpable (\<lambda>_. []) (JObj ?d)" "dumpable (\<lambda>_. []) (JObj ?d')"
    by (simp_all add: nonneg_def u_def nat_digits.simps)
  have "map_option sort_json (map_of ?d k) = map_option sort_json (map_of ?d' k)" for k
    by (simp add: u_def)
  then show ?thesis using canonical_gt_ignores_order [OF l(1,2) d(1) l(3,4) d(2)] by blast
qed

text \<open>Two rows with one prompt; the record has the ground truth of the second.\<close>

definition step_entries :: "index_entry list" where
  "step_entries =
     [\<lparr>e_key = u ''where?'', e_canonical_gt = u ''{\"a\":\"A\",\"b\":1}'', e_ground_truth = u ''{\"b\":1,\"a\":\"A\"}'',
        e_source = u ''s'', e_path = u ''s/f.jsonl'', e_row_index = 0\<rparr>,
      \<lparr>e_key = u ''where?'', e_canonical_gt = u ''{\"a\":\"B\",\"b\":1}'', e_ground_truth = u ''{\"b\":1,\"a\":\"B\"}'',
        e_source = u ''s'', e_path = u ''s/f.jsonl'', e_row_index = 2\<rparr>]"

lemma step_entries_built:
  "build_source_index (\<lambda>_. []) [(u ''s'', [(u ''s/f.jsonl'', JsonlFile
     [u ''{\"prompt\": \"Where?\", \"gts\": {\"b\": 1, \"a\": \"A\"}}'', u '' '',
      u ''{\"prompt\": \"Where ?\", \"gts\": {\"b\": 1, \"a\": \"B\"}}''])])] = Inr step_entries"
  by code_simp

definition step_case :: val_case where
  "step_case = \<lparr>n_order = 0, n_jsonl_line = 2, n_source = u ''s'', n_source_path = u ''s/f.jsonl'', n_source_row = 2,
     n_ground_truth = u ''{\"a\":\"B\",\"b\":1}'', n_prediction = u ''out''\<rparr>"

definition step_lines :: "ustr list" where
  "step_lines = [u ''{\"input\": \"unknown\"}'',
     u ''{\"input\": \"Where?\", \"gts\": {\"a\": \"B\", \"b\": 1}, \"output\": \"out\"}'']"

definition step_records :: "dict list" where
  "step_records = (case read_jsonl 1 step_lines of Inr rs \<Rightarrow> rs | Inl _ \<Rightarrow> [])"

lemma step_read: "read_jsonl 1 step_lines = Inr step_records"
  by code_simp

lemma step_collected: "collect_cases (\<lambda>_. []) step_entries step_records = Inr ([step_case], 1)"
  by code_simp

theorem cases_traced_witness:
  "length [step_case] + 1 = length step_records
    \<and> (\<exists>k gt. e_row_index (first_source step_entries k gt) = 2)"
proof -
  note t = cases_traced [OF step_read step_collected]
  then obtain k gt where "(n_source step_case, n_source_path step_case, n_source_row step_case)
      = (e_source (first_source step_entries k gt), e_path (first_source step_entries k gt), e_row_index (first_source step_entries k gt))"
    by fastforce
  then show ?thesis using t by (auto simp: step_case_def)
qed

end
