(* ===== verification/BoxDrawing.thy ===== *)
theory BoxDrawing
  imports CaseIndex
begin

text \<open>
  \<^verbatim>\<open>annotate_val_cases.py\<close>: the boxes that are drawn on the second image of a case, the marks they are drawn with,
  and the text shown beside the image. \<^verbatim>\<open>evaluate_rollout_checkpoints.py\<close> draws its overlays with the same
  functions. A mark is one call of Pillow's drawing object; the pen is the colour. Widths and fills, the heads of
  arrows and the dashes of the globe are left out.
\<close>

section \<open>The object with the boxes\<close>

text \<open>One opening brace: \<open>raw_decode\<close> from there. The object's place, its end and the object, if it has a list of boxes.\<close>

definition boxes_object_at :: "ustr \<Rightarrow> nat \<Rightarrow> (nat \<times> nat \<times> dict) option py" where
  "boxes_object_at text start =
     (case scan_once (2 * length text + 2) (drop start text) of
        Inl e \<Rightarrow> if is_ValueError e \<or> e = TypeError then Inr None else Inl e
      | Inr (v, rest) \<Rightarrow>
          (case v of
             JObj obj \<Rightarrow> (case dict_get obj key_boxes of
                 JArr _ \<Rightarrow> Inr (Some (start, length text - length rest, obj)) | _ \<Rightarrow> Inr None)
           | _ \<Rightarrow> Inr None))"

definition last_boxes_object :: "ustr \<Rightarrow> (nat \<times> nat \<times> dict) option py" where
  "last_boxes_object text =
     bindE (mapE (boxes_object_at text) (filter (\<lambda>i. text ! i = 123) [0..<length text])) (\<lambda>objects.
       Inr (last_some id objects))"

section \<open>Boxes to draw\<close>

definition finite_coords :: "json list \<Rightarrow> real list option py" where
  "finite_coords vs =
     (case mapE float_of vs of
        Inl e \<Rightarrow> if is_ValueError e \<or> e = TypeError then Inr None else Inl e
      | Inr coords \<Rightarrow> Inr (if list_all isfinite coords then Some (map fval coords) else None))"

definition box_of :: "(pyfloat \<Rightarrow> ustr) \<Rightarrow> json \<Rightarrow> json \<Rightarrow> (real list \<times> ustr) option py" where
  "box_of fr bbox label =
     (case bbox of
        JArr vs \<Rightarrow>
          (if length vs = 4
           then bindE (finite_coords vs) (\<lambda>coords. Inr (map_option (\<lambda>cs. (cs, py_str fr label)) coords))
           else Inr None)
      | _ \<Rightarrow> Inr None)"

definition drawn_box :: "(pyfloat \<Rightarrow> ustr) \<Rightarrow> json \<Rightarrow> (real list \<times> ustr) option py" where
  "drawn_box fr item =
     (case item of
        JObj d \<Rightarrow> box_of fr (dict_get d key_bbox) (dict_get_or d key_label (JStr []))
      | JArr vs \<Rightarrow> if length vs = 4 then box_of fr item (JStr []) else Inr None
      | _ \<Rightarrow> Inr None)"

definition drawn_boxes :: "(pyfloat \<Rightarrow> ustr) \<Rightarrow> dict \<Rightarrow> (real list \<times> ustr) list py" where
  "drawn_boxes fr obj =
     (case dict_get obj key_boxes of
        JArr items \<Rightarrow> bindE (mapE (drawn_box fr) items) (\<lambda>boxes. Inr (List.map_filter id boxes))
      | _ \<Rightarrow> Inr [])"

definition extract_boxes :: "(pyfloat \<Rightarrow> ustr) \<Rightarrow> ustr \<Rightarrow> (real list \<times> ustr) list py" where
  "extract_boxes fr text =
     bindE (last_boxes_object text) (\<lambda>found.
       case found of None \<Rightarrow> Inr [] | Some (start, finish, obj) \<Rightarrow> drawn_boxes fr obj)"

section \<open>Directions\<close>

text \<open>The first match of \<^verbatim>\<open>\(([^()]*)\)\<close>.\<close>

fun first_group :: "ustr \<Rightarrow> ustr option" where
  "first_group [] = None"
| "first_group (c # s) =
     (let rest = dropWhile (\<lambda>x. x \<noteq> 40 \<and> x \<noteq> 41) s
      in if c = 40 \<and> rest \<noteq> [] \<and> hd rest = 41 then Some (takeWhile (\<lambda>x. x \<noteq> 40 \<and> x \<noteq> 41) s) else first_group s)"

definition direction :: "ustr \<Rightarrow> real list \<Rightarrow> real list option" where
  "direction label bbox =
     (case first_group label of
        None \<Rightarrow> None
      | Some g \<Rightarrow>
          (case floats_of_strs (filter (\<lambda>p. p \<noteq> []) (re_split_commas (py_strip g))) of
             None \<Rightarrow> None
           | Some nums \<Rightarrow>
               (let v = map fval nums
                in if \<not> list_all isfinite nums then None
                   else if length v = 2
                   then Some [v ! 0 - (bbox ! 0 + bbox ! 2) / 2, v ! 1 - (bbox ! 1 + bbox ! 3) / 2]
                   else if length v = 3 then Some v
                   else None)))"

definition magnitude :: "real list \<Rightarrow> real" where
  "magnitude v = sqrt (sum_list (map (\<lambda>x. x * x) v))"

definition is_3d :: "real list option \<Rightarrow> bool" where
  "is_3d d = (case d of Some v \<Rightarrow> length v = 3 \<and> 1 / 10 ^ 6 \<le> magnitude v | None \<Rightarrow> False)"

section \<open>The text beside the image\<close>

definition without_label :: "json \<Rightarrow> (json \<times> bool) py" where
  "without_label item =
     (case item of
        JObj d \<Rightarrow>
          (case (dict_get d key_label, dict_get d key_bbox) of
             (JStr label, JArr vs) \<Rightarrow>
               (if length vs = 4
                then bindE (finite_coords vs) (\<lambda>coords.
                  Inr (case coords of
                         Some cs \<Rightarrow>
                           if is_3d (direction label cs) then (JObj (filter (\<lambda>(k, _). k \<noteq> key_label) d), True)
                           else (item, False)
                       | None \<Rightarrow> (item, False)))
                else Inr (item, False))
           | _ \<Rightarrow> Inr (item, False))
      | _ \<Rightarrow> Inr (item, False))"

definition without_3d_arrow_labels :: "(pyfloat \<Rightarrow> ustr) \<Rightarrow> ustr \<Rightarrow> ustr py" where
  "without_3d_arrow_labels fr text =
     bindE (last_boxes_object text) (\<lambda>found.
       case found of
         None \<Rightarrow> Inr text
       | Some (start, finish, obj) \<Rightarrow>
           (case dict_get obj key_boxes of
              JArr items \<Rightarrow>
                bindE (mapE without_label items) (\<lambda>xs.
                  if \<not> list_ex snd xs then Inr text
                  else Inr (take start text
                    @ dumps_compact fr (JObj (AList.update key_boxes (JArr (map fst xs)) obj)) @ drop finish text))
            | _ \<Rightarrow> Inr text))"

section \<open>Marks\<close>

type_synonym pixel = "real \<times> real"

datatype pen = GtPen | PredPen

datatype mark =
    Outline pen "real list"
  | Segment pen pixel pixel
  | Caption pen pixel ustr
  | ArrowMark pen pixel pixel
  | Globe pen pixel real
  | ShaftMark pen pixel pixel bool
  | DotMark pen pixel
  | CrossMark pixel
  | CenterMark pen pixel

text \<open>Python's \<open>round\<close>: halves go to the even neighbour.\<close>

definition py_round :: "real \<Rightarrow> int" where
  "py_round x =
     (let f = \<lfloor>x\<rfloor>; r = x - of_int f
      in if r < 1 / 2 then f else if r > 1 / 2 then f + 1 else if even f then f else f + 1)"

definition scaled_bbox :: "real list \<Rightarrow> int \<Rightarrow> int \<Rightarrow> real list" where
  "scaled_bbox bbox width height =
     [bbox ! 0 * of_int width / 1000, bbox ! 1 * of_int height / 1000,
      bbox ! 2 * of_int width / 1000, bbox ! 3 * of_int height / 1000]"

text \<open>The dashes of a line, as distances from its start.\<close>

function dashes :: "real \<Rightarrow> real \<Rightarrow> real \<Rightarrow> (real \<times> real) list" where
  "dashes dash distance position =
     (if 0 < dash \<and> position < distance
      then (position, min (position + dash) distance) # dashes dash distance (position + dash * 2) else [])"
  by pat_completeness auto
termination
proof (relation "measure (\<lambda>(dash, distance, position). nat \<lceil>(distance - position) / dash\<rceil>)", goal_cases)
  case (2 dash distance position)
  then have p: "0 < (distance - position) / dash" by simp
  have "(distance - (position + dash * 2)) / dash = (distance - position) / dash - 2"
    using 2 by (simp add: field_simps)
  then have "\<lceil>(distance - (position + dash * 2)) / dash\<rceil> = \<lceil>(distance - position) / dash\<rceil> - 2"
    by (metis ceiling_diff_numeral)
  then show ?case using p by (simp add: nat_less_iff zless_nat_eq_int_zless)
qed simp

declare dashes.simps [simp del]

definition dashed_line :: "pen \<Rightarrow> real \<Rightarrow> pixel \<Rightarrow> pixel \<Rightarrow> mark list" where
  "dashed_line pen dash start finish =
     (case (start, finish) of ((x1, y1), (x2, y2)) \<Rightarrow>
        (let distance = magnitude [x2 - x1, y2 - y1]; ux = (x2 - x1) / distance; uy = (y2 - y1) / distance
         in if distance \<le> 0 then []
            else map (\<lambda>(p, q). Segment pen (x1 + ux * p, y1 + uy * p) (x1 + ux * q, y1 + uy * q)) (dashes dash distance 0)))"

definition dashed_rectangle :: "pen \<Rightarrow> real list \<Rightarrow> mark list" where
  "dashed_rectangle pen b =
     (let x1 = b ! 0; y1 = b ! 1; x2 = b ! 2; y2 = b ! 3
      in dashed_line pen 10 (x1, y1) (x2, y1) @ dashed_line pen 10 (x2, y1) (x2, y2)
         @ dashed_line pen 10 (x2, y2) (x1, y2) @ dashed_line pen 10 (x1, y2) (x1, y1))"

definition arrow :: "pen \<Rightarrow> pixel \<Rightarrow> real list \<Rightarrow> real \<Rightarrow> real \<Rightarrow> mark list" where
  "arrow pen center d sx sy =
     (let dx = d ! 0 * sx; dy = d ! 1 * sy; m = magnitude [dx, dy]; scale = min 1 (140 / m)
      in if m < 1 / 10 ^ 6 then []
         else [ArrowMark pen center (fst center + dx * scale, snd center + dy * scale)])"

definition globe_marks :: "pen \<Rightarrow> pixel \<Rightarrow> real list \<Rightarrow> int \<Rightarrow> real list \<Rightarrow> mark list" where
  "globe_marks pen center v width b =
     (let m = magnitude v; dx = v ! 0 / m; dy = v ! 1 / m; dz = v ! 2 / m;
          display_scale = max (3 / 4) (of_int width / 3);
          radius = max (18 * display_scale)
            (min (70 * display_scale) (min (\<bar>b ! 2 - b ! 0\<bar> / (3 / 2)) (\<bar>b ! 3 - b ! 1\<bar> / (3 / 2))));
          tip = (fst center + dx * radius, snd center - dy * radius)
      in Globe pen center radius
         # (if 1 / 10 ^ 6 \<le> magnitude [fst tip - fst center, snd tip - snd center]
            then [ShaftMark pen center tip (3 / 10 < dz)] else [])
         @ (if dz < - (1 / 5) then [DotMark pen tip] else if 1 / 5 < dz then [CrossMark tip] else [])
         @ [CenterMark pen center])"

text \<open>\<open>None\<close>: the vector is too short, nothing is drawn.\<close>

definition arrow_3d :: "pen \<Rightarrow> pixel \<Rightarrow> real list \<Rightarrow> int \<Rightarrow> real list \<Rightarrow> mark list option" where
  "arrow_3d pen center v width b =
     (if magnitude v < 1 / 10 ^ 6 then None else Some (globe_marks pen center v width b))"

definition line_width :: "int \<times> int \<Rightarrow> int" where
  "line_width dims = max 2 (py_round (of_int (max (fst dims) (snd dims)) / 350))"

text \<open>The outline, the arrow or the caption of box number \<open>index\<close>.\<close>

definition outline_marks :: "pen \<Rightarrow> real list \<Rightarrow> mark list" where
  "outline_marks pen b = (case pen of GtPen \<Rightarrow> [Outline pen b] | PredPen \<Rightarrow> dashed_rectangle pen b)"

definition caption_mark :: "pen \<Rightarrow> real list \<Rightarrow> nat \<Rightarrow> mark" where
  "caption_mark pen b index =
     (case pen of
        GtPen \<Rightarrow> Caption pen (b ! 0 + 3, b ! 1 + 3) (u ''GT '' @ nat_digits index)
      | PredPen \<Rightarrow> Caption pen (b ! 0 + 3, b ! 1 + 19) (u ''P '' @ nat_digits index))"

definition box_marks :: "pen \<Rightarrow> int \<times> int \<Rightarrow> nat \<times> (real list \<times> ustr) \<Rightarrow> mark list" where
  "box_marks pen dims x =
     (case x of (index, (bbox, label)) \<Rightarrow>
        (let scaled = scaled_bbox bbox (fst dims) (snd dims);
             d = direction label bbox;
             center = ((scaled ! 0 + scaled ! 2) / 2, (scaled ! 1 + scaled ! 3) / 2);
             globe = (case d of Some v \<Rightarrow> if length v = 3 then arrow_3d pen center v (line_width dims) scaled else None
                      | None \<Rightarrow> None)
         in outline_marks pen scaled
            @ (case globe of Some marks \<Rightarrow> marks | None \<Rightarrow> [caption_mark pen scaled index])
            @ (case d of
                 Some v \<Rightarrow> if length v = 2
                   then arrow pen center v (of_int (fst dims) / 1000) (of_int (snd dims) / 1000) else []
               | None \<Rightarrow> [])))"

definition annotate_second_image ::
  "int \<times> int \<Rightarrow> (real list \<times> ustr) list \<Rightarrow> (real list \<times> ustr) list \<Rightarrow> mark list" where
  "annotate_second_image dims gt_boxes pred_boxes =
     concat (map (box_marks GtPen dims) (enumerate 1 gt_boxes))
     @ concat (map (box_marks PredPen dims) (enumerate 1 pred_boxes))"

section \<open>What is drawn and what is scored\<close>

text \<open>The object \<open>_parse_bbox_entries\<close> reads from a text.\<close>

definition scored_object :: "ustr \<Rightarrow> dict option" where
  "scored_object text =
     (case json_loads (py_strip text) of
        Inr (JObj d) \<Rightarrow> Some d
      | Inr _ \<Rightarrow> None
      | Inl e \<Rightarrow> if is_ValueError e then extract_last_json_obj (py_strip text) else None)"

definition finite_item :: "json \<Rightarrow> bool" where
  "finite_item item =
     (case item of
        JObj d \<Rightarrow>
          (case dict_get d key_bbox of
             JArr vs \<Rightarrow> (case mapE float_of vs of Inr fs \<Rightarrow> list_all isfinite fs | Inl _ \<Rightarrow> True)
           | _ \<Rightarrow> True)
      | _ \<Rightarrow> False)"

definition clamp_drawn :: "real list \<times> ustr \<Rightarrow> entry" where
  "clamp_drawn b = (clamp_box (map Fin (fst b)), snd b)"

lemma Fin_fval: "isfinite f \<Longrightarrow> Fin (fval f) = f"
  by (cases f) simp_all

lemma clamp_finite: "list_all isfinite fs \<Longrightarrow> clamp_box (map Fin (map fval fs)) = clamp_box fs"
  by (induction fs) (simp_all add: clamp_box_def Fin_fval)

lemma finite_coords_try:
  assumes "\<And>fs. mapE float_of vs = Inr fs \<Longrightarrow> list_all isfinite fs"
  shows "bindE (finite_coords vs) (\<lambda>x. Inr (map_option (\<lambda>cs. clamp_box (map Fin cs)) x)) = try_box vs"
proof (cases "mapE float_of vs")
  case (Inr fs)
  then show ?thesis using clamp_finite [OF assms [OF Inr]] assms [OF Inr] by (simp add: finite_coords_def try_box_def)
qed (simp add: finite_coords_def try_box_def)

lemma drawn_are_entries:
  "list_all finite_item items \<Longrightarrow>
     bindE (mapE (drawn_box fr) items) (\<lambda>bs. Inr (map clamp_drawn (List.map_filter id bs))) = collect_entries fr items"
proof (induction items)
  case (Cons item items)
  then obtain d where d: "item = JObj d" by (cases item) (simp_all add: finite_item_def)
  show ?case
  proof (cases "\<exists>vs. dict_get d key_bbox = JArr vs \<and> length vs = 4")
    case True
    then obtain vs where vs: "dict_get d key_bbox = JArr vs" "length vs = 4" by blast
    have f: "\<And>fs. mapE float_of vs = Inr fs \<Longrightarrow> list_all isfinite fs"
      using Cons.prems by (simp add: d finite_item_def vs)
    show ?thesis
    proof (cases "finite_coords vs")
      case (Inl e)
      then have "try_box vs = Inl e" using finite_coords_try [of vs] f by simp
      then show ?thesis using Inl by (simp add: d drawn_box_def box_of_def vs)
    next
      case (Inr x)
      then have "try_box vs = Inr (map_option (\<lambda>cs. clamp_box (map Fin cs)) x)" using finite_coords_try [of vs] f by simp
      moreover have "drawn_box fr item = Inr (map_option (\<lambda>cs. (cs, py_str fr (dict_get_or d key_label (JStr [])))) x)"
        using Inr by (simp add: d drawn_box_def box_of_def vs)
      moreover have ih: "bindE (mapE (drawn_box fr) items) (\<lambda>bs. Inr (map clamp_drawn (List.map_filter id bs)))
          = collect_entries fr items"
        by (rule Cons.IH) (use Cons.prems in simp)
      ultimately show ?thesis unfolding d
        by (cases x; cases "mapE (drawn_box fr) items")
           (auto simp: vs map_filter_simps clamp_drawn_def [of "(_, _)"] id_def simp flip: ih)
    qed
  next
    case False
    then have "drawn_box fr item = Inr None"
      by (cases "dict_get d key_bbox") (auto simp: d drawn_box_def box_of_def)
    moreover have "collect_entries fr (item # items) = collect_entries fr items"
      using False by (cases "dict_get d key_bbox") (auto simp: d)
    ultimately show ?thesis using Cons by (cases "mapE (drawn_box fr) items") (auto simp: map_filter_simps)
  qed
qed (simp add: map_filter_simps)

text \<open>What an item of the object is worth to the reward.\<close>

definition item_entry :: "(pyfloat \<Rightarrow> ustr) \<Rightarrow> json \<Rightarrow> entry option py" where
  "item_entry fr item =
     (case item of
        JObj d \<Rightarrow>
          (case dict_get d key_bbox of
             JArr b \<Rightarrow>
               (if length b = 4
                then bindE (try_box b) (\<lambda>x. Inr (map_option (\<lambda>box. (box, py_str fr (dict_get_or d key_label (JStr [])))) x))
                else Inr None)
           | _ \<Rightarrow> Inr None)
      | _ \<Rightarrow> Inr None)"

lemma map_filter_id_Cons:
  "List.map_filter id (x # xs) = (case x of Some y \<Rightarrow> y # List.map_filter id xs | None \<Rightarrow> List.map_filter id xs)"
  by (simp add: map_filter_simps split: option.splits)

lemma entries_by_item:
  "collect_entries fr items = Inr entries \<Longrightarrow>
     \<exists>es. mapE (item_entry fr) items = Inr es \<and> entries = List.map_filter id es"
proof (induction items arbitrary: entries)
  case (Cons item items)
  show ?case
  proof (cases "\<exists>d b. item = JObj d \<and> dict_get d key_bbox = JArr b \<and> length b = 4")
    case True
    then obtain d b where b: "item = JObj d" "dict_get d key_bbox = JArr b" "length b = 4" by blast
    then obtain x r where x: "try_box b = Inr x" "collect_entries fr items = Inr r"
      "entries = (case x of Some box \<Rightarrow> (box, py_str fr (dict_get_or d key_label (JStr []))) # r | None \<Rightarrow> r)"
      using Cons.prems by (auto simp: bindE_eq_Inr)
    obtain es where es: "mapE (item_entry fr) items = Inr es" "r = List.map_filter id es"
      using Cons.IH [OF x(2)] by blast
    have "item_entry fr item = Inr (map_option (\<lambda>box. (box, py_str fr (dict_get_or d key_label (JStr [])))) x)"
      by (simp add: item_entry_def b x(1))
    then show ?thesis
      using es x(3)
      by (intro exI [of _ "map_option (\<lambda>box. (box, py_str fr (dict_get_or d key_label (JStr [])))) x # es"])
         (simp add: map_filter_id_Cons id_def split: option.splits)
  next
    case False
    then have "collect_entries fr (item # items) = collect_entries fr items" "item_entry fr item = Inr None"
      by (cases item; auto simp: item_entry_def split: json.splits if_splits)+
    moreover have "collect_entries fr items = Inr entries" using calculation(1) Cons.prems by simp
    then obtain es where "mapE (item_entry fr) items = Inr es" "entries = List.map_filter id es"
      using Cons.IH by blast
    ultimately show ?thesis by (intro exI [of _ "None # es"]) (simp add: map_filter_id_Cons id_def)
  qed
qed (simp add: map_filter_simps)

text \<open>One item on the page and in the reward: a drawn dict is scored with its clamped box and label; a dict that
  is scored and not drawn has a coordinate that is not finite; an item that is no dict is never scored.\<close>

definition drawn_as_scored :: "json \<Rightarrow> (real list \<times> ustr) option \<Rightarrow> entry option \<Rightarrow> bool" where
  "drawn_as_scored item b e \<longleftrightarrow>
     (case item of
        JObj d \<Rightarrow>
          (case b of
             Some box \<Rightarrow> e = Some (clamp_drawn box)
           | None \<Rightarrow> e \<noteq> None \<longrightarrow> \<not> finite_item item)
      | _ \<Rightarrow> e = None)"

lemma item_drawn_as_scored:
  assumes b: "drawn_box fr item = Inr b" and e: "item_entry fr item = Inr e"
  shows "drawn_as_scored item b e"
proof (cases item)
  case (JObj d)
  show ?thesis
  proof (cases "\<exists>vs. dict_get d key_bbox = JArr vs \<and> length vs = 4")
    case True
    then obtain vs where vs: "dict_get d key_bbox = JArr vs" "length vs = 4" by blast
    obtain x where x: "finite_coords vs = Inr x" "b = map_option (\<lambda>cs. (cs, py_str fr (dict_get_or d key_label (JStr [])))) x"
      using b by (auto simp: JObj drawn_box_def box_of_def vs bindE_eq_Inr)
    obtain y where y: "try_box vs = Inr y" "e = map_option (\<lambda>box. (box, py_str fr (dict_get_or d key_label (JStr [])))) y"
      using e by (auto simp: JObj item_entry_def vs bindE_eq_Inr)
    show ?thesis
    proof (cases x)
      case None
      then have "\<not> finite_item item" if "y \<noteq> None"
        using x(1) y(1) that by (auto simp: JObj finite_item_def vs finite_coords_def try_box_def split: sum.splits if_splits)
      then show ?thesis using None x(2) y(2) by (auto simp: drawn_as_scored_def JObj)
    next
      case (Some cs)
      obtain fs where fs: "mapE float_of vs = Inr fs" "list_all isfinite fs" "cs = map fval fs"
        using x(1) Some by (auto simp: finite_coords_def split: sum.splits if_splits)
      then have "y = Some (clamp_box (map Fin cs))"
        using y(1) clamp_finite [OF fs(2)] by (simp add: try_box_def)
      then show ?thesis using Some x(2) y(2) by (simp add: drawn_as_scored_def JObj clamp_drawn_def)
    qed
  next
    case False
    then have "e = None" "b = None"
      using b e by (auto simp: JObj item_entry_def drawn_box_def box_of_def split: json.splits if_splits)
    then show ?thesis by (simp add: drawn_as_scored_def JObj)
  qed
qed (use e in \<open>auto simp: drawn_as_scored_def item_entry_def\<close>)

lemma scored_entries: "scored_object text = Some d \<Longrightarrow> parse_bbox_entries fr (JStr text) = entries_of fr d"
proof -
  assume a: "scored_object text = Some d"
  have "json_loads [] = Inl JSONDecodeError" by code_simp
  then have "py_strip text \<noteq> []"
    using a by (auto simp: scored_object_def extract_last_json_obj_def split: if_splits)
  then show ?thesis
    using a by (auto simp: scored_object_def parse_bbox_entries_def Let_def entries_of_option_def
        split: sum.splits json.splits if_splits)
qed

text \<open>A text that is one JSON object is read alike if no brace inside it opens an object with boxes of its own.\<close>

lemma document_boxes:
  assumes "json_loads text = Inr (JObj d)" and "hd text = 123" and "dict_get d key_boxes = JArr items"
    and "\<And>i. 0 < i \<Longrightarrow> i < length text \<Longrightarrow> text ! i = 123 \<Longrightarrow> boxes_object_at text i = Inr None"
  shows "\<exists>n. last_boxes_object text = Inr (Some (0, n, d))"
proof -
  have ne: "text \<noteq> []" using assms(1) by (auto simp: json_loads_def skip_ws_def starts_with_def)
  then obtain t where t: "text = 123 # t" using assms(2) by (cases "text") auto
  then have "skip_ws text = text" by (simp add: skip_ws_def json_ws_def)
  then obtain r where r: "scan_once (2 * length text + 2) text = Inr (JObj d, r)"
    using assms(1) by (auto simp: json_loads_def simp del: scan_once.simps split: if_splits)
  let ?later = "filter (\<lambda>i. text ! i = 123) [1..<length text]"
  have "[0..<length text] = 0 # [1..<length text]" using ne by (simp add: upt_conv_Cons)
  then have f: "filter (\<lambda>i. text ! i = 123) [0..<length text] = 0 # ?later" by (simp add: t)
  have "mapE (boxes_object_at text) ?later = Inr (map (\<lambda>_. None) ?later)"
    by (rule mapE_total) (use assms(4) in auto)
  moreover have "boxes_object_at text 0 = Inr (Some (0, length text - length r, d))"
    using r assms(3) by (simp add: boxes_object_at_def del: scan_once.simps)
  moreover have "last_some id (map (\<lambda>_. None) ?later) = (None :: (nat \<times> nat \<times> dict) option)"
    by (auto simp: last_some_None)
  ultimately show ?thesis by (simp add: last_boxes_object_def f)
qed

text \<open>The outlines of the ground truth, and the boxes without a caption.\<close>

fun outline_of :: "mark \<Rightarrow> real list option" where
  "outline_of (Outline pen b) = Some b"
| "outline_of _ = None"

fun is_caption :: "mark \<Rightarrow> bool" where
  "is_caption (Caption pen p t) = True"
| "is_caption _ = False"

fun is_globe :: "mark \<Rightarrow> bool" where
  "is_globe (Globe pen p r) = True"
| "is_globe _ = False"

lemma dashed_no_special:
  "m \<in> set (dashed_line pen dash p q) \<Longrightarrow> outline_of m = None \<and> \<not> is_caption m \<and> \<not> is_globe m"
  by (auto simp: dashed_line_def Let_def split: prod.splits if_splits)

lemma arrow_no_special: "m \<in> set (arrow pen c d sx sy) \<Longrightarrow> outline_of m = None \<and> \<not> is_caption m \<and> \<not> is_globe m"
  by (auto simp: arrow_def Let_def split: if_splits)

lemma outline_no_special: "m \<in> set (outline_marks pen b) \<Longrightarrow> \<not> is_caption m \<and> \<not> is_globe m"
  by (auto simp: outline_marks_def dashed_rectangle_def Let_def split: pen.splits dest: dashed_no_special)

lemma map_filter_none: "(\<And>m. m \<in> set ms \<Longrightarrow> f m = None) \<Longrightarrow> List.map_filter f ms = []"
  by (induction ms) (simp_all add: map_filter_simps)

lemma map_filter_append: "List.map_filter f (xs @ ys) = List.map_filter f xs @ List.map_filter f ys"
  by (induction xs) (simp_all add: map_filter_simps split: option.splits)

lemma globe_parts:
  "list_ex is_globe (Globe pen c r # (if A then [ShaftMark pen c p D] else [])
     @ (if B then [DotMark pen p] else if C then [CrossMark p] else []) @ [CenterMark pen c])"
  "m \<in> set (Globe pen c r # (if A then [ShaftMark pen c p D] else [])
     @ (if B then [DotMark pen p] else if C then [CrossMark p] else []) @ [CenterMark pen c])
     \<Longrightarrow> outline_of m = None \<and> \<not> is_caption m"
  by (auto split: if_splits)

lemma globe_marks_spec:
  "list_ex is_globe (globe_marks pen c v w b)"
  "m \<in> set (globe_marks pen c v w b) \<Longrightarrow> outline_of m = None \<and> \<not> is_caption m"
  unfolding globe_marks_def Let_def by (rule globe_parts(1), erule globe_parts(2))

definition box_globe :: "pen \<Rightarrow> int \<times> int \<Rightarrow> real list \<Rightarrow> real list option \<Rightarrow> mark list option" where
  "box_globe pen dims scaled d =
     (case d of
        Some v \<Rightarrow> if length v = 3
          then arrow_3d pen ((scaled ! 0 + scaled ! 2) / 2, (scaled ! 1 + scaled ! 3) / 2) v (line_width dims) scaled else None
      | None \<Rightarrow> None)"

lemma box_globe_iff: "(\<exists>ms. box_globe pen dims b d = Some ms) \<longleftrightarrow> is_3d d"
  by (auto simp: box_globe_def is_3d_def arrow_3d_def split: option.splits)

lemma box_globe_marks:
  "box_globe pen dims b d = Some ms \<Longrightarrow> list_ex is_globe ms \<and> (\<forall>m \<in> set ms. outline_of m = None \<and> \<not> is_caption m)"
  using globe_marks_spec by (auto simp: box_globe_def arrow_3d_def split: option.splits if_splits)

lemma caption_mark_spec: "is_caption (caption_mark pen b n)" "outline_of (caption_mark pen b n) = None"
  "\<not> is_globe (caption_mark pen b n)"
  by (simp_all add: caption_mark_def split: pen.splits)

lemma box_marks_parts:
  "\<exists>arrows. box_marks pen dims (n, cs, label) =
     outline_marks pen (scaled_bbox cs (fst dims) (snd dims))
     @ (case box_globe pen dims (scaled_bbox cs (fst dims) (snd dims)) (direction label cs) of
          Some ms \<Rightarrow> ms | None \<Rightarrow> [caption_mark pen (scaled_bbox cs (fst dims) (snd dims)) n]) @ arrows
     \<and> (\<forall>m \<in> set arrows. outline_of m = None \<and> \<not> is_caption m \<and> \<not> is_globe m)"
  unfolding box_marks_def box_globe_def Let_def prod.case
  by (intro exI conjI, rule refl) (auto dest: arrow_no_special split: option.splits if_splits)

lemma outlines_of_dashed: "List.map_filter outline_of (outline_marks PredPen b) = []"
  by (rule map_filter_none) (auto simp: outline_marks_def dashed_rectangle_def Let_def dest: dashed_no_special)

lemma box_marks_outline:
  "List.map_filter outline_of (box_marks pen dims (n, cs, label)) =
     (case pen of GtPen \<Rightarrow> [scaled_bbox cs (fst dims) (snd dims)] | PredPen \<Rightarrow> [])"
proof -
  let ?b = "scaled_bbox cs (fst dims) (snd dims)"
  let ?g = "box_globe pen dims ?b (direction label cs)"
  obtain arrows where a: "box_marks pen dims (n, cs, label) = outline_marks pen ?b
      @ (case ?g of Some ms \<Rightarrow> ms | None \<Rightarrow> [caption_mark pen ?b n]) @ arrows"
    "\<And>m. m \<in> set arrows \<Longrightarrow> outline_of m = None"
    using box_marks_parts [of pen dims n cs label] by blast
  have "List.map_filter outline_of (case ?g of Some ms \<Rightarrow> ms | None \<Rightarrow> [caption_mark pen ?b n]) = []"
    by (rule map_filter_none) (auto simp: caption_mark_spec dest: box_globe_marks split: option.splits)
  moreover have "List.map_filter outline_of (outline_marks pen ?b) = (case pen of GtPen \<Rightarrow> [?b] | PredPen \<Rightarrow> [])"
    using outlines_of_dashed by (cases pen) (simp_all add: outline_marks_def map_filter_simps)
  ultimately show ?thesis using a map_filter_none [of arrows outline_of] by (simp add: map_filter_append)
qed

text \<open>A box has a caption exactly if no globe is drawn for it.\<close>

lemma box_marks_caption:
  "list_ex is_globe (box_marks pen dims (n, cs, label)) \<longleftrightarrow> is_3d (direction label cs)"
  "list_ex is_caption (box_marks pen dims (n, cs, label)) \<longleftrightarrow> \<not> is_3d (direction label cs)"
proof -
  let ?b = "scaled_bbox cs (fst dims) (snd dims)"
  let ?g = "box_globe pen dims ?b (direction label cs)"
  obtain arrows where a: "box_marks pen dims (n, cs, label) = outline_marks pen ?b
      @ (case ?g of Some ms \<Rightarrow> ms | None \<Rightarrow> [caption_mark pen ?b n]) @ arrows"
    "\<And>m. m \<in> set arrows \<Longrightarrow> \<not> is_caption m \<and> \<not> is_globe m"
    using box_marks_parts [of pen dims n cs label] by blast
  have o: "\<not> list_ex is_globe (outline_marks pen ?b)" "\<not> list_ex is_caption (outline_marks pen ?b)"
    "\<not> list_ex is_globe arrows" "\<not> list_ex is_caption arrows"
    using a(2) by (auto simp: list_ex_iff dest: outline_no_special)
  show "list_ex is_globe (box_marks pen dims (n, cs, label)) \<longleftrightarrow> is_3d (direction label cs)"
    "list_ex is_caption (box_marks pen dims (n, cs, label)) \<longleftrightarrow> \<not> is_3d (direction label cs)"
    using o a(1) box_globe_iff [of pen dims ?b "direction label cs"] box_globe_marks [of pen dims ?b "direction label cs"]
      caption_mark_spec
    by (cases ?g; auto simp: list_ex_iff)+
qed

lemma map_filter_concat: "List.map_filter f (concat xss) = concat (map (List.map_filter f) xss)"
  by (induction xss) (simp_all add: map_filter_append map_filter_simps)

lemma annotated_outlines:
  "List.map_filter outline_of (annotate_second_image dims gts preds)
     = map (\<lambda>b. scaled_bbox (fst b) (fst dims) (snd dims)) gts"
proof -
  have "map (List.map_filter outline_of) (map (box_marks GtPen dims) (enumerate n gts))
      = map (\<lambda>b. [scaled_bbox (fst b) (fst dims) (snd dims)]) gts" for n
    by (induction gts arbitrary: n) (auto simp: box_marks_outline split_beta)
  moreover have "map (List.map_filter outline_of) (map (box_marks PredPen dims) (enumerate n preds))
      = map (\<lambda>_. []) preds" for n
    by (induction preds arbitrary: n) (auto simp: box_marks_outline split_beta)
  moreover have "concat (map (\<lambda>b. [f b]) gts) = map f gts" for f :: "real list \<times> ustr \<Rightarrow> real list"
    by (induction gts) simp_all
  ultimately show ?thesis
    by (simp add: annotate_second_image_def map_filter_append map_filter_concat)
qed

text \<open>Taking the label of an item away leaves the box where it is.\<close>

lemma without_label_box:
  assumes "drawn_box fr (JObj d) = Inr (Some (cs, label))" and "dict_get d key_label = JStr l"
  shows "\<exists>item. without_label (JObj d) = Inr (item, is_3d (direction label cs))
    \<and> drawn_box fr item = Inr (Some (cs, if is_3d (direction label cs) then [] else label))"
proof -
  obtain vs where vs: "dict_get d key_bbox = JArr vs" "length vs = 4" "finite_coords vs = Inr (Some cs)"
    "label = py_str fr (dict_get_or d key_label (JStr []))"
    using assms(1) by (auto simp: drawn_box_def box_of_def bindE_eq_Inr split: json.splits if_splits)
  have l: "label = l" using assms(2) vs(4) by (auto simp: dict_get_def dict_get_or_def split: option.splits)
  have k: "key_bbox \<noteq> key_label" by (simp add: key_bbox_def key_label_def)
  let ?d = "filter (\<lambda>(k, _). k \<noteq> key_label) d"
  have "map_of ?d key_bbox = map_of d key_bbox" "map_of ?d key_label = None"
    using k by (induction d) auto
  then have "drawn_box fr (JObj ?d) = Inr (Some (cs, []))"
    using vs by (simp add: drawn_box_def box_of_def dict_get_def dict_get_or_def)
  then show ?thesis using assms vs(1,2,3) l by (simp add: without_label_def)
qed

section \<open>Properties\<close>

text \<open>C15: If the page and the reward settle on the same object of a text, the boxes drawn and the boxes scored
  are found item by item, in order: every dict that is drawn is scored with the same label and the drawn box
  clamped to the canvas; a dict that is scored but not drawn has a coordinate that is no finite number; an item
  that is no dict (a bare list of coordinates, which the page draws) is never scored. If all items are dicts
  without such coordinates, the two are the same lists up to the clamping, and one raises when the other does.
  The solid outlines on the image are exactly the boxes of the ground truth, scaled to it.\<close>

theorem drawn_boxes_are_scored:
  assumes "scored_object text = Some d" and "last_boxes_object text = Inr (Some (i, j, d))"
    and "dict_get d key_boxes = JArr items"
  shows "(extract_boxes fr text = Inr boxes \<and> parse_bbox_entries fr (JStr text) = Inr entries \<longrightarrow>
      (\<exists>bs es. boxes = List.map_filter id bs \<and> entries = List.map_filter id es
         \<and> length bs = length items \<and> length es = length items
         \<and> (\<forall>k < length items. drawn_as_scored (items ! k) (bs ! k) (es ! k))))
    \<and> (list_all finite_item items \<longrightarrow>
         bindE (extract_boxes fr text) (\<lambda>boxes. Inr (map clamp_drawn boxes)) = parse_bbox_entries fr (JStr text))
    \<and> (\<forall>gts dims preds. extract_boxes fr text = Inr gts \<longrightarrow>
         List.map_filter outline_of (annotate_second_image dims gts preds)
           = map (\<lambda>b. scaled_bbox (fst b) (fst dims) (snd dims)) gts)"
proof (intro conjI)
  have drawn: "extract_boxes fr text = drawn_boxes fr d" using assms(2) by (simp add: extract_boxes_def)
  have scored: "parse_bbox_entries fr (JStr text) = collect_entries fr items"
    using scored_entries [OF assms(1), of fr] assms(3) by (simp add: entries_of_def)
  show "list_all finite_item items \<longrightarrow>
      bindE (extract_boxes fr text) (\<lambda>boxes. Inr (map clamp_drawn boxes)) = parse_bbox_entries fr (JStr text)"
    using drawn_are_entries [of items fr] assms(3) by (simp add: drawn scored drawn_boxes_def bindE_assoc)
  show "extract_boxes fr text = Inr boxes \<and> parse_bbox_entries fr (JStr text) = Inr entries \<longrightarrow>
      (\<exists>bs es. boxes = List.map_filter id bs \<and> entries = List.map_filter id es
         \<and> length bs = length items \<and> length es = length items
         \<and> (\<forall>k < length items. drawn_as_scored (items ! k) (bs ! k) (es ! k)))"
  proof
    assume a: "extract_boxes fr text = Inr boxes \<and> parse_bbox_entries fr (JStr text) = Inr entries"
    then obtain bs where bs: "mapE (drawn_box fr) items = Inr bs" "boxes = List.map_filter id bs"
      using assms(3) by (auto simp: drawn drawn_boxes_def bindE_eq_Inr)
    obtain es where es: "mapE (item_entry fr) items = Inr es" "entries = List.map_filter id es"
      using a entries_by_item [of fr items entries] by (auto simp: scored)
    have "drawn_as_scored (items ! k) (bs ! k) (es ! k)" if "k < length items" for k
      using item_drawn_as_scored mapE_nth [OF bs(1) that] mapE_nth [OF es(1) that] by blast
    then show "\<exists>bs es. boxes = List.map_filter id bs \<and> entries = List.map_filter id es
        \<and> length bs = length items \<and> length es = length items
        \<and> (\<forall>k < length items. drawn_as_scored (items ! k) (bs ! k) (es ! k))"
      using bs(2) es(2) mapE_length [OF bs(1)] mapE_length [OF es(1)] by blast
  qed
qed (use annotated_outlines in blast)

text \<open>The label of a drawn box is left out of the text beside the image exactly if an arrow with depth is
  drawn for the box, which is exactly if the box has no caption; the box of the remaining item is the same.\<close>

theorem label_hidden_iff_arrow:
  assumes "drawn_box fr (JObj d) = Inr (Some (cs, label))" and "dict_get d key_label = JStr l"
  shows "\<exists>item hidden. without_label (JObj d) = Inr (item, hidden)
    \<and> (hidden \<longleftrightarrow> list_ex is_globe (box_marks pen dims (n, cs, label)))
    \<and> (hidden \<longleftrightarrow> \<not> list_ex is_caption (box_marks pen dims (n, cs, label)))
    \<and> drawn_box fr item = Inr (Some (cs, if hidden then [] else label))"
  using without_label_box [OF assms] by (auto simp: box_marks_caption)

text \<open>The page and the reward do not always see the same direction in a label.\<close>

lemma direction_differs:
  "direction (u ''move (the cup) to (10, 20)'') [0, 0, 10, 10] = None"
  "extract_direction_vec (u ''move (the cup) to (10, 20)'') [0, 0, 10, 10] = (Some [5, -15], 2)"
  "direction (u ''move (10, 20,)'') [0, 0, 10, 10] = Some [5, 15]"
  "extract_direction_vec (u ''move (10, 20,)'') [0, 0, 10, 10] = (None, 0)"
  by code_simp+

section \<open>A reply\<close>

definition shown_reply :: ustr where
  "shown_reply = u ''<think>{A}</think>{\"boxes\":[{\"bbox\":[0,10,1200,\"40\"],\"label\":\"move (1, 0, -2)\"},{\"bbox\":[1,2]}]}''"

definition shown_item :: dict where
  "shown_item = [(key_bbox, JArr [JInt 0, JInt 10, JInt 1200, JStr (u ''40'')]), (key_label, JStr (u ''move (1, 0, -2)''))]"

definition shown_object :: dict where
  "shown_object = [(key_boxes, JArr [JObj shown_item, JObj [(key_bbox, JArr [JInt 1, JInt 2])]])]"

lemma shown_reply_read: "scored_object shown_reply = Some shown_object"
  "last_boxes_object shown_reply = Inr (Some (18, 96, shown_object))"
  "dict_get shown_object key_boxes = JArr [JObj shown_item, JObj [(key_bbox, JArr [JInt 1, JInt 2])]]"
  "list_all finite_item [JObj shown_item, JObj [(key_bbox, JArr [JInt 1, JInt 2])]]"
  by code_simp+

text \<open>A ground truth with a box as a dict, an infinite box, and a box as a bare list.\<close>

definition mixed_text :: ustr where
  "mixed_text = u ''{\"boxes\":[{\"bbox\":[0,10,1200,\"40\"]},{\"bbox\":[0,0,5,\"inf\"]},[1,2,3,4]]}''"

definition mixed_object :: dict where
  "mixed_object = [(key_boxes, JArr [JObj [(key_bbox, JArr [JInt 0, JInt 10, JInt 1200, JStr (u ''40'')])],
     JObj [(key_bbox, JArr [JInt 0, JInt 0, JInt 5, JStr (u ''inf'')])], JArr [JInt 1, JInt 2, JInt 3, JInt 4]])]"

definition mixed_boxes :: "(real list \<times> ustr) list" where
  "mixed_boxes = [([0, 10, 1200, 40], []), ([1, 2, 3, 4], [])]"

definition mixed_entries :: "entry list" where
  "mixed_entries = [([0, 10, 1000, 40], []), ([0, 0, 5, 1000], [])]"

lemma mixed_read: "scored_object mixed_text = Some mixed_object"
  "last_boxes_object mixed_text = Inr (Some (0, 70, mixed_object))"
  "extract_boxes (\<lambda>_. []) mixed_text = Inr mixed_boxes"
  "parse_bbox_entries (\<lambda>_. []) (JStr mixed_text) = Inr mixed_entries"
  by code_simp+

theorem drawn_boxes_are_scored_witness:
  "bindE (extract_boxes (\<lambda>_. []) shown_reply) (\<lambda>boxes. Inr (map clamp_drawn boxes))
     = parse_bbox_entries (\<lambda>_. []) (JStr shown_reply)
   \<and> (\<exists>bs es. mixed_boxes = List.map_filter id bs
        \<and> mixed_entries = List.map_filter id es
        \<and> length bs = 3 \<and> length es = 3)"
proof
  show "bindE (extract_boxes (\<lambda>_. []) shown_reply) (\<lambda>boxes. Inr (map clamp_drawn boxes))
     = parse_bbox_entries (\<lambda>_. []) (JStr shown_reply)"
    using drawn_boxes_are_scored [OF shown_reply_read(1-3)] shown_reply_read(4) by blast
  let ?items = "[JObj [(key_bbox, JArr [JInt 0, JInt 10, JInt 1200, JStr (u ''40'')])],
     JObj [(key_bbox, JArr [JInt 0, JInt 0, JInt 5, JStr (u ''inf'')])], JArr [JInt 1, JInt 2, JInt 3, JInt 4]]"
  have items: "dict_get mixed_object key_boxes = JArr ?items" by (simp add: mixed_object_def dict_get_def)
  have three: "length ?items = 3" by simp
  obtain bs es where "mixed_boxes = List.map_filter id bs"
    "mixed_entries = List.map_filter id es"
    "length bs = length ?items" "length es = length ?items"
    using drawn_boxes_are_scored [OF mixed_read(1,2) items, THEN conjunct1, rule_format, OF conjI [OF mixed_read(3,4)]]
    by blast
  then show "\<exists>bs es. mixed_boxes = List.map_filter id bs
        \<and> mixed_entries = List.map_filter id es
        \<and> length bs = 3 \<and> length es = 3" unfolding three by blast
qed

lemma shown_box: "drawn_box (\<lambda>_. []) (JObj shown_item) = Inr (Some ([0, 10, 1200, 40], u ''move (1, 0, -2)''))"
  by code_simp

theorem label_hidden_iff_arrow_witness:
  "\<exists>item hidden. without_label (JObj shown_item) = Inr (item, hidden)
    \<and> (hidden \<longleftrightarrow> list_ex is_globe (box_marks GtPen (1000, 1000) (1, [0, 10, 1200, 40], u ''move (1, 0, -2)'')))
    \<and> (hidden \<longleftrightarrow> \<not> list_ex is_caption (box_marks GtPen (1000, 1000) (1, [0, 10, 1200, 40], u ''move (1, 0, -2)'')))
    \<and> drawn_box (\<lambda>_. []) item = Inr (Some ([0, 10, 1200, 40], if hidden then [] else u ''move (1, 0, -2)''))"
proof (rule label_hidden_iff_arrow [OF shown_box])
  show "dict_get shown_item key_label = JStr (u ''move (1, 0, -2)'')" by code_simp
qed

end
