(* ===== verification/CaseImages.thy ===== *)
theory CaseImages
  imports BoxDrawing RemoteRequest
begin

text \<open>
  \<^verbatim>\<open>annotate_val_cases.py\<close>: the images of the cases. The row of a case is read again from its source, its images
  are decoded, resized and saved, with the boxes drawn on the second one. Pillow and the file system are
  parameters (\<open>image_env\<close>); the assets directory is a map from file names to images.
\<close>

section \<open>Reading rows again\<close>

text \<open>\<open>_read_jsonl_rows\<close>; it stops once it has as many rows as are wanted.\<close>

fun read_jsonl_rows :: "nat set \<Rightarrow> (nat \<times> dict) list \<Rightarrow> nat \<Rightarrow> ustr list \<Rightarrow> (nat \<times> dict) list py" where
  "read_jsonl_rows wanted result row_index [] = Inr result"
| "read_jsonl_rows wanted result row_index (line # rest) =
     (if row_index \<notin> wanted then read_jsonl_rows wanted result (Suc row_index) rest
      else bindE (json_loads line) (\<lambda>row.
        let result' = (case row of JObj d \<Rightarrow> result @ [(row_index, d)] | _ \<Rightarrow> result)
        in if length result' = card wanted then Inr result'
           else read_jsonl_rows wanted result' (Suc row_index) rest))"

definition image_column :: "ustr list \<Rightarrow> ustr option" where
  "image_column names = find (\<lambda>name. name \<in> set names) [key_images, key_image]"

definition read_parquet_rows :: "nat set \<Rightarrow> ustr list \<Rightarrow> json list \<Rightarrow> (nat \<times> dict) list" where
  "read_parquet_rows wanted names rows =
     (case image_column names of
        None \<Rightarrow> map (\<lambda>i. (i, [])) (sorted_list_of_set wanted)
      | Some column \<Rightarrow>
          map (\<lambda>i. (i, case rows ! i of JObj d \<Rightarrow> filter (\<lambda>(k, _). k = column) d | _ \<Rightarrow> []))
            (filter (\<lambda>i. i \<in> wanted) [0..<length rows]))"

section \<open>Images of a case\<close>

record 'i image_env =
  i_source :: "ustr \<Rightarrow> index_file py"
  i_decode :: "ustr \<Rightarrow> json \<Rightarrow> 'i py"
  i_dims :: "'i \<Rightarrow> int \<times> int"
  i_resize :: "'i \<Rightarrow> int \<times> int \<Rightarrow> 'i"
  i_draw :: "'i \<Rightarrow> mark list \<Rightarrow> 'i py"
  i_save :: "ustr \<Rightarrow> 'i \<Rightarrow> unit py"
  i_broken :: "ustr \<Rightarrow> 'i option"
  i_max_edge :: int

text \<open>\<open>NoImageError\<close> is the empty text; \<open>OnlyOneImage\<close> is a warning.\<close>

datatype image_error = NoImageError | SourceUnreadable py_exn | OnlyOneImage | ImageFailed py_exn

record image_result =
  h_paths :: "ustr list"
  h_error :: image_error

definition resize_image :: "'i image_env \<Rightarrow> 'i \<Rightarrow> 'i" where
  "resize_image env img =
     (case i_dims env img of (w, h) \<Rightarrow>
        (let ratio = of_int (i_max_edge env) / of_int (max w h)
         in if max w h \<le> i_max_edge env then img
            else i_resize env img (max 1 (py_round (of_int w * ratio)), max 1 (py_round (of_int h * ratio)))))"

definition pad6 :: "nat \<Rightarrow> ustr" where
  "pad6 n = replicate (6 - length (nat_digits n)) 48 @ nat_digits n"

definition asset_name :: "nat \<Rightarrow> nat \<Rightarrow> ustr" where
  "asset_name order image_index =
     u ''case_'' @ pad6 (Suc order) @ u ''_img_'' @ nat_digits (Suc image_index) @ u ''.jpg''"

definition asset_path :: "nat \<Rightarrow> nat \<Rightarrow> ustr" where
  "asset_path order image_index = u ''assets/'' @ asset_name order image_index"

type_synonym 'i assets = "ustr \<Rightarrow> 'i option"

text \<open>The loop that saves; a call that raises leaves \<open>i_broken\<close> under the name.\<close>

fun save_images :: "'i image_env \<Rightarrow> nat \<Rightarrow> nat \<Rightarrow> 'i list \<Rightarrow> 'i assets \<Rightarrow> 'i assets \<times> ustr list \<times> py_exn option" where
  "save_images env order k [] fs = (fs, [], None)"
| "save_images env order k (img # images) fs =
     (case i_save env (asset_name order k) img of
        Inl e \<Rightarrow> (fs(asset_name order k := i_broken env (asset_name order k)), [], Some e)
      | Inr _ \<Rightarrow>
          (case save_images env order (Suc k) images (fs(asset_name order k \<mapsto> img)) of
             (fs', paths, failure) \<Rightarrow> (fs', asset_path order k # paths, failure)))"

definition target_index :: "'i list \<Rightarrow> nat" where
  "target_index images = (if 2 \<le> length images then 1 else length images - 1)"

definition draw_on_target ::
  "(pyfloat \<Rightarrow> ustr) \<Rightarrow> 'i image_env \<Rightarrow> ustr \<Rightarrow> ustr \<Rightarrow> 'i list \<Rightarrow> 'i list py" where
  "draw_on_target fr env ground_truth prediction images =
     bindE (extract_boxes fr ground_truth) (\<lambda>gt_boxes.
       bindE (extract_boxes fr prediction) (\<lambda>pred_boxes.
         let t = target_index images
         in bindE (i_draw env (images ! t) (annotate_second_image (i_dims env (images ! t)) gt_boxes pred_boxes))
              (\<lambda>img. Inr (images[t := img]))))"

definition load_images :: "'i image_env \<Rightarrow> ustr \<Rightarrow> json list \<Rightarrow> 'i list py" where
  "load_images env path values =
     mapE (\<lambda>v. bindE (i_decode env path v) (\<lambda>img. Inr (resize_image env img))) values"

text \<open>What is tried for one case; its exceptions become its error, the paths saved before stay.\<close>

definition case_images ::
  "(pyfloat \<Rightarrow> ustr) \<Rightarrow> 'i image_env \<Rightarrow> (nat \<times> dict) list \<Rightarrow> val_case \<Rightarrow> 'i assets \<Rightarrow> 'i assets \<times> image_result" where
  "case_images fr env rows c fs =
     (let row = (case map_of rows (n_source_row c) of Some d \<Rightarrow> d | None \<Rightarrow> []);
          values = image_values row
      in if values = [] then (fs, \<lparr>h_paths = [], h_error = ImageFailed ValueError\<rparr>)
         else (case bindE (load_images env (n_source_path c) values) (\<lambda>images.
                      draw_on_target fr env (n_ground_truth c) (n_prediction c) images) of
                 Inl e \<Rightarrow> (fs, \<lparr>h_paths = [], h_error = ImageFailed e\<rparr>)
               | Inr images \<Rightarrow>
                   (case save_images env (n_order c) 0 images fs of
                      (fs', paths, Some e) \<Rightarrow> (fs', \<lparr>h_paths = paths, h_error = ImageFailed e\<rparr>)
                    | (fs', paths, None) \<Rightarrow>
                        (fs', \<lparr>h_paths = paths, h_error = (if length images < 2 then OnlyOneImage else NoImageError)\<rparr>))))"

section \<open>All cases\<close>

text \<open>A loop over a state with a result for each element.\<close>

fun each :: "('c \<Rightarrow> 's \<Rightarrow> 's \<times> 'r) \<Rightarrow> 'c list \<Rightarrow> 's \<Rightarrow> 's \<times> ('c \<times> 'r) list" where
  "each f [] s = (s, [])"
| "each f (c # cs) s =
     (case f c s of (s1, r) \<Rightarrow> (case each f cs s1 of (s2, rs) \<Rightarrow> (s2, (c, r) # rs)))"

definition source_rows :: "'i image_env \<Rightarrow> ustr \<Rightarrow> nat set \<Rightarrow> (nat \<times> dict) list py" where
  "source_rows env path wanted =
     bindE (i_source env path) (\<lambda>f.
       case f of JsonlFile lines \<Rightarrow> read_jsonl_rows wanted [] 0 lines
       | ParquetTable names rows \<Rightarrow> Inr (read_parquet_rows wanted names rows))"

definition materialize_file ::
  "(pyfloat \<Rightarrow> ustr) \<Rightarrow> 'i image_env \<Rightarrow> ustr \<times> val_case list \<Rightarrow> 'i assets
     \<Rightarrow> 'i assets \<times> (val_case \<times> image_result) list" where
  "materialize_file fr env g fs =
     (case g of (path, file_cases) \<Rightarrow>
        (case source_rows env path (set (map n_source_row file_cases)) of
           Inl e \<Rightarrow> (fs, map (\<lambda>c. (c, \<lparr>h_paths = [], h_error = SourceUnreadable e\<rparr>)) file_cases)
         | Inr rows \<Rightarrow> each (case_images fr env rows) file_cases fs))"

definition materialize_images ::
  "(pyfloat \<Rightarrow> ustr) \<Rightarrow> 'i image_env \<Rightarrow> val_case list \<Rightarrow> 'i assets \<Rightarrow> 'i assets \<times> (val_case \<times> image_result) list" where
  "materialize_images fr env cases fs =
     (case each (materialize_file fr env) (sort_key fst (group_by_key n_source_path cases)) fs of
        (fs', xs) \<Rightarrow> (fs', concat (map snd xs)))"

section \<open>The whole script\<close>

definition TARGET_SOURCES :: "ustr list" where
  "TARGET_SOURCES = [u ''inconsistent_cot_verl_2500'', u ''inconsistent_detection_verl_cot_2500'']"

text \<open>The data root: its path and last component, which paths are directories, the directories of a name below it in
  sorted order, and the JSONL and then the Parquet files below a directory, each in sorted order.\<close>

record source_tree =
  t_path :: ustr
  t_name :: ustr
  t_is_dir :: "ustr \<Rightarrow> bool"
  t_hits :: "ustr \<Rightarrow> ustr list"
  t_files :: "ustr \<Rightarrow> (ustr \<times> index_file) list"

fun search_targets :: "source_tree \<Rightarrow> ustr list \<Rightarrow> (ustr \<times> ustr) list \<Rightarrow> (ustr \<times> ustr) list" where
  "search_targets t [] dirs = dirs"
| "search_targets t (name # names) dirs =
     (let direct = t_path t @ [47] @ name
      in search_targets t names
           (if t_is_dir t direct then AList.update name direct dirs
            else (case t_hits t name of [] \<Rightarrow> dirs | h # _ \<Rightarrow> AList.update name h dirs)))"

definition target_directories :: "source_tree \<Rightarrow> (ustr \<times> ustr) list py" where
  "target_directories t =
     (let start = (if t_name t \<in> set TARGET_SOURCES \<and> t_is_dir t (t_path t) then [(t_name t, t_path t)] else []);
          dirs = search_targets t TARGET_SOURCES start
      in if list_ex (\<lambda>name. map_of dirs name = None) TARGET_SOURCES then Inl FileNotFoundError else Inr dirs)"

definition target_files :: "source_tree \<Rightarrow> (ustr \<times> (ustr \<times> index_file) list) list py" where
  "target_files t =
     bindE (target_directories t) (\<lambda>dirs.
       Inr (map (\<lambda>name. (name, case map_of dirs name of Some dir \<Rightarrow> t_files t dir | None \<Rightarrow> [])) TARGET_SOURCES))"

text \<open>\<open>main\<close> after its checks: the index, the records of the step, the cases, their images. \<open>None\<close> is \<open>SystemExit\<close>.\<close>

definition annotate_run ::
  "(pyfloat \<Rightarrow> ustr) \<Rightarrow> 'i image_env \<Rightarrow> source_tree \<Rightarrow> ustr list \<Rightarrow> 'i assets
     \<Rightarrow> ('i assets \<times> (val_case \<times> image_result) list \<times> nat) option py" where
  "annotate_run fr env t lines fs =
     bindE (target_files t) (\<lambda>targets.
       bindE (build_source_index fr targets) (\<lambda>entries.
         bindE (read_jsonl 1 lines) (\<lambda>records.
           bindE (collect_cases fr entries records) (\<lambda>(cases, unmatched).
             if cases = [] then Inr None
             else (case materialize_images fr env cases fs of
                     (fs', results) \<Rightarrow> Inr (Some (fs', results, unmatched)))))))"

section \<open>Names of assets\<close>

lemma pad6_digits: "list_all is_digit (pad6 n) \<and> digits_val 0 (pad6 n) = int n"
  using nat_digits_digits [of n]
  by (simp add: pad6_def digits_val_zeros digits_val_nat list_all_iff is_digit_def ball_Un)

lemma asset_name_inj:
  assumes "asset_name n i = asset_name m j"
  shows "n = m \<and> i = j"
proof -
  have e: "pad6 (Suc n) @ u ''_img_'' @ nat_digits (Suc i) @ u ''.jpg'' = pad6 (Suc m) @ u ''_img_'' @ nat_digits (Suc j) @ u ''.jpg''"
    using assms by (simp add: asset_name_def)
  have bar: "u ''_img_'' = 95 # u ''img_''" by (simp add: u_def)
  have p: "pad6 (Suc n) = pad6 (Suc m)"
    using digits_until [of "pad6 (Suc n)" "pad6 (Suc m)" 95] e pad6_digits unfolding bar by (simp add: is_digit_def)
  then have "nat_digits (Suc i) = nat_digits (Suc j)" using e by simp
  then have "int (Suc i) = int (Suc j)" by (metis digits_val_nat)
  moreover have "int (Suc n) = int (Suc m)" using p pad6_digits by metis
  ultimately show ?thesis by simp
qed

definition names_of :: "val_case \<Rightarrow> ustr set" where
  "names_of c = range (asset_name (n_order c))"

lemma save_images_frame: "n \<notin> range (asset_name k) \<Longrightarrow> fst (save_images env k i imgs fs) n = fs n"
  by (induction env k i imgs fs rule: save_images.induct) (auto split: sum.splits prod.splits)

lemma save_images_earlier: "j < i \<Longrightarrow> fst (save_images env k i imgs fs) (asset_name k j) = fs (asset_name k j)"
  by (induction env k i imgs fs rule: save_images.induct) (auto dest: asset_name_inj split: sum.splits prod.splits)

lemma save_images_done:
  "save_images env k i imgs fs = (fs', paths, None) \<Longrightarrow>
     paths = map (asset_path k) [i..<i + length imgs] \<and> (\<forall>j < length imgs. fs' (asset_name k (i + j)) = Some (imgs ! j))"
proof (induction env k i imgs fs arbitrary: fs' paths rule: save_images.induct)
  case (2 env k i img imgs fs)
  then obtain ps where s: "save_images env k (Suc i) imgs (fs(asset_name k i \<mapsto> img)) = (fs', ps, None)"
    "paths = asset_path k i # ps" "i_save env (asset_name k i) img = Inr ()"
    by (auto split: sum.splits prod.splits)
  note ih = 2(1) [OF s(3,1)]
  have "fs' (asset_name k i) = Some img"
    using save_images_earlier [of i "Suc i" env k imgs "fs(asset_name k i \<mapsto> img)"] s(1) by simp
  moreover have "[i..<i + length (img # imgs)] = i # [Suc i..<Suc i + length imgs]" by (simp add: upt_conv_Cons del: upt_Suc)
  ultimately show ?case using ih s(2) by (auto simp: nth_Cons simp del: upt_Suc split: nat.splits)
qed simp

section \<open>One case\<close>

lemma case_images_frame: "n \<notin> names_of c \<Longrightarrow> fst (case_images fr env rows c fs) n = fs n"
  using save_images_frame [of n "n_order c" env 0 _ fs]
  by (auto simp: case_images_def Let_def names_of_def split: sum.splits prod.splits option.splits) (metis fst_conv)+

definition has_images :: "image_result \<Rightarrow> bool" where
  "has_images r \<longleftrightarrow> h_error r = NoImageError \<or> h_error r = OnlyOneImage"

text \<open>What a case without a failure has on disk.\<close>

definition displays :: "(pyfloat \<Rightarrow> ustr) \<Rightarrow> 'i image_env \<Rightarrow> dict \<Rightarrow> val_case \<Rightarrow> image_result \<Rightarrow> 'i assets \<Rightarrow> bool" where
  "displays fr env row c r fs \<longleftrightarrow>
     (\<exists>imgs imgs'. load_images env (n_source_path c) (image_values row) = Inr imgs \<and> imgs \<noteq> []
        \<and> draw_on_target fr env (n_ground_truth c) (n_prediction c) imgs = Inr imgs'
        \<and> h_paths r = map (asset_path (n_order c)) [0..<length imgs]
        \<and> (\<forall>i < length imgs. fs (asset_name (n_order c) i) = Some (imgs' ! i)))"

lemma draw_length: "draw_on_target fr env gt pred imgs = Inr imgs' \<Longrightarrow> length imgs' = length imgs"
  by (auto simp: draw_on_target_def Let_def bindE_eq_Inr)

lemma case_images_displays:
  assumes "case_images fr env rows c fs = (fs', r)" and "has_images r"
  shows "\<exists>row. row = (case map_of rows (n_source_row c) of Some d \<Rightarrow> d | None \<Rightarrow> []) \<and> displays fr env row c r fs'"
proof -
  define row where "row = (case map_of rows (n_source_row c) of Some d \<Rightarrow> d | None \<Rightarrow> [])"
  have ne: "image_values row \<noteq> []"
    using assms by (auto simp: case_images_def Let_def has_images_def row_def)
  then obtain imgs imgs' where i: "load_images env (n_source_path c) (image_values row) = Inr imgs"
    "draw_on_target fr env (n_ground_truth c) (n_prediction c) imgs = Inr imgs'"
    "save_images env (n_order c) 0 imgs' fs = (fs', h_paths r, None)"
    using assms by (auto simp: case_images_def Let_def has_images_def row_def [symmetric] split: sum.splits prod.splits option.splits)
  have "length imgs = length (image_values row)" using i(1) by (simp add: load_images_def mapE_length)
  then have "imgs \<noteq> []" using ne by auto
  then show ?thesis
    using i save_images_done [OF i(3)] draw_length [OF i(2)] unfolding displays_def row_def by auto
qed

section \<open>Loops\<close>

lemma each_append:
  "each f (xs @ ys) s = (case each f xs s of (s1, rs) \<Rightarrow> (case each f ys s1 of (s2, rs') \<Rightarrow> (s2, rs @ rs')))"
  by (induction xs arbitrary: s) (auto split: prod.splits)

lemma each_cong: "(\<And>c s. c \<in> set cs \<Longrightarrow> f c s = g c s) \<Longrightarrow> each f cs s = each g cs s"
  by (induction cs arbitrary: s) (auto split: prod.splits)

lemma each_groups:
  "(\<And>g s. g \<in> set gs \<Longrightarrow> f g s = each h (snd g) s) \<Longrightarrow>
     (case each f gs s of (s', xs) \<Rightarrow> (s', concat (map snd xs))) = each h (concat (map snd gs)) s"
proof (induction gs arbitrary: s)
  case (Cons g gs)
  have "(case each f gs s1 of (s', xs) \<Rightarrow> (s', concat (map snd xs))) = each h (concat (map snd gs)) s1" for s1
    by (rule Cons.IH) (use Cons.prems in simp)
  then show ?case using Cons.prems [of g]
    by (auto simp: each_append split: prod.splits) (metis (no_types, lifting) Pair_inject case_prod_conv)+
qed simp

text \<open>If every step keeps to its own names, what a step leaves under its names stays.\<close>

lemma each_frame:
  "(\<And>c s. c \<in> set cs \<Longrightarrow> n \<notin> N c \<Longrightarrow> fst (f c s) n = s n) \<Longrightarrow> (\<And>c. c \<in> set cs \<Longrightarrow> n \<notin> N c) \<Longrightarrow> fst (each f cs s) n = s n"
  by (induction cs arbitrary: s) (auto split: prod.splits, metis fst_conv)

lemma each_spec:
  assumes "\<And>c s n. n \<notin> N c \<Longrightarrow> fst (f c s) n = s n"
    and "distinct cs" and "\<And>c c'. c \<in> set cs \<Longrightarrow> c' \<in> set cs \<Longrightarrow> c \<noteq> c' \<Longrightarrow> N c \<inter> N c' = {}"
    and "each f cs s = (s', rs)"
  shows "map fst rs = cs \<and> (\<forall>(c, r) \<in> set rs. \<exists>s1 s2. f c s1 = (s2, r) \<and> (\<forall>n \<in> N c. s' n = s2 n))"
  using assms(2-4)
proof (induction cs arbitrary: s rs)
  case (Cons c cs)
  obtain s1 r where 1: "f c s = (s1, r)" by fastforce
  obtain rs' where 2: "each f cs s1 = (s', rs')" "rs = (c, r) # rs'"
    using Cons.prems(3) 1 by (auto split: prod.splits)
  have ih: "map fst rs' = cs \<and> (\<forall>(c, r) \<in> set rs'. \<exists>s1 s2. f c s1 = (s2, r) \<and> (\<forall>n \<in> N c. s' n = s2 n))"
    by (rule Cons.IH [OF _ _ 2(1)]) (use Cons.prems(1,2) in auto)
  have "s' n = s1 n" if n: "n \<in> N c" for n
  proof -
    have "n \<notin> N c'" if "c' \<in> set cs" for c' using Cons.prems(1,2) n that by fastforce
    then show ?thesis using each_frame [of cs n N f s1] assms(1) 2(1) by simp
  qed
  then show ?case using 1 2(2) ih by auto
qed simp

section \<open>The cases in the order of their sources\<close>

lemma distinct_group: "distinct (map fst ix) \<Longrightarrow> distinct (map fst (fold (add_entry key) es ix))"
  by (induction es arbitrary: ix) (simp_all add: add_entry_def distinct_update)

lemma group_members: "(k, es') \<in> set (group_by_key key es) \<Longrightarrow> es' = filter (\<lambda>e. key e = k) es"
  using entries_at_group [of key es k] distinct_group [of "[]" key es]
  by (auto simp: entries_at_def group_by_key_def split: option.splits dest: map_of_is_SomeI)

lemma mset_update:
  "distinct (map fst ix) \<Longrightarrow> mset (concat (map snd (AList.update k (entries_at ix k @ [e]) ix))) = add_mset e (mset (concat (map snd ix)))"
  by (induction ix) (auto simp: entries_at_def split: option.splits)

lemma mset_group: "mset (concat (map snd (group_by_key key es))) = mset es"
proof -
  have "distinct (map fst ix) \<Longrightarrow> mset (concat (map snd (fold (add_entry key) es ix))) = mset (concat (map snd ix)) + mset es" for ix
  proof (induction es arbitrary: ix)
    case (Cons e es)
    have a: "add_entry key e ix = AList.update (key e) (entries_at ix (key e) @ [e]) ix"
      by (simp add: add_entry_def entries_at_def)
    have "distinct (map fst (add_entry key e ix))" using Cons.prems by (simp add: add_entry_def distinct_update)
    then show ?case using Cons.IH mset_update [OF Cons.prems] by (simp add: a)
  qed simp
  from this [of "[]"] show ?thesis by (simp add: group_by_key_def)
qed

definition rows_for :: "'i image_env \<Rightarrow> val_case list \<Rightarrow> val_case \<Rightarrow> (nat \<times> dict) list py" where
  "rows_for env cases c =
     source_rows env (n_source_path c) (n_source_row ` {c' \<in> set cases. n_source_path c' = n_source_path c})"

definition case_step ::
  "(pyfloat \<Rightarrow> ustr) \<Rightarrow> 'i image_env \<Rightarrow> val_case list \<Rightarrow> val_case \<Rightarrow> 'i assets \<Rightarrow> 'i assets \<times> image_result" where
  "case_step fr env cases c fs =
     (case rows_for env cases c of
        Inl e \<Rightarrow> (fs, \<lparr>h_paths = [], h_error = SourceUnreadable e\<rparr>)
      | Inr rows \<Rightarrow> case_images fr env rows c fs)"

lemma each_constant: "each (\<lambda>c s. (s, r)) cs s = (s, map (\<lambda>c. (c, r)) cs)"
  by (induction cs) simp_all

lemma materialize_file_each:
  assumes "g \<in> set (group_by_key n_source_path cases)"
  shows "materialize_file fr env g fs = each (case_step fr env cases) (snd g) fs"
proof -
  obtain path cs where g: "g = (path, cs)" by fastforce
  have cs: "cs = filter (\<lambda>c. n_source_path c = path) cases" using assms group_members unfolding g by metis
  have r: "rows_for env cases c = source_rows env path (set (map n_source_row cs))" if "c \<in> set cs" for c
    using that by (simp add: rows_for_def cs)
  show ?thesis
  proof (cases "source_rows env path (set (map n_source_row cs))")
    case (Inl e)
    have "each (case_step fr env cases) cs fs = each (\<lambda>c s. (s, \<lparr>h_paths = [], h_error = SourceUnreadable e\<rparr>)) cs fs"
      by (rule each_cong) (use Inl in \<open>simp add: case_step_def r\<close>)
    then show ?thesis using Inl by (simp add: materialize_file_def g each_constant)
  next
    case (Inr rows)
    have "each (case_step fr env cases) cs fs = each (case_images fr env rows) cs fs"
      by (rule each_cong) (use Inr in \<open>simp add: case_step_def r\<close>)
    then show ?thesis using Inr by (simp add: materialize_file_def g)
  qed
qed

lemma materialize_each:
  "\<exists>cs. mset cs = mset cases \<and> materialize_images fr env cases fs = each (case_step fr env cases) cs fs"
proof -
  let ?gs = "sort_key fst (group_by_key n_source_path cases)"
  have "materialize_images fr env cases fs = each (case_step fr env cases) (concat (map snd ?gs)) fs"
    unfolding materialize_images_def by (rule each_groups) (simp add: materialize_file_each)
  moreover have "mset (concat (map snd ?gs)) = mset (concat (map snd (group_by_key n_source_path cases)))"
    unfolding mset_concat by (metis mset_map mset_sort sum_mset_sum_list)
  ultimately show ?thesis using mset_group by metis
qed

lemma case_step_frame: "n \<notin> names_of c \<Longrightarrow> fst (case_step fr env cases c fs) n = fs n"
  using case_images_frame by (auto simp: case_step_def split: sum.splits)

lemma materialize_spec:
  assumes "distinct (map n_order cases)" and "materialize_images fr env cases fs = (fs', results)"
  shows "mset (map fst results) = mset cases
    \<and> (\<forall>(c, r) \<in> set results. c \<in> set cases \<and> (has_images r \<longrightarrow>
         (\<exists>rows. rows_for env cases c = Inr rows
            \<and> displays fr env (case map_of rows (n_source_row c) of Some d \<Rightarrow> d | None \<Rightarrow> []) c r fs')))"
proof -
  obtain cs where cs: "mset cs = mset cases" "each (case_step fr env cases) cs fs = (fs', results)"
    using materialize_each assms(2) by metis
  have set: "set cs = set cases" using cs(1) mset_eq_setD by blast
  have "distinct cases" using assms(1) by (simp add: distinct_map)
  then have d: "distinct cs" using cs(1) mset_eq_imp_distinct_iff by blast
  have dj: "names_of c \<inter> names_of c' = {}" if "c \<in> set cs" "c' \<in> set cs" "c \<noteq> c'" for c c'
    using that assms(1) asset_name_inj unfolding set names_of_def by (auto simp: distinct_map inj_on_def)
  note s = each_spec [of names_of, OF case_step_frame d dj cs(2)]
  have "c \<in> set cases \<and> (has_images r \<longrightarrow> (\<exists>rows. rows_for env cases c = Inr rows
      \<and> displays fr env (case map_of rows (n_source_row c) of Some d \<Rightarrow> d | None \<Rightarrow> []) c r fs'))"
    if cr: "(c, r) \<in> set results" for c r
  proof -
    have "c \<in> set (map fst results)" using cr by force
    then have "c \<in> set cases" using s set by metis
    moreover have "\<exists>rows. rows_for env cases c = Inr rows
      \<and> displays fr env (case map_of rows (n_source_row c) of Some d \<Rightarrow> d | None \<Rightarrow> []) c r fs'" if f: "has_images r"
    proof -
      obtain s1 s2 where st: "case_step fr env cases c s1 = (s2, r)" "\<And>n. n \<in> names_of c \<Longrightarrow> fs' n = s2 n"
        using bspec [OF conjunct2 [OF s] cr] by auto
      obtain rows where rows: "rows_for env cases c = Inr rows" "case_images fr env rows c s1 = (s2, r)"
        using st(1) f by (auto simp: case_step_def has_images_def split: sum.splits)
      then have "displays fr env (case map_of rows (n_source_row c) of Some d \<Rightarrow> d | None \<Rightarrow> []) c r s2"
        using case_images_displays f by blast
      then show ?thesis using rows(1) st(2) by (auto simp: displays_def names_of_def)
    qed
    ultimately show ?thesis by blast
  qed
  moreover have "mset (map fst results) = mset cases" using s cs(1) by simp
  ultimately show ?thesis by blast
qed

section \<open>The row that is read again is the row that was indexed\<close>

definition source_row :: "index_file \<Rightarrow> nat \<Rightarrow> dict option" where
  "source_row f i =
     (case f of
        JsonlFile lines \<Rightarrow>
          if i < length lines
          then (case json_loads (py_strip (lines ! i)) of Inr (JObj d) \<Rightarrow> Some d | _ \<Rightarrow> None) else None
      | ParquetTable names rows \<Rightarrow>
          if i < length rows then (case rows ! i of JObj d \<Rightarrow> Some d | _ \<Rightarrow> None) else None)"

text \<open>Around the JSON of a line there is only white space that \<open>json.loads\<close> skips (\<open>str.strip\<close> removes more), and
  every row of a table has its columns.\<close>

definition readable :: "index_file \<Rightarrow> bool" where
  "readable f =
     (case f of
        JsonlFile lines \<Rightarrow> list_all (\<lambda>line. py_strip line \<noteq> [] \<longrightarrow> json_loads line = json_loads (py_strip line)) lines
      | ParquetTable names rows \<Rightarrow> list_all (\<lambda>row. case row of JObj d \<Rightarrow> map fst d = names | _ \<Rightarrow> True) rows)"

definition row_prompt_key :: "dict \<Rightarrow> ustr" where
  "row_prompt_key row =
     prompt_key (dict_get_or row key_prompt (dict_get_or row key_input (dict_get_or row PromptKey.key_messages (JStr []))))"

lemma jsonl_index_row:
  "jsonl_index_rows k lines = Inr rows \<Longrightarrow> (i, d) \<in> set rows \<Longrightarrow> k \<le> i \<and> source_row (JsonlFile lines) (i - k) = Some d"
proof (induction k lines arbitrary: rows rule: jsonl_index_rows.induct)
  case (2 k line rest)
  have later: "Suc k \<le> i \<and> source_row (JsonlFile rest) (i - Suc k) = Some d
      \<Longrightarrow> k \<le> i \<and> source_row (JsonlFile (line # rest)) (i - k) = Some d"
    by (auto simp: source_row_def dest!: le_Suc_ex split: if_splits)
  show ?case
  proof (cases "py_strip line = []")
    case True
    then show ?thesis using 2(1) [OF True] 2(3,4) later by simp
  next
    case False
    then obtain row rs where r: "json_loads (py_strip line) = Inr row" "jsonl_index_rows (Suc k) rest = Inr rs"
      "rows = (case row of JObj d \<Rightarrow> (k, d) # rs | _ \<Rightarrow> rs)"
      using 2(3) by (auto simp: bindE_eq_Inr split: sum.splits)
    then consider "(i, d) \<in> set rs" | "i = k" "row = JObj d" using 2(4) by (cases row) auto
    then show ?thesis
    proof cases
      case 1
      then show ?thesis using 2(2) [OF False r(1,2)] later by blast
    next
      case 2
      then show ?thesis using r(1) by (simp add: source_row_def)
    qed
  qed
qed simp

lemma filtered_get: "k \<in> W \<or> k \<notin> fst ` set d \<Longrightarrow> map_of (filter (\<lambda>(k, _). k \<in> W) d) k = map_of d k"
  by (induction d) auto

lemma parquet_index_row:
  assumes "(i, d) \<in> set (parquet_index_rows names rows)" and "readable (ParquetTable names rows)"
  shows "\<exists>row. source_row (ParquetTable names rows) i = Some row \<and> row_prompt_key d = row_prompt_key row"
proof -
  let ?w = "filter (\<lambda>name. name \<in> set names) wanted_columns"
  obtain row where r: "i < length rows" "rows ! i = JObj row" "d = filter (\<lambda>(k, _). k \<in> set ?w) row"
    using assms(1)
    by (auto simp: parquet_index_rows_def Let_def map_filter_def in_set_enumerate_eq split: if_splits json.splits)
  have n: "map fst row = names" using assms(2) r(1,2) by (auto simp: readable_def list_all_length)
  have g: "map_of d k = map_of row k" if "k \<in> set wanted_columns" for k
    unfolding r(3) by (rule filtered_get) (use that n in \<open>auto simp flip: n\<close>)
  have "map_of d key_prompt = map_of row key_prompt" "map_of d key_input = map_of row key_input"
    "map_of d PromptKey.key_messages = map_of row PromptKey.key_messages"
    by (rule g; simp add: wanted_columns_def)+
  then have "row_prompt_key d = row_prompt_key row" by (simp add: row_prompt_key_def dict_get_or_def)
  then show ?thesis using r by (simp add: source_row_def)
qed

lemma file_entries_row:
  assumes "file_entries fr source (path, f) = Inr es" and "readable f" and "e \<in> set es"
  shows "e_path e = path \<and> (\<exists>row. source_row f (e_row_index e) = Some row \<and> row_prompt_key row = e_key e)"
proof -
  obtain rows ms where r: "index_rows f = Inr rows" "mapE (row_entry fr source path) rows = Inr ms" "Some e \<in> set ms"
    using assms(1,3) by (auto simp: file_entries_def bindE_eq_Inr map_filter_def)
  obtain i d where d: "(i, d) \<in> set rows" "row_entry fr source path (i, d) = Inr (Some e)"
    using mapE_Inr_set [OF r(2,3)] by auto
  have e: "e_path e = path" "e_row_index e = i" "e_key e = row_prompt_key d"
    using d(2) by (auto simp: row_entry_def row_prompt_key_def Let_def bindE_eq_Inr split: if_splits)
  show ?thesis
  proof (cases f)
    case (JsonlFile lines)
    then show ?thesis using jsonl_index_row [of 0 lines rows i d] r(1) d(1) e by (simp add: index_rows_def)
  next
    case (ParquetTable names rs)
    then show ?thesis using parquet_index_row [of i d names rs] assms(2) r(1) d(1) e by (auto simp: index_rows_def)
  qed
qed

lemma index_entry_row:
  assumes "build_source_index fr targets = Inr entries" and "e \<in> set entries"
    and "\<forall>(source, files) \<in> set targets. \<forall>(path, f) \<in> set files. i_source env path = Inr f \<and> readable f"
  shows "\<exists>f row. i_source env (e_path e) = Inr f \<and> readable f
    \<and> source_row f (e_row_index e) = Some row \<and> row_prompt_key row = e_key e"
proof -
  let ?of = "\<lambda>(source, files). if files = [] then Inl FileNotFoundError
      else bindE (mapE (file_entries fr source) files) (\<lambda>ess. Inr (concat ess))"
  obtain ess where m: "mapE ?of targets = Inr ess" "e \<in> set (concat ess)"
    using assms(1,2) by (auto simp: build_source_index_def bindE_eq_Inr split: if_splits)
  then obtain es where es: "es \<in> set ess" "e \<in> set es" by auto
  obtain source files where t: "(source, files) \<in> set targets" "?of (source, files) = Inr es"
    using mapE_Inr_set [OF m(1) es(1)] by auto
  then obtain fss where fss: "mapE (file_entries fr source) files = Inr fss" "e \<in> set (concat fss)"
    using es(2) by (auto simp: bindE_eq_Inr split: if_splits)
  then obtain es' where es': "es' \<in> set fss" "e \<in> set es'" by auto
  obtain path f where p: "(path, f) \<in> set files" "file_entries fr source (path, f) = Inr es'"
    using mapE_Inr_set [OF fss(1) es'(1)] by auto
  have "i_source env path = Inr f \<and> readable f" using assms(3) t(1) p(1) by fastforce
  then show ?thesis using file_entries_row [OF p(2) _ es'(2)] by auto
qed

text \<open>Reading stops early only when every wanted row has been found.\<close>

lemma read_jsonl_rows_keeps:
  "read_jsonl_rows wanted res k lines = Inr out \<Longrightarrow> map_of res i = Some d \<Longrightarrow> map_of out i = Some d"
  by (induction wanted res k lines rule: read_jsonl_rows.induct)
     (auto simp: Let_def bindE_eq_Inr map_of_append map_add_Some_iff split: if_splits json.splits)

lemma read_jsonl_rows_finds:
  assumes "read_jsonl_rows wanted res k lines = Inr out" and "finite wanted"
    and "distinct (map fst res)" and "fst ` set res \<subseteq> wanted \<inter> {..<k}"
    and "i \<in> wanted" and "k \<le> i" and "i < k + length lines" and "json_loads (lines ! (i - k)) = Inr (JObj d)"
  shows "map_of out i = Some d"
  using assms
proof (induction wanted res k lines rule: read_jsonl_rows.induct)
  case (2 wanted res k line rest)
  have next_line: "Suc k \<le> i \<and> (line # rest) ! (i - k) = rest ! (i - Suc k)" if "i \<noteq> k"
    using "2.prems"(6) that by (auto simp: nth_Cons split: nat.splits dest!: le_Suc_ex)
  show ?case
  proof (cases "k \<in> wanted")
    case False
    then have "i \<noteq> k" using "2.prems" by auto
    then show ?thesis using 2(1) [OF False] "2.prems" False next_line by fastforce
  next
    case True
    obtain row where row: "json_loads line = Inr row" using "2.prems"(1) True by (auto simp: bindE_eq_Inr)
    let ?res = "case row of JObj d \<Rightarrow> res @ [(k, d)] | _ \<Rightarrow> res"
    have fresh: "k \<notin> fst ` set res" using "2.prems"(4) by auto
    have res: "distinct (map fst ?res)" "fst ` set ?res \<subseteq> wanted \<inter> {..<Suc k}"
      using "2.prems"(3,4) fresh True by (auto split: json.splits)
    have out: "if length ?res = card wanted then out = ?res else read_jsonl_rows wanted ?res (Suc k) rest = Inr out"
      using "2.prems"(1) True row by (auto simp: Let_def)
    show ?thesis
    proof (cases "i = k")
      case here: True
      then have "row = JObj d" using "2.prems"(8) row by simp
      then have "map_of ?res i = Some d"
        using fresh here by (simp add: map_of_append map_add_def map_of_eq_None_iff [THEN iffD2])
      then show ?thesis using out read_jsonl_rows_keeps [of wanted ?res "Suc k" rest out i d] by (simp split: if_splits)
    next
      case later: False
      then have i: "Suc k \<le> i" "(line # rest) ! (i - k) = rest ! (i - Suc k)" using next_line by blast+
      have more: "length ?res \<noteq> card wanted"
      proof
        assume "length ?res = card wanted"
        then have "card (fst ` set ?res) = card wanted" using distinct_card [OF res(1)] by simp
        then have "fst ` set ?res = wanted" using res(2) "2.prems"(2) by (intro card_subset_eq) auto
        moreover have "i \<notin> wanted \<inter> {..<Suc k}" using i(1) by simp
        ultimately show False using res(2) "2.prems"(5) by blast
      qed
      then have "read_jsonl_rows wanted ?res (Suc k) rest = Inr out" using out by simp
      then show ?thesis using 2(2) [of row ?res] True row more res i "2.prems" by auto
    qed
  qed
qed simp

lemma image_values_column:
  assumes "map fst row = names"
  shows "image_values (case image_column names of None \<Rightarrow> [] | Some column \<Rightarrow> filter (\<lambda>(k, _). k = column) row) = image_values row"
proof -
  have n: "map_of row k = None \<longleftrightarrow> k \<notin> set names" for k
    unfolding assms [symmetric] by (simp add: map_of_eq_None_iff)
  have f: "map_of (filter (\<lambda>(k, _). k = c) row) k = (if k = c then map_of row k else None)" for c k
    by (induction row) auto
  have ne: "key_images \<noteq> key_image" by (simp add: key_images_def key_image_def u_def)
  show ?thesis
    using n [of key_images] n [of key_image] ne
    by (auto simp: image_values_def image_column_def dict_get_or_def dict_get_def f split: option.splits)
qed

lemma source_rows_again:
  assumes "source_rows env path wanted = Inr rows" and "i_source env path = Inr f" and "readable f"
    and "source_row f i = Some row" and "i \<in> wanted" and "finite wanted"
  shows "image_values (case map_of rows i of Some d \<Rightarrow> d | None \<Rightarrow> []) = image_values row"
proof (cases f)
  case (JsonlFile lines)
  then have l: "i < length lines" "json_loads (py_strip (lines ! i)) = Inr (JObj row)"
    using assms(4) by (auto simp: source_row_def split: if_splits sum.splits json.splits)
  have "json_loads [] = Inl JSONDecodeError" by code_simp
  then have "py_strip (lines ! i) \<noteq> []" using l(2) by auto
  then have "json_loads (lines ! i) = Inr (JObj row)"
    using assms(3) l by (simp add: JsonlFile readable_def list_all_length)
  then have "map_of rows i = Some row"
    using assms(1,2) read_jsonl_rows_finds [of wanted "[]" 0 lines rows i row] l(1) assms(5,6)
    by (simp add: source_rows_def JsonlFile)
  then show ?thesis by simp
next
  case (ParquetTable names rs)
  then have l: "i < length rs" "rs ! i = JObj row"
    using assms(4) by (auto simp: source_row_def split: if_splits json.splits)
  have n: "map fst row = names" using assms(3) l by (auto simp: ParquetTable readable_def list_all_length)
  have r: "rows = read_parquet_rows wanted names rs" using assms(1,2) by (simp add: source_rows_def ParquetTable)
  have "map_of (map (\<lambda>i. (i, g i)) xs) i = (if i \<in> set xs then Some (g i) else None)" for g :: "nat \<Rightarrow> dict" and xs
    by (induction xs) auto
  then have "map_of rows i = Some (case image_column names of None \<Rightarrow> [] | Some c \<Rightarrow> filter (\<lambda>(k, _). k = c) row)"
    using l assms(5,6) by (simp add: r read_parquet_rows_def split: option.splits)
  then show ?thesis using image_values_column [OF n] by simp
qed

text \<open>Indexing strips a line, reading it again does not: a no-break space at its end takes the images of every case of
  the file away.\<close>

lemma padded_line_unreadable:
  "jsonl_index_rows 0 [u ''{\"prompt\": \"x\"}'' @ [160]] = Inr [(0, [(key_prompt, JStr (u ''x''))])]"
  "read_jsonl_rows {0} [] 0 [u ''{\"prompt\": \"x\"}'' @ [160]] = Inl JSONDecodeError"
  by code_simp+

section \<open>From the prompt to the image\<close>

lemma first_source_key:
  assumes "k \<in> e_key ` set entries"
  shows "first_source entries k gt \<in> set entries \<and> e_key (first_source entries k gt) = k"
proof (cases "find (\<lambda>e. e_key e = k \<and> gt \<noteq> [] \<and> e_canonical_gt e = gt) entries")
  case None
  have "filter (\<lambda>e. e_key e = k) entries \<noteq> []" using assms by (auto simp: filter_empty_conv)
  then have "hd (filter (\<lambda>e. e_key e = k) entries) \<in> set (filter (\<lambda>e. e_key e = k) entries)" by (rule hd_in_set)
  then show ?thesis using None by (simp add: first_source_def)
next
  case (Some e)
  then have "first_source entries k gt = e" by (simp add: first_source_def)
  moreover have "e \<in> set entries \<and> e_key e = k" using Some by (auto simp: find_Some_iff)
  ultimately show ?thesis by simp
qed

lemma case_entry:
  assumes "collect_cases fr entries records = Inr (cases, unmatched)" and "c \<in> set cases"
  shows "\<exists>rec \<in> set records. \<exists>e \<in> set entries. traces (e_key ` set entries) (record_prompt_key rec) (e_key e)
    \<and> n_source_path c = e_path e \<and> n_source_row c = e_row_index e \<and> n_prediction c = json_text fr (record_output rec)"
proof -
  obtain i where i: "i < length cases" "c = cases ! i" using assms(2) by (auto simp: in_set_conv_nth)
  obtain rec e where r: "rec \<in> set records" "match_source fr entries rec = Inr (Some e)" "case_of_record fr i rec e = Inr c"
    using collect_from_spec [OF assms(1) [unfolded collect_cases_def]] i by auto
  obtain k gt where k: "traces (e_key ` set entries) (record_prompt_key rec) k" "e = first_source entries k gt"
    using match_source_spec [OF r(2)] by auto
  then have "e \<in> set entries \<and> e_key e = k" using first_source_key by (auto simp: traces_def)
  moreover have "n_source_path c = e_path e" "n_source_row c = e_row_index e" "n_prediction c = json_text fr (record_output rec)"
    using r(3) by (auto simp: case_of_record_def Let_def split: json.splits)
  ultimately show ?thesis using r(1) k(1) by auto
qed

lemma case_orders:
  assumes "collect_cases fr entries records = Inr (cases, unmatched)"
  shows "distinct (map n_order cases)"
proof -
  have "n_order (cases ! i) = i" if "i < length cases" for i
    using collect_from_spec [OF assms [unfolded collect_cases_def]] that by (auto dest!: case_order)
  then have "map n_order cases = [0..<length cases]" by (intro nth_equalityI) auto
  then show ?thesis by simp
qed

lemma case_count:
  "collect_cases fr entries records = Inr (cases, unmatched) \<Longrightarrow> length cases + unmatched = length records"
  using collect_from_spec [of fr entries "[]" 0 records cases unmatched] by (auto simp: collect_cases_def)

lemma traced_images:
  assumes "build_source_index fr targets = Inr entries"
    and "\<forall>(source, files) \<in> set targets. \<forall>(path, f) \<in> set files. i_source env path = Inr f \<and> readable f"
    and "collect_cases fr entries records = Inr (cases, unmatched)"
    and "materialize_images fr env cases fs = (fs', results)"
    and "(c, r) \<in> set results" and "has_images r"
  shows "\<exists>rec \<in> set records. \<exists>f row. i_source env (n_source_path c) = Inr f \<and> source_row f (n_source_row c) = Some row
            \<and> traces (e_key ` set entries) (record_prompt_key rec) (row_prompt_key row)
            \<and> n_prediction c = json_text fr (record_output rec) \<and> displays fr env row c r fs'"
proof -
  obtain rows where rows: "c \<in> set cases" "rows_for env cases c = Inr rows"
    "displays fr env (case map_of rows (n_source_row c) of Some d \<Rightarrow> d | None \<Rightarrow> []) c r fs'"
    using bspec [OF conjunct2 [OF materialize_spec [OF case_orders [OF assms(3)] assms(4)]] assms(5)] assms(6) by auto
  obtain rec e where e: "rec \<in> set records" "e \<in> set entries"
    "traces (e_key ` set entries) (record_prompt_key rec) (e_key e)" "n_source_path c = e_path e"
    "n_source_row c = e_row_index e" "n_prediction c = json_text fr (record_output rec)"
    using case_entry [OF assms(3) rows(1)] by blast
  obtain f row where f: "i_source env (e_path e) = Inr f" "readable f" "source_row f (e_row_index e) = Some row"
    "row_prompt_key row = e_key e"
    using index_entry_row [OF assms(1) e(2) assms(2)] by blast
  have "image_values (case map_of rows (n_source_row c) of Some d \<Rightarrow> d | None \<Rightarrow> []) = image_values row"
    using source_rows_again [OF rows(2) [unfolded rows_for_def] f(1,2) [folded e(4)] f(3) [folded e(5)]] rows(1) by simp
  then have "displays fr env row c r fs'" using rows(3) by (simp add: displays_def)
  then show ?thesis using e f by auto
qed

text \<open>Where the two directories are taken from.\<close>

lemma map_of_search: "name \<notin> set names \<Longrightarrow> map_of (search_targets t names dirs) name = map_of dirs name"
  by (induction t names dirs rule: search_targets.induct) (auto simp: Let_def AList.update_conv split: list.splits)

lemma search_targets_at:
  "distinct names \<Longrightarrow> name \<in> set names \<Longrightarrow> map_of (search_targets t names dirs) name =
     (if t_is_dir t (t_path t @ [47] @ name) then Some (t_path t @ [47] @ name)
      else (case t_hits t name of [] \<Rightarrow> map_of dirs name | h # _ \<Rightarrow> Some h))"
proof (induction t names dirs rule: search_targets.induct)
  case (2 t nm names dirs)
  then show ?case
    by (cases "name = nm") (auto simp: Let_def map_of_search AList.update_conv split: list.splits)
qed simp

lemma target_files_listed:
  "target_files t = Inr targets \<Longrightarrow> (source, files) \<in> set targets \<Longrightarrow> files = [] \<or> (\<exists>dir. files = t_files t dir)"
  by (fastforce simp: target_files_def bindE_eq_Inr split: option.splits)

text \<open>C14: A run over a step makes a case of every record or counts it as unmatched, and every case gets one result. A case
  without a failure shows the images of the row of its source that the prompt of its record was traced to, decoded and
  resized in their order, with the boxes of the case drawn on the second image (the only one if there is one); they are
  in the assets under the case's own names, and no other case has overwritten them. The sources are the same when they
  are read again.\<close>

theorem case_shows_traced_row:
  assumes "annotate_run fr env t lines fs = Inr (Some (fs', results, unmatched))"
    and "\<forall>dir. \<forall>(path, f) \<in> set (t_files t dir). i_source env path = Inr f \<and> readable f"
  shows "\<exists>targets entries records. target_files t = Inr targets \<and> build_source_index fr targets = Inr entries
    \<and> read_jsonl 1 lines = Inr records \<and> length results + unmatched = length records \<and> distinct (map (n_order \<circ> fst) results)
    \<and> (\<forall>(c, r) \<in> set results. has_images r \<longrightarrow>
         (\<exists>rec \<in> set records. \<exists>f row. i_source env (n_source_path c) = Inr f \<and> source_row f (n_source_row c) = Some row
            \<and> traces (e_key ` set entries) (record_prompt_key rec) (row_prompt_key row)
            \<and> n_prediction c = json_text fr (record_output rec) \<and> displays fr env row c r fs'))"
proof -
  obtain targets entries records cases where r: "target_files t = Inr targets" "build_source_index fr targets = Inr entries"
    "read_jsonl 1 lines = Inr records" "collect_cases fr entries records = Inr (cases, unmatched)"
    "materialize_images fr env cases fs = (fs', results)"
    using assms(1) by (auto simp: annotate_run_def bindE_eq_Inr split: if_splits prod.splits)
  have m: "mset (map fst results) = mset cases" using materialize_spec [OF case_orders [OF r(4)] r(5)] by simp
  then have "mset (map (n_order \<circ> fst) results) = mset (map n_order cases)"
    by (metis map_map mset_map)
  then have d: "distinct (map (n_order \<circ> fst) results)" using case_orders [OF r(4)] mset_eq_imp_distinct_iff by metis
  have "length results = length cases" using m by (metis length_map size_mset)
  then have n: "length results + unmatched = length records" using case_count [OF r(4)] by simp
  have "\<forall>(source, files) \<in> set targets. \<forall>(path, f) \<in> set files. i_source env path = Inr f \<and> readable f"
    using target_files_listed [OF r(1)] assms(2) by fastforce
  note t = traced_images [OF r(2) this r(4,5)]
  show ?thesis using r(1-3) n d t by (intro exI conjI) auto
qed

section \<open>A small step with images\<close>

text \<open>An image is its description with the marks drawn on it.\<close>

definition shown_file :: index_file where
  "shown_file = JsonlFile [u '' '', u ''{\"prompt\": \"Where?\", \"images\": [\"a.png\", \"b.png\"]}'']"

definition toy_images :: "(json \<times> mark list) image_env" where
  "toy_images =
     \<lparr>i_source = (\<lambda>_. Inr shown_file),
      i_decode = (\<lambda>path v. Inr (v, [])), i_dims = (\<lambda>_. (100, 50)), i_resize = (\<lambda>i _. i),
      i_draw = (\<lambda>i ms. Inr (fst i, ms)), i_save = (\<lambda>_ _. Inr ()), i_broken = (\<lambda>_. None), i_max_edge = 1200\<rparr>"

definition shown_tree :: source_tree where
  "shown_tree = \<lparr>t_path = u ''/d'', t_name = u ''d'', t_is_dir = (\<lambda>_. True), t_hits = (\<lambda>_. []),
     t_files = (\<lambda>dir. [(dir @ u ''/f.jsonl'', shown_file)])\<rparr>"

definition shown_lines :: "ustr list" where
  "shown_lines = [u ''{\"input\": \"Where?\", \"output\": \"none\"}'', u ''{\"input\": \"?\"}'']"

definition shown_case :: val_case where
  "shown_case = \<lparr>n_order = 0, n_jsonl_line = 1, n_source = u ''inconsistent_cot_verl_2500'',
     n_source_path = u ''/d/inconsistent_cot_verl_2500/f.jsonl'', n_source_row = 1, n_ground_truth = [], n_prediction = u ''none''\<rparr>"

definition run_results :: "'a option py \<Rightarrow> 'a" where
  "run_results x = (case x of Inr (Some y) \<Rightarrow> y | _ \<Rightarrow> undefined)"

definition shown_run :: "(json \<times> mark list) assets \<times> (val_case \<times> image_result) list \<times> nat" where
  "shown_run = run_results (annotate_run (\<lambda>_. []) toy_images shown_tree shown_lines (\<lambda>_. None))"

lemma shown_run_results:
  "snd shown_run = ([(shown_case, \<lparr>h_paths = [asset_path 0 0, asset_path 0 1], h_error = NoImageError\<rparr>)], 1)"
  by code_simp

lemma shown_run_ends: "case annotate_run (\<lambda>_. []) toy_images shown_tree shown_lines (\<lambda>_. None) of Inr (Some y) \<Rightarrow> True | _ \<Rightarrow> False"
  by code_simp

lemma shown_readable: "\<forall>dir. \<forall>(path, f) \<in> set (t_files shown_tree dir). i_source toy_images path = Inr f \<and> readable f"
proof -
  have "readable shown_file" by code_simp
  then show ?thesis by (simp add: shown_tree_def toy_images_def)
qed

theorem case_shows_traced_row_witness:
  "\<exists>row. source_row shown_file 1 = Some row
    \<and> displays (\<lambda>_. []) toy_images row shown_case \<lparr>h_paths = [asset_path 0 0, asset_path 0 1], h_error = NoImageError\<rparr> (fst shown_run)"
proof -
  let ?r = "\<lparr>h_paths = [asset_path 0 0, asset_path 0 1], h_error = NoImageError\<rparr>"
  have "annotate_run (\<lambda>_. []) toy_images shown_tree shown_lines (\<lambda>_. None) = Inr (Some shown_run)"
    using shown_run_ends by (auto simp: shown_run_def run_results_def split: sum.splits option.splits)
  then have run: "annotate_run (\<lambda>_. []) toy_images shown_tree shown_lines (\<lambda>_. None) = Inr (Some (fst shown_run, [(shown_case, ?r)], 1))"
    using shown_run_results by (metis prod.collapse)
  have s: "i_source toy_images p = Inr shown_file" "n_source_row shown_case = 1" "has_images ?r" for p
    by (simp_all add: shown_case_def toy_images_def has_images_def)
  obtain f row where "i_source toy_images (n_source_path shown_case) = Inr f" "source_row f (n_source_row shown_case) = Some row"
    "displays (\<lambda>_. []) toy_images row shown_case ?r (fst shown_run)"
    using case_shows_traced_row [OF run shown_readable] s(3) by auto
  then show ?thesis using s by auto
qed

end
