(* ===== verification/Spec2Isabelle.thy ===== *)
theory Spec2Isabelle
  imports JsonScan Extract Geometry LabelReward Rewards LazyClient RewardClient RewardModel Scheduler Batcher RewardServer
    OptionFix ParquetFix JsonDump EvaluateRuns TrendRuns GeminiRuns RemoteRequest
    ThinkingCheck Diagnostics CaseIndex CaseImages
begin

text \<open>
  This library is a verification development for the repository's own program: the reward function
  of a reinforcement-learning run on spatial-consistency data, the service that judges its texts, the
  tools that repair the data, roll models out and evaluate them. The scripts are at the root of
  \<^verbatim>\<open>src\<close>; \<^verbatim>\<open>src/verl\<close> is the vendored training framework that calls the reward function.

  \<^bold>\<open>The program.\<close> A model's reply is text that should contain a JSON object. The reward function
  (\<^verbatim>\<open>json_answer_reward.py\<close>) finds that object, reads the answer, the boxes, the labels and the summary, and
  combines terms by the data source: C or R1 (the answer), R2 (union of boxes), R3 (labels of matched
  boxes), R4 (the summary against the reference) and the Hungarian IoU; on gated sources the last sentence
  of the reasoning must not support the other option. R4 and the gate are asked of a judge model over
  HTTP (\<^verbatim>\<open>reward_model_client.py\<close>, \<^verbatim>\<open>reward_model_server.py\<close>); the server's handlers put requests into two
  batchers, which share one model (\<^verbatim>\<open>reward_model.py\<close> on vLLM, \<^verbatim>\<open>reward_model_transformers.py\<close>) through a
  scheduler. \<^verbatim>\<open>fix_parquet_extra_info_options.py\<close> writes the options the gate needs into the data.
  \<^verbatim>\<open>rollout_checkpoint.py\<close> runs a model on a selection of rows and appends its answers to a checkpoint;
  \<^verbatim>\<open>evaluate_rollout_checkpoints.py\<close> scores and compares the checkpoints. \<^verbatim>\<open>plot_val_trends.py\<close> recomputes
  the rewards of the validation files a training run has dumped and averages them by dataset and step.
  \<^verbatim>\<open>run_gemini.py\<close> has a remote model describe every item of a dataset, checks its replies and keeps them.
  \<^verbatim>\<open>validate_thinking_consistency_08b.py\<close> asks a model which option the end of a thinking supports and counts
  the records where that is not the final answer. \<^verbatim>\<open>annotate_val_cases.py\<close> traces the records of a training step
  to the rows they come from and makes a page of them for annotation.

  \<^bold>\<open>Theories, by source.\<close>
    \<^item> \<open>Prelude\<close>: exceptions, \<open>bindE\<close>, loops that may raise (\<open>mapE\<close>), and the interface \<open>unit_scorer\<close>. \<open>Machine\<close>:
      step machines, reachability and the interface \<open>machine_invariant\<close>, interpreted by every stateful
      component. \<open>PyText\<close>, \<open>Utf8\<close>, \<open>PyJson\<close>: Python's strings, UTF-8 (the interface \<open>codec\<close>) and
      \<open>json.loads\<close> with the conversions \<open>int()\<close>, \<open>float()\<close>, \<open>str()\<close>. \<open>JsonWriter\<close>: the interface \<open>json_writer\<close> of the
      ways a value is written (default, compact, in a script), each interpreted where it is used; what it writes is
      read back, for all values. \<open>JsonDump\<close>: \<open>json.dumps\<close>. \<open>JsonType\<close>: the type of what \<open>json.loads\<close> returns.
    \<^item> \<^verbatim>\<open>json_answer_reward.py\<close>: \<open>JsonScan\<close> (\<open>_scan_balanced_json\<close>, \<open>_extract_last_json_obj\<close>, \<open>_parse_json_obj\<close>),
      \<open>Extract\<close> (answers, thinking block, last sentence, options), \<open>Geometry\<close> (boxes, Hungarian IoU, R2),
      \<open>LabelReward\<close> (R3), \<open>Rewards\<close> (R4, routes, details, gate), \<open>LazyClient\<close> (the loader of the client).
    \<^item> \<^verbatim>\<open>reward_model_client.py\<close>: \<open>RewardClient\<close>. \<^verbatim>\<open>reward_model.py\<close>, \<^verbatim>\<open>reward_model_transformers.py\<close>: \<open>RewardModel\<close>.
    \<^item> \<^verbatim>\<open>reward_model_server.py\<close>: \<open>Scheduler\<close> (\<open>QueueLengthInferenceScheduler\<close>), \<open>Batcher\<close> (\<open>DynamicBatcher\<close>),
      \<open>RewardServer\<close> (handlers, validation, choice of the backend, life of the service).
    \<^item> \<^verbatim>\<open>fix_parquet_extra_info_options.py\<close>: \<open>OptionFix\<close> (a row), \<open>ParquetFix\<close> (files and the transaction).
    \<^item> \<^verbatim>\<open>rollout_checkpoint.py\<close> with the row selection of \<^verbatim>\<open>rollout_parquet_to_html.py\<close> and the ground truth of
      \<^verbatim>\<open>annotate_val_cases.py\<close>: \<open>Checkpoint\<close> (definitions, one record), \<open>CheckpointRuns\<close> (whole runs).
    \<^item> \<^verbatim>\<open>evaluate_rollout_checkpoints.py\<close>: \<open>Evaluate\<close> (definitions, names, scores), \<open>EvaluateRuns\<close> (rollout and
      evaluation together).
    \<^item> \<^verbatim>\<open>plot_val_trends.py\<close>: \<open>PromptKey\<close> (the keys that trace a dumped prompt to its row), \<open>Trends\<close>
      (reading, tracing, recomputing, averaging), \<open>TrendRuns\<close> (whole runs).
    \<^item> \<^verbatim>\<open>run_gemini.py\<close>: \<open>IdealabClient\<close> (one call with its retries), \<open>GeminiBatch\<close> (request, reply,
      \<open>validate\<close>, the files, \<open>main\<close>), \<open>GeminiRuns\<close> (runs one after another on the same files).
    \<^item> \<^verbatim>\<open>rollout_parquet_to_html.py\<close>: \<open>PromptBuild\<close> (messages with the images of a row, the content of a remote
      request), \<open>RemoteRequest\<close> (the upload of the images and the call \<^verbatim>\<open>rollout_checkpoint.py\<close> makes for a row, with
      the object store of \<^verbatim>\<open>run_gemini.py\<close>).
    \<^item> \<^verbatim>\<open>validate_thinking_consistency_08b.py\<close>: \<open>ThinkingCheck\<close> (records, judgments, summaries, runs).
    \<^item> \<^verbatim>\<open>reward_model_diagnostic_cases.py\<close> with the main block of \<^verbatim>\<open>reward_model.py\<close>: \<open>Diagnostics\<close>.
    \<^item> \<^verbatim>\<open>annotate_val_cases.py\<close>: \<open>CaseIndex\<close> (records, source index, cases, values in the page's script),
      \<open>BoxDrawing\<close> (boxes, directions, marks), \<open>CaseImages\<close> (rows read again, images of the cases, a whole run).
    \<^item> This theory: the client, the HTTP handlers, the batcher and the model composed.

  \<^bold>\<open>How the code is modelled.\<close> A function that can raise is a function into \<open>py_exn + 'a\<close>, with the exception
  classes \<open>except\<close> clauses select on. A dict is the list of its items in insertion order. Threads are step
  machines whose events name the thread that moves; everything a scheduler, a network or a thread pool may
  decide is an event or a parameter, so what is proved holds for every interleaving. Files are the
  list of their lines, or contents under a path. Loops are structural recursions or recursions with a
  measure; the only fuel is that of \<open>json.loads\<close>, twice the length of the text plus two, which is one step
  for each character and each value, so that the parser never stops for lack of it (\<open>JsonDump\<close> proves it for
  every text the program writes, and the depth limit of CPython is not modelled).

  \<^bold>\<open>What the groups of lemmas show.\<close> \<open>JsonScan\<close>, \<open>Extract\<close>: what is found in a reply, whatever comes before it.
  \<open>JsonType\<close>: the type of what is found, and that it can be written and found again.
  \<open>Geometry\<close>, \<open>LabelReward\<close>, \<open>Rewards\<close>: each term against its specification (optimal matching, Jaccard index,
  keyword and direction agreement), the range of every route, and that the gate cannot be passed by a
  reply whose reasoning supports the other option. \<open>RewardModel\<close>: one score per pair, in order, made of
  what the engine said to this pair's prompt in that call (an engine may answer differently in another batch), and
  how far scores of one pair in two calls can differ. \<open>Scheduler\<close>: mutual exclusion, a deadlock, and that without
  requests joining behind a waiting batch every batch is served. \<open>Batcher\<close>: no request is lost
  or answered with another's result, progress, and which calls a failure abandons. \<open>RewardServer\<close> and this
  theory: a score the client returns is the one the model gave its own pair in a batch. \<open>ParquetFix\<close>: the repair of many files
  is all or nothing per file and checked before any original is touched. \<open>CheckpointRuns\<close>: any history of runs
  leaves a checkpoint that reads as records of this selection; a run that returns leaves it complete.
  \<open>EvaluateRuns\<close>: complete checkpoints are accepted and reported faithfully. \<open>TrendRuns\<close>: the recomputed
  rewards are those of training without the gate, given what the local model said of each pair; each record is traced to the right row, and the points
  are means over all of them. \<open>PromptBuild\<close>, \<open>RemoteRequest\<close>: both models are shown what the prompt of the row
  says, every image at its place, and a recorded prediction is the last reply to that request.
  \<open>ThinkingCheck\<close>: what is labelled a conflict, and the files a run leaves wherever it is stopped. \<open>Diagnostics\<close>: the balance of the judge's test cases and of its confusion matrix.
  \<open>CaseIndex\<close>: which row a case belongs to, ground truths compared without regard to the order of keys, and that a
  value in the page's script neither changes nor closes it. \<open>BoxDrawing\<close>: when the page draws the boxes the
  reward scores. \<open>CaseImages\<close>: a case shows the images of the row its prompt was traced to.

  \<^bold>\<open>Parameters.\<close> Code that is not in the repository is an argument: SciPy's assignment solver (its documented
  optimality is the locale \<open>assignment_solver\<close>, interpreted by exhaustive search), tokenizers and engines, the
  network, \<open>repr\<close> of a float (\<open>fr\<close>), texts of exceptions, pyarrow's conversions and which file operations
  fail, the random sampler, the dataset's \<open>select\<close>, and the order in which thread pools complete. Each property
  with such a hypothesis has a witness with a concrete function.

  \<^bold>\<open>Not modelled.\<close> Rounding of floats: a finite float is a real number (overflow to infinity is
  modelled where the code can meet it). Clocks: a timeout may happen whenever the code lets it. Unicode letter
  case above code point 255 (theory \<open>PyText\<close> says which classes are used). Exception messages, logging,
  \<open>argparse\<close>, CUDA, Pillow and HTML. \<^verbatim>\<open>src/verl\<close> is third-party code.
\<close>

section \<open>From the client to the model and back\<close>

text \<open>The answers a handler's \<open>submit\<close> can return: those of the calls of a reachable state of the batcher.\<close>

definition answered_by ::
  "(ustr list \<Rightarrow> 'r py) \<Rightarrow> (Batcher.event \<Rightarrow> 'r batcher \<Rightarrow> 'r batcher option) \<Rightarrow> 'r batcher \<Rightarrow> bool" where
  "answered_by submit step s0 \<longleftrightarrow>
     (\<forall>vs x. submit vs = Inr x \<longrightarrow>
        (\<exists>s. reachable any_event step s0 s \<and> (vs, Result x) \<in> set (calls s)))"

lemma serve_failure:
  assumes "\<And>body. do_POST exn_text fr st path_score (Some (str_of_int (int (length payload)))) payload
      \<noteq> Inr (200, body)"
    and "endpoint (url_var env) path_score = Inr (base @ path_score)"
    and "utf8_encode (json_dumps [(key_pred_summary, p), (key_gt_summary, g)]) = Inr payload"
  shows "client_score_summary (serve exn_text fr st base) env p g \<noteq> Inr f"
proof -
  have "post_score (serve exn_text fr st base) env path_score
      [(key_pred_summary, p), (key_gt_summary, g)] \<noteq> Inr d" for d
    using assms by (auto simp: post_score_def serve_def split: sum.splits prod.splits if_splits)
  then show ?thesis by (auto simp: client_score_summary_def bindE_eq_Inr)
qed

text \<open>C1: From the client to the model and back: when the client returns a score, it lies in the unit
  interval and is the one its own pair got in a batch: 0 for an empty summary, 1 for equal ones, otherwise
  P(A) + P(B)/2 + P(C)/4 of the log-probabilities the engine returned, in that call, for the prompt of this
  pair. The engine is any function of the batch. The request crossed JSON and UTF-8 twice and a batch with
  other requests; assumed are that \<open>submit\<close> returns what a reachable batcher answered, that the client's
  URL is the service's, that the texts are strings JSON can carry, and that the decimal text of the score
  reads back as the score.\<close>

theorem served_score:
  assumes sub: "r4_batcher st = Some submit"
    and ans: "answered_by submit
      (batcher_step (r4_score_batch c tk loaded (vllm_summary_infer c tk gen ids)) validate_unit_score) s0"
    and new: "new_batcher n w = Inr s0"
    and send: "sendable [(key_pred_summary, p), (key_gt_summary, g)]"
    and url: "endpoint (url_var env) path_score = Inr (base @ path_score)"
    and repr: "\<And>y. submit [p, g] = Inr (Fin y) \<Longrightarrow> float_text fr y"
    and res: "client_score_summary (serve exn_text fr st base) env p g = Inr f"
  shows "\<exists>y pairs i. f = Fin y \<and> 0 \<le> y \<and> y \<le> 1 \<and> i < length pairs \<and> pairs ! i = (p, g)
    \<and> scored_from (vllm_says c tk gen ids) c tk pairs i y"
proof -
  have ne: "key_pred_summary \<noteq> key_gt_summary" by code_simp
  obtain payload t where pl: "utf8_encode (json_dumps [(key_pred_summary, p), (key_gt_summary, g)]) = Inr payload"
    and t: "timeout_seconds (timeout_var env) = Inr t"
    using res by (auto simp: client_score_summary_def post_score_def)
  obtain body where body: "do_POST exn_text fr st path_score (Some (str_of_int (int (length payload)))) payload
      = Inr (200, body)"
    using serve_failure [OF _ url pl] res by blast
  have act: "post_action fr st path_score (Some (str_of_int (int (length payload)))) payload = Inr (200, body)"
    using body by (auto simp: do_POST_def split: sum.splits if_splits simp: send_json_Inr)
  then have up: "ready st" "s_fatal_error st = None"
    by (auto simp: post_action_def split: if_splits simp: send_json_Inr)
  have len: "int (length payload) \<le> MAX_REQUEST_BYTES"
    using act by (auto simp: post_action_def read_payload_def split: option.splits if_splits
        dest: int_of_str_payload)
  from act sub up ne obtain x where x: "submit [p, g] = Inr x"
    by (auto simp: post_action_def score_request_read [OF send pl len] dict_get_def)
  then obtain s where s: "reachable any_event (batcher_step (r4_score_batch c tk loaded
      (vllm_summary_infer c tk gen ids)) validate_unit_score) s0 s" "([p, g], Result x) \<in> set (calls s)"
    using ans by (auto simp: answered_by_def)
  obtain i where "i < length (calls s)" "calls s ! i = ([p, g], Result x)"
    using s(2) by (auto simp: in_set_conv_nth)
  with r4_service.reachable_good [OF new s(1)] have "judged_in_batch c tk gen ids [p, g] x"
    by (fastforce simp: results_good_def)
  then obtain y pairs i where y: "x = Fin y" "0 \<le> y" "y \<le> 1" "i < length pairs" "pairs ! i = (p, g)"
    "scored_from (vllm_says c tk gen ids) c tk pairs i y"
    by (auto simp: judged_in_batch_def)
  have "client_score_summary (serve exn_text fr st base) env p g = Inr (Fin y)"
    by (rule served_client [OF send pl len url t up sub _ y(2,3) repr]) (use x y(1) in simp_all)
  with res y show ?thesis by auto
qed


definition pair_events :: "Batcher.event list" where
  "pair_events = [Enter [JStr (u ''a  B''), JStr (u ''A b'')], PutRequest 0, Enter [JStr (u ''x''), JStr (u ''y'')],
     PutRequest 0, LoopTest, GetFirst, Collect, CollectEnd]"

definition pair_state :: "pyfloat batcher" where
  "pair_state = \<lparr>max_batch_size = 32, max_wait_seconds = 20 / 1000, queue = [],
     calls = [([u ''a  B'', u ''A b''], Pending), ([u ''x'', u ''y''], Pending)], entering = [],
     fatal_error = None, stopped = False,
     worker = Inferring [\<lparr>r_values = [u ''a  B'', u ''A b''], r_future = 0\<rparr>,
       \<lparr>r_values = [u ''x'', u ''y''], r_future = 1\<rparr>], aborts = [], inferences = 0\<rparr>"

lemma pair_run: "run (batcher_step score validator) pair_events (fresh_batcher 32 (20 / 1000)) = Some pair_state"
  by code_simp

definition pair_server :: server_state where
  "pair_server = \<lparr>r4_batcher = Some (\<lambda>vs. if vs = [u ''x'', u ''y''] then Inr (Fin (7 / 16)) else Inl RuntimeError),
     reasoning_gate_batcher = None, s_backend = Some (u ''vllm''), ready = True, s_fatal_error = None\<rparr>"

lemma pair_answered:
  "answered_by (\<lambda>vs. if vs = [u ''x'', u ''y''] then Inr (Fin (7 / 16)) else Inl RuntimeError)
     (batcher_step (r4_score_batch small_config code_tokenizer (Inr ())
        (vllm_summary_infer small_config code_tokenizer (per_prompt half_engine) code_ids)) validate_unit_score)
     (fresh_batcher 32 (20 / 1000))"
proof -
  let ?score = "r4_score_batch small_config code_tokenizer (Inr ())
    (vllm_summary_infer small_config code_tokenizer (per_prompt half_engine) code_ids)"
  have "?score 0 [[u ''a  B'', u ''A b''], [u ''x'', u ''y'']] = Inr (Some [JFloat (Fin 1), JFloat (Fin (7 / 16))])"
    by (simp add: r4_score_batch_def half_pair)
  then have "infer_batch ?score validate_unit_score 0 [\<lparr>r_values = [u ''a  B'', u ''A b''], r_future = 0\<rparr>,
      \<lparr>r_values = [u ''x'', u ''y''], r_future = 1\<rparr>] = Inr [Fin 1, Fin (7 / 16)]"
    by (simp add: infer_batch_def validate_unit_score_def in_unit_def)
  then have "batcher_step ?score validate_unit_score Infer pair_state = Some (pair_state\<lparr>inferences := 1, worker := AtLoop,
      calls := [([u ''a  B'', u ''A b''], Result (Fin 1)), ([u ''x'', u ''y''], Result (Fin (7 / 16)))]\<rparr>)"
    by (simp add: pair_state_def)
  from move [where step = "batcher_step ?score validate_unit_score", OF reachable_from_init [OF pair_run] _ this]
  have "reachable any_event (batcher_step ?score validate_unit_score) (fresh_batcher 32 (20 / 1000))
    (pair_state\<lparr>inferences := 1, worker := AtLoop,
      calls := [([u ''a  B'', u ''A b''], Result (Fin 1)), ([u ''x'', u ''y''], Result (Fin (7 / 16)))]\<rparr>)" by simp
  then show ?thesis by (auto simp: answered_by_def)
qed

theorem served_score_witness:
  "\<exists>y pairs i. Fin (7 / 16) = Fin y \<and> i < length pairs \<and> pairs ! i = (u ''x'', u ''y'')
     \<and> scored_from (vllm_says small_config code_tokenizer (per_prompt half_engine) code_ids)
         small_config code_tokenizer pairs i y"
proof -
  let ?submit = "\<lambda>vs. if vs = [u ''x'', u ''y''] then Inr (Fin (7 / 16)) else Inl RuntimeError"
  have repr: "float_text (\<lambda>_. u ''0.4375'') (7 / 16)" by code_simp
  have reads: "float_text (\<lambda>_. u ''0.4375'') y" if "?submit [u ''x'', u ''y''] = Inr (Fin y)" for y
  proof -
    have "y = 7 / 16" using that by simp
    then show ?thesis using repr by (rule ssubst)
  qed
  have send: "sendable [(key_pred_summary, u ''x''), (key_gt_summary, u ''y'')]" by code_simp
  have url: "endpoint (url_var default_env) path_score = Inr (u ''http://127.0.0.1:8765'' @ path_score)" by code_simp
  have st: "r4_batcher pair_server = Some ?submit" by (simp add: pair_server_def)
  have new: "new_batcher 32 (Fin 20) = Inr (fresh_batcher 32 (20 / 1000))" by (simp add: new_batcher_def)
  have "client_score_summary (serve (\<lambda>_. []) (\<lambda>_. u ''0.4375'') pair_server (u ''http://127.0.0.1:8765'')) default_env
      (u ''x'') (u ''y'') = Inr (Fin (7 / 16))"
    by code_simp
  from served_score [OF st pair_answered new send url reads this] show ?thesis by blast
qed

end
